(* ===== verification/Prelude.thy ===== *)
theory Prelude
  imports Main "HOL-Library.Word" "HOL-Library.Monad_Syntax"
begin

unbundle bit_operations_syntax

text \<open>
  What every component shares: the machine types of the code (\<^verbatim>\<open>uint8_t\<close> to
  \<^verbatim>\<open>uint64_t\<close> as words), reads from a byte array that may run past its end, and the
  lemmas on bit fields, on byte lists and on modular sequence numbers that the packing and
  window proofs use.
\<close>

section \<open>Machine types\<close>

type_synonym u8 = "8 word"
type_synonym u16 = "16 word"
type_synonym u32 = "32 word"
type_synonym u64 = "64 word"
type_synonym bytes = "8 word list"

named_theorems field_simps_bits \<open>equations that turn masks, casts and shifts into bit fields\<close>
named_theorems codec_simps \<open>equations that evaluate header writers and readers\<close>

section \<open>Reading a byte array\<close>

text \<open>
  \<open>rd bs i\<close> is \<^verbatim>\<open>payload[i]\<close> for a payload of which \<open>bs\<close> is all that may be read.
  \<open>None\<close> is a read past the end: undefined behaviour in the code, never a value here.
\<close>

definition rd :: "bytes \<Rightarrow> nat \<Rightarrow> u8 option" where
  "rd bs i = (if i < length bs then Some (bs ! i) else None)"

lemma rd_Nil [simp]: "rd [] i = None"
  by (simp add: rd_def)

lemma rd_Cons_0 [simp]: "rd (b # bs) 0 = Some b"
  by (simp add: rd_def)

lemma rd_Cons_Suc [simp]: "rd (b # bs) (Suc i) = rd bs i"
  by (simp add: rd_def)

lemma rd_Cons_numeral [simp]: "rd (b # bs) (numeral k) = rd bs (pred_numeral k)"
  by (simp add: rd_def numeral_eq_Suc)

lemma rd_Some_iff: "rd bs i = Some b \<longleftrightarrow> i < length bs \<and> bs ! i = b"
  by (auto simp: rd_def)

lemma rd_None_iff: "rd bs i = None \<longleftrightarrow> length bs \<le> i"
  by (simp add: rd_def)

lemma rd_append [simp]: "rd (xs @ ys) (length xs + i) = rd ys i"
  by (simp add: rd_def)

lemma rd_append_0 [simp]: "rd (xs @ ys) (length xs) = rd ys 0"
  using rd_append [of xs ys 0] by simp

lemma rd_append_1 [simp]: "rd (xs @ ys) (Suc (length xs)) = rd ys 1"
  using rd_append [of xs ys 1] by simp

lemma rd_append1: "i < length xs \<Longrightarrow> rd (xs @ ys) i = Some (xs ! i)"
  by (simp add: rd_def nth_append)

section \<open>Outcomes\<close>

text \<open>
  What running a piece of the code can come to: a value, undefined behaviour (a null pointer
  or a byte outside an array is used, an \<^verbatim>\<open>isrran_assert\<close> stops the program), or no return
  at all.
\<close>

datatype 'a outcome = Ret 'a | Undef | Hang

fun bind_outcome :: "'a outcome \<Rightarrow> ('a \<Rightarrow> 'b outcome) \<Rightarrow> 'b outcome" where
  "bind_outcome (Ret x) f = f x"
| "bind_outcome Undef f = Undef"
| "bind_outcome Hang f = Hang"

fun outcome_of :: "'a option \<Rightarrow> 'a outcome" where
  "outcome_of (Some x) = Ret x"
| "outcome_of None = Undef"

lemma bind_outcome_Ret_iff: "bind_outcome m f = Ret y \<longleftrightarrow> (\<exists>x. m = Ret x \<and> f x = Ret y)"
  by (cases m) auto

lemma outcome_of_Ret_iff: "outcome_of m = Ret x \<longleftrightarrow> m = Some x"
  by (cases m) auto

lemma bind_outcome_assoc: "bind_outcome (bind_outcome m f) g = bind_outcome m (\<lambda>x. bind_outcome (f x) g)"
  by (cases m) auto

section \<open>Bit fields\<close>

lemma and_mask_1: "(x :: 'a::len word) AND 1 = take_bit 1 x"
  by (simp add: take_bit_eq_mask mask_eq_exp_minus_1)

lemma and_mask_3: "(x :: 'a::len word) AND 3 = take_bit 2 x"
  by (simp add: take_bit_eq_mask mask_eq_exp_minus_1)

lemma and_mask_7: "(x :: 'a::len word) AND 7 = take_bit 3 x"
  by (simp add: take_bit_eq_mask mask_eq_exp_minus_1)

lemma and_mask_15: "(x :: 'a::len word) AND 15 = take_bit 4 x"
  by (simp add: take_bit_eq_mask mask_eq_exp_minus_1)

lemma and_mask_31: "(x :: 'a::len word) AND 31 = take_bit 5 x"
  by (simp add: take_bit_eq_mask mask_eq_exp_minus_1)

lemma and_mask_63: "(x :: 'a::len word) AND 63 = take_bit 6 x"
  by (simp add: take_bit_eq_mask mask_eq_exp_minus_1)

lemma and_mask_127: "(x :: 'a::len word) AND 127 = take_bit 7 x"
  by (simp add: take_bit_eq_mask mask_eq_exp_minus_1)

lemma and_mask_255: "(x :: 'a::len word) AND 255 = take_bit 8 x"
  by (simp add: take_bit_eq_mask mask_eq_exp_minus_1)

lemmas and_masks = and_mask_1 and_mask_3 and_mask_7 and_mask_15 and_mask_31 and_mask_63
  and_mask_127 and_mask_255

declare and_masks [field_simps_bits]

declare take_bit_Suc_0 [simp del]

text \<open>A field of width \<open>m\<close> put back above the \<open>k\<close> bits below it.\<close>

lemma join_fields:
  fixes x :: "'a::len word"
  shows "push_bit k (take_bit m (drop_bit k x)) OR take_bit k x = take_bit (m + k) x"
  by (rule bit_word_eqI) (auto simp: bit_simps)

lemma ucast_ucast_take:
  fixes y :: "'a::len word"
  shows "(ucast (ucast y :: 'b::len word) :: 'a word) = take_bit LENGTH('b) y"
  by (rule bit_word_eqI) (auto simp: bit_simps)

lemma take_bit_self: "unat (x :: 'a::len word) < 2 ^ n \<Longrightarrow> take_bit n x = x"
  by (simp add: word_unat_eq_iff unsigned_take_bit_eq take_bit_nat_eq_self)

lemma take_bit_selfD: "take_bit n (x :: 'a::len word) = x \<Longrightarrow> unat x < 2 ^ n"
  by (metis take_bit_nat_less_exp unsigned_take_bit_eq)

text \<open>Single flags, and fields that are masked before they are shifted down.\<close>

lemma and_flag:
  "(x :: u8) AND 2 \<noteq> 0 \<longleftrightarrow> bit x 1" "x AND 4 \<noteq> 0 \<longleftrightarrow> bit x 2" "x AND 8 \<noteq> 0 \<longleftrightarrow> bit x 3"
  "x AND 16 \<noteq> 0 \<longleftrightarrow> bit x 4" "x AND 32 \<noteq> 0 \<longleftrightarrow> bit x 5" "x AND 64 \<noteq> 0 \<longleftrightarrow> bit x 6"
  "x AND 128 \<noteq> 0 \<longleftrightarrow> bit x 7"
  using and_exp_eq_0_iff_not_bit [of x 1] and_exp_eq_0_iff_not_bit [of x 2]
    and_exp_eq_0_iff_not_bit [of x 3] and_exp_eq_0_iff_not_bit [of x 4]
    and_exp_eq_0_iff_not_bit [of x 5] and_exp_eq_0_iff_not_bit [of x 6]
    and_exp_eq_0_iff_not_bit [of x 7] by simp_all

lemma drop_bit_and_mask:
  fixes x :: "'a::len word"
  shows "drop_bit k (x AND push_bit k (mask m)) = take_bit m (drop_bit k x)"
  by (rule bit_word_eqI) (auto simp: bit_simps dest: bit_imp_le_length)

lemma drop_masks:
  fixes x :: u32
  shows "drop_bit 4 (x AND 0xF0) = take_bit 4 (drop_bit 4 x)"
    "drop_bit 6 (x AND 0xC0) = take_bit 2 (drop_bit 6 x)"
    "drop_bit 2 (x AND 0xFC) = take_bit 6 (drop_bit 2 x)"
  using drop_bit_and_mask [of 4 x 4] drop_bit_and_mask [of 6 x 2] drop_bit_and_mask [of 2 x 6]
  by (simp_all add: mask_eq_exp_minus_1 push_bit_eq_mult)

text \<open>A word that is its own low part has no bit above it.\<close>

lemma bit_below: "take_bit k (x :: 'a::len word) = x \<Longrightarrow> bit x n \<Longrightarrow> n < k"
  by (metis bit_take_bit_iff)

lemma take_bit_eqI_bits:
  "(\<And>k. k < n \<Longrightarrow> bit (x :: 'a::len word) k = bit y k) \<Longrightarrow> take_bit n x = take_bit n y"
  by (rule bit_word_eqI) (auto simp: bit_take_bit_iff)

lemma Suc_Suc_minus_2: "2 \<le> n \<Longrightarrow> Suc (Suc (n - 2)) = n"
  by simp

section \<open>Words and natural numbers\<close>

lemma sint_of_nat_small:
  "n < 2 ^ (LENGTH('a) - 1) \<Longrightarrow> sint (of_nat n :: 'a::len word) = int n"
proof -
  assume "n < 2 ^ (LENGTH('a) - 1)"
  then have "int n < 2 ^ (LENGTH('a) - 1)" by simp
  moreover have "- (2 ^ (LENGTH('a) - 1)) \<le> int n"
    by (rule order_trans [of _ 0]) simp_all
  ultimately show ?thesis using signed_take_bit_int_eq_self by (simp add: signed_of_nat)
qed

lemma min_of_nat_word:
  assumes "n \<le> m" "m < 2 ^ LENGTH('a)"
  shows "min (of_nat n) (of_nat m :: 'a::len word) = of_nat n"
proof -
  have "(of_nat n :: 'a word) \<le> of_nat m"
    using assms by (simp add: word_le_nat_alt unat_of_nat take_bit_nat_eq_self)
  then show ?thesis by simp
qed

text \<open>Sequence numbers count modulo a power of two that divides the word's size.\<close>

lemma unat_add_mod:
  fixes x y m :: "'a::len word"
  assumes "unat m dvd 2 ^ LENGTH('a)"
  shows "unat ((x + y) mod m) = (unat x + unat y) mod unat m"
  using assms by (simp add: unat_mod_distrib unat_word_ariths mod_mod_cancel)

lemma word_mod_add_left:
  fixes x y m :: "'a::len word"
  assumes "unat m dvd 2 ^ LENGTH('a)"
  shows "(x mod m + y) mod m = (x + y) mod m"
  using unat_add_mod [OF assms, of "x mod m" y] unat_add_mod [OF assms, of x y]
  by (simp add: word_unat_eq_iff unat_mod_distrib mod_simps)

section \<open>Lists\<close>

lemma sum_list_butlast_last:
  "xs \<noteq> [] \<Longrightarrow> sum_list (map f xs) = sum_list (map f (butlast xs)) + (f (last xs) :: nat)"
  by (cases xs rule: rev_cases) auto

lemma concat_map_butlast_last:
  "xs \<noteq> [] \<Longrightarrow> concat (map f xs) = concat (map f (butlast xs)) @ f (last xs)"
  by (cases xs rule: rev_cases) auto

end
