(* ===== verification/ByteBuffer.thy ===== *)
theory ByteBuffer
  imports Prelude
begin

text \<open>
  \<^verbatim>\<open>common/byte_buffer.h\<close>: the packet buffer every layer hands to the next.  The code keeps a
  fixed array, a pointer \<^verbatim>\<open>msg\<close> into it and a length \<^verbatim>\<open>N_bytes\<close>.  The model keeps
  the offset of \<^verbatim>\<open>msg\<close> (\<open>headroom\<close>) and the \<^verbatim>\<open>N_bytes\<close> bytes found there
  (\<open>data\<close>); the other bytes of the array are never read by the modelled code.  An operation
  that would leave the array, or take more bytes off than there are (\<^verbatim>\<open>N_bytes\<close> is unsigned
  and would wrap), is \<open>None\<close>.
\<close>

definition ISRRAN_MAX_TBSIZE_BITS :: nat where "ISRRAN_MAX_TBSIZE_BITS = 97896"
definition ISRRAN_BUFFER_HEADER_OFFSET :: nat where "ISRRAN_BUFFER_HEADER_OFFSET = 1020"
definition ISRRAN_MAX_BUFFER_SIZE_BYTES :: nat where
  "ISRRAN_MAX_BUFFER_SIZE_BYTES = ISRRAN_MAX_TBSIZE_BITS div 8 + ISRRAN_BUFFER_HEADER_OFFSET"

lemmas buffer_sizes = ISRRAN_MAX_TBSIZE_BITS_def ISRRAN_BUFFER_HEADER_OFFSET_def
  ISRRAN_MAX_BUFFER_SIZE_BYTES_def

record byte_buffer =
  headroom :: nat
  data :: bytes
  pdcp_sn :: u32

abbreviation N_bytes :: "byte_buffer \<Rightarrow> nat" where
  "N_bytes b \<equiv> length (data b)"

definition get_tailroom :: "byte_buffer \<Rightarrow> nat" where
  "get_tailroom b = ISRRAN_MAX_BUFFER_SIZE_BYTES - headroom b - N_bytes b"

definition fresh_buffer :: byte_buffer where
  "fresh_buffer = \<lparr>headroom = ISRRAN_BUFFER_HEADER_OFFSET, data = [], pdcp_sn = 0\<rparr>"

definition copy_buffer :: "byte_buffer \<Rightarrow> byte_buffer option" where
  "copy_buffer b =
     (if ISRRAN_BUFFER_HEADER_OFFSET + N_bytes b \<le> ISRRAN_MAX_BUFFER_SIZE_BYTES
      then Some \<lparr>headroom = ISRRAN_BUFFER_HEADER_OFFSET, data = data b, pdcp_sn = pdcp_sn b\<rparr>
      else None)"

definition clear_buffer :: "byte_buffer \<Rightarrow> byte_buffer" where
  "clear_buffer b = b\<lparr>headroom := ISRRAN_BUFFER_HEADER_OFFSET, data := [], pdcp_sn := 0\<rparr>"

definition append_bytes :: "bytes \<Rightarrow> byte_buffer \<Rightarrow> byte_buffer option" where
  "append_bytes bs b =
     (if length bs \<le> get_tailroom b then Some (b\<lparr>data := data b @ bs\<rparr>) else None)"

text \<open>\<^verbatim>\<open>msg -= len\<close>, write \<^verbatim>\<open>len\<close> bytes there, \<^verbatim>\<open>N_bytes += len\<close>.\<close>

definition prepend_bytes :: "bytes \<Rightarrow> byte_buffer \<Rightarrow> byte_buffer option" where
  "prepend_bytes bs b =
     (if length bs \<le> headroom b
      then Some (b\<lparr>headroom := headroom b - length bs, data := bs @ data b\<rparr>) else None)"

text \<open>\<^verbatim>\<open>msg += len\<close>, \<^verbatim>\<open>N_bytes -= len\<close>.\<close>

definition strip_bytes :: "nat \<Rightarrow> byte_buffer \<Rightarrow> byte_buffer option" where
  "strip_bytes n b =
     (if n \<le> N_bytes b then Some (b\<lparr>headroom := headroom b + n, data := drop n (data b)\<rparr>)
      else None)"

definition wf_buffer :: "byte_buffer \<Rightarrow> bool" where
  "wf_buffer b \<longleftrightarrow> headroom b + N_bytes b \<le> ISRRAN_MAX_BUFFER_SIZE_BYTES"

lemma wf_fresh [simp]: "wf_buffer fresh_buffer"
  by (simp add: wf_buffer_def fresh_buffer_def buffer_sizes)

lemma wf_append [intro]: "append_bytes bs b = Some b' \<Longrightarrow> wf_buffer b \<Longrightarrow> wf_buffer b'"
  by (auto simp: append_bytes_def wf_buffer_def get_tailroom_def split: if_splits)

lemma wf_prepend [intro]: "prepend_bytes bs b = Some b' \<Longrightarrow> wf_buffer b \<Longrightarrow> wf_buffer b'"
  by (auto simp: prepend_bytes_def wf_buffer_def split: if_splits)

lemma wf_strip [intro]: "strip_bytes n b = Some b' \<Longrightarrow> wf_buffer b \<Longrightarrow> wf_buffer b'"
  by (auto simp: strip_bytes_def wf_buffer_def split: if_splits)

lemma wf_N_bytes: "wf_buffer b \<Longrightarrow> N_bytes b \<le> 13257"
  by (simp add: wf_buffer_def buffer_sizes)

lemma data_append: "append_bytes bs b = Some b' \<Longrightarrow> data b' = data b @ bs"
  by (auto simp: append_bytes_def split: if_splits)

lemma strip_prepend:
  "prepend_bytes bs b = Some b' \<Longrightarrow> strip_bytes (length bs) b' = Some b"
  by (auto simp: prepend_bytes_def strip_bytes_def split: if_splits)

end
