(* ===== verification/BlockingQueue.thy ===== *)
theory BlockingQueue
  imports Prelude
begin

text \<open>
  The blocking queue of \<^verbatim>\<open>adt/circular_buffer.h\<close> (\<open>base_blocking_queue\<close>).  As in the
  code it is generic in the buffer it stores its elements in (template parameter
  \<^verbatim>\<open>CircBuffer\<close>) and in the two callbacks \<^verbatim>\<open>push_func\<close> and \<^verbatim>\<open>pop_func\<close>, which run
  under the queue's mutex and update a state \<open>'s\<close> they have captured.  The operations of the
  buffer are parameters of the definitions; the laws they have to obey are the locales
  \<open>bounded_fifo\<close> and \<open>counted_fifo\<close>, in which the queue's lemmas are proved.

  Each operation is one critical section.  A call that has to wait for a condition variable
  returns \<open>Blocks\<close> in the state it waits in; \<open>None\<close> is an aborted program.
\<close>

section \<open>The queue\<close>

record ('q, 's) blocking_queue =
  active :: bool
  nof_waiting :: u8
  circ_buffer :: 'q
  captured :: 's

datatype 'r bq_result = Done 'r | Blocks

definition bq_push ::
  "('a \<Rightarrow> 'q \<Rightarrow> 'q option) \<Rightarrow> ('q \<Rightarrow> bool) \<Rightarrow> ('a \<Rightarrow> 's \<Rightarrow> 's option) \<Rightarrow> 'a \<Rightarrow> bool
     \<Rightarrow> ('q, 's) blocking_queue \<Rightarrow> (bool bq_result \<times> ('q, 's) blocking_queue) option" where
  "bq_push cpush cfull push_func t block_mode q =
     (if \<not> active q then Some (Done False, q)
      else if cfull (circ_buffer q) then
        (if \<not> block_mode then Some (Done False, q)
         else Some (Blocks, q\<lparr>nof_waiting := nof_waiting q + 1\<rparr>))
      else do {
        s' \<leftarrow> push_func t (captured q);
        c' \<leftarrow> cpush t (circ_buffer q);
        Some (Done True, q\<lparr>circ_buffer := c', captured := s'\<rparr>)
      })"

definition bq_pop ::
  "('q \<Rightarrow> 'a option) \<Rightarrow> ('q \<Rightarrow> 'q option) \<Rightarrow> ('q \<Rightarrow> bool) \<Rightarrow> ('a \<Rightarrow> 's \<Rightarrow> 's) \<Rightarrow> bool
     \<Rightarrow> ('q, 's) blocking_queue \<Rightarrow> ('a option bq_result \<times> ('q, 's) blocking_queue) option" where
  "bq_pop ctop cpop cempty pop_func block q =
     (if \<not> active q then Some (Done None, q)
      else if cempty (circ_buffer q) then
        (if \<not> block then Some (Done None, q)
         else Some (Blocks, q\<lparr>nof_waiting := nof_waiting q + 1\<rparr>))
      else do {
        obj \<leftarrow> ctop (circ_buffer q);
        c' \<leftarrow> cpop (circ_buffer q);
        Some (Done (Some obj), q\<lparr>circ_buffer := c', captured := pop_func obj (captured q)\<rparr>)
      })"

text \<open>
  What a thread does when it has been woken up and holds the mutex again: it goes on waiting, or
  it leaves the wait and finishes the call.  \<open>timeout\<close> says that \<^verbatim>\<open>wait_until\<close> gave up.
\<close>

definition bq_push_wake ::
  "('a \<Rightarrow> 'q \<Rightarrow> 'q option) \<Rightarrow> ('q \<Rightarrow> bool) \<Rightarrow> ('a \<Rightarrow> 's \<Rightarrow> 's option) \<Rightarrow> 'a
     \<Rightarrow> ('q, 's) blocking_queue \<Rightarrow> (bool bq_result \<times> ('q, 's) blocking_queue) option" where
  "bq_push_wake cpush cfull push_func t q =
     (if cfull (circ_buffer q) \<and> active q then Some (Blocks, q)
      else
        let q = q\<lparr>nof_waiting := nof_waiting q - 1\<rparr> in
        if \<not> active q then Some (Done False, q)
        else do {
          s' \<leftarrow> push_func t (captured q);
          c' \<leftarrow> cpush t (circ_buffer q);
          Some (Done True, q\<lparr>circ_buffer := c', captured := s'\<rparr>)
        })"

definition bq_pop_wake ::
  "('q \<Rightarrow> 'a option) \<Rightarrow> ('q \<Rightarrow> 'q option) \<Rightarrow> ('q \<Rightarrow> bool) \<Rightarrow> ('a \<Rightarrow> 's \<Rightarrow> 's) \<Rightarrow> bool
     \<Rightarrow> ('q, 's) blocking_queue \<Rightarrow> ('a option bq_result \<times> ('q, 's) blocking_queue) option" where
  "bq_pop_wake ctop cpop cempty pop_func timeout q =
     (if cempty (circ_buffer q) \<and> active q \<and> \<not> timeout then Some (Blocks, q)
      else
        let q = q\<lparr>nof_waiting := nof_waiting q - 1\<rparr> in
        if cempty (circ_buffer q) then Some (Done None, q)
        else do {
          obj \<leftarrow> ctop (circ_buffer q);
          c' \<leftarrow> cpop (circ_buffer q);
          Some (Done (Some obj), q\<lparr>circ_buffer := c', captured := pop_func obj (captured q)\<rparr>)
        })"

text \<open>
  \<open>clear\<close> pops without blocking until a pop fails.  The fuel is the number of pops tried;
  \<open>clear_all\<close> shows that one more than the number of elements is enough.
\<close>

fun bq_clear ::
  "('q \<Rightarrow> 'a option) \<Rightarrow> ('q \<Rightarrow> 'q option) \<Rightarrow> ('q \<Rightarrow> bool) \<Rightarrow> ('a \<Rightarrow> 's \<Rightarrow> 's) \<Rightarrow> nat
     \<Rightarrow> ('q, 's) blocking_queue \<Rightarrow> ('q, 's) blocking_queue option" where
  "bq_clear ctop cpop cempty pop_func 0 q = None"
| "bq_clear ctop cpop cempty pop_func (Suc n) q =
     (case bq_pop ctop cpop cempty pop_func False q of
        Some (Done (Some _), q') \<Rightarrow> bq_clear ctop cpop cempty pop_func n q'
      | Some (_, q') \<Rightarrow> Some q'
      | None \<Rightarrow> None)"

text \<open>
  \<open>stop\<close> deactivates the queue, waits until every waiting thread has left, and empties the
  buffer.  It empties it with the buffer's own \<open>clear\<close>, so \<^verbatim>\<open>pop_func\<close> does not run.
\<close>

definition bq_stop ::
  "('q \<Rightarrow> 'q) \<Rightarrow> ('q, 's) blocking_queue \<Rightarrow> unit bq_result \<times> ('q, 's) blocking_queue" where
  "bq_stop cclear q =
     (if active q then
        (if 0 < nof_waiting q then (Blocks, q\<lparr>active := False\<rparr>)
         else (Done (), q\<lparr>active := False, circ_buffer := cclear (circ_buffer q)\<rparr>))
      else (Done (), q))"

text \<open>What the thread in \<open>stop\<close> does each time it holds the mutex again.\<close>

definition bq_stop_wake ::
  "('q \<Rightarrow> 'q) \<Rightarrow> ('q, 's) blocking_queue \<Rightarrow> unit bq_result \<times> ('q, 's) blocking_queue" where
  "bq_stop_wake cclear q =
     (if 0 < nof_waiting q then (Blocks, q)
      else (Done (), q\<lparr>circ_buffer := cclear (circ_buffer q)\<rparr>))"

definition bq_try_call_on_front ::
  "('q \<Rightarrow> 'a option) \<Rightarrow> ('q \<Rightarrow> bool) \<Rightarrow> ('a \<Rightarrow> 'u \<Rightarrow> 'u) \<Rightarrow> ('q, 's) blocking_queue \<Rightarrow> 'u
     \<Rightarrow> (bool \<times> 'u) option" where
  "bq_try_call_on_front ctop cempty f q u =
     (if \<not> cempty (circ_buffer q)
      then (case ctop (circ_buffer q) of None \<Rightarrow> None | Some x \<Rightarrow> Some (True, f x u))
      else Some (False, u))"

section \<open>The buffer's contract\<close>

locale bounded_fifo =
  fixes cpush :: "'a \<Rightarrow> 'q \<Rightarrow> 'q option"
    and ctop :: "'q \<Rightarrow> 'a option"
    and cpop :: "'q \<Rightarrow> 'q option"
    and cfull :: "'q \<Rightarrow> bool"
    and cempty :: "'q \<Rightarrow> bool"
    and abs :: "'q \<Rightarrow> 'a list"
    and cap :: "'q \<Rightarrow> nat"
    and inv :: "'q \<Rightarrow> bool"
  assumes length_abs: "inv q \<Longrightarrow> length (abs q) \<le> cap q"
    and cfull_iff: "inv q \<Longrightarrow> cfull q \<longleftrightarrow> length (abs q) = cap q"
    and cempty_iff: "inv q \<Longrightarrow> cempty q \<longleftrightarrow> abs q = []"
    and cpush_spec: "inv q \<Longrightarrow> length (abs q) < cap q \<Longrightarrow>
      \<exists>q'. cpush x q = Some q' \<and> inv q' \<and> abs q' = abs q @ [x] \<and> cap q' = cap q"
    and ctop_spec: "inv q \<Longrightarrow> abs q \<noteq> [] \<Longrightarrow> ctop q = Some (hd (abs q))"
    and cpop_spec: "inv q \<Longrightarrow> abs q \<noteq> [] \<Longrightarrow>
      \<exists>q'. cpop q = Some q' \<and> inv q' \<and> abs q' = tl (abs q) \<and> cap q' = cap q"

text \<open>
  The callbacks' contract: \<open>acct\<close> relates the captured state to the elements, \<open>push_func\<close>
  accounts for an element that is appended and \<open>pop_func\<close> for the one that is taken.
  No queue holds more than \<open>lim\<close> elements, which keeps the counters from wrapping.
\<close>

locale counted_fifo = bounded_fifo cpush ctop cpop cfull cempty abs cap inv
  for cpush :: "'a \<Rightarrow> 'q \<Rightarrow> 'q option"
    and ctop :: "'q \<Rightarrow> 'a option"
    and cpop :: "'q \<Rightarrow> 'q option"
    and cfull :: "'q \<Rightarrow> bool"
    and cempty :: "'q \<Rightarrow> bool"
    and abs :: "'q \<Rightarrow> 'a list"
    and cap :: "'q \<Rightarrow> nat"
    and inv :: "'q \<Rightarrow> bool" +
  fixes push_func :: "'a \<Rightarrow> 's \<Rightarrow> 's option"
    and pop_func :: "'a \<Rightarrow> 's \<Rightarrow> 's"
    and ok :: "'a \<Rightarrow> bool"
    and acct :: "'a list \<Rightarrow> 's \<Rightarrow> bool"
    and lim :: nat
  assumes cap_lim: "inv q \<Longrightarrow> cap q \<le> lim"
    and push_acct: "ok x \<Longrightarrow> acct xs s \<Longrightarrow> length xs < lim \<Longrightarrow> \<exists>s'. push_func x s = Some s' \<and> acct (xs @ [x]) s'"
    and pop_acct: "acct (x # xs) s \<Longrightarrow> length xs < lim \<Longrightarrow> acct xs (pop_func x s)"
begin

lemma push_room:
  assumes "active q" "inv (circ_buffer q)" "acct (abs (circ_buffer q)) (captured q)" "ok x"
    "length (abs (circ_buffer q)) < cap (circ_buffer q)"
  shows "\<exists>q'. bq_push cpush cfull push_func x b q = Some (Done True, q') \<and>
           active q' \<and> inv (circ_buffer q') \<and> cap (circ_buffer q') = cap (circ_buffer q) \<and>
           abs (circ_buffer q') = abs (circ_buffer q) @ [x] \<and>
           acct (abs (circ_buffer q')) (captured q')"
proof -
  obtain s' where "push_func x (captured q) = Some s'" "acct (abs (circ_buffer q) @ [x]) s'"
    using push_acct [OF assms(4,3)] assms(5) cap_lim [OF assms(2)] by fastforce
  moreover obtain c' where "cpush x (circ_buffer q) = Some c'" "inv c'"
    "abs c' = abs (circ_buffer q) @ [x]" "cap c' = cap (circ_buffer q)"
    using cpush_spec assms(2,5) by blast
  ultimately show ?thesis
    using assms by (simp add: bq_push_def cfull_iff)
qed

lemma push_no_room:
  assumes "active q" "inv (circ_buffer q)"
    "length (abs (circ_buffer q)) = cap (circ_buffer q)"
  shows "bq_push cpush cfull push_func x False q = Some (Done False, q)"
  using assms by (simp add: bq_push_def cfull_iff)

lemma pop_nonempty:
  assumes "active q" "inv (circ_buffer q)" "acct (abs (circ_buffer q)) (captured q)"
    "abs (circ_buffer q) = x # xs"
  shows "\<exists>q'. bq_pop ctop cpop cempty pop_func b q = Some (Done (Some x), q') \<and>
           active q' \<and> inv (circ_buffer q') \<and> cap (circ_buffer q') = cap (circ_buffer q) \<and>
           abs (circ_buffer q') = xs \<and> acct xs (captured q')"
proof -
  have "acct xs (pop_func x (captured q))"
    using pop_acct [of x xs] assms(3,4) length_abs [OF assms(2)] cap_lim [OF assms(2)] by simp
  moreover obtain c' where "cpop (circ_buffer q) = Some c'" "inv c'"
    "abs c' = xs" "cap c' = cap (circ_buffer q)"
    using cpop_spec assms(2,4) by fastforce
  ultimately show ?thesis
    using assms ctop_spec [OF assms(2)] by (simp add: bq_pop_def cempty_iff)
qed

lemma pop_empty:
  "active q \<Longrightarrow> inv (circ_buffer q) \<Longrightarrow> abs (circ_buffer q) = [] \<Longrightarrow>
     bq_pop ctop cpop cempty pop_func False q = Some (Done None, q)"
  by (simp add: bq_pop_def cempty_iff)

lemma clear_all:
  assumes "active q" "inv (circ_buffer q)" "acct (abs (circ_buffer q)) (captured q)"
    "length (abs (circ_buffer q)) < n"
  shows "\<exists>q'. bq_clear ctop cpop cempty pop_func n q = Some q' \<and> active q' \<and>
           inv (circ_buffer q') \<and> cap (circ_buffer q') = cap (circ_buffer q) \<and>
           abs (circ_buffer q') = [] \<and> acct [] (captured q')"
  using assms
proof (induction n arbitrary: q)
  case 0
  then show ?case by simp
next
  case (Suc n)
  show ?case
  proof (cases "abs (circ_buffer q)")
    case Nil
    then show ?thesis using Suc.prems pop_empty by simp
  next
    case (Cons x xs)
    obtain q' where q': "bq_pop ctop cpop cempty pop_func False q = Some (Done (Some x), q')"
      "active q'" "inv (circ_buffer q')" "cap (circ_buffer q') = cap (circ_buffer q)"
      "abs (circ_buffer q') = xs" "acct xs (captured q')"
      using pop_nonempty [OF Suc.prems(1-3) Cons] by blast
    then show ?thesis
      using Suc.IH [of q'] Suc.prems(4) Cons by simp
  qed
qed

end

text \<open>A buffer that can be emptied, as \<open>stop\<close> does.\<close>

locale clearing_fifo = counted_fifo cpush ctop cpop cfull cempty abs cap inv push_func pop_func ok acct lim
  for cpush :: "'a \<Rightarrow> 'q \<Rightarrow> 'q option"
    and ctop :: "'q \<Rightarrow> 'a option"
    and cpop :: "'q \<Rightarrow> 'q option"
    and cfull :: "'q \<Rightarrow> bool"
    and cempty :: "'q \<Rightarrow> bool"
    and abs :: "'q \<Rightarrow> 'a list"
    and cap :: "'q \<Rightarrow> nat"
    and inv :: "'q \<Rightarrow> bool"
    and push_func :: "'a \<Rightarrow> 's \<Rightarrow> 's option"
    and pop_func :: "'a \<Rightarrow> 's \<Rightarrow> 's"
    and ok :: "'a \<Rightarrow> bool"
    and acct :: "'a list \<Rightarrow> 's \<Rightarrow> bool"
    and lim :: nat +
  fixes cclear :: "'q \<Rightarrow> 'q"
  assumes cclear_spec: "inv q \<Longrightarrow> inv (cclear q) \<and> abs (cclear q) = []"
begin

lemma stop_sound:
  "inv (circ_buffer q) \<Longrightarrow> active q \<Longrightarrow> bq_stop cclear q = (Done (), q') \<Longrightarrow>
    inv (circ_buffer q') \<and> abs (circ_buffer q') = [] \<and> \<not> active q' \<and> captured q' = captured q \<and> nof_waiting q' = nof_waiting q"
  "active q \<Longrightarrow> bq_stop cclear q = (Blocks, q') \<Longrightarrow> q' = q\<lparr>active := False\<rparr>"
  "inv (circ_buffer q) \<Longrightarrow> bq_stop_wake cclear q = (Done (), q') \<Longrightarrow>
    inv (circ_buffer q') \<and> abs (circ_buffer q') = [] \<and> active q' = active q \<and> captured q' = captured q \<and> nof_waiting q' = nof_waiting q"
  by (auto simp: bq_stop_def bq_stop_wake_def cclear_spec split: if_splits)

end

section \<open>Runs of non-blocking operations\<close>

datatype 'a bq_op = TryPush 'a | TryPop

text \<open>
  \<open>bq_run\<close> performs a list of calls one after the other, in the order in which the threads
  got the mutex, and collects what the pops returned and which pushes were accepted.
\<close>

fun bq_run ::
  "('a \<Rightarrow> 'q \<Rightarrow> 'q option) \<Rightarrow> ('q \<Rightarrow> bool) \<Rightarrow> ('a \<Rightarrow> 's \<Rightarrow> 's option)
   \<Rightarrow> ('q \<Rightarrow> 'a option) \<Rightarrow> ('q \<Rightarrow> 'q option) \<Rightarrow> ('q \<Rightarrow> bool) \<Rightarrow> ('a \<Rightarrow> 's \<Rightarrow> 's)
   \<Rightarrow> 'a bq_op list \<Rightarrow> ('q, 's) blocking_queue
   \<Rightarrow> ('a list \<times> 'a list \<times> ('q, 's) blocking_queue) option" where
  "bq_run cpush cfull pf ctop cpop cempty qf [] q = Some ([], [], q)"
| "bq_run cpush cfull pf ctop cpop cempty qf (TryPush x # ops) q =
     (case bq_push cpush cfull pf x False q of
        Some (r, q') \<Rightarrow>
          map_option (\<lambda>(out, acc, q''). (out, if r = Done True then x # acc else acc, q''))
            (bq_run cpush cfull pf ctop cpop cempty qf ops q')
      | None \<Rightarrow> None)"
| "bq_run cpush cfull pf ctop cpop cempty qf (TryPop # ops) q =
     (case bq_pop ctop cpop cempty qf False q of
        Some (r, q') \<Rightarrow>
          map_option (\<lambda>(out, acc, q''). (case r of Done (Some x) \<Rightarrow> x # out | _ \<Rightarrow> out, acc, q''))
            (bq_run cpush cfull pf ctop cpop cempty qf ops q')
      | None \<Rightarrow> None)"

context counted_fifo
begin

lemma run_fifo:
  assumes "active q" "inv (circ_buffer q)" "acct (abs (circ_buffer q)) (captured q)"
    "\<forall>x. TryPush x \<in> set ops \<longrightarrow> ok x"
  shows "\<exists>out acc q'. bq_run cpush cfull push_func ctop cpop cempty pop_func ops q = Some (out, acc, q') \<and>
           active q' \<and> inv (circ_buffer q') \<and> acct (abs (circ_buffer q')) (captured q') \<and>
           abs (circ_buffer q) @ acc = out @ abs (circ_buffer q')"
  using assms
proof (induction ops arbitrary: q)
  case Nil
  then show ?case by simp
next
  case (Cons op ops)
  note prems = Cons.prems
  have okops: "\<forall>x. TryPush x \<in> set ops \<longrightarrow> ok x" using prems(4) by simp
  show ?case
  proof (cases op)
    case (TryPush x)
    show ?thesis
    proof (cases "length (abs (circ_buffer q)) < cap (circ_buffer q)")
      case True
      obtain q' where q': "bq_push cpush cfull push_func x False q = Some (Done True, q')"
        "active q'" "inv (circ_buffer q')" "abs (circ_buffer q') = abs (circ_buffer q) @ [x]"
        "acct (abs (circ_buffer q')) (captured q')"
        using push_room [OF prems(1-3) _ True, of x False] prems(4) TryPush by auto
      then show ?thesis using Cons.IH [OF q'(2,3,5) okops] TryPush by auto
    next
      case False
      then have "length (abs (circ_buffer q)) = cap (circ_buffer q)"
        using length_abs [OF prems(2)] by simp
      then show ?thesis
        using push_no_room [OF prems(1,2)] Cons.IH [OF prems(1-3) okops] TryPush by auto
    qed
  next
    case TryPop
    show ?thesis
    proof (cases "abs (circ_buffer q)")
      case Nil
      then show ?thesis
        using pop_empty [OF prems(1,2)] Cons.IH [OF prems(1-3) okops] TryPop by auto
    next
      case (Cons x xs)
      obtain q' where q': "bq_pop ctop cpop cempty pop_func False q = Some (Done (Some x), q')"
        "active q'" "inv (circ_buffer q')" "abs (circ_buffer q') = xs" "acct xs (captured q')"
        using pop_nonempty [OF prems(1-3) Cons] by blast
      then show ?thesis
        using Cons.IH [of q'] okops TryPop Cons by auto
    qed
  qed
qed

end

end
