(* ===== verification/CircularBuffer.thy ===== *)
theory CircularBuffer
  imports BlockingQueue
begin

text \<open>
  The circular buffer of \<^verbatim>\<open>adt/circular_buffer.h\<close>: an array of storage slots with a read
  position and a count (\<open>base_circular_buffer\<close>), its iterators, and the bounded FIFO queue
  it implements.  A slot of type \<^verbatim>\<open>detail::type_storage<T>\<close> either holds an object
  or is raw storage, hence \<open>'a option\<close>.  A failed \<^verbatim>\<open>isrran_assert\<close>, which ends the
  program, and an access to raw storage are both \<open>None\<close>.
\<close>

section \<open>State and operations\<close>

record 'a circular_buffer =
  cells :: "'a option list"
  rpos :: nat
  cb_count :: nat

definition max_size :: "'a circular_buffer \<Rightarrow> nat" where
  "max_size c = length (cells c)"

definition cb_full :: "'a circular_buffer \<Rightarrow> bool" where
  "cb_full c \<longleftrightarrow> cb_count c = max_size c"

definition cb_empty :: "'a circular_buffer \<Rightarrow> bool" where
  "cb_empty c \<longleftrightarrow> cb_count c = 0"

definition static_circular_buffer :: "nat \<Rightarrow> 'a circular_buffer" where
  "static_circular_buffer n = \<lparr>cells = replicate n None, rpos = 0, cb_count = 0\<rparr>"

definition cb_push :: "'a \<Rightarrow> 'a circular_buffer \<Rightarrow> 'a circular_buffer option" where
  "cb_push t c =
     (if cb_full c then None
      else let wpos = (rpos c + cb_count c) mod max_size c
           in Some (c\<lparr>cells := (cells c)[wpos := Some t], cb_count := cb_count c + 1\<rparr>))"

definition cb_try_push :: "'a \<Rightarrow> 'a circular_buffer \<Rightarrow> (bool \<times> 'a circular_buffer) option" where
  "cb_try_push t c = (if cb_full c then Some (False, c) else map_option (Pair True) (cb_push t c))"

definition cb_pop :: "'a circular_buffer \<Rightarrow> 'a circular_buffer option" where
  "cb_pop c =
     (if cb_empty c then None
      else Some (c\<lparr>cells := (cells c)[rpos c := None],
                   rpos := (rpos c + 1) mod max_size c,
                   cb_count := cb_count c - 1\<rparr>))"

definition cb_top :: "'a circular_buffer \<Rightarrow> 'a option" where
  "cb_top c = (if cb_empty c then None else if rpos c < max_size c then cells c ! rpos c else None)"

definition cb_at :: "'a circular_buffer \<Rightarrow> nat \<Rightarrow> 'a option" where
  "cb_at c i =
     (if i < cb_count c \<and> 0 < max_size c then cells c ! ((rpos c + i) mod max_size c) else None)"

text \<open>\<open>cb_clear\<close> destroys the objects between the read and the write position, one by one.\<close>

fun cb_clear_loop :: "nat list \<Rightarrow> 'a circular_buffer \<Rightarrow> 'a circular_buffer" where
  "cb_clear_loop [] c = c"
| "cb_clear_loop (i # is) c =
     cb_clear_loop is (c\<lparr>cells := (cells c)[(rpos c + i) mod max_size c := None]\<rparr>)"

definition cb_clear :: "'a circular_buffer \<Rightarrow> 'a circular_buffer" where
  "cb_clear c = (cb_clear_loop [0..<cb_count c] c)\<lparr>cb_count := 0\<rparr>"

text \<open>
  \<open>set_size\<close> of \<^verbatim>\<open>dyn_circular_buffer\<close> resizes the \<^verbatim>\<open>std::vector\<close>, but \<open>max_size()\<close> is
  the vector's capacity: \<open>cells\<close> are the slots of the allocated storage.  A smaller size keeps the
  capacity; for a larger one it becomes what the standard library chooses, \<open>grow\<close> of the old
  capacity and the requested size, of which only \<open>sz \<le> grow cap sz\<close> is documented.  The code uses
  all slots up to the capacity, also those behind the vector's size, whose access the C++ standard
  leaves undefined; the model takes them for the storage they are.
\<close>

definition cb_set_size :: "(nat \<Rightarrow> nat \<Rightarrow> nat) \<Rightarrow> nat \<Rightarrow> 'a circular_buffer \<Rightarrow> 'a circular_buffer option" where
  "cb_set_size grow sz c =
     (if \<not> (cb_empty c \<or> sz = cb_count c) then None
      else let cap = (if sz \<le> max_size c then max_size c else grow (max_size c) sz)
           in Some (c\<lparr>cells := take sz (cells c) @ replicate (cap - min sz (max_size c)) None\<rparr>))"

section \<open>Iterators\<close>

text \<open>
  An iterator is an index into the array.  \<open>end()\<close> is the write position, so it equals
  \<open>begin()\<close> both for an empty and for a full buffer.
\<close>

definition begin_idx :: "'a circular_buffer \<Rightarrow> nat" where
  "begin_idx c = rpos c"

definition end_idx :: "'a circular_buffer \<Rightarrow> nat" where
  "end_idx c = (rpos c + cb_count c) mod max_size c"

definition iter_next :: "'a circular_buffer \<Rightarrow> nat \<Rightarrow> nat" where
  "iter_next c idx = (idx + 1) mod max_size c"

definition iter_get :: "'a circular_buffer \<Rightarrow> nat \<Rightarrow> 'a option" where
  "iter_get c idx =
     (if idx + (if rpos c \<le> idx then 0 else max_size c) < rpos c + cb_count c \<and> idx < max_size c
      then cells c ! idx else None)"

lemma mod_dist_step:
  assumes "idx < n" "e < n" "idx \<noteq> e"
  shows "(e + n - (idx + 1) mod n) mod n < (e + n - idx) mod (n::nat)"
proof (cases "idx + 1 = n")
  case True
  with assms have "e + n - idx = e + 1" and "e + 1 < n" by auto
  then have "(e + n - idx) mod n = e + 1" by simp
  moreover have "(e + n - (idx + 1) mod n) mod n = e" using assms True by simp
  ultimately show ?thesis by simp
next
  case False
  with assms have s: "(idx + 1) mod n = idx + 1" by simp
  show ?thesis
  proof (cases "idx < e")
    case True
    with assms have "(e + n - idx) mod n = e - idx" by (simp add: mod_if)
    moreover have "(e + n - (idx + 1)) mod n = e - (idx + 1)" using assms True by (simp add: mod_if)
    ultimately show ?thesis using True s by simp
  next
    case False
    with assms have "(e + n - idx) mod n = e + n - idx" by simp
    moreover have "(e + n - (idx + 1)) mod n = e + n - (idx + 1)"
      using assms False by simp
    ultimately show ?thesis using assms s by simp
  qed
qed

text \<open>
  \<open>apply_first\<close> calls a function on the elements, first to last, until it returns true.
  The function may change the element it is given and a state \<open>'s\<close> it has captured.
  \<open>e\<close> is \<open>end()\<close>, which no call of the loop changes.
\<close>

function apply_first_loop ::
  "('a \<Rightarrow> 's \<Rightarrow> bool \<times> 'a \<times> 's) \<Rightarrow> nat \<Rightarrow> nat \<Rightarrow> 'a circular_buffer \<Rightarrow> 's
     \<Rightarrow> (bool \<times> 'a circular_buffer \<times> 's) option" where
  "apply_first_loop f e idx c s =
     (if \<not> (idx < max_size c \<and> e < max_size c) then None
      else if idx = e then Some (False, c, s)
      else case iter_get c idx of
             None \<Rightarrow> None
           | Some x \<Rightarrow>
               (case f x s of (stop, x', s') \<Rightarrow>
                  let c' = c\<lparr>cells := (cells c)[idx := Some x']\<rparr>
                  in if stop then Some (True, c', s')
                     else apply_first_loop f e (iter_next c idx) c' s'))"
  by pat_completeness auto

termination
  by (relation "measure (\<lambda>(f, e, idx, c, s). (e + max_size c - idx) mod max_size c)")
     (auto simp: max_size_def iter_next_def intro: mod_dist_step [simplified])

definition apply_first ::
  "('a \<Rightarrow> 's \<Rightarrow> bool \<times> 'a \<times> 's) \<Rightarrow> 'a circular_buffer \<Rightarrow> 's
     \<Rightarrow> (bool \<times> 'a circular_buffer \<times> 's) option" where
  "apply_first f c s = apply_first_loop f (end_idx c) (begin_idx c) c s"

declare apply_first_loop.simps [simp del]

section \<open>Invariant and abstraction\<close>

text \<open>
  \<open>slot c i\<close> is the array index of the \<open>i\<close>-th element.  In a well-formed buffer the live
  objects are exactly those in the slots \<open>0..<cb_count\<close>: none is missing, none is leaked.
\<close>

definition slot :: "'a circular_buffer \<Rightarrow> nat \<Rightarrow> nat" where
  "slot c i = (rpos c + i) mod max_size c"

definition cb_wf :: "'a circular_buffer \<Rightarrow> bool" where
  "cb_wf c \<longleftrightarrow> rpos c < max_size c \<and> cb_count c \<le> max_size c \<and>
     (\<forall>i < max_size c. cells c ! slot c i \<noteq> None \<longleftrightarrow> i < cb_count c)"

definition cb_contents :: "'a circular_buffer \<Rightarrow> 'a list" where
  "cb_contents c = map (\<lambda>i. the (cells c ! slot c i)) [0..<cb_count c]"

lemma max_size_upd [simp]:
  "max_size (c\<lparr>cells := (cells c)[i := x]\<rparr>) = max_size c"
  "max_size (c\<lparr>rpos := r\<rparr>) = max_size c"
  "max_size (c\<lparr>cb_count := n\<rparr>) = max_size c"
  by (simp_all add: max_size_def)

lemma max_size_upds [simp]:
  "max_size (c\<lparr>cells := xs, cb_count := n\<rparr>) = length xs"
  "max_size (c\<lparr>cells := xs, rpos := r, cb_count := n\<rparr>) = length xs"
  by (simp_all add: max_size_def)

lemma length_cells: "length (cells c) = max_size c"
  by (simp add: max_size_def)

lemma length_cb_contents [simp]: "length (cb_contents c) = cb_count c"
  by (simp add: cb_contents_def)

lemma mod_add_inj:
  assumes "(r + i) mod n = (r + j) mod n" "i < n" "j < (n::nat)"
  shows "i = j"
proof -
  have "\<And>a b. a \<le> b \<Longrightarrow> b < n \<Longrightarrow> (r + a) mod n = (r + b) mod n \<Longrightarrow> a = b"
  proof -
    fix a b
    assume le: "a \<le> b" and b: "b < n" and eq: "(r + a) mod n = (r + b) mod n"
    have "n dvd (r + b) - (r + a)" using le eq by (metis mod_eq_dvd_iff_nat add_le_cancel_left)
    then have "n dvd b - a" by simp
    with b show "a = b" using le by (metis dvd_imp_le le_antisym less_imp_diff_less not_le zero_less_diff linorder_not_less)
  qed
  with assms show ?thesis by (metis linorder_le_cases)
qed

lemma slot_inj: "slot c i = slot c j \<Longrightarrow> i < max_size c \<Longrightarrow> j < max_size c \<Longrightarrow> i = j"
  by (auto simp: slot_def dest: mod_add_inj)

lemma slot_eq_iff [simp]:
  "i < max_size c \<Longrightarrow> j < max_size c \<Longrightarrow> slot c i = slot c j \<longleftrightarrow> i = j"
  by (auto dest: slot_inj)

lemma slot_less [simp]: "0 < max_size c \<Longrightarrow> slot c i < max_size c"
  by (simp add: slot_def)

lemma cb_wfD:
  assumes "cb_wf c"
  shows "rpos c < max_size c" "cb_count c \<le> max_size c" "0 < max_size c"
    "i < cb_count c \<Longrightarrow> \<exists>x. cells c ! slot c i = Some x"
    "cb_count c \<le> i \<Longrightarrow> i < max_size c \<Longrightarrow> cells c ! slot c i = None"
  using assms by (auto simp: cb_wf_def)

lemma cb_contents_nth: "i < cb_count c \<Longrightarrow> cb_contents c ! i = the (cells c ! slot c i)"
  by (simp add: cb_contents_def)

lemma cells_contents: "cb_wf c \<Longrightarrow> i < cb_count c \<Longrightarrow> cells c ! slot c i = Some (cb_contents c ! i)"
  using cb_wfD(4) by (fastforce simp: cb_contents_nth)

lemma slot_0: "cb_wf c \<Longrightarrow> slot c 0 = rpos c"
  by (simp add: slot_def cb_wfD)

lemma slot_upd [simp]:
  "slot (c\<lparr>cells := (cells c)[k := x]\<rparr>) i = slot c i"
  "slot (c\<lparr>cells := (cells c)[k := x], cb_count := n\<rparr>) i = slot c i"
  by (simp_all add: slot_def length_cells)

section \<open>The operations against the list of elements\<close>

lemma cb_wf_static: "0 < n \<Longrightarrow> cb_wf (static_circular_buffer n)"
  by (simp add: cb_wf_def static_circular_buffer_def max_size_def slot_def)

lemma cb_contents_static: "cb_contents (static_circular_buffer n) = []"
  by (simp add: cb_contents_def static_circular_buffer_def)

lemma max_size_static: "max_size (static_circular_buffer n) = n"
  by (simp add: static_circular_buffer_def max_size_def)

lemma cb_push_full: "cb_full c \<Longrightarrow> cb_push t c = None"
  by (simp add: cb_push_def)

lemma cb_push_spec:
  assumes c: "cb_wf c" and nf: "\<not> cb_full c"
  obtains c' where "cb_push t c = Some c'" "cb_wf c'" "cb_contents c' = cb_contents c @ [t]"
    "max_size c' = max_size c"
proof -
  let ?c = "c\<lparr>cells := (cells c)[slot c (cb_count c) := Some t], cb_count := cb_count c + 1\<rparr>"
  have lt: "cb_count c < max_size c" using c nf cb_wfD(2) [OF c] by (simp add: cb_full_def)
  have p: "cb_push t c = Some ?c" using nf by (simp add: cb_push_def slot_def Let_def)
  have nth: "cells ?c ! slot ?c i = (if i = cb_count c then Some t else cells c ! slot c i)"
    if "i < max_size c" for i
    using that lt by (simp add: nth_list_update length_cells)
  have "cb_wf ?c"
    using c lt by (simp add: cb_wf_def length_cells nth del: slot_upd) (auto simp: less_Suc_eq length_cells nth_list_update)
  moreover have "cb_contents ?c = cb_contents c @ [t]"
    by (rule nth_equalityI)
      (use lt in \<open>auto simp: cb_contents_def nth_append less_Suc_eq nth_list_update length_cells\<close>)
  ultimately show ?thesis using that [OF p] by (simp add: length_cells)
qed

lemma cb_try_push_spec:
  assumes "cb_wf c"
  shows "cb_full c \<Longrightarrow> cb_try_push t c = Some (False, c)"
    and "\<not> cb_full c \<Longrightarrow> \<exists>c'. cb_try_push t c = Some (True, c') \<and> cb_wf c' \<and>
           cb_contents c' = cb_contents c @ [t] \<and> max_size c' = max_size c"
proof -
  show "cb_full c \<Longrightarrow> cb_try_push t c = Some (False, c)" by (simp add: cb_try_push_def)
  assume nf: "\<not> cb_full c"
  obtain c' where "cb_push t c = Some c'" "cb_wf c'" "cb_contents c' = cb_contents c @ [t]" "max_size c' = max_size c"
    using cb_push_spec [OF assms nf] by blast
  then show "\<exists>c'. cb_try_push t c = Some (True, c') \<and> cb_wf c' \<and>
           cb_contents c' = cb_contents c @ [t] \<and> max_size c' = max_size c"
    using nf by (auto simp: cb_try_push_def)
qed

lemma cb_pop_empty: "cb_empty c \<Longrightarrow> cb_pop c = None"
  by (simp add: cb_pop_def)

lemma cb_empty_contents: "cb_empty c \<longleftrightarrow> cb_contents c = []"
  by (metis cb_empty_def length_0_conv length_cb_contents)

lemma cb_full_contents: "cb_full c \<longleftrightarrow> length (cb_contents c) = max_size c"
  by (simp add: cb_full_def)

lemma cb_pop_spec:
  assumes c: "cb_wf c" and ne: "\<not> cb_empty c"
  obtains c' where "cb_pop c = Some c'" "cb_wf c'" "cb_contents c' = tl (cb_contents c)"
    "max_size c' = max_size c"
proof -
  let ?c = "c\<lparr>cells := (cells c)[rpos c := None], rpos := (rpos c + 1) mod max_size c,
              cb_count := cb_count c - 1\<rparr>"
  have pos: "0 < cb_count c" using ne by (simp add: cb_empty_def)
  have N: "0 < max_size c" using cb_wfD(3) [OF c] .
  have r: "rpos c = slot c 0" using slot_0 [OF c] by simp
  have sl: "slot ?c i = slot c (Suc i)" for i
    by (simp add: slot_def length_cells mod_add_left_eq)
  have nth: "cells ?c ! slot ?c i = cells c ! slot c (Suc i)" if "Suc i < max_size c" for i
    using that N unfolding sl by (simp add: r nth_list_update length_cells)
  have last: "cells ?c ! slot ?c (max_size c - 1) = None"
  proof -
    have "slot c (Suc (max_size c - 1)) = rpos c" using N cb_wfD(1) [OF c] by (simp add: slot_def)
    then show ?thesis unfolding sl using cb_wfD(1) [OF c] by (simp add: length_cells)
  qed
  have "cb_wf ?c"
    unfolding cb_wf_def
  proof (intro conjI allI impI)
    show "rpos ?c < max_size ?c" using N by (simp add: length_cells)
    show "cb_count ?c \<le> max_size ?c" using cb_wfD(2) [OF c] by (simp add: length_cells)
  next
    fix i assume "i < max_size ?c"
    then have i: "i < max_size c" by (simp add: length_cells)
    show "(cells ?c ! slot ?c i \<noteq> None) = (i < cb_count ?c)"
    proof (cases "Suc i < max_size c")
      case True
      have "(cells c ! slot c (Suc i) \<noteq> None) = (Suc i < cb_count c)"
        using c True by (simp add: cb_wf_def)
      then show ?thesis unfolding nth [OF True] by (simp, linarith)
    next
      case False
      with i have e: "i = max_size c - 1" by simp
      have "cells ?c ! slot ?c i = None" unfolding e by (rule last)
      moreover have "\<not> i < cb_count ?c" using cb_wfD(2) [OF c] pos e by simp
      ultimately show ?thesis by blast
    qed
  qed
  moreover have "cb_contents ?c = tl (cb_contents c)"
  proof (rule nth_equalityI)
    show "length (cb_contents ?c) = length (tl (cb_contents c))" by simp
    fix i assume "i < length (cb_contents ?c)"
    then have i: "Suc i < cb_count c" by simp
    then show "cb_contents ?c ! i = tl (cb_contents c) ! i"
      using cb_wfD(2) [OF c] by (simp add: cb_contents_nth nth [simplified] nth_tl)
  qed
  ultimately show ?thesis using that [of ?c] ne by (simp add: cb_pop_def length_cells)
qed

lemma cb_top_spec: "cb_wf c \<Longrightarrow> \<not> cb_empty c \<Longrightarrow> cb_top c = Some (hd (cb_contents c))"
  using cells_contents [of c 0] slot_0 [of c]
  by (simp add: cb_top_def cb_wfD cb_empty_def hd_conv_nth flip: length_0_conv)

lemma cb_at_spec: "cb_wf c \<Longrightarrow> i < cb_count c \<Longrightarrow> cb_at c i = Some (cb_contents c ! i)"
  using cells_contents [of c i] by (simp add: cb_at_def cb_wfD slot_def)

lemma cb_at_out: "cb_count c \<le> i \<Longrightarrow> cb_at c i = None"
  by (simp add: cb_at_def)

lemma cb_clear_loop_cells:
  "rpos (cb_clear_loop is c) = rpos c \<and> max_size (cb_clear_loop is c) = max_size c \<and>
   (\<forall>k < max_size c. cells (cb_clear_loop is c) ! k =
      (if \<exists>i \<in> set is. k = slot c i then None else cells c ! k))"
proof (induction "is" arbitrary: c)
  case Nil
  then show ?case by simp
next
  case (Cons i "is")
  let ?c = "c\<lparr>cells := (cells c)[(rpos c + i) mod max_size c := None]\<rparr>"
  have s: "slot ?c = slot c" by (rule ext) simp
  show ?case
    using Cons.IH [of ?c] unfolding s
    by (auto simp: length_cells nth_list_update slot_def)
qed

lemma cb_clear_spec:
  assumes "cb_wf c"
  shows "cb_wf (cb_clear c)" "cb_contents (cb_clear c) = []" "max_size (cb_clear c) = max_size c"
proof -
  have sl: "slot (cb_clear c) i = slot c i" for i
    using cb_clear_loop_cells [of "[0..<cb_count c]" c] by (simp add: slot_def cb_clear_def)
  have N: "0 < max_size c" using cb_wfD(3) [OF assms] .
  have none: "cells (cb_clear c) ! slot c i = None" if i: "i < max_size c" for i
    using cb_clear_loop_cells [of "[0..<cb_count c]" c] slot_less [OF N, of i] cb_wfD(5) [OF assms _ i]
    by (auto simp: cb_clear_def not_less)
  show m: "max_size (cb_clear c) = max_size c"
    using cb_clear_loop_cells [of "[0..<cb_count c]" c] by (simp add: cb_clear_def)
  show "cb_wf (cb_clear c)"
    using cb_wfD(1) [OF assms] cb_clear_loop_cells [of "[0..<cb_count c]" c] none
    unfolding cb_wf_def sl m by (simp add: cb_clear_def)
  show "cb_contents (cb_clear c) = []" by (simp add: cb_contents_def cb_clear_def)
qed

text \<open>A new buffer that is resized is one of the resulting capacity.\<close>

lemma cb_set_size_new:
  assumes "n < sz \<longrightarrow> sz \<le> grow n sz"
  shows "cb_set_size grow sz (static_circular_buffer n) =
    Some (static_circular_buffer (if sz \<le> n then n else grow n sz))"
  using assms
  by (auto simp: cb_set_size_def static_circular_buffer_def cb_empty_def max_size_def simp flip: replicate_add)

section \<open>Visiting the elements\<close>

text \<open>What \<open>apply_first\<close> is to do, on the list of elements.\<close>

fun apply_first_list ::
  "('a \<Rightarrow> 's \<Rightarrow> bool \<times> 'a \<times> 's) \<Rightarrow> 'a list \<Rightarrow> 's \<Rightarrow> bool \<times> 'a list \<times> 's" where
  "apply_first_list f [] s = (False, [], s)"
| "apply_first_list f (x # xs) s =
     (case f x s of (stop, x', s') \<Rightarrow>
        if stop then (True, x' # xs, s')
        else (case apply_first_list f xs s' of (b, xs', s'') \<Rightarrow> (b, x' # xs', s'')))"

lemma iter_get_slot:
  assumes "cb_wf c" "i < cb_count c"
  shows "iter_get c (slot c i) = cells c ! slot c i"
proof -
  have N: "rpos c < max_size c" "cb_count c \<le> max_size c" using assms cb_wfD by auto
  have "slot c i = (if rpos c + i < max_size c then rpos c + i else rpos c + i - max_size c)"
    using N assms(2) unfolding slot_def by (simp add: mod_if)
  then show ?thesis using N assms(2) by (auto simp: iter_get_def split: if_splits)
qed

lemma iter_next_slot: "iter_next c (slot c i) = slot c (Suc i)"
  by (simp add: iter_next_def slot_def mod_simps)

lemma end_idx_slot: "end_idx c = slot c (cb_count c)"
  by (simp add: end_idx_def slot_def)

lemma cb_wf_overwrite:
  assumes "cb_wf c" "i < cb_count c"
  shows "cb_wf (c\<lparr>cells := (cells c)[slot c i := Some x]\<rparr>)"
    and "cb_contents (c\<lparr>cells := (cells c)[slot c i := Some x]\<rparr>) = (cb_contents c)[i := x]"
proof -
  have N: "cb_count c \<le> max_size c" "0 < max_size c" using assms(1) cb_wfD by auto
  show "cb_wf (c\<lparr>cells := (cells c)[slot c i := Some x]\<rparr>)"
    using assms N by (auto simp: cb_wf_def length_cells nth_list_update)
  show "cb_contents (c\<lparr>cells := (cells c)[slot c i := Some x]\<rparr>) = (cb_contents c)[i := x]"
    by (rule nth_equalityI)
      (use assms(2) N in \<open>auto simp: cb_contents_nth length_cells nth_list_update\<close>)
qed

lemma apply_first_loop_spec:
  assumes "cb_wf c" "cb_count c < max_size c" "i \<le> cb_count c"
  shows "\<exists>c'. apply_first_loop f (slot c (cb_count c)) (slot c i) c s =
           Some (fst (apply_first_list f (drop i (cb_contents c)) s), c',
                 snd (snd (apply_first_list f (drop i (cb_contents c)) s))) \<and>
         cb_wf c' \<and> max_size c' = max_size c \<and>
         cb_contents c' = take i (cb_contents c) @ fst (snd (apply_first_list f (drop i (cb_contents c)) s))"
  using assms
proof (induction "cb_count c - i" arbitrary: i c s)
  case 0
  then show ?case using cb_wfD(3) [OF 0(2)] by (simp add: apply_first_loop.simps [of f "slot c i" "slot c i"])
next
  case (Suc n)
  then have i: "i < cb_count c" by simp
  have N: "0 < max_size c" using cb_wfD(3) [OF Suc.prems(1)] .
  obtain stop x' s' where f: "f (cb_contents c ! i) s = (stop, x', s')" by (metis prod_cases3)
  let ?c = "c\<lparr>cells := (cells c)[slot c i := Some x']\<rparr>"
  have d: "drop i (cb_contents c) = cb_contents c ! i # drop (Suc i) (cb_contents c)"
    using i by (simp add: Cons_nth_drop_Suc)
  have wf': "cb_wf ?c" "cb_contents ?c = (cb_contents c)[i := x']"
    using cb_wf_overwrite [OF Suc.prems(1) i] by auto
  have unf: "apply_first_loop f (slot c (cb_count c)) (slot c i) c s =
      (if stop then Some (True, ?c, s')
       else apply_first_loop f (slot c (cb_count c)) (slot c (Suc i)) ?c s')"
    using N i Suc.prems(2)
    by (simp add: apply_first_loop.simps [of f "slot c (cb_count c)" "slot c i"] iter_get_slot
        [OF Suc.prems(1) i] cells_contents [OF Suc.prems(1) i] f iter_next_slot)
  show ?case
  proof (cases stop)
    case True
    then show ?thesis
      using wf' i by (simp add: unf d f upd_conv_take_nth_drop)
  next
    case False
    have IH: "\<exists>c'. apply_first_loop f (slot ?c (cb_count ?c)) (slot ?c (Suc i)) ?c s' =
           Some (fst (apply_first_list f (drop (Suc i) (cb_contents ?c)) s'), c',
                 snd (snd (apply_first_list f (drop (Suc i) (cb_contents ?c)) s'))) \<and>
         cb_wf c' \<and> max_size c' = max_size ?c \<and>
         cb_contents c' = take (Suc i) (cb_contents ?c) @
                         fst (snd (apply_first_list f (drop (Suc i) (cb_contents ?c)) s'))"
      using Suc.hyps(2) wf'(1) Suc.prems(2) i by (intro Suc.hyps(1)) auto
    have t: "take (Suc i) (cb_contents ?c) = take i (cb_contents c) @ [x']"
      using i wf'(2) by (simp add: take_Suc_conv_app_nth)
    have dd: "drop (Suc i) (cb_contents ?c) = drop (Suc i) (cb_contents c)" using wf'(2) by simp
    show ?thesis
      using IH False unfolding t dd unf d by (auto simp: f split: prod.splits)
  qed
qed

lemma apply_first_not_full:
  assumes "cb_wf c" "\<not> cb_full c"
  shows "\<exists>c'. apply_first f c s =
           Some (fst (apply_first_list f (cb_contents c) s), c',
                 snd (snd (apply_first_list f (cb_contents c) s))) \<and>
         cb_wf c' \<and> max_size c' = max_size c \<and>
         cb_contents c' = fst (snd (apply_first_list f (cb_contents c) s))"
  using apply_first_loop_spec [OF assms(1), of 0 f s] assms cb_wfD(2) [OF assms(1)]
  by (simp add: apply_first_def end_idx_slot begin_idx_def slot_0 cb_full_def)

lemma apply_first_full:
  assumes "cb_wf c" "cb_full c"
  shows "apply_first f c s = Some (False, c, s)"
  using assms cb_wfD(1,3) [OF assms(1)]
  by (simp add: apply_first_def end_idx_def begin_idx_def cb_full_def
      apply_first_loop.simps [of f "rpos c" "rpos c"])

section \<open>The buffer keeps the contract of the blocking queue\<close>

interpretation cb: bounded_fifo cb_push cb_top cb_pop cb_full cb_empty cb_contents max_size cb_wf
proof (unfold_locales, goal_cases)
  case (1 q)
  then show ?case by (simp add: cb_wfD)
next
  case (2 q)
  then show ?case by (simp add: cb_full_contents)
next
  case (3 q)
  then show ?case by (simp add: cb_empty_contents)
next
  case (4 q x)
  then have "\<not> cb_full q" by (simp add: cb_full_contents)
  with 4(1) show ?case by (rule cb_push_spec) blast
next
  case (5 q)
  then show ?case by (simp add: cb_top_spec cb_empty_contents)
next
  case (6 q)
  then have "\<not> cb_empty q" by (simp add: cb_empty_contents)
  with 6(1) show ?case by (rule cb_pop_spec) blast
qed

section \<open>Copies\<close>

text \<open>
  The copy constructor of \<^verbatim>\<open>static_circular_buffer\<close> copies from \<open>begin()\<close> to \<open>end()\<close> with
  \<^verbatim>\<open>std::uninitialized_copy\<close>; the assignments and the constructors of \<^verbatim>\<open>dyn_circular_buffer\<close>
  copy or move slot by slot.
\<close>

function static_copy_loop ::
  "'a circular_buffer \<Rightarrow> nat \<Rightarrow> nat \<Rightarrow> 'a circular_buffer \<Rightarrow> 'a circular_buffer option" where
  "static_copy_loop c e idx dst =
     (if \<not> (idx < max_size c \<and> e < max_size c) then None
      else if idx = e then Some dst
      else case iter_get c idx of
             None \<Rightarrow> None
           | Some x \<Rightarrow> static_copy_loop c e (iter_next c idx) (dst\<lparr>cells := (cells dst)[idx := Some x]\<rparr>))"
  by pat_completeness auto
termination
  by (relation "measure (\<lambda>(c, e, idx, dst). (e + max_size c - idx) mod max_size c)")
     (auto simp: iter_next_def intro: mod_dist_step [simplified])

declare static_copy_loop.simps [simp del]

definition static_copy_ctor :: "'a circular_buffer \<Rightarrow> 'a circular_buffer option" where
  "static_copy_ctor c =
     static_copy_loop c (end_idx c) (begin_idx c)
       \<lparr>cells = replicate (max_size c) None, rpos = rpos c, cb_count = cb_count c\<rparr>"

text \<open>The slots \<open>0..<cb_count\<close> of \<open>c\<close>, copied to the same places.\<close>

fun copy_slots :: "'a circular_buffer \<Rightarrow> nat list \<Rightarrow> 'a option list \<Rightarrow> 'a option list option" where
  "copy_slots c [] dst = Some dst"
| "copy_slots c (i # is) dst =
     (case cells c ! slot c i of
        None \<Rightarrow> None
      | Some x \<Rightarrow> copy_slots c is (dst[slot c i := Some x]))"

definition static_assign :: "'a circular_buffer \<Rightarrow> 'a circular_buffer \<Rightarrow> 'a circular_buffer option" where
  "static_assign other this =
     map_option (\<lambda>cs. \<lparr>cells = cs, rpos = rpos other, cb_count = cb_count other\<rparr>)
       (copy_slots other [0..<cb_count other] (cells (cb_clear this)))"

definition static_move_ctor ::
  "'a circular_buffer \<Rightarrow> ('a circular_buffer \<times> 'a circular_buffer) option" where
  "static_move_ctor other =
     map_option (\<lambda>cs. (\<lparr>cells = cs, rpos = rpos other, cb_count = cb_count other\<rparr>, cb_clear other))
       (copy_slots other [0..<cb_count other] (replicate (max_size other) None))"

definition static_move_assign ::
  "'a circular_buffer \<Rightarrow> 'a circular_buffer \<Rightarrow> ('a circular_buffer \<times> 'a circular_buffer) option" where
  "static_move_assign other this =
     map_option (\<lambda>cs. (\<lparr>cells = cs, rpos = rpos other, cb_count = cb_count other\<rparr>, cb_clear other))
       (copy_slots other [0..<cb_count other] (cells (cb_clear this)))"

definition dyn_move_ctor :: "'a circular_buffer \<Rightarrow> 'a circular_buffer \<times> 'a circular_buffer" where
  "dyn_move_ctor other =
     (other, \<lparr>cells = [], rpos = 0, cb_count = 0\<rparr>)"

definition dyn_copy_ctor :: "'a circular_buffer \<Rightarrow> 'a circular_buffer option" where
  "dyn_copy_ctor other =
     map_option (\<lambda>cs. \<lparr>cells = cs, rpos = rpos other, cb_count = cb_count other\<rparr>)
       (copy_slots other [0..<cb_count other] (replicate (max_size other) None))"

lemma cb_clear_cells:
  assumes "cb_wf c"
  shows "cells (cb_clear c) = replicate (max_size c) None"
proof (rule nth_equalityI)
  have w: "cb_wf (cb_clear c)" "max_size (cb_clear c) = max_size c" "cb_count (cb_clear c) = 0"
    using cb_clear_spec [OF assms] by (auto simp: cb_clear_def)
  then show l: "length (cells (cb_clear c)) = length (replicate (max_size c) None)"
    by (simp add: length_cells)
  fix k assume "k < length (cells (cb_clear c))"
  then have k: "k < max_size (cb_clear c)" by (simp add: length_cells)
  let ?r = "rpos (cb_clear c)" and ?n = "max_size (cb_clear c)"
  have r: "?r < ?n" using cb_wfD(1) [OF w(1)] .
  define i where "i = (k + ?n - ?r) mod ?n"
  have "slot (cb_clear c) i = (?r + (k + ?n - ?r)) mod ?n" by (simp add: i_def slot_def mod_simps)
  then have s: "slot (cb_clear c) i = k" using r k by simp
  have "cells (cb_clear c) ! slot (cb_clear c) i = None"
    using cb_wfD(5) [OF w(1), of i] w(3) r by (simp add: i_def)
  then show "cells (cb_clear c) ! k = replicate (max_size c) None ! k" using s k w(2) by simp
qed

lemma copy_slots_spec:
  assumes "cb_wf c" "length dst = max_size c" "\<forall>i \<in> set is. i < cb_count c"
  shows "\<exists>dst'. copy_slots c is dst = Some dst' \<and> length dst' = max_size c \<and>
    (\<forall>k < max_size c. dst' ! k = (if \<exists>i \<in> set is. k = slot c i then cells c ! k else dst ! k))"
  using assms(2,3)
proof (induction "is" arbitrary: dst)
  case (Cons i "is")
  have i: "cells c ! slot c i = Some (cb_contents c ! i)" using cells_contents [OF assms(1)] Cons.prems by simp
  have s: "slot c i < max_size c" using cb_wfD(3) [OF assms(1)] by simp
  obtain dst' where "copy_slots c is (dst[slot c i := Some (cb_contents c ! i)]) = Some dst'"
    "length dst' = max_size c" "\<forall>k < max_size c. dst' ! k =
      (if \<exists>i \<in> set is. k = slot c i then cells c ! k else dst[slot c i := Some (cb_contents c ! i)] ! k)"
    using Cons.IH [of "dst[slot c i := Some (cb_contents c ! i)]"] Cons.prems by auto
  then show ?case using i s Cons.prems by (auto simp: nth_list_update)
qed simp

lemma copied_slots:
  assumes "cb_wf c"
  shows "\<exists>cs. copy_slots c [0..<cb_count c] (replicate (max_size c) None) = Some cs \<and>
    cb_wf \<lparr>cells = cs, rpos = rpos c, cb_count = cb_count c\<rparr> \<and>
    cb_contents \<lparr>cells = cs, rpos = rpos c, cb_count = cb_count c\<rparr> = cb_contents c"
proof -
  obtain cs where cs: "copy_slots c [0..<cb_count c] (replicate (max_size c) None) = Some cs"
    "length cs = max_size c" "\<forall>k < max_size c. cs ! k =
      (if \<exists>i \<in> set [0..<cb_count c]. k = slot c i then cells c ! k else replicate (max_size c) None ! k)"
    using copy_slots_spec [OF assms, of "replicate (max_size c) None" "[0..<cb_count c]"] by auto
  let ?c = "\<lparr>cells = cs, rpos = rpos c, cb_count = cb_count c\<rparr>"
  have n: "0 < max_size c" "cb_count c \<le> max_size c" using cb_wfD [OF assms] by auto
  have sl: "slot ?c i = slot c i" "max_size ?c = max_size c" for i using cs(2) by (simp_all add: slot_def max_size_def)
  have nth: "cs ! slot c i = (if i < cb_count c then cells c ! slot c i else None)" if "i < max_size c" for i
    using that n cs(3) by (auto simp: less_le_trans)
  have "cb_wf ?c" using assms n nth unfolding cb_wf_def sl by auto
  moreover have "cb_contents ?c = cb_contents c"
    using n nth unfolding cb_contents_def sl by (auto intro!: map_cong)
  ultimately show ?thesis using cs(1) by blast
qed

text \<open>
  C28. Assignment copies every element, whether the buffer is full or not, and whatever the target
  held before; so do the move operations, which leave the source empty.
\<close>

theorem static_assign_copies:
  assumes "cb_wf c" "cb_wf d" "max_size c = max_size d"
  shows "\<exists>c'. static_assign c d = Some c' \<and> cb_wf c' \<and> cb_contents c' = cb_contents c \<and>
    static_move_assign c d = Some (c', cb_clear c) \<and> static_move_ctor c = Some (c', cb_clear c) \<and>
    dyn_copy_ctor c = Some c' \<and> cb_contents (cb_clear c) = []"
  using copied_slots [OF assms(1)] cb_clear_cells [OF assms(2)] assms(3) cb_clear_spec(2) [OF assms(1)]
  by (auto simp: static_assign_def static_move_assign_def static_move_ctor_def dyn_copy_ctor_def)

text \<open>
  The copy constructor of a full \<open>static_circular_buffer\<close> copies nothing: the copy counts as many
  elements as the original, but all its slots are raw storage, and reading its first element is
  undefined.
\<close>

theorem static_copy_ctor_full:
  assumes "cb_wf c" "cb_full c"
  shows "\<exists>c'. static_copy_ctor c = Some c' \<and> cb_count c' = cb_count c \<and>
    cells c' = replicate (max_size c) None \<and> cb_top c' = None \<and> \<not> cb_wf c'"
proof -
  let ?c = "\<lparr>cells = replicate (max_size c) None, rpos = rpos c, cb_count = cb_count c\<rparr>"
  have n: "rpos c < max_size c" "cb_count c = max_size c" using cb_wfD(1) [OF assms(1)] assms(2)
    by (auto simp: cb_full_def)
  then have "static_copy_ctor c = Some ?c"
    by (simp add: static_copy_ctor_def end_idx_def begin_idx_def static_copy_loop.simps [of c "rpos c" "rpos c"])
  moreover have "cb_top ?c = None" using n by (simp add: cb_top_def max_size_def)
  moreover have "\<not> cb_wf ?c"
    using n unfolding cb_wf_def by (auto simp: max_size_def slot_def intro!: exI [of _ 0])
  ultimately show ?thesis by fastforce
qed

text \<open>
  \<open>apply_first\<close> visits the elements in order until the function returns true and changes what it
  visits, unless the buffer is full: then \<open>begin() == end()\<close> and it visits nothing at all.
\<close>

lemma apply_first_visits:
  assumes "cb_wf c"
  shows "(cb_full c \<longrightarrow> apply_first f c s = Some (False, c, s)) \<and>
    (\<not> cb_full c \<longrightarrow>
      (\<exists>c'. apply_first f c s = Some (fst (apply_first_list f (cb_contents c) s), c',
              snd (snd (apply_first_list f (cb_contents c) s))) \<and>
            cb_wf c' \<and> cb_contents c' = fst (snd (apply_first_list f (cb_contents c) s))))"
  using apply_first_full [OF assms, of f s] apply_first_not_full [OF assms, of f s] by blast

text \<open>A full and a free buffer.\<close>

definition full_buffer :: "nat circular_buffer" where
  "full_buffer = \<lparr>cells = [Some 7, Some 8], rpos = 1, cb_count = 2\<rparr>"

lemma full_buffer: "cb_wf full_buffer" "cb_full full_buffer" "cb_contents full_buffer = [8, 7]"
  by (auto simp: full_buffer_def cb_wf_def max_size_def slot_def cb_full_def cb_contents_def less_Suc_eq numeral_2_eq_2)

theorem static_assign_copies_witness:
  "\<exists>c'. static_assign full_buffer (static_circular_buffer 2) = Some c' \<and> cb_contents c' = [8, 7]"
  using static_assign_copies [OF full_buffer(1) cb_wf_static [of 2]] full_buffer(3)
  by (auto simp: max_size_def full_buffer_def static_circular_buffer_def)

theorem static_copy_ctor_full_witness:
  "\<exists>c'. static_copy_ctor full_buffer = Some c' \<and> cb_count c' = 2 \<and> cb_top c' = None"
  using static_copy_ctor_full [OF full_buffer(1,2)] by (auto simp: full_buffer_def)

lemma apply_first_visits_full:
  "apply_first (\<lambda>x n. (False, x, n + x)) full_buffer 0 = Some (False, full_buffer, 0 :: nat)"
  using apply_first_visits [OF full_buffer(1), of "\<lambda>x n. (False, x, n + x)" 0] full_buffer(2) by simp

end
