(* ===== verification/QueueThreads.thy ===== *)
theory QueueThreads
  imports BlockingQueue
begin

text \<open>
  Threads on a blocking queue (\<^verbatim>\<open>adt/circular_buffer.h\<close>, \<open>base_blocking_queue\<close>): every critical
  section of \<open>push_\<close>, \<open>pop_\<close> and \<open>stop\<close> is one step, and the steps of the threads interleave in
  any order.  Condition variables may wake a thread at any time, so the wake-up steps are always
  enabled; what they do is decided by the conditions the code checks again.

  \<open>stop\<close> deactivates the queue.  If no thread waits it empties the buffer in the same critical section
  (\<open>stop_at_once\<close>); otherwise it releases the mutex and takes it again until \<^verbatim>\<open>nof_waiting\<close> is 0
  (\<open>stop_begins\<close>; a section that finds it positive changes nothing and is no step) and then empties
  the buffer (\<open>stop_ends\<close>), in both cases without calling \<^verbatim>\<open>pop_func\<close>.  \<open>stopping\<close>: a thread is inside \<open>stop\<close>;
  \<open>dropped\<close>: the elements that \<open>stop\<close> took out of the buffer.
\<close>

datatype 'a waiter = WaitPush 'a | WaitPop

record ('q, 's, 'a) queue_system =
  sys_queue :: "('q, 's) blocking_queue"
  waiters :: "'a waiter list"
  pushed :: "'a list"
  popped :: "'a list"
  stopping :: bool
  dropped :: "'a list"

inductive queue_step ::
  "('a \<Rightarrow> 'q \<Rightarrow> 'q option) \<Rightarrow> ('q \<Rightarrow> bool) \<Rightarrow> ('a \<Rightarrow> 's \<Rightarrow> 's option)
   \<Rightarrow> ('q \<Rightarrow> 'a option) \<Rightarrow> ('q \<Rightarrow> 'q option) \<Rightarrow> ('q \<Rightarrow> bool) \<Rightarrow> ('a \<Rightarrow> 's \<Rightarrow> 's) \<Rightarrow> ('q \<Rightarrow> 'q)
   \<Rightarrow> ('q \<Rightarrow> 'a list) \<Rightarrow> ('a \<Rightarrow> bool) \<Rightarrow> ('q, 's, 'a) queue_system \<Rightarrow> ('q, 's, 'a) queue_system \<Rightarrow> bool"
  for cpush cfull pf ctop cpop cempty qf cclear contents ok where
  push_done:
    "ok x \<Longrightarrow> bq_push cpush cfull pf x b (sys_queue s) = Some (Done r, q') \<Longrightarrow>
     queue_step cpush cfull pf ctop cpop cempty qf cclear contents ok s
       (s\<lparr>sys_queue := q', pushed := (if r then pushed s @ [x] else pushed s)\<rparr>)"
| push_waits:
    "ok x \<Longrightarrow> bq_push cpush cfull pf x b (sys_queue s) = Some (Blocks, q') \<Longrightarrow>
     queue_step cpush cfull pf ctop cpop cempty qf cclear contents ok s
       (s\<lparr>sys_queue := q', waiters := waiters s @ [WaitPush x]\<rparr>)"
| push_resumes:
    "i < length (waiters s) \<Longrightarrow> waiters s ! i = WaitPush x \<Longrightarrow>
     bq_push_wake cpush cfull pf x (sys_queue s) = Some (Done r, q') \<Longrightarrow>
     queue_step cpush cfull pf ctop cpop cempty qf cclear contents ok s
       (s\<lparr>sys_queue := q', waiters := take i (waiters s) @ drop (Suc i) (waiters s),
          pushed := (if r then pushed s @ [x] else pushed s)\<rparr>)"
| pop_done:
    "bq_pop ctop cpop cempty qf b (sys_queue s) = Some (Done r, q') \<Longrightarrow>
     queue_step cpush cfull pf ctop cpop cempty qf cclear contents ok s
       (s\<lparr>sys_queue := q', popped := (case r of None \<Rightarrow> popped s | Some x \<Rightarrow> popped s @ [x])\<rparr>)"
| pop_waits:
    "bq_pop ctop cpop cempty qf b (sys_queue s) = Some (Blocks, q') \<Longrightarrow>
     queue_step cpush cfull pf ctop cpop cempty qf cclear contents ok s
       (s\<lparr>sys_queue := q', waiters := waiters s @ [WaitPop]\<rparr>)"
| pop_resumes:
    "i < length (waiters s) \<Longrightarrow> waiters s ! i = WaitPop \<Longrightarrow>
     bq_pop_wake ctop cpop cempty qf timeout (sys_queue s) = Some (Done r, q') \<Longrightarrow>
     queue_step cpush cfull pf ctop cpop cempty qf cclear contents ok s
       (s\<lparr>sys_queue := q', waiters := take i (waiters s) @ drop (Suc i) (waiters s),
          popped := (case r of None \<Rightarrow> popped s | Some x \<Rightarrow> popped s @ [x])\<rparr>)"
| stop_at_once:
    "active (sys_queue s) \<Longrightarrow> bq_stop cclear (sys_queue s) = (Done (), q') \<Longrightarrow>
     queue_step cpush cfull pf ctop cpop cempty qf cclear contents ok s
       (s\<lparr>sys_queue := q', dropped := contents (circ_buffer (sys_queue s))\<rparr>)"
| stop_begins:
    "active (sys_queue s) \<Longrightarrow> bq_stop cclear (sys_queue s) = (Blocks, q') \<Longrightarrow>
     queue_step cpush cfull pf ctop cpop cempty qf cclear contents ok s
       (s\<lparr>sys_queue := q', stopping := True\<rparr>)"
| stop_ends:
    "stopping s \<Longrightarrow> bq_stop_wake cclear (sys_queue s) = (Done (), q') \<Longrightarrow>
     queue_step cpush cfull pf ctop cpop cempty qf cclear contents ok s
       (s\<lparr>sys_queue := q', stopping := False, dropped := contents (circ_buffer (sys_queue s))\<rparr>)"

text \<open>
  The invariant: the elements pushed so far are those popped so far, followed by those that \<open>stop\<close>
  dropped and by the content; the callbacks' state accounts for the last two, since \<open>stop\<close> does not
  run \<^verbatim>\<open>pop_func\<close>; and \<^verbatim>\<open>nof_waiting\<close>, eight bits wide, counts the waiting threads modulo 256.
\<close>

definition system_inv ::
  "('q \<Rightarrow> 'a list) \<Rightarrow> ('q \<Rightarrow> bool) \<Rightarrow> ('a list \<Rightarrow> 's \<Rightarrow> bool) \<Rightarrow> ('a \<Rightarrow> bool)
     \<Rightarrow> ('q, 's, 'a) queue_system \<Rightarrow> bool" where
  "system_inv contents good acct ok s \<longleftrightarrow>
     good (circ_buffer (sys_queue s)) \<and>
     acct (dropped s @ contents (circ_buffer (sys_queue s))) (captured (sys_queue s)) \<and>
     pushed s = popped s @ dropped s @ contents (circ_buffer (sys_queue s)) \<and>
     (active (sys_queue s) \<or> stopping s \<longrightarrow> dropped s = []) \<and>
     (stopping s \<longrightarrow> \<not> active (sys_queue s)) \<and>
     (\<not> active (sys_queue s) \<and> \<not> stopping s \<longrightarrow> contents (circ_buffer (sys_queue s)) = []) \<and>
     nof_waiting (sys_queue s) = of_nat (length (waiters s)) \<and>
     (\<forall>x. WaitPush x \<in> set (waiters s) \<longrightarrow> ok x)"

lemma remove_waiter:
  "i < length ws \<Longrightarrow> (of_nat (length (take i ws @ drop (Suc i) ws)) :: u8) = of_nat (length ws) - 1"
  by (cases ws) (auto simp: of_nat_diff min_def)

lemma remove_waiter_set: "x \<in> set (take i ws @ drop (Suc i) ws) \<Longrightarrow> x \<in> set ws"
  by (auto dest: in_set_takeD in_set_dropD)

context clearing_fifo
begin

text \<open>What the two ways of adding and the two ways of taking an element do to the buffer.\<close>

lemma room_or_full:
  assumes "inv c"
  shows "cfull c \<or> length (abs c) < cap c"
  using length_abs [OF assms] cfull_iff [OF assms] by auto

lemma adds_element:
  assumes "inv c" "acct (abs c) t" "ok x" "\<not> cfull c"
    "push_func x t = Some t'" "cpush x c = Some c'"
  shows "inv c' \<and> abs c' = abs c @ [x] \<and> acct (abs c @ [x]) t'"
proof -
  have l: "length (abs c) < cap c" using room_or_full [OF assms(1)] assms(4) by simp
  moreover have "length (abs c) < lim" using l cap_lim [OF assms(1)] by simp
  ultimately show ?thesis
    using cpush_spec [OF assms(1) l, of x] push_acct [OF assms(3,2)] assms(5,6) by fastforce
qed

lemma takes_element:
  assumes "inv c" "acct (abs c) t" "\<not> cempty c" "ctop c = Some x" "cpop c = Some c'"
  shows "inv c' \<and> abs c = x # abs c' \<and> acct (abs c') (pop_func x t)"
proof -
  obtain y ys where y: "abs c = y # ys" using assms(3) cempty_iff [OF assms(1)] by (cases "abs c") auto
  then have "x = y" "abs c' = ys" "inv c'"
    using ctop_spec [OF assms(1)] cpop_spec [OF assms(1)] assms(4,5) by fastforce+
  moreover have "length ys < lim" using y length_abs [OF assms(1)] cap_lim [OF assms(1)] by simp
  ultimately show ?thesis using pop_acct [of y ys t] assms(2) y by simp
qed

lemma push_sound:
  assumes "bq_push cpush cfull push_func x b q = Some (Done r, q')" "inv (circ_buffer q)"
    "acct (abs (circ_buffer q)) (captured q)" "ok x"
  shows "inv (circ_buffer q') \<and> nof_waiting q' = nof_waiting q \<and>
    abs (circ_buffer q') = abs (circ_buffer q) @ (if r then [x] else []) \<and>
    acct (abs (circ_buffer q')) (captured q')"
proof (cases "\<not> active q \<or> cfull (circ_buffer q)")
  case True
  then show ?thesis using assms by (auto simp: bq_push_def split: if_splits)
next
  case False
  then obtain s' c' where s: "push_func x (captured q) = Some s'" "cpush x (circ_buffer q) = Some c'"
    and q': "q' = q\<lparr>circ_buffer := c', captured := s'\<rparr>" "r"
    using assms(1) by (auto simp: bq_push_def Option.bind_eq_Some_conv split: if_splits)
  then show ?thesis using adds_element [OF assms(2-4) _ s] False by simp
qed

lemma push_wake_sound:
  assumes "bq_push_wake cpush cfull push_func x q = Some (Done r, q')" "inv (circ_buffer q)"
    "acct (abs (circ_buffer q)) (captured q)" "ok x"
  shows "inv (circ_buffer q') \<and> nof_waiting q' = nof_waiting q - 1 \<and>
    abs (circ_buffer q') = abs (circ_buffer q) @ (if r then [x] else []) \<and>
    acct (abs (circ_buffer q')) (captured q')"
proof (cases "active q")
  case False
  then show ?thesis using assms by (auto simp: bq_push_wake_def Let_def)
next
  case True
  then have nf: "\<not> cfull (circ_buffer q)" using assms(1) by (auto simp: bq_push_wake_def)
  then obtain s' c' where s: "push_func x (captured q) = Some s'" "cpush x (circ_buffer q) = Some c'"
    and q': "q' = q\<lparr>nof_waiting := nof_waiting q - 1, circ_buffer := c', captured := s'\<rparr>" "r"
    using assms(1) True by (auto simp: bq_push_wake_def Let_def Option.bind_eq_Some_conv)
  then show ?thesis using adds_element [OF assms(2-4) nf s] by simp
qed

lemma pop_sound:
  assumes "bq_pop ctop cpop cempty pop_func b q = Some (Done r, q')" "inv (circ_buffer q)"
    "acct (abs (circ_buffer q)) (captured q)"
  shows "inv (circ_buffer q') \<and> nof_waiting q' = nof_waiting q \<and>
    abs (circ_buffer q) = (case r of None \<Rightarrow> [] | Some x \<Rightarrow> [x]) @ abs (circ_buffer q') \<and>
    acct (abs (circ_buffer q')) (captured q')"
proof (cases "\<not> active q \<or> cempty (circ_buffer q)")
  case True
  then show ?thesis using assms by (auto simp: bq_pop_def split: if_splits)
next
  case False
  then obtain x c' where c: "ctop (circ_buffer q) = Some x" "cpop (circ_buffer q) = Some c'"
    and q': "q' = q\<lparr>circ_buffer := c', captured := pop_func x (captured q)\<rparr>" "r = Some x"
    using assms(1) by (auto simp: bq_pop_def Option.bind_eq_Some_conv split: if_splits)
  then show ?thesis using takes_element [OF assms(2,3) _ c] False by simp
qed

lemma pop_wake_sound:
  assumes "bq_pop_wake ctop cpop cempty pop_func timeout q = Some (Done r, q')" "inv (circ_buffer q)"
    "acct (abs (circ_buffer q)) (captured q)"
  shows "inv (circ_buffer q') \<and> nof_waiting q' = nof_waiting q - 1 \<and>
    abs (circ_buffer q) = (case r of None \<Rightarrow> [] | Some x \<Rightarrow> [x]) @ abs (circ_buffer q') \<and>
    acct (abs (circ_buffer q')) (captured q')"
proof (cases "cempty (circ_buffer q)")
  case True
  then show ?thesis using assms by (auto simp: bq_pop_wake_def Let_def split: if_splits)
next
  case False
  then obtain x c' where c: "ctop (circ_buffer q) = Some x" "cpop (circ_buffer q) = Some c'"
    and q': "q' = q\<lparr>nof_waiting := nof_waiting q - 1, circ_buffer := c', captured := pop_func x (captured q)\<rparr>"
      "r = Some x"
    using assms(1) by (auto simp: bq_pop_wake_def Let_def Option.bind_eq_Some_conv split: if_splits)
  then show ?thesis using takes_element [OF assms(2,3) False c] by simp
qed

lemma waits_queue:
  "bq_push cpush cfull push_func x b q = Some (Blocks, q') \<Longrightarrow> q' = q\<lparr>nof_waiting := nof_waiting q + 1\<rparr>"
  "bq_pop ctop cpop cempty pop_func b q = Some (Blocks, q') \<Longrightarrow> q' = q\<lparr>nof_waiting := nof_waiting q + 1\<rparr>"
  by (auto simp: bq_push_def bq_pop_def Option.bind_eq_Some_conv split: if_splits)

text \<open>On a queue that was stopped and emptied nothing is added or taken any more.\<close>

lemma stopped_queue:
  assumes "\<not> active q" "inv (circ_buffer q)" "abs (circ_buffer q) = []"
  shows "bq_push cpush cfull push_func x b q = Some (Done r, q') \<Longrightarrow> \<not> r \<and> q' = q"
    "bq_push cpush cfull push_func x b q \<noteq> Some (Blocks, q')"
    "bq_push_wake cpush cfull push_func x q = Some (Done r, q') \<Longrightarrow> \<not> r \<and> q' = q\<lparr>nof_waiting := nof_waiting q - 1\<rparr>"
    "bq_pop ctop cpop cempty pop_func b q = Some (Done y, q') \<Longrightarrow> y = None \<and> q' = q"
    "bq_pop ctop cpop cempty pop_func b q \<noteq> Some (Blocks, q')"
    "bq_pop_wake ctop cpop cempty pop_func timeout q = Some (Done y, q') \<Longrightarrow>
      y = None \<and> q' = q\<lparr>nof_waiting := nof_waiting q - 1\<rparr>"
  using assms cempty_iff [OF assms(2)]
  by (auto simp: bq_push_def bq_push_wake_def bq_pop_def bq_pop_wake_def Let_def)

lemma blocks_active:
  "bq_push cpush cfull push_func x b q = Some (Blocks, q') \<Longrightarrow> active q"
  "bq_pop ctop cpop cempty pop_func b q = Some (Blocks, q') \<Longrightarrow> active q"
  by (auto simp: bq_push_def bq_pop_def split: if_splits)

lemma active_same:
  "bq_push cpush cfull push_func x b q = Some (r, q') \<Longrightarrow> active q' = active q"
  "bq_push_wake cpush cfull push_func x q = Some (r, q') \<Longrightarrow> active q' = active q \<and> (r = Done True \<longrightarrow> active q)"
  "bq_pop ctop cpop cempty pop_func b q = Some (z, q') \<Longrightarrow> active q' = active q"
  "bq_pop_wake ctop cpop cempty pop_func timeout q = Some (z, q') \<Longrightarrow> active q' = active q"
  by (auto simp: bq_push_def bq_push_wake_def bq_pop_def bq_pop_wake_def Let_def Option.bind_eq_Some_conv split: if_splits)

lemma queue_step_inv:
  assumes step: "queue_step cpush cfull push_func ctop cpop cempty pop_func cclear abs ok s s'"
    and inv: "system_inv abs inv acct ok s"
  shows "system_inv abs inv acct ok s'"
proof (cases "active (sys_queue s) \<or> stopping s")
  case True
  then have d: "dropped s = []" using inv by (simp add: system_inv_def)
  show ?thesis
    using step
  proof (cases rule: queue_step.cases)
    case (push_done x r b q')
    then show ?thesis using push_sound [OF push_done(3)] active_same(1) [OF push_done(3)] inv d True
      by (auto simp: system_inv_def)
  next
    case (push_waits x b q')
    then show ?thesis using waits_queue(1) [OF push_waits(3)] inv by (auto simp: system_inv_def)
  next
    case (push_resumes i x r q')
    have "ok x" using inv push_resumes(2,3) by (metis nth_mem system_inv_def)
    then show ?thesis
      using push_wake_sound [OF push_resumes(4)] active_same(2) [OF push_resumes(4)] inv d True
        remove_waiter [OF push_resumes(2)] remove_waiter_set [of _ i "waiters s"]
      by (auto simp: system_inv_def push_resumes(1))
  next
    case (pop_done r b q')
    then show ?thesis using pop_sound [OF pop_done(2)] active_same(3) [OF pop_done(2)] inv d True
      by (auto simp: system_inv_def split: option.splits)
  next
    case (pop_waits b q')
    then show ?thesis using waits_queue(2) [OF pop_waits(2)] inv by (auto simp: system_inv_def)
  next
    case (pop_resumes i timeout r q')
    then show ?thesis
      using pop_wake_sound [OF pop_resumes(4)] active_same(4) [OF pop_resumes(4)] inv d True
        remove_waiter [OF pop_resumes(2)] remove_waiter_set [of _ i "waiters s"]
      by (auto simp: system_inv_def pop_resumes(1) split: option.splits)
  next
    case (stop_at_once q')
    then show ?thesis using stop_sound(1) [OF _ stop_at_once(2,3)] inv d by (auto simp: system_inv_def)
  next
    case (stop_begins q')
    then show ?thesis using stop_sound(2) [OF stop_begins(2,3)] inv d by (auto simp: system_inv_def)
  next
    case (stop_ends q')
    then show ?thesis using stop_sound(3) [OF _ stop_ends(3)] inv d by (auto simp: system_inv_def)
  qed
next
  case False
  then have q: "\<not> active (sys_queue s)" "inv (circ_buffer (sys_queue s))" "abs (circ_buffer (sys_queue s)) = []"
    using inv by (simp_all add: system_inv_def)
  show ?thesis
    using step
  proof (cases rule: queue_step.cases)
    case (push_resumes i x r q')
    then show ?thesis
      using stopped_queue(3) [OF q push_resumes(4)] inv remove_waiter [OF push_resumes(2)] remove_waiter_set [of _ i "waiters s"]
      by (auto simp: system_inv_def)
  next
    case (pop_resumes i timeout r q')
    then show ?thesis
      using stopped_queue(6) [OF q pop_resumes(4)] inv remove_waiter [OF pop_resumes(2)] remove_waiter_set [of _ i "waiters s"]
      by (auto simp: system_inv_def)
  next
    case (push_done x r b q')
    then show ?thesis using stopped_queue(1) [OF q push_done(3)] inv by (auto simp: system_inv_def)
  next
    case (pop_done r b q')
    then show ?thesis using stopped_queue(4) [OF q pop_done(2)] inv by (auto simp: system_inv_def)
  qed (use False stopped_queue(2,5) [OF q] in auto)
qed

lemma queue_reachable_inv:
  assumes "(queue_step cpush cfull push_func ctop cpop cempty pop_func cclear abs ok)\<^sup>*\<^sup>* s s'"
    "system_inv abs inv acct ok s"
  shows "system_inv abs inv acct ok s'"
  using assms by (induction rule: rtranclp_induct) (auto intro: queue_step_inv)

end

end
