(* ===== verification/ByteBufferQueue.thy ===== *)
theory ByteBufferQueue
  imports ByteBuffer CircularBuffer QueueThreads
begin

text \<open>
  \<^verbatim>\<open>upper/byte_buffer_queue.h\<close>: the SDU queue of the RLC and PDCP transmitters, a
  \<^verbatim>\<open>dyn_blocking_queue\<close> of \<^verbatim>\<open>unique_byte_buffer_t\<close> whose callbacks count the unread
  bytes and the SDUs.  An element is \<open>None\<close> for a null pointer: an SDU that was
  discarded while it waited in the queue.
\<close>

section \<open>Callbacks and operations\<close>

record queue_counters =
  unread_bytes :: u32
  n_sdus :: u32

definition push_callback ::
  "byte_buffer option \<Rightarrow> queue_counters \<Rightarrow> queue_counters option" where
  "push_callback msg q =
     (case msg of None \<Rightarrow> None
      | Some b \<Rightarrow> Some (q\<lparr>unread_bytes := unread_bytes q + of_nat (N_bytes b),
                         n_sdus := n_sdus q + 1\<rparr>))"

definition pop_callback :: "byte_buffer option \<Rightarrow> queue_counters \<Rightarrow> queue_counters" where
  "pop_callback msg q =
     (case msg of None \<Rightarrow> q
      | Some b \<Rightarrow>
          q\<lparr>unread_bytes := unread_bytes q - min (of_nat (N_bytes b)) (unread_bytes q),
            n_sdus := word_of_int (max 0 (sint (n_sdus q) - 1))\<rparr>)"

type_synonym byte_buffer_queue =
  "(byte_buffer option circular_buffer, queue_counters) blocking_queue"

definition byte_buffer_queue :: "nat \<Rightarrow> byte_buffer_queue" where
  "byte_buffer_queue capacity =
     \<lparr>active = True, nof_waiting = 0, circ_buffer = static_circular_buffer capacity,
      captured = \<lparr>unread_bytes = 0, n_sdus = 0\<rparr>\<rparr>"

definition bbq_resize :: "(nat \<Rightarrow> nat \<Rightarrow> nat) \<Rightarrow> nat \<Rightarrow> byte_buffer_queue \<Rightarrow> byte_buffer_queue option" where
  "bbq_resize grow capacity q =
     map_option (\<lambda>c. q\<lparr>circ_buffer := c\<rparr>) (cb_set_size grow capacity (circ_buffer q))"

definition bbq_try_write ::
  "byte_buffer option \<Rightarrow> byte_buffer_queue \<Rightarrow> (bool bq_result \<times> byte_buffer_queue) option" where
  "bbq_try_write msg = bq_push cb_push cb_full push_callback msg False"

definition bbq_write ::
  "byte_buffer option \<Rightarrow> byte_buffer_queue \<Rightarrow> (bool bq_result \<times> byte_buffer_queue) option" where
  "bbq_write msg = bq_push cb_push cb_full push_callback msg True"

definition bbq_read ::
  "byte_buffer_queue \<Rightarrow> (byte_buffer option option bq_result \<times> byte_buffer_queue) option" where
  "bbq_read = bq_pop cb_top cb_pop cb_empty pop_callback True"

definition bbq_try_read ::
  "byte_buffer_queue \<Rightarrow> (byte_buffer option option bq_result \<times> byte_buffer_queue) option" where
  "bbq_try_read = bq_pop cb_top cb_pop cb_empty pop_callback False"

definition bbq_size :: "byte_buffer_queue \<Rightarrow> nat" where
  "bbq_size q = cb_count (circ_buffer q)"

definition bbq_is_empty :: "byte_buffer_queue \<Rightarrow> bool" where
  "bbq_is_empty q = cb_empty (circ_buffer q)"

definition bbq_is_full :: "byte_buffer_queue \<Rightarrow> bool" where
  "bbq_is_full q = cb_full (circ_buffer q)"

definition bbq_size_bytes :: "byte_buffer_queue \<Rightarrow> u32" where
  "bbq_size_bytes q = unread_bytes (captured q)"

definition bbq_get_n_sdus :: "byte_buffer_queue \<Rightarrow> u32" where
  "bbq_get_n_sdus q = n_sdus (captured q)"

definition bbq_size_tail_bytes :: "byte_buffer_queue \<Rightarrow> u32 option" where
  "bbq_size_tail_bytes q =
     map_option snd
       (bq_try_call_on_front cb_top cb_empty
          (\<lambda>front n. case front of None \<Rightarrow> n | Some b \<Rightarrow> n + of_nat (N_bytes b)) q 0)"

definition bbq_reset :: "byte_buffer_queue \<Rightarrow> byte_buffer_queue" where
  "bbq_reset q = q\<lparr>captured := (captured q)\<lparr>unread_bytes := 0\<rparr>\<rparr>"

text \<open>
  \<open>apply_first\<close> runs a function over the elements under the mutex; the function may use the
  queue's counters, as the discard handlers of the RLC transmitters do.
\<close>

definition bbq_apply_first ::
  "(byte_buffer option \<Rightarrow> queue_counters \<Rightarrow> bool \<times> byte_buffer option \<times> queue_counters)
     \<Rightarrow> byte_buffer_queue \<Rightarrow> (bool \<times> byte_buffer_queue) option" where
  "bbq_apply_first f q =
     map_option (\<lambda>(b, c, s). (b, q\<lparr>circ_buffer := c, captured := s\<rparr>))
       (apply_first f (circ_buffer q) (captured q))"

section \<open>The counters agree with the elements\<close>

definition sdus :: "byte_buffer option list \<Rightarrow> byte_buffer list" where
  "sdus xs = map the (filter (\<lambda>x. x \<noteq> None) xs)"

definition sdu_bytes :: "byte_buffer option list \<Rightarrow> nat" where
  "sdu_bytes xs = sum_list (map length (map data (sdus xs)))"

lemma sdus_simps [simp]:
  "sdus [] = []" "sdus (None # xs) = sdus xs" "sdus (Some b # xs) = b # sdus xs"
  "sdus (xs @ ys) = sdus xs @ sdus ys"
  by (simp_all add: sdus_def)

lemma sdu_bytes_simps [simp]:
  "sdu_bytes [] = 0" "sdu_bytes (None # xs) = sdu_bytes xs"
  "sdu_bytes (Some b # xs) = N_bytes b + sdu_bytes xs"
  "sdu_bytes (xs @ ys) = sdu_bytes xs + sdu_bytes ys"
  by (simp_all add: sdu_bytes_def)

definition counters_ok :: "byte_buffer option list \<Rightarrow> queue_counters \<Rightarrow> bool" where
  "counters_ok xs q \<longleftrightarrow>
     unread_bytes q = of_nat (sdu_bytes xs) \<and> n_sdus q = of_nat (length (sdus xs)) \<and>
     (\<forall>b \<in> set (sdus xs). wf_buffer b)"

lemma counters_empty: "counters_ok [] \<lparr>unread_bytes = 0, n_sdus = 0\<rparr>"
  by (simp add: counters_ok_def)

lemma length_sdus: "length (sdus xs) \<le> length xs"
  by (simp add: sdus_def)

lemma sdu_bytes_bound:
  "\<forall>b \<in> set (sdus xs). wf_buffer b \<Longrightarrow> sdu_bytes xs \<le> length (sdus xs) * 13257"
proof (induction xs)
  case (Cons x xs)
  then show ?case by (cases x) (auto dest!: wf_N_bytes)
qed simp

text \<open>Queues of up to \<open>2 ^ 17\<close> SDUs: the counters cannot wrap, whatever the SDUs' sizes.\<close>

definition bbq_lim :: nat where "bbq_lim = 2 ^ 17"

lemma push_callback_ok:
  "x \<noteq> None \<and> wf_buffer (the x) \<Longrightarrow> counters_ok xs s \<Longrightarrow>
     \<exists>s'. push_callback x s = Some s' \<and> counters_ok (xs @ [x]) s'"
  by (cases x) (auto simp: push_callback_def counters_ok_def)

lemma pop_callback_ok:
  assumes "counters_ok (x # xs) s" "length xs < bbq_lim"
  shows "counters_ok xs (pop_callback x s)"
proof (cases x)
  case None
  then show ?thesis using assms by (simp add: counters_ok_def pop_callback_def)
next
  case (Some b)
  have u: "unread_bytes s = of_nat (N_bytes b + sdu_bytes xs)"
    and n: "n_sdus s = of_nat (Suc (length (sdus xs)))"
    and wfs: "\<forall>c \<in> set (sdus xs). wf_buffer c" "wf_buffer b"
    using assms(1) Some by (auto simp: counters_ok_def)
  have l: "length (sdus xs) < 131072" using assms(2) length_sdus [of xs] by (simp add: bbq_lim_def)
  have "N_bytes b + sdu_bytes xs < 2 ^ LENGTH(32)"
    using sdu_bytes_bound [OF wfs(1)] wf_N_bytes [OF wfs(2)] l by simp
  then have "min (of_nat (N_bytes b)) (unread_bytes s) = of_nat (N_bytes b)"
    unfolding u by (intro min_of_nat_word) simp_all
  then have 1: "unread_bytes (pop_callback x s) = of_nat (sdu_bytes xs)"
    using u Some by (simp add: pop_callback_def)
  have "sint (n_sdus s) = int (Suc (length (sdus xs)))"
    using l unfolding n by (intro sint_of_nat_small) simp
  then have 2: "n_sdus (pop_callback x s) = of_nat (length (sdus xs))"
    using Some by (simp add: pop_callback_def)
  show ?thesis using 1 2 wfs by (simp add: counters_ok_def)
qed

abbreviation bbq_inv :: "byte_buffer option circular_buffer \<Rightarrow> bool" where
  "bbq_inv c \<equiv> cb_wf c \<and> max_size c \<le> bbq_lim"

interpretation bbq: clearing_fifo cb_push cb_top cb_pop cb_full cb_empty cb_contents max_size bbq_inv
  push_callback pop_callback "\<lambda>x. x \<noteq> None \<and> wf_buffer (the x)" counters_ok bbq_lim cb_clear
proof (unfold_locales, goal_cases)
  case (4 q x)
  then show ?case using cb.cpush_spec [of q x] by fastforce
next
  case (6 q)
  then show ?case using cb.cpop_spec [of q] by fastforce
qed (auto simp: cb_wfD cb.length_abs cb.cfull_iff cb.cempty_iff cb.ctop_spec push_callback_ok pop_callback_ok cb_clear_spec)

definition bbq_ok :: "byte_buffer_queue \<Rightarrow> bool" where
  "bbq_ok q \<longleftrightarrow> active q \<and> bbq_inv (circ_buffer q) \<and>
     counters_ok (cb_contents (circ_buffer q)) (captured q)"

lemma bbq_ok_new: "0 < n \<Longrightarrow> n \<le> bbq_lim \<Longrightarrow> bbq_ok (byte_buffer_queue n)"
  by (simp add: bbq_ok_def byte_buffer_queue_def cb_wf_static cb_contents_static max_size_static
      counters_empty)

text \<open>
  A transmitter's queue is made with the default capacity of 128 and then resized; a smaller
  capacity than 128 has no effect.
\<close>

definition bbq_configured :: "(nat \<Rightarrow> nat \<Rightarrow> nat) \<Rightarrow> nat \<Rightarrow> nat" where
  "bbq_configured grow n = (if n \<le> 128 then 128 else grow 128 n)"

lemma bbq_resize_new:
  assumes "128 < n \<longrightarrow> n \<le> grow 128 n"
  shows "bbq_resize grow n (byte_buffer_queue 128) = Some (byte_buffer_queue (bbq_configured grow n))"
  using cb_set_size_new [of 128 n grow] assms
  by (simp add: bbq_resize_def byte_buffer_queue_def bbq_configured_def)

section \<open>Properties\<close>

text \<open>
  C27. The queue is a FIFO: whatever sequence of \<open>try_write\<close> and \<open>try_read\<close> is run on a new queue, no
  call fails, the SDUs read followed by those still queued are exactly the SDUs accepted, in the
  order of their acceptance, and the two counters are the number of queued bytes and SDUs.
\<close>

theorem bbq_fifo:
  assumes "0 < n" "n \<le> bbq_lim"
    and "\<forall>x. TryPush x \<in> set ops \<longrightarrow> x \<noteq> None \<and> wf_buffer (the x)"
  shows "\<exists>out acc q. bq_run cb_push cb_full push_callback cb_top cb_pop cb_empty pop_callback ops
      (byte_buffer_queue n) = Some (out, acc, q) \<and>
    acc = out @ cb_contents (circ_buffer q) \<and>
    bbq_size_bytes q = of_nat (sdu_bytes (cb_contents (circ_buffer q))) \<and>
    bbq_get_n_sdus q = of_nat (length (sdus (cb_contents (circ_buffer q))))"
proof -
  have "bbq_ok (byte_buffer_queue n)" using assms(1,2) by (rule bbq_ok_new)
  moreover have "cb_contents (circ_buffer (byte_buffer_queue n)) = []"
    by (simp add: byte_buffer_queue_def cb_contents_static)
  ultimately show ?thesis
    using bbq.run_fifo [of "byte_buffer_queue n" ops] assms(3)
    by (auto simp: bbq_ok_def counters_ok_def bbq_size_bytes_def bbq_get_n_sdus_def)
qed

theorem bbq_fifo_witness:
  "\<exists>out acc q. bq_run cb_push cb_full push_callback cb_top cb_pop cb_empty pop_callback
      [TryPush (Some fresh_buffer), TryPop, TryPop] (byte_buffer_queue 2) = Some (out, acc, q) \<and>
    acc = out @ cb_contents (circ_buffer q)"
  using bbq_fifo [of 2 "[TryPush (Some fresh_buffer), TryPop, TryPop]"] by (auto simp: bbq_lim_def)

text \<open>The threads of a new queue.\<close>

definition bbq_system ::
  "nat \<Rightarrow> (byte_buffer option circular_buffer, queue_counters, byte_buffer option) queue_system" where
  "bbq_system n = \<lparr>sys_queue = byte_buffer_queue n, waiters = [], pushed = [], popped = [], stopping = False, dropped = []\<rparr>"

abbreviation bbq_step ::
  "(byte_buffer option circular_buffer, queue_counters, byte_buffer option) queue_system
    \<Rightarrow> (byte_buffer option circular_buffer, queue_counters, byte_buffer option) queue_system \<Rightarrow> bool" where
  "bbq_step \<equiv> queue_step cb_push cb_full push_callback cb_top cb_pop cb_empty pop_callback cb_clear cb_contents
     (\<lambda>x. x \<noteq> None \<and> wf_buffer (the x))"

text \<open>
  C13. With any number of threads writing and reading, blocked or not, and one of them stopping the
  queue at any time, in any interleaving of their critical sections: everything accepted is what was
  read, followed by what \<open>stop\<close> dropped and what is queued, in order; nothing is dropped before \<open>stop\<close> empties the
  queue, and nothing is queued afterwards; the byte and SDU counters are those of the elements that
  are queued or, because \<open>stop\<close> does not count what it drops, were dropped; and the number of waiting threads is
  counted modulo 256.
\<close>

theorem bbq_threads:
  assumes "0 < n" "n \<le> bbq_lim" "bbq_step\<^sup>*\<^sup>* (bbq_system n) s"
  shows "pushed s = popped s @ dropped s @ cb_contents (circ_buffer (sys_queue s))
    \<and> (active (sys_queue s) \<or> stopping s \<longrightarrow> dropped s = [])
    \<and> (\<not> active (sys_queue s) \<and> \<not> stopping s \<longrightarrow> cb_contents (circ_buffer (sys_queue s)) = [])
    \<and> counters_ok (dropped s @ cb_contents (circ_buffer (sys_queue s))) (captured (sys_queue s))
    \<and> nof_waiting (sys_queue s) = of_nat (length (waiters s))"
proof -
  have "bbq_ok (byte_buffer_queue n)" using assms(1,2) by (rule bbq_ok_new)
  then have "system_inv cb_contents bbq_inv counters_ok (\<lambda>x. x \<noteq> None \<and> wf_buffer (the x)) (bbq_system n)"
    by (simp add: system_inv_def bbq_ok_def byte_buffer_queue_def cb_contents_static bbq_system_def)
  then show ?thesis
    using bbq.queue_reachable_inv [OF assms(3)] by (simp add: system_inv_def)
qed

text \<open>One thread writes, then stops the queue: the SDU is dropped and still counted.\<close>

theorem bbq_threads_witness:
  "\<exists>s. bbq_step\<^sup>*\<^sup>* (bbq_system 2) s \<and> dropped s = [Some fresh_buffer]
    \<and> pushed s = popped s @ dropped s @ cb_contents (circ_buffer (sys_queue s))
    \<and> n_sdus (captured (sys_queue s)) = 1"
proof -
  have ok: "bbq_ok (byte_buffer_queue 2)" by (simp add: bbq_ok_new bbq_lim_def)
  have r: "length (cb_contents (circ_buffer (byte_buffer_queue 2))) < max_size (circ_buffer (byte_buffer_queue 2))"
    by (simp add: byte_buffer_queue_def static_circular_buffer_def max_size_def)
  obtain q' where q': "bq_push cb_push cb_full push_callback (Some fresh_buffer) False (byte_buffer_queue 2) = Some (Done True, q')"
      "active q'" "cb_contents (circ_buffer q') = [Some fresh_buffer]"
    using bbq.push_room [OF _ _ _ _ r, of "Some fresh_buffer" False] ok
    by (auto simp: bbq_ok_def byte_buffer_queue_def cb_contents_static)
  let ?s1 = "(bbq_system 2)\<lparr>sys_queue := q', pushed := [Some fresh_buffer]\<rparr>"
  have "bbq_step (bbq_system 2) ((bbq_system 2)\<lparr>sys_queue := q',
      pushed := (if True then pushed (bbq_system 2) @ [Some fresh_buffer] else pushed (bbq_system 2))\<rparr>)"
    using q'(1) by (intro queue_step.push_done) (simp_all add: bbq_system_def)
  then have one: "bbq_step (bbq_system 2) ?s1" by (simp add: bbq_system_def)
  have "nof_waiting q' = 0"
    using bbq.push_sound [OF q'(1)] ok by (simp add: bbq_ok_def byte_buffer_queue_def)
  then have "bq_stop cb_clear q' = (Done (), q'\<lparr>active := False, circ_buffer := cb_clear (circ_buffer q')\<rparr>)"
    using q'(2) by (simp add: bq_stop_def)
  then have "bbq_step ?s1 (?s1\<lparr>sys_queue := q'\<lparr>active := False, circ_buffer := cb_clear (circ_buffer q')\<rparr>,
      dropped := cb_contents (circ_buffer (sys_queue ?s1))\<rparr>)" (is "bbq_step _ ?s2")
    using q'(2) by (intro queue_step.stop_at_once) simp_all
  then have st: "bbq_step\<^sup>*\<^sup>* (bbq_system 2) ?s2" using one by (meson converse_rtranclp_into_rtranclp rtranclp.rtrancl_refl)
  have d: "dropped ?s2 = [Some fresh_buffer]" "\<not> active (sys_queue ?s2)" "\<not> stopping ?s2"
    using q'(3) by (simp_all add: bbq_system_def)
  have "length (sdus (cb_contents (circ_buffer q'))) = 1" using q'(3) by simp
  then show ?thesis
    using bbq_threads [OF _ _ st] st d by (intro exI [of _ ?s2]) (auto simp: bbq_lim_def counters_ok_def)
qed

text \<open>
  A \<open>resize\<close> to a capacity below that of a new queue has no effect: the queue still accepts 128
  SDUs, since \<open>full\<close> compares with the capacity of the vector, which never shrinks.
\<close>

theorem bbq_resize_smaller_ignored:
  assumes "0 < m" "m \<le> n"
  shows "bbq_resize grow m (byte_buffer_queue n) = Some (byte_buffer_queue n)"
  using cb_set_size_new [of n m grow] assms by (simp add: bbq_resize_def byte_buffer_queue_def)

theorem bbq_resize_smaller_ignored_witness:
  "bbq_resize (\<lambda>_ sz. sz) 16 (byte_buffer_queue 128) = Some (byte_buffer_queue 128)"
  using bbq_resize_smaller_ignored [of 16 128] by simp

end
