(* ===== verification/UmBase.thy ===== *)
theory UmBase
  imports ByteBufferQueue
begin

text \<open>
  \<^verbatim>\<open>rlc/rlc_um_base.cc\<close>: what the LTE and the NR entity of the unacknowledged mode share.
  The transmitter's queue operations work on every record that extends \<open>rlc_um_base_tx\<close>, as
  the base class's methods work on every subclass; the virtual methods are arguments.  The
  entity's own operations follow, with the bearer's metrics.
\<close>

section \<open>Transmitter\<close>

record rlc_um_base_tx =
  tx_sdu_queue :: byte_buffer_queue
  tx_sdu :: "byte_buffer option"

text \<open>
  \<open>read\<close> waits for an element when the queue is empty.  A thread that waits for ever, or loops
  for ever, is \<open>Hang\<close>.
\<close>

definition um_queue_read :: "byte_buffer_queue \<Rightarrow> (byte_buffer option \<times> byte_buffer_queue) outcome" where
  "um_queue_read q =
     (case bbq_read q of
        None \<Rightarrow> Undef
      | Some (Blocks, _) \<Rightarrow> Hang
      | Some (Done None, q') \<Rightarrow> Ret (None, q')
      | Some (Done (Some x), q') \<Rightarrow> Ret (x, q'))"

text \<open>The loop of \<open>empty_queue\<close>; the fuel bounds the number of reads.\<close>

fun um_drain :: "nat \<Rightarrow> byte_buffer_queue \<Rightarrow> byte_buffer_queue outcome" where
  "um_drain n q =
     (if bbq_is_empty q then Ret q
      else case n of 0 \<Rightarrow> Hang
           | Suc k \<Rightarrow> bind_outcome (um_queue_read q) (\<lambda>(buf, q'). um_drain k q'))"

declare um_drain.simps [simp del]

definition um_tx_empty_queue :: "('a rlc_um_base_tx_scheme) \<Rightarrow> ('a rlc_um_base_tx_scheme) outcome" where
  "um_tx_empty_queue tx =
     bind_outcome (um_drain (bbq_size (tx_sdu_queue tx)) (tx_sdu_queue tx))
       (\<lambda>q. Ret (tx\<lparr>tx_sdu_queue := q, tx_sdu := None\<rparr>))"

definition um_tx_stop ::
  "('a rlc_um_base_tx_scheme \<Rightarrow> 'a rlc_um_base_tx_scheme) \<Rightarrow> ('a rlc_um_base_tx_scheme)
     \<Rightarrow> ('a rlc_um_base_tx_scheme) outcome" where
  "um_tx_stop tx_reset tx = bind_outcome (um_tx_empty_queue tx) (\<lambda>tx. Ret (tx_reset tx))"

definition um_tx_reestablish ::
  "('a rlc_um_base_tx_scheme \<Rightarrow> 'a rlc_um_base_tx_scheme) \<Rightarrow> ('a rlc_um_base_tx_scheme)
     \<Rightarrow> ('a rlc_um_base_tx_scheme) outcome" where
  "um_tx_reestablish tx_reset tx = um_tx_stop tx_reset tx"

definition um_tx_has_data :: "('a rlc_um_base_tx_scheme) \<Rightarrow> bool" where
  "um_tx_has_data tx \<longleftrightarrow> tx_sdu tx \<noteq> None \<or> \<not> bbq_is_empty (tx_sdu_queue tx)"

definition um_tx_write_sdu ::
  "byte_buffer option \<Rightarrow> ('a rlc_um_base_tx_scheme) \<Rightarrow> ('a rlc_um_base_tx_scheme) outcome" where
  "um_tx_write_sdu sdu tx =
     (case sdu of None \<Rightarrow> Ret tx
      | Some b \<Rightarrow>
          (case bbq_write (Some b) (tx_sdu_queue tx) of
             None \<Rightarrow> Undef
           | Some (Blocks, _) \<Rightarrow> Hang
           | Some (Done _, q') \<Rightarrow> Ret (tx\<lparr>tx_sdu_queue := q'\<rparr>)))"

text \<open>The result says whether \<^verbatim>\<open>ISRRAN_SUCCESS\<close> is returned.\<close>

definition um_tx_try_write_sdu ::
  "byte_buffer option \<Rightarrow> ('a rlc_um_base_tx_scheme) \<Rightarrow> (bool \<times> ('a rlc_um_base_tx_scheme)) outcome" where
  "um_tx_try_write_sdu sdu tx =
     (case sdu of None \<Rightarrow> Ret (False, tx)
      | Some b \<Rightarrow>
          (case bbq_try_write (Some b) (tx_sdu_queue tx) of
             None \<Rightarrow> Undef
           | Some (Blocks, _) \<Rightarrow> Hang
           | Some (Done ok, q') \<Rightarrow> Ret (ok, tx\<lparr>tx_sdu_queue := q'\<rparr>)))"

text \<open>
  The function \<open>discard_sdu\<close> applies to the elements of the queue: it empties the SDU with the
  PDCP sequence number, and always asks for the next one.  \<open>discarded\<close>, which the code only
  logs, is the first result of \<open>um_tx_discard_sdu\<close>.
\<close>

definition um_discard_fn ::
  "u32 \<Rightarrow> byte_buffer option \<Rightarrow> queue_counters \<Rightarrow> bool \<times> byte_buffer option \<times> queue_counters" where
  "um_discard_fn discard_sn sdu counters =
     (case sdu of
        Some b \<Rightarrow>
          if pdcp_sn b = discard_sn then (False, None, pop_callback sdu counters)
          else (False, sdu, counters)
      | None \<Rightarrow> (False, None, counters))"

definition um_tx_discard_sdu ::
  "u32 \<Rightarrow> ('a rlc_um_base_tx_scheme) \<Rightarrow> (bool \<times> ('a rlc_um_base_tx_scheme)) outcome" where
  "um_tx_discard_sdu discard_sn tx =
     (case bbq_apply_first (um_discard_fn discard_sn) (tx_sdu_queue tx) of
        None \<Rightarrow> Undef
      | Some (discarded, q') \<Rightarrow> Ret (discarded, tx\<lparr>tx_sdu_queue := q'\<rparr>))"

definition um_tx_sdu_queue_is_full :: "('a rlc_um_base_tx_scheme) \<Rightarrow> bool" where
  "um_tx_sdu_queue_is_full tx = bbq_is_full (tx_sdu_queue tx)"

text \<open>
  A MAC opportunity.  \<open>mem\<close> says whether the allocation of the PDU succeeds, \<open>build\<close> is the
  virtual \<open>build_data_pdu\<close>.  The result is what is written to \<^verbatim>\<open>payload\<close>; its length is the
  returned number of bytes.
\<close>

definition um_tx_build_data_pdu ::
  "(byte_buffer \<Rightarrow> u32 \<Rightarrow> ('a rlc_um_base_tx_scheme) \<Rightarrow> (bytes \<times> 'a rlc_um_base_tx_scheme) outcome)
     \<Rightarrow> bool \<Rightarrow> u32 \<Rightarrow> ('a rlc_um_base_tx_scheme) \<Rightarrow> (bytes \<times> 'a rlc_um_base_tx_scheme) outcome" where
  "um_tx_build_data_pdu build mem nof_bytes tx =
     (if tx_sdu tx = None \<and> bbq_is_empty (tx_sdu_queue tx) then Ret ([], tx)
      else if \<not> mem then Ret ([], tx)
      else build fresh_buffer nof_bytes tx)"

section \<open>Entity\<close>

record rlc_bearer_metrics =
  num_tx_sdus :: u32
  num_tx_sdu_bytes :: u64
  num_lost_sdus :: u32
  num_tx_pdus :: u32
  num_rx_pdus :: u32
  num_tx_pdu_bytes :: u64
  num_rx_pdu_bytes :: u64
  num_lost_pdus :: u32

definition rlc_bearer_metrics_0 :: rlc_bearer_metrics where
  "rlc_bearer_metrics_0 = \<lparr>num_tx_sdus = 0, num_tx_sdu_bytes = 0, num_lost_sdus = 0,
     num_tx_pdus = 0, num_rx_pdus = 0, num_tx_pdu_bytes = 0, num_rx_pdu_bytes = 0,
     num_lost_pdus = 0\<rparr>"

record ('tx, 'rx) rlc_um =
  um_tx :: "'tx option"
  um_rx :: "'rx option"
  tx_enabled :: bool
  rx_enabled :: bool
  metrics :: rlc_bearer_metrics

definition opt_call :: "('x \<Rightarrow> 'x outcome) \<Rightarrow> 'x option \<Rightarrow> 'x option outcome" where
  "opt_call f ob = (case ob of None \<Rightarrow> Ret None | Some x \<Rightarrow> bind_outcome (f x) (\<lambda>x. Ret (Some x)))"

definition um_stop ::
  "('tx \<Rightarrow> 'tx outcome) \<Rightarrow> ('rx \<Rightarrow> 'rx outcome) \<Rightarrow> ('tx, 'rx) rlc_um \<Rightarrow> ('tx, 'rx) rlc_um outcome" where
  "um_stop tx_stop rx_stop e =
     bind_outcome (opt_call tx_stop (um_tx e)) (\<lambda>tx.
     bind_outcome (opt_call rx_stop (um_rx e)) (\<lambda>rx.
       Ret (e\<lparr>um_tx := tx, um_rx := rx\<rparr>)))"

definition um_reestablish ::
  "('tx \<Rightarrow> 'tx outcome) \<Rightarrow> ('rx \<Rightarrow> 'rx outcome) \<Rightarrow> ('tx, 'rx) rlc_um \<Rightarrow> ('tx, 'rx) rlc_um outcome" where
  "um_reestablish tx_reestablish rx_reestablish e =
     (let e = e\<lparr>tx_enabled := False\<rparr> in
      bind_outcome (opt_call tx_reestablish (um_tx e)) (\<lambda>tx.
      bind_outcome (opt_call rx_reestablish (um_rx e)) (\<lambda>rx.
        Ret (e\<lparr>um_tx := tx, um_rx := rx, tx_enabled := True\<rparr>))))"

definition um_empty_queue ::
  "('tx \<Rightarrow> 'tx outcome) \<Rightarrow> ('tx, 'rx) rlc_um \<Rightarrow> ('tx, 'rx) rlc_um outcome" where
  "um_empty_queue tx_empty_queue e =
     bind_outcome (opt_call tx_empty_queue (um_tx e)) (\<lambda>tx. Ret (e\<lparr>um_tx := tx\<rparr>))"

text \<open>PDCP interface.  \<open>write_sdu\<close> reads \<^verbatim>\<open>sdu->N_bytes\<close> before any check for null.\<close>

definition um_write_sdu ::
  "(byte_buffer option \<Rightarrow> 'tx \<Rightarrow> (bool \<times> 'tx) outcome) \<Rightarrow> byte_buffer option
     \<Rightarrow> ('tx, 'rx) rlc_um \<Rightarrow> ('tx, 'rx) rlc_um outcome" where
  "um_write_sdu try_write_sdu sdu e =
     (let lost = e\<lparr>metrics := (metrics e)\<lparr>num_lost_sdus := num_lost_sdus (metrics e) + 1\<rparr>\<rparr> in
      case sdu of None \<Rightarrow> Undef
      | Some b \<Rightarrow>
          (case (tx_enabled e, um_tx e) of
             (True, Some tx) \<Rightarrow>
               bind_outcome (try_write_sdu (Some b) tx) (\<lambda>(success, tx').
                 if success then
                   Ret (e\<lparr>um_tx := Some tx', metrics := (metrics e)
                     \<lparr>num_tx_sdus := num_tx_sdus (metrics e) + 1,
                      num_tx_sdu_bytes := num_tx_sdu_bytes (metrics e) + of_nat (N_bytes b)\<rparr>\<rparr>)
                 else Ret (lost\<lparr>um_tx := Some tx'\<rparr>))
           | _ \<Rightarrow> Ret lost))"

definition um_discard_sdu ::
  "(u32 \<Rightarrow> 'tx \<Rightarrow> (bool \<times> 'tx) outcome) \<Rightarrow> u32 \<Rightarrow> ('tx, 'rx) rlc_um \<Rightarrow> ('tx, 'rx) rlc_um outcome" where
  "um_discard_sdu tx_discard discard_sn e =
     (case (tx_enabled e, um_tx e) of
        (True, Some tx) \<Rightarrow>
          bind_outcome (tx_discard discard_sn tx) (\<lambda>(_, tx').
            Ret (e\<lparr>um_tx := Some tx',
                   metrics := (metrics e)\<lparr>num_lost_sdus := num_lost_sdus (metrics e) + 1\<rparr>\<rparr>))
      | _ \<Rightarrow> Ret e)"

definition um_sdu_queue_is_full :: "('tx \<Rightarrow> bool) \<Rightarrow> ('tx, 'rx) rlc_um \<Rightarrow> bool outcome" where
  "um_sdu_queue_is_full queue_is_full e =
     (case um_tx e of None \<Rightarrow> Undef | Some tx \<Rightarrow> Ret (queue_is_full tx))"

text \<open>MAC interface.\<close>

definition um_has_data :: "('tx \<Rightarrow> bool) \<Rightarrow> ('tx, 'rx) rlc_um \<Rightarrow> bool" where
  "um_has_data tx_has_data e = (case um_tx e of None \<Rightarrow> False | Some tx \<Rightarrow> tx_has_data tx)"

definition um_get_buffer_state :: "('tx \<Rightarrow> u32 outcome) \<Rightarrow> ('tx, 'rx) rlc_um \<Rightarrow> u32 outcome" where
  "um_get_buffer_state tx_buffer_state e =
     (case um_tx e of None \<Rightarrow> Ret (0 + 0)
      | Some tx \<Rightarrow> bind_outcome (tx_buffer_state tx) (\<lambda>newtx_queue. Ret (newtx_queue + 0)))"

definition um_read_pdu ::
  "(u32 \<Rightarrow> 'tx \<Rightarrow> (bytes \<times> 'tx) outcome) \<Rightarrow> u32 \<Rightarrow> ('tx, 'rx) rlc_um
     \<Rightarrow> (bytes \<times> ('tx, 'rx) rlc_um) outcome" where
  "um_read_pdu build nof_bytes e =
     (case (um_tx e, tx_enabled e) of
        (Some tx, True) \<Rightarrow>
          bind_outcome (build nof_bytes tx) (\<lambda>(payload, tx').
            let e' = e\<lparr>um_tx := Some tx'\<rparr> in
            if 0 < length payload then
              Ret (payload, e'\<lparr>metrics := (metrics e')
                \<lparr>num_tx_pdu_bytes := num_tx_pdu_bytes (metrics e') + of_nat (length payload),
                 num_tx_pdus := num_tx_pdus (metrics e') + 1\<rparr>\<rparr>)
            else Ret (payload, e'))
      | _ \<Rightarrow> Ret ([], e))"

text \<open>
  The receiver counts lost PDUs in the entity's metrics, to which it holds a reference: \<open>handle\<close>
  gets and returns them.
\<close>

definition um_write_pdu ::
  "(bytes \<Rightarrow> 'rx \<times> u32 \<Rightarrow> ('rx \<times> u32) outcome) \<Rightarrow> bytes \<Rightarrow> ('tx, 'rx) rlc_um
     \<Rightarrow> ('tx, 'rx) rlc_um outcome" where
  "um_write_pdu handle payload e =
     (case (um_rx e, rx_enabled e) of
        (Some rx, True) \<Rightarrow>
          (let m = (metrics e)\<lparr>num_rx_pdus := num_rx_pdus (metrics e) + 1,
                     num_rx_pdu_bytes := num_rx_pdu_bytes (metrics e) + of_nat (length payload)\<rparr> in
           bind_outcome (handle payload (rx, num_lost_pdus m)) (\<lambda>(rx', lost).
             Ret (e\<lparr>um_rx := Some rx', metrics := m\<lparr>num_lost_pdus := lost\<rparr>\<rparr>)))
      | _ \<Rightarrow> Ret e)"

definition um_reset_metrics :: "('tx, 'rx) rlc_um \<Rightarrow> ('tx, 'rx) rlc_um" where
  "um_reset_metrics e = e\<lparr>metrics := rlc_bearer_metrics_0\<rparr>"

section \<open>The queue operations on a queue in order\<close>

abbreviation queued :: "byte_buffer_queue \<Rightarrow> byte_buffer option list" where
  "queued q \<equiv> cb_contents (circ_buffer q)"

abbreviation bbq_capacity :: "byte_buffer_queue \<Rightarrow> nat" where
  "bbq_capacity q \<equiv> max_size (circ_buffer q)"

lemma bbq_okD:
  "bbq_ok q \<Longrightarrow> active q" "bbq_ok q \<Longrightarrow> bbq_inv (circ_buffer q)"
  "bbq_ok q \<Longrightarrow> counters_ok (queued q) (captured q)"
  by (simp_all add: bbq_ok_def)

lemma bbq_is_empty_iff: "bbq_is_empty q \<longleftrightarrow> queued q = []"
  by (simp only: bbq_is_empty_def cb_empty_contents)

lemma bbq_is_full_iff: "bbq_is_full q \<longleftrightarrow> length (queued q) = bbq_capacity q"
  by (simp add: bbq_is_full_def cb_full_contents)

lemma bbq_size_eq: "bbq_size q = length (queued q)"
  by (simp add: bbq_size_def)

lemma um_queue_read_ok:
  assumes "bbq_ok q" "queued q = x # xs"
  shows "\<exists>q'. um_queue_read q = Ret (x, q') \<and> bbq_ok q' \<and> queued q' = xs \<and>
    bbq_capacity q' = bbq_capacity q"
  using bbq.pop_nonempty [OF bbq_okD [OF assms(1)] assms(2), of True]
  by (auto simp: um_queue_read_def bbq_read_def bbq_ok_def)

lemma um_queue_read_empty: "bbq_ok q \<Longrightarrow> queued q = [] \<Longrightarrow> um_queue_read q = Hang"
  using bbq_okD(1) [of q] cb_empty_contents [of "circ_buffer q"]
  by (simp add: um_queue_read_def bbq_read_def bq_pop_def)

lemma um_drain_ok:
  "bbq_ok q \<Longrightarrow> length (queued q) \<le> n \<Longrightarrow>
     \<exists>q'. um_drain n q = Ret q' \<and> bbq_ok q' \<and> queued q' = [] \<and> bbq_capacity q' = bbq_capacity q"
proof (induction n arbitrary: q)
  case 0
  then show ?case by (simp add: um_drain.simps bbq_is_empty_iff cb_contents_def)
next
  case (Suc n)
  show ?case
  proof (cases "queued q")
    case Nil
    then show ?thesis using Suc.prems by (simp add: um_drain.simps bbq_is_empty_iff)
  next
    case (Cons x xs)
    obtain q' where "um_queue_read q = Ret (x, q')" "bbq_ok q'" "queued q' = xs"
      "bbq_capacity q' = bbq_capacity q"
      using um_queue_read_ok [OF Suc.prems(1) Cons] by blast
    then show ?thesis
      using Suc.IH [of q'] Suc.prems Cons by (simp add: um_drain.simps [of "Suc n"] bbq_is_empty_iff)
  qed
qed

lemma um_tx_empty_queue_ok:
  assumes "bbq_ok (tx_sdu_queue tx)"
  shows "\<exists>q. um_tx_empty_queue tx = Ret (tx\<lparr>tx_sdu_queue := q, tx_sdu := None\<rparr>) \<and>
    bbq_ok q \<and> queued q = [] \<and> bbq_capacity q = bbq_capacity (tx_sdu_queue tx)"
  using um_drain_ok [OF assms, of "bbq_size (tx_sdu_queue tx)"] cb_empty_contents
  by (auto simp: um_tx_empty_queue_def bbq_size_eq)

lemma um_tx_try_write_room:
  assumes "bbq_ok (tx_sdu_queue tx)" "wf_buffer b"
    "length (queued (tx_sdu_queue tx)) < bbq_capacity (tx_sdu_queue tx)"
  shows "\<exists>q. um_tx_try_write_sdu (Some b) tx = Ret (True, tx\<lparr>tx_sdu_queue := q\<rparr>) \<and>
    bbq_ok q \<and> queued q = queued (tx_sdu_queue tx) @ [Some b] \<and>
    bbq_capacity q = bbq_capacity (tx_sdu_queue tx)"
  using bbq.push_room [OF bbq_okD [OF assms(1)] _ assms(3), of "Some b" False] assms(2)
  by (auto simp: um_tx_try_write_sdu_def bbq_try_write_def bbq_ok_def)

lemma um_tx_try_write_full:
  assumes "bbq_ok (tx_sdu_queue tx)"
    "length (queued (tx_sdu_queue tx)) = bbq_capacity (tx_sdu_queue tx)"
  shows "um_tx_try_write_sdu (Some b) tx = Ret (False, tx)"
  using bbq.push_no_room [OF bbq_okD(1,2) [OF assms(1)] assms(2), of "Some b"]
  by (simp add: um_tx_try_write_sdu_def bbq_try_write_def)

text \<open>Discarding empties every queued SDU that carries the PDCP sequence number.\<close>

definition discard_one :: "u32 \<Rightarrow> byte_buffer option \<Rightarrow> byte_buffer option" where
  "discard_one sn x = (case x of Some b \<Rightarrow> if pdcp_sn b = sn then None else x | None \<Rightarrow> None)"

lemma counters_rotate: "counters_ok (ys @ x # xs) s \<longleftrightarrow> counters_ok (x # ys @ xs) s"
  by (cases x) (auto simp: counters_ok_def add_ac)

lemma um_discard_step:
  assumes "counters_ok (ys @ x # xs) s" "length (ys @ xs) < bbq_lim"
  shows "\<exists>s'. um_discard_fn sn x s = (False, discard_one sn x, s') \<and>
    counters_ok ((ys @ [discard_one sn x]) @ xs) s'"
proof (cases "discard_one sn x = x")
  case True
  then show ?thesis using assms by (cases x) (auto simp: um_discard_fn_def discard_one_def split: if_splits)
next
  case False
  then obtain b where x: "x = Some b" "pdcp_sn b = sn" by (cases x) (auto simp: discard_one_def split: if_splits)
  have "counters_ok (ys @ xs) (pop_callback x s)"
    using pop_callback_ok [of x "ys @ xs" s] assms counters_rotate by blast
  then show ?thesis using x by (simp add: um_discard_fn_def discard_one_def counters_ok_def)
qed

lemma um_discard_list:
  assumes "counters_ok (ys @ xs) s" "length (ys @ xs) \<le> bbq_lim"
  shows "\<exists>s'. apply_first_list (um_discard_fn sn) xs s = (False, map (discard_one sn) xs, s') \<and>
    counters_ok (ys @ map (discard_one sn) xs) s'"
  using assms
proof (induction xs arbitrary: ys s)
  case (Cons x xs)
  obtain s' where s': "um_discard_fn sn x s = (False, discard_one sn x, s')"
    "counters_ok ((ys @ [discard_one sn x]) @ xs) s'"
    using um_discard_step [of ys x xs s sn] Cons.prems by auto
  then show ?case using Cons.IH [OF s'(2)] Cons.prems by (auto simp: case_prod_beta)
qed simp

lemma um_tx_discard_not_full:
  assumes ok: "bbq_ok (tx_sdu_queue tx)" and nf: "\<not> bbq_is_full (tx_sdu_queue tx)"
  shows "\<exists>q. um_tx_discard_sdu sn tx = Ret (False, tx\<lparr>tx_sdu_queue := q\<rparr>) \<and> bbq_ok q \<and>
    queued q = map (discard_one sn) (queued (tx_sdu_queue tx)) \<and>
    bbq_capacity q = bbq_capacity (tx_sdu_queue tx)"
proof -
  let ?q = "tx_sdu_queue tx"
  have wf: "cb_wf (circ_buffer ?q)" "\<not> cb_full (circ_buffer ?q)" "bbq_capacity ?q \<le> bbq_lim"
    using bbq_okD(2) [OF ok] nf by (auto simp: bbq_is_full_def)
  have "counters_ok ([] @ queued ?q) (captured ?q)" "length ([] @ queued ?q) \<le> bbq_lim"
    using bbq_okD(3) [OF ok] wf cb_wfD(2) [OF wf(1)] by auto
  from um_discard_list [OF this, of sn] apply_first_not_full [OF wf(1,2), of "um_discard_fn sn" "captured ?q"]
  show ?thesis
    using bbq_okD(1) [OF ok] wf(3)
    by (auto simp: um_tx_discard_sdu_def bbq_apply_first_def bbq_ok_def)
qed

lemma um_tx_discard_full:
  assumes "bbq_ok (tx_sdu_queue tx)" "bbq_is_full (tx_sdu_queue tx)"
  shows "um_tx_discard_sdu sn tx = Ret (False, tx)"
  using apply_first_full [of "circ_buffer (tx_sdu_queue tx)" "um_discard_fn sn"] bbq_okD(2) [OF assms(1)] assms(2)
  by (simp add: um_tx_discard_sdu_def bbq_apply_first_def bbq_is_full_def)

section \<open>Contract between the entity and a transmitter\<close>

text \<open>
  What the entity relies on: in a state the invariant allows, building a PDU returns, writes no
  more than it was granted and keeps the invariant.
\<close>

locale um_transmitter =
  fixes build :: "u32 \<Rightarrow> 'tx \<Rightarrow> (bytes \<times> 'tx) outcome"
    and inv :: "'tx \<Rightarrow> bool"
  assumes build_total: "inv tx \<Longrightarrow> \<exists>payload tx'. build nof_bytes tx = Ret (payload, tx') \<and>
      inv tx' \<and> length payload \<le> unat nof_bytes"
begin

lemma read_pdu_total:
  assumes "pred_option inv (um_tx e)"
  shows "\<exists>payload e'. um_read_pdu build nof_bytes e = Ret (payload, e') \<and>
    pred_option inv (um_tx e') \<and> length payload \<le> unat nof_bytes \<and>
    num_tx_pdu_bytes (metrics e') = num_tx_pdu_bytes (metrics e) + of_nat (length payload) \<and>
    num_tx_pdus (metrics e') = num_tx_pdus (metrics e) + (if payload = [] then 0 else 1) \<and>
    um_rx e' = um_rx e \<and> tx_enabled e' = tx_enabled e \<and> rx_enabled e' = rx_enabled e"
proof (cases "um_tx e")
  case None
  then show ?thesis by (simp add: um_read_pdu_def)
next
  case (Some tx)
  obtain payload tx' where "build nof_bytes tx = Ret (payload, tx')" "inv tx'"
    "length payload \<le> unat nof_bytes"
    using build_total [of tx nof_bytes] assms Some by auto
  then show ?thesis using assms Some by (cases "tx_enabled e") (auto simp: um_read_pdu_def Let_def)
qed

end

end
