(* ===== verification/RlcTypes.thy ===== *)
theory RlcTypes
  imports Prelude
begin

text \<open>
  The enumerations and structs the RLC entities share
  (\<^verbatim>\<open>interfaces/rlc_interface_types.h\<close>, \<^verbatim>\<open>rlc/rlc_common.h\<close>,
  \<^verbatim>\<open>rlc/rlc_am_nr_packing.h\<close>).  Enumerators that occur in several enumerations get
  the enumeration's name as a prefix.
\<close>

section \<open>Sequence number sizes\<close>

datatype rlc_um_nr_sn_size = um_size6bits | um_size12bits | um_nulltype

datatype rlc_am_nr_sn_size = am_size12bits | am_size18bits | am_nulltype

text \<open>
  \<^verbatim>\<open>to_number\<close> looks the enumerator up in a table of two entries but checks it against
  \<^verbatim>\<open>rlc_mode_t::nulltype\<close>, which is 3, so \<^verbatim>\<open>nulltype\<close> (2) reads past the table: \<open>None\<close>.
\<close>

definition am_to_number :: "rlc_am_nr_sn_size \<Rightarrow> nat option" where
  "am_to_number s = (case s of am_size12bits \<Rightarrow> Some 12 | am_size18bits \<Rightarrow> Some 18 | am_nulltype \<Rightarrow> None)"

definition am_cardinality :: "rlc_am_nr_sn_size \<Rightarrow> u32 option" where
  "am_cardinality s = map_option (\<lambda>n. push_bit n 1) (am_to_number s)"

definition am_window_size :: "rlc_am_nr_sn_size \<Rightarrow> u32 option" where
  "am_window_size s = map_option (\<lambda>c. c div 2) (am_cardinality s)"

lemma am_cardinality_simps [simp]:
  "am_cardinality am_size12bits = Some 4096"
  "am_cardinality am_size18bits = Some 262144"
  "am_cardinality am_nulltype = None"
  by (simp_all add: am_cardinality_def am_to_number_def push_bit_eq_mult)

lemma am_window_size_simps [simp]:
  "am_window_size am_size12bits = Some 2048"
  "am_window_size am_size18bits = Some 131072"
  by (simp_all add: am_window_size_def)

section \<open>Header fields\<close>

datatype rlc_dc_field = RLC_DC_FIELD_CONTROL_PDU | RLC_DC_FIELD_DATA_PDU

definition dc_val :: "rlc_dc_field \<Rightarrow> u8" where
  "dc_val d = (case d of RLC_DC_FIELD_CONTROL_PDU \<Rightarrow> 0 | RLC_DC_FIELD_DATA_PDU \<Rightarrow> 1)"

definition dc_of :: "u8 \<Rightarrow> rlc_dc_field" where
  "dc_of b = (if b = 0 then RLC_DC_FIELD_CONTROL_PDU else RLC_DC_FIELD_DATA_PDU)"

datatype rlc_nr_si_field =
  full_sdu | first_segment | last_segment | neither_first_nor_last_segment | si_nulltype

definition si_val :: "rlc_nr_si_field \<Rightarrow> u8" where
  "si_val s = (case s of full_sdu \<Rightarrow> 0 | first_segment \<Rightarrow> 1 | last_segment \<Rightarrow> 2
     | neither_first_nor_last_segment \<Rightarrow> 3 | si_nulltype \<Rightarrow> 4)"

text \<open>The cast of a two-bit field to the enumeration.\<close>

definition si_of :: "u8 \<Rightarrow> rlc_nr_si_field" where
  "si_of b = (if b = 0 then full_sdu else if b = 1 then first_segment
     else if b = 2 then last_segment else neither_first_nor_last_segment)"

lemma dc_of_val [simp]: "dc_of (dc_val d) = d"
  by (cases d) (simp_all add: dc_of_def dc_val_def)

lemma si_of_val [simp]: "s \<noteq> si_nulltype \<Longrightarrow> si_of (si_val s) = s"
  by (cases s) (simp_all add: si_of_def si_val_def)

lemma dc_val_bit: "take_bit 1 (dc_val d) = dc_val d"
  by (cases d) (simp_all add: dc_val_def)

lemma si_val_bits: "s \<noteq> si_nulltype \<Longrightarrow> take_bit 2 (si_val s) = si_val s"
  by (cases s) (simp_all add: si_val_def take_bit_eq_mask mask_eq_exp_minus_1)

section \<open>Status PDUs\<close>

record rlc_status_nack =
  nack_sn :: u32
  has_so :: bool
  so_start :: u16
  so_end :: u16
  has_nack_range :: bool
  nack_range :: u8

definition so_end_of_sdu :: u16 where "so_end_of_sdu = 0xFFFF"

definition rlc_status_nack :: rlc_status_nack where
  "rlc_status_nack = \<lparr>nack_sn = 0, has_so = False, so_start = 0, so_end = so_end_of_sdu,
     has_nack_range = False, nack_range = 0\<rparr>"

definition INVALID_RLC_SN :: u32 where "INVALID_RLC_SN = 0xFFFFFFFF"

section \<open>Configuration of the AM NR entity\<close>

record rlc_am_nr_config =
  am_tx_sn_field_length :: rlc_am_nr_sn_size
  am_rx_sn_field_length :: rlc_am_nr_sn_size
  t_poll_retx :: int
  t_reassembly :: int
  t_status_prohibit :: int
  max_retx_thresh :: u32
  poll_pdu :: int
  poll_byte :: int

end
