(* ===== verification/UmNrPacking.thy ===== *)
theory UmNrPacking
  imports RlcTypes
begin

text \<open>
  The header of RLC UM NR data PDUs (\<^verbatim>\<open>rlc/rlc_um_nr.cc\<close>, last part): reader, length and
  writer for sequence numbers of 6 and 12 bits, and the round trip between them.
\<close>

record rlc_um_nr_pdu_header =
  um_si :: rlc_nr_si_field
  um_sn_size :: rlc_um_nr_sn_size
  um_sn :: u16
  um_so :: u16

text \<open>A value-initialised header (\<^verbatim>\<open>= {}\<close>): every enumeration is its first enumerator.\<close>

definition um_header_0 :: rlc_um_nr_pdu_header where
  "um_header_0 = \<lparr>um_si = full_sdu, um_sn_size = um_size6bits, um_sn = 0, um_so = 0\<rparr>"

text \<open>The optional part: the segment offset.\<close>

definition um_nr_read_so ::
  "bytes \<Rightarrow> nat \<Rightarrow> rlc_um_nr_pdu_header \<Rightarrow> (nat \<times> rlc_um_nr_pdu_header) option" where
  "um_nr_read_so payload ptr header =
     (if um_si header = last_segment \<or> um_si header = neither_first_nor_last_segment then do {
        b0 \<leftarrow> rd payload ptr;
        b1 \<leftarrow> rd payload (ptr + 1);
        Some (ptr + 2, header\<lparr>um_so := ucast (push_bit 8 (ucast b0 AND 0xFF :: u32))
                                     OR ucast (ucast b1 AND 0xFF :: u32)\<rparr>)
      } else Some (ptr, header))"

text \<open>
  The number of bytes consumed, 0 for a malformed PDU, and the header as far as it was filled
  in.  The reader takes \<^verbatim>\<open>nof_bytes\<close> but does not use it: \<open>None\<close> is a read past the end.
\<close>

definition rlc_um_nr_read_data_pdu_header ::
  "bytes \<Rightarrow> rlc_um_nr_sn_size \<Rightarrow> rlc_um_nr_pdu_header \<Rightarrow> (nat \<times> rlc_um_nr_pdu_header) option" where
  "rlc_um_nr_read_data_pdu_header payload sn_size header = do {
     let h = header\<lparr>um_sn_size := sn_size\<rparr>;
     if sn_size = um_size6bits then do {
       b0 \<leftarrow> rd payload 0;
       let h = h\<lparr>um_si := si_of (drop_bit 6 b0 AND 0x03), um_sn := ucast (b0 AND 0x3F)\<rparr>;
       if um_si h = full_sdu \<and> um_sn h \<noteq> 0 then Some (0, h)
       else um_nr_read_so payload 1 h
     }
     else if sn_size = um_size12bits then do {
       b0 \<leftarrow> rd payload 0;
       let h = h\<lparr>um_si := si_of (drop_bit 6 b0 AND 0x03), um_sn := push_bit 8 (ucast (b0 AND 0x0F))\<rparr>;
       if um_si h = full_sdu \<and> um_sn h \<noteq> 0 then Some (0, h)
       else if um_si h = first_segment \<and> drop_bit 4 b0 AND 0x03 \<noteq> 0 then Some (0, h)
       else if um_si h \<noteq> full_sdu then do {
         b1 \<leftarrow> rd payload 1;
         um_nr_read_so payload 2 (h\<lparr>um_sn := um_sn h OR ucast (b1 AND 0xFF)\<rparr>)
       }
       else um_nr_read_so payload 1 h
     }
     else Some (0, h)
   }"

definition rlc_um_nr_packed_length :: "rlc_um_nr_pdu_header \<Rightarrow> u32" where
  "rlc_um_nr_packed_length header =
     (if um_si header = full_sdu then 1
      else (if um_sn_size header = um_size6bits then 1 else 2)
           + (if um_so header \<noteq> 0 then 2 else 0))"

text \<open>The bytes the writer puts in front of the PDU; it returns \<open>rlc_um_nr_packed_length\<close>.\<close>

definition rlc_um_nr_write_data_pdu_header :: "rlc_um_nr_pdu_header \<Rightarrow> bytes" where
  "rlc_um_nr_write_data_pdu_header header =
     (let b0 = push_bit 6 (si_val (um_si header) AND 0x03) in
      if um_si header = full_sdu then [b0]
      else (if um_sn_size header = um_size6bits
            then [b0 OR ucast (um_sn header AND 0x3f)]
            else [b0 OR ucast (drop_bit 8 (um_sn header) AND 0xf), ucast (um_sn header AND 0xFF)])
           @ (if um_so header \<noteq> 0
              then [ucast (drop_bit 8 (um_so header)), ucast (um_so header AND 0xFF)] else []))"

section \<open>Lengths and round trip\<close>

lemma packed_length_um: "of_nat (length (rlc_um_nr_write_data_pdu_header h)) = rlc_um_nr_packed_length h"
  by (simp add: rlc_um_nr_write_data_pdu_header_def rlc_um_nr_packed_length_def Let_def)

lemma length_um_header:
  "length (rlc_um_nr_write_data_pdu_header h) =
     (if um_si h = full_sdu then 1
      else (if um_sn_size h = um_size6bits then 1 else 2) + (if um_so h \<noteq> 0 then 2 else 0))"
  by (simp add: rlc_um_nr_write_data_pdu_header_def Let_def)

text \<open>
  Headers as TS 38.322 6.2.2.3 has them: no sequence number on a full SDU, a segment offset on
  the segments that are not the first and only there.
\<close>

definition valid_um_header :: "rlc_um_nr_pdu_header \<Rightarrow> bool" where
  "valid_um_header h \<longleftrightarrow>
     (um_si h = full_sdu \<and> um_sn h = 0 \<and> um_so h = 0 \<or>
      um_si h = first_segment \<and> um_so h = 0 \<or>
      um_si h = last_segment \<and> um_so h \<noteq> 0 \<or>
      um_si h = neither_first_nor_last_segment \<and> um_so h \<noteq> 0) \<and>
     (um_sn_size h = um_size6bits \<and> unat (um_sn h) < 64 \<or>
      um_sn_size h = um_size12bits \<and> unat (um_sn h) < 4096)"

lemma um_si_bits:
  fixes y :: u8
  assumes "s \<noteq> si_nulltype" "take_bit 6 y = y"
  shows "si_of (drop_bit 6 (push_bit 6 (si_val s AND 3) OR y) AND 3) = s"
proof -
  have "drop_bit 6 (push_bit 6 (si_val s AND 3) OR take_bit 6 y) AND 3 = si_val s"
    using si_val_bits [OF assms(1)]
    by (intro bit_word_eqI) (auto simp: bit_simps field_simps_bits bit_eq_iff)
  then show ?thesis using assms by simp
qed

lemma um_low_bits:
  fixes x :: u16
  shows "take_bit 6 (ucast (x AND 0x3f) :: u8) = ucast (x AND 0x3f)"
    "take_bit 6 (ucast (drop_bit 8 x AND 0xf) :: u8) = ucast (drop_bit 8 x AND 0xf)"
    "drop_bit 4 (push_bit 6 s OR ucast (drop_bit 8 x AND 0xf) :: u8) AND 3 = 
       drop_bit 4 (push_bit 6 s) AND 3"
  by (rule bit_word_eqI, auto simp: bit_simps field_simps_bits)+

lemma um_sn_6_bits:
  fixes s :: u8 and x :: u16
  shows "unat x < 64 \<Longrightarrow> ucast ((push_bit 6 s OR ucast (x AND 0x3f)) AND 0x3F :: u8) = x"
  using take_bit_self [of x 6]
  by (intro bit_word_eqI) (auto simp: bit_simps field_simps_bits bit_eq_iff)

lemma um_sn_12_bits:
  fixes s :: u8 and x :: u16
  shows "unat x < 4096 \<Longrightarrow>
    push_bit 8 (ucast ((push_bit 6 s OR ucast (drop_bit 8 x AND 0xf)) AND 0x0F :: u8))
      OR ucast (ucast (x AND 0xFF) AND 0xFF :: u8) = x"
  using take_bit_self [of x 12]
  by (intro bit_word_eqI) (auto simp: bit_simps field_simps_bits bit_eq_iff not_less)

lemma um_so_bits:
  fixes x :: u16
  shows "ucast (push_bit 8 (ucast (ucast (drop_bit 8 x) :: u8) AND 0xFF :: u32))
    OR ucast (ucast (ucast (x AND 0xFF) :: u8) AND 0xFF :: u32) = x"
  by (intro bit_word_eqI) (auto simp: bit_simps field_simps_bits)

lemma um_read_so_written:
  assumes "length pre = n" "um_si h = last_segment \<or> um_si h = neither_first_nor_last_segment \<longleftrightarrow> um_so h \<noteq> 0"
    "um_so h = 0 \<longrightarrow> so0 = 0"
  shows "um_nr_read_so (pre @ (if um_so h \<noteq> 0
           then [ucast (drop_bit 8 (um_so h)), ucast (um_so h AND 0xFF)] else []) @ rest) n
           (h\<lparr>um_so := so0\<rparr>) = Some (n + (if um_so h \<noteq> 0 then 2 else 0), h)"
  using assms um_so_bits [of "um_so h"]
  by (cases h) (auto simp: um_nr_read_so_def simp del: push_bit_and)

lemma read_written_um:
  assumes v: "valid_um_header h" and h0: "um_so h0 = 0"
  shows "rlc_um_nr_read_data_pdu_header (rlc_um_nr_write_data_pdu_header h @ rest) (um_sn_size h) h0
           = Some (length (rlc_um_nr_write_data_pdu_header h), h)"
proof -
  have si: "um_si h \<noteq> si_nulltype" using v by (auto simp: valid_um_header_def)
  have so: "um_si h = last_segment \<or> um_si h = neither_first_nor_last_segment \<longleftrightarrow> um_so h \<noteq> 0"
    using v by (auto simp: valid_um_header_def)
  let ?so = "if um_so h \<noteq> 0 then [ucast (drop_bit 8 (um_so h)), ucast (um_so h AND 0xFF)] else [] :: bytes"
  have h: "h0\<lparr>um_sn_size := um_sn_size h, um_si := um_si h, um_sn := um_sn h\<rparr> = h\<lparr>um_so := um_so h0\<rparr>"
    by simp
  show ?thesis
  proof (cases "um_si h = full_sdu")
    case True
    then have w: "rlc_um_nr_write_data_pdu_header h = [0]" and "um_sn h = 0" "um_so h = 0"
      using v by (auto simp: rlc_um_nr_write_data_pdu_header_def si_val_def valid_um_header_def)
    then show ?thesis
      using v True h0 by (auto simp: w rlc_um_nr_read_data_pdu_header_def um_nr_read_so_def
          si_of_def valid_um_header_def)
  next
    case nf: False
    show ?thesis
    proof (cases "um_sn_size h = um_size6bits")
      case True
      let ?b0 = "push_bit 6 (si_val (um_si h) AND 3) OR ucast (um_sn h AND 0x3f) :: u8"
      have w: "rlc_um_nr_write_data_pdu_header h = [?b0] @ ?so"
        using True nf by (simp add: rlc_um_nr_write_data_pdu_header_def)
      have "si_of (drop_bit 6 ?b0 AND 3) = um_si h" by (rule um_si_bits [OF si um_low_bits(1)])
      moreover have "ucast (?b0 AND 0x3F) = um_sn h"
        using v True by (intro um_sn_6_bits) (auto simp: valid_um_header_def)
      moreover have "um_nr_read_so ([?b0] @ ?so @ rest) 1
          (h0\<lparr>um_sn_size := um_size6bits, um_si := um_si h, um_sn := um_sn h\<rparr>) =
          Some (1 + (if um_so h \<noteq> 0 then 2 else 0), h)"
        unfolding h [unfolded True] by (rule um_read_so_written) (use so h0 in auto)
      ultimately show ?thesis
        using True nf unfolding w append_assoc
        by (simp add: rlc_um_nr_read_data_pdu_header_def Let_def del: push_bit_and word_bw_comms)
    next
      case False
      let ?b0 = "push_bit 6 (si_val (um_si h) AND 3) OR ucast (drop_bit 8 (um_sn h) AND 0xf) :: u8"
      let ?b1 = "ucast (um_sn h AND 0xFF) :: u8"
      have w: "rlc_um_nr_write_data_pdu_header h = [?b0, ?b1] @ ?so"
        using False nf by (simp add: rlc_um_nr_write_data_pdu_header_def)
      have 1: "si_of (drop_bit 6 ?b0 AND 3) = um_si h" by (rule um_si_bits [OF si um_low_bits(2)])
      have 2: "push_bit 8 (ucast (?b0 AND 0x0F)) OR ucast (?b1 AND 0xFF) = um_sn h"
        using v False by (intro um_sn_12_bits) (auto simp: valid_um_header_def)
      have z: "um_sn_size h = um_size12bits" using v False by (auto simp: valid_um_header_def)
      have 3: "um_nr_read_so ([?b0, ?b1] @ ?so @ rest) 2
          (h0\<lparr>um_sn_size := um_size12bits, um_si := um_si h, um_sn := um_sn h\<rparr>) =
          Some (2 + (if um_so h \<noteq> 0 then 2 else 0), h)"
        unfolding h [unfolded z] by (rule um_read_so_written) (use so h0 in auto)
      have 4: "um_si h = first_segment \<Longrightarrow> drop_bit 4 ?b0 AND 3 = 0"
        unfolding um_low_bits(3) by (simp add: si_val_def)
      show ?thesis
        using False nf z 1 2 3 4 unfolding w append_assoc
        by (simp add: rlc_um_nr_read_data_pdu_header_def Let_def del: push_bit_and)
    qed
  qed
qed

text \<open>Whatever is read, malformed or not, the sequence number fits its field.\<close>

lemma um_sn_6_bound: "unat (ucast ((b :: u8) AND 0x3F) :: u16) < 64"
proof -
  have "take_bit 6 (ucast (b AND 0x3F) :: u16) = ucast (b AND 0x3F)"
    by (rule bit_word_eqI) (auto simp: bit_simps field_simps_bits)
  from take_bit_selfD [OF this] show ?thesis by simp
qed

lemma um_sn_12_bound:
  "unat (push_bit 8 (ucast ((b :: u8) AND 0x0F)) :: u16) < 4096"
  "unat (push_bit 8 (ucast ((b :: u8) AND 0x0F)) OR ucast ((c :: u8) AND 0xFF) :: u16) < 4096"
proof -
  have "take_bit 12 (push_bit 8 (ucast (b AND 0x0F)) :: u16) = push_bit 8 (ucast (b AND 0x0F))"
    by (rule bit_word_eqI) (auto simp: bit_simps field_simps_bits)
  from take_bit_selfD [OF this] show "unat (push_bit 8 (ucast (b AND 0x0F)) :: u16) < 4096" by simp
  have "take_bit 12 (push_bit 8 (ucast (b AND 0x0F)) OR ucast (c AND 0xFF) :: u16) =
      push_bit 8 (ucast (b AND 0x0F)) OR ucast (c AND 0xFF)"
    by (rule bit_word_eqI) (auto simp: bit_simps field_simps_bits)
  from take_bit_selfD [OF this]
  show "unat (push_bit 8 (ucast (b AND 0x0F)) OR ucast (c AND 0xFF) :: u16) < 4096" by simp
qed

lemma um_read_so_sn: "um_nr_read_so p n h = Some (m, h') \<Longrightarrow> um_sn h' = um_sn h"
  by (auto simp: um_nr_read_so_def Option.bind_eq_Some_conv split: if_splits)

lemma um_read_sn_bound:
  assumes "rlc_um_nr_read_data_pdu_header p sz h0 = Some (n, h)"
  shows "sz = um_size6bits \<Longrightarrow> unat (um_sn h) < 64"
    and "sz = um_size12bits \<Longrightarrow> unat (um_sn h) < 4096"
  using assms um_sn_6_bound um_sn_12_bound
  by (auto simp: rlc_um_nr_read_data_pdu_header_def Let_def Option.bind_eq_Some_conv
      dest!: um_read_so_sn split: if_splits)

section \<open>Properties\<close>

text \<open>
  C24. A UM data PDU header read back is the header that was written; the writer writes exactly the
  number of bytes \<open>rlc_um_nr_packed_length\<close> gives and the reader consumes them, whatever follows.
\<close>

theorem um_header_round_trip:
  assumes "valid_um_header h" "um_so h0 = 0"
  shows "rlc_um_nr_read_data_pdu_header (rlc_um_nr_write_data_pdu_header h @ rest) (um_sn_size h) h0
      = Some (unat (rlc_um_nr_packed_length h), h) \<and>
    length (rlc_um_nr_write_data_pdu_header h) = unat (rlc_um_nr_packed_length h)"
  using read_written_um [OF assms] by (simp add: rlc_um_nr_packed_length_def rlc_um_nr_write_data_pdu_header_def)

theorem um_header_round_trip_witness:
  "let h = \<lparr>um_si = last_segment, um_sn_size = um_size12bits, um_sn = 2748, um_so = 300\<rparr>
   in rlc_um_nr_read_data_pdu_header (rlc_um_nr_write_data_pdu_header h @ [1, 2]) um_size12bits um_header_0
        = Some (4, h)"
  unfolding Let_def
  using um_header_round_trip [of "\<lparr>um_si = last_segment, um_sn_size = um_size12bits, um_sn = 2748, um_so = 300\<rparr>" um_header_0]
  by (simp add: valid_um_header_def um_header_0_def rlc_um_nr_packed_length_def)

end
