(* ===== verification/UmNrTx.thy ===== *)
theory UmNrTx
  imports UmBase UmNrPacking
begin

text \<open>
  The transmitter of the RLC UM NR entity (\<^verbatim>\<open>rlc/rlc_um_nr.cc\<close>, \<^verbatim>\<open>rlc_um_nr_tx\<close>): SDUs
  are taken from the queue one after the other and cut into PDUs that fit the grants of the
  MAC.  The record extends the base class's; \<^verbatim>\<open>cfg\<close> is represented by the two fields that are
  read, \<^verbatim>\<open>um_nr.sn_field_length\<close> and \<^verbatim>\<open>um.is_mrb\<close>.
\<close>

record rlc_um_nr_tx = rlc_um_base_tx +
  tx_sn_field_length :: rlc_um_nr_sn_size
  tx_is_mrb :: bool
  TX_Next :: u32
  next_so :: u32
  tx_window_size :: u32
  tx_mod :: u32
  head_len_first :: u32
  head_len_segment :: u32

definition head_len_full :: u32 where "head_len_full = 1"

text \<open>
  \<open>configure\<close> on a new transmitter, whose queue has the default capacity; \<open>grow\<close> is that of
  \<open>cb_set_size\<close>.  The header whose length is taken keeps the first enumerator
  in \<^verbatim>\<open>sn_size\<close>, whatever the configured length of the sequence number is.
\<close>

definition um_nr_mod :: "rlc_um_nr_sn_size \<Rightarrow> u32" where
  "um_nr_mod sz = (if sz = um_size6bits then 64 else 4096)"

definition um_nr_window_size :: "rlc_um_nr_sn_size \<Rightarrow> u32" where
  "um_nr_window_size sz = (if sz = um_size6bits then 32 else 2048)"

definition um_nr_tx_configure ::
  "(nat \<Rightarrow> nat \<Rightarrow> nat) \<Rightarrow> rlc_um_nr_sn_size \<Rightarrow> bool \<Rightarrow> nat \<Rightarrow> rlc_um_nr_tx outcome" where
  "um_nr_tx_configure grow sn_field_length is_mrb tx_queue_length =
     (let header = um_header_0\<lparr>um_si := first_segment, um_so := 0\<rparr>;
          len_first = rlc_um_nr_packed_length header;
          header = header\<lparr>um_so := 1\<rparr>;
          len_segment = rlc_um_nr_packed_length header
      in bind_outcome (outcome_of (bbq_resize grow tx_queue_length (byte_buffer_queue 128))) (\<lambda>q.
         Ret \<lparr>tx_sdu_queue = q, tx_sdu = None,
          tx_sn_field_length = sn_field_length, tx_is_mrb = is_mrb, TX_Next = 0, next_so = 0,
          tx_window_size = um_nr_window_size sn_field_length, tx_mod = um_nr_mod sn_field_length,
          head_len_first = len_first, head_len_segment = len_segment\<rparr>))"

definition um_nr_tx_reset :: "rlc_um_nr_tx \<Rightarrow> rlc_um_nr_tx" where
  "um_nr_tx_reset tx = tx\<lparr>TX_Next := 0, next_so := 0\<rparr>"

text \<open>
  \<open>n_bytes += ((n_sdus - 1) * 1.5) + 0.5\<close> is computed in double precision and truncated; the
  conversion of a value that does not fit is undefined.
\<close>

definition um_nr_tx_get_buffer_state :: "rlc_um_nr_tx \<Rightarrow> u32 outcome" where
  "um_nr_tx_get_buffer_state tx =
     (let q = tx_sdu_queue tx;
          (n_sdus, n_bytes) = (case tx_sdu tx of
              None \<Rightarrow> (bbq_get_n_sdus q, bbq_size_bytes q)
            | Some sdu \<Rightarrow> (bbq_get_n_sdus q + 1, bbq_size_bytes q + of_nat (N_bytes sdu)));
          n = (if 1 < n_sdus then (2 * unat n_bytes + 3 * unat (n_sdus - 1) + 1) div 2 else unat n_bytes)
      in if 2 ^ 32 \<le> n then Undef
         else let n_bytes = (of_nat n :: u32) in
              Ret (if 0 < n_bytes then n_bytes + (if tx_is_mrb tx then 2 else 3) else n_bytes))"

text \<open>The loop that skips the discarded SDUs; the fuel bounds the number of reads.\<close>

fun um_nr_next_sdu :: "nat \<Rightarrow> byte_buffer_queue \<Rightarrow> (byte_buffer option \<times> byte_buffer_queue) outcome" where
  "um_nr_next_sdu n q =
     bind_outcome (um_queue_read q) (\<lambda>(sdu, q').
       if sdu = None \<and> bbq_size q' \<noteq> 0
       then (case n of 0 \<Rightarrow> Hang | Suc k \<Rightarrow> um_nr_next_sdu k q')
       else Ret (sdu, q'))"

declare um_nr_next_sdu.simps [simp del]

text \<open>Select segmentation information: \<open>None\<close> when the queue held no SDU.\<close>

definition um_nr_select ::
  "u32 \<Rightarrow> rlc_um_nr_tx \<Rightarrow> (rlc_nr_si_field option \<times> rlc_um_nr_tx) outcome" where
  "um_nr_select pdu_space tx =
     (case tx_sdu tx of
        None \<Rightarrow>
          bind_outcome (um_nr_next_sdu (bbq_size (tx_sdu_queue tx)) (tx_sdu_queue tx)) (\<lambda>(x, q).
            let tx = tx\<lparr>tx_sdu_queue := q, tx_sdu := x\<rparr> in
            case x of
              None \<Rightarrow> Ret (None, tx)
            | Some sdu \<Rightarrow>
                Ret (Some (if of_nat (N_bytes sdu) \<le> pdu_space - head_len_full
                           then full_sdu else first_segment), tx\<lparr>next_so := 0\<rparr>))
      | Some sdu \<Rightarrow>
          Ret (Some (if of_nat (N_bytes sdu) \<le> pdu_space - head_len_segment tx
                     then last_segment else neither_first_nor_last_segment), tx))"

text \<open>Move data from the SDU to the PDU and put the header in front.\<close>

definition um_nr_fill ::
  "byte_buffer \<Rightarrow> u32 \<Rightarrow> u32 \<Rightarrow> rlc_um_nr_pdu_header \<Rightarrow> byte_buffer \<Rightarrow> rlc_um_nr_tx
     \<Rightarrow> (bytes \<times> rlc_um_nr_tx) outcome" where
  "um_nr_fill pdu nof_bytes pdu_space header sdu tx =
     (let head_len = rlc_um_nr_packed_length header in
      if pdu_space \<le> head_len + 1 then Ret ([], tx)
      else
        let space = pdu_space - head_len;
            to_move = (if of_nat (N_bytes sdu) \<le> space then N_bytes sdu else unat space);
            sdu' = sdu\<lparr>headroom := headroom sdu + to_move, data := drop to_move (data sdu)\<rparr>;
            tx = tx\<lparr>tx_sdu := (if N_bytes sdu' = 0 then None else Some sdu'),
                    next_so := next_so tx + of_nat to_move\<rparr>;
            tx = (if um_si header = last_segment
                  then tx\<lparr>TX_Next := (TX_Next tx + 1) mod tx_mod tx, next_so := 0\<rparr> else tx)
        in bind_outcome (outcome_of (append_bytes (take to_move (data sdu)) pdu)) (\<lambda>pdu.
           bind_outcome (outcome_of (prepend_bytes (rlc_um_nr_write_data_pdu_header header) pdu)) (\<lambda>pdu.
             if unat nof_bytes < N_bytes pdu then Undef else Ret (data pdu, tx))))"

definition um_nr_tx_build_data_pdu ::
  "byte_buffer \<Rightarrow> u32 \<Rightarrow> rlc_um_nr_tx \<Rightarrow> (bytes \<times> rlc_um_nr_tx) outcome" where
  "um_nr_tx_build_data_pdu pdu nof_bytes tx =
     (if nof_bytes < 2 then Ret ([], tx)
      else
        let pdu_space = min nof_bytes (of_nat (get_tailroom pdu)) in
        bind_outcome (um_nr_select pdu_space tx) (\<lambda>(si, tx).
          case (si, tx_sdu tx) of
            (Some s, Some sdu) \<Rightarrow>
              um_nr_fill pdu nof_bytes pdu_space
                \<lparr>um_si = s, um_sn_size = tx_sn_field_length tx, um_sn = ucast (TX_Next tx),
                 um_so = ucast (next_so tx)\<rparr> sdu tx
          | _ \<Rightarrow> Ret ([], tx)))"

text \<open>The virtual call of the base class, and the entity's \<open>read_pdu\<close>.\<close>

definition um_nr_build :: "bool \<Rightarrow> u32 \<Rightarrow> rlc_um_nr_tx \<Rightarrow> (bytes \<times> rlc_um_nr_tx) outcome" where
  "um_nr_build mem = um_tx_build_data_pdu um_nr_tx_build_data_pdu mem"

section \<open>Building returns\<close>

text \<open>
  The transmitter's invariant: the configuration, a queue in order, SDUs inside their buffers,
  and an SDU in work that is short enough for the segment offset.
\<close>

definition tx_ok :: "rlc_um_nr_tx \<Rightarrow> bool" where
  "tx_ok tx \<longleftrightarrow> bbq_ok (tx_sdu_queue tx) \<and> head_len_segment tx = 3 \<and>
     (tx_sn_field_length tx = um_size6bits \<and> tx_mod tx = 64 \<or>
      tx_sn_field_length tx = um_size12bits \<and> tx_mod tx = 4096) \<and>
     TX_Next tx < tx_mod tx \<and>
     (\<forall>b. tx_sdu tx = Some b \<longrightarrow> wf_buffer b)"

lemma um_nr_tx_configure_ok:
  assumes "sz \<noteq> um_nulltype" "128 < n \<longrightarrow> n \<le> grow 128 n" "bbq_configured grow n \<le> bbq_lim"
  shows "\<exists>tx. um_nr_tx_configure grow sz mrb n = Ret tx \<and> tx_ok tx \<and> tx_sn_field_length tx = sz \<and>
    tx_sdu tx = None \<and> TX_Next tx = 0 \<and> queued (tx_sdu_queue tx) = [] \<and>
    bbq_capacity (tx_sdu_queue tx) = bbq_configured grow n"
proof -
  have "0 < bbq_configured grow n" using assms(2) by (auto simp: bbq_configured_def)
  then have "bbq_ok (byte_buffer_queue (bbq_configured grow n))" using assms(3) by (rule bbq_ok_new)
  then show ?thesis
    using assms(1) bbq_resize_new [of n grow, OF assms(2)]
    by (cases sz) (simp_all add: tx_ok_def um_nr_tx_configure_def um_nr_mod_def Let_def
        rlc_um_nr_packed_length_def um_header_0_def byte_buffer_queue_def cb_contents_static max_size_static)
qed

lemma um_nr_next_sdu_ok:
  assumes "bbq_ok q" "queued q \<noteq> []" "length (queued q) \<le> Suc n"
  shows "\<exists>x q'. um_nr_next_sdu n q = Ret (x, q') \<and> bbq_ok q' \<and> bbq_capacity q' = bbq_capacity q \<and>
    (case dropWhile (\<lambda>y. y = None) (queued q) of
       [] \<Rightarrow> x = None \<and> queued q' = []
     | y # ys \<Rightarrow> x = y \<and> queued q' = ys)"
  using assms
proof (induction n arbitrary: q)
  case 0
  then obtain x where x: "queued q = [x]" by (cases "queued q") auto
  obtain q' where "um_queue_read q = Ret (x, q')" "bbq_ok q'" "queued q' = []"
    "bbq_capacity q' = bbq_capacity q"
    using um_queue_read_ok [OF 0(1) x] by blast
  then show ?case using bbq_size_eq [of q'] by (simp add: um_nr_next_sdu.simps x)
next
  case (Suc n)
  then obtain x xs where x: "queued q = x # xs" by (cases "queued q") auto
  obtain q' where q': "um_queue_read q = Ret (x, q')" "bbq_ok q'" "queued q' = xs"
    "bbq_capacity q' = bbq_capacity q"
    using um_queue_read_ok [OF Suc.prems(1) x] by blast
  show ?case
  proof (cases "x = None \<and> xs \<noteq> []")
    case True
    then show ?thesis
      using q' Suc.IH [of q'] Suc.prems(3) bbq_size_eq [of q']
      by (simp add: um_nr_next_sdu.simps [of "Suc n"] x)
  next
    case False
    then show ?thesis
      using q' bbq_size_eq [of q'] by (auto simp: um_nr_next_sdu.simps [of "Suc n"] x)
  qed
qed

lemma queued_wf: "bbq_ok q \<Longrightarrow> Some b \<in> set (queued q) \<Longrightarrow> wf_buffer b"
  using bbq_okD(3) [of q] by (force simp: counters_ok_def sdus_def)

lemma packed_length_le: "unat (rlc_um_nr_packed_length h) \<le> 4"
  by (simp add: rlc_um_nr_packed_length_def)

lemma tailroom_fresh: "get_tailroom fresh_buffer = 12237"
  by (simp add: get_tailroom_def fresh_buffer_def buffer_sizes)

text \<open>The space for a PDU in a fresh buffer.\<close>

abbreviation pdu_space_of :: "u32 \<Rightarrow> u32" where
  "pdu_space_of nof_bytes \<equiv> min nof_bytes (of_nat (get_tailroom fresh_buffer))"

lemma unat_pdu_space: "unat (pdu_space_of n) = min (unat n) 12237"
  by (simp add: tailroom_fresh min_def word_le_nat_alt)

text \<open>What \<open>um_nr_fill\<close> does, in natural numbers.\<close>

lemma um_nr_fill_small:
  assumes "unat pdu_space \<le> length (rlc_um_nr_write_data_pdu_header h) + 1"
  shows "um_nr_fill pdu n pdu_space h sdu tx = Ret ([], tx)"
proof -
  have "pdu_space \<le> rlc_um_nr_packed_length h + 1"
    using assms packed_length_le [of h] unfolding packed_length_um [symmetric]
    by (simp add: word_le_nat_alt unat_word_ariths unat_of_nat length_um_header)
  then show ?thesis by (simp add: um_nr_fill_def)
qed

definition filled :: "rlc_um_nr_pdu_header \<Rightarrow> nat \<Rightarrow> byte_buffer \<Rightarrow> rlc_um_nr_tx \<Rightarrow> rlc_um_nr_tx" where
  "filled h m sdu tx =
     (let tx = tx\<lparr>tx_sdu := (if N_bytes sdu \<le> m then None
                    else Some (sdu\<lparr>headroom := headroom sdu + m, data := drop m (data sdu)\<rparr>)),
                 next_so := next_so tx + of_nat m\<rparr>
      in if um_si h = last_segment
         then tx\<lparr>TX_Next := (TX_Next tx + 1) mod tx_mod tx, next_so := 0\<rparr> else tx)"

lemma um_nr_fill_ok:
  fixes h :: rlc_um_nr_pdu_header and sdu :: byte_buffer and n :: u32
  defines "hdr \<equiv> rlc_um_nr_write_data_pdu_header h"
  defines "m \<equiv> min (N_bytes sdu) (unat (pdu_space_of n) - length hdr)"
  assumes "wf_buffer sdu" "length hdr + 1 < unat (pdu_space_of n)"
  shows "um_nr_fill fresh_buffer n (pdu_space_of n) h sdu tx =
    Ret (hdr @ take m (data sdu), filled h m sdu tx)"
proof -
  let ?s = "pdu_space_of n" and ?l = "rlc_um_nr_packed_length h"
  have s: "unat ?s \<le> 12237" by (simp add: unat_pdu_space)
  have l: "unat ?l = length hdr" "length hdr \<le> 4"
    using packed_length_le [of h] unfolding hdr_def packed_length_um [symmetric]
    by (simp_all add: length_um_header)
  have N: "N_bytes sdu \<le> 13257" using wf_N_bytes [OF assms(3)] .
  have big: "\<not> ?s \<le> ?l + 1"
    using assms(4) l by (simp add: word_le_nat_alt unat_word_ariths)
  have sp: "unat (?s - ?l) = unat ?s - length hdr"
    using assms(4) l by (simp add: unat_sub word_le_nat_alt)
  have mv: "(if of_nat (N_bytes sdu) \<le> ?s - ?l then N_bytes sdu else unat (?s - ?l)) = m"
    using N sp by (auto simp: m_def word_le_nat_alt unat_of_nat take_bit_nat_eq_self)
  have fit: "m + length hdr \<le> unat ?s" using assms(4) by (simp add: m_def)
  have app: "append_bytes (take m (data sdu)) fresh_buffer =
      Some (fresh_buffer\<lparr>data := take m (data sdu)\<rparr>)"
    using fit s by (simp add: append_bytes_def tailroom_fresh) (simp add: fresh_buffer_def)
  have pre: "prepend_bytes hdr (fresh_buffer\<lparr>data := take m (data sdu)\<rparr>) =
      Some \<lparr>headroom = 1020 - length hdr, data = hdr @ take m (data sdu), pdcp_sn = 0\<rparr>"
    using l by (simp add: prepend_bytes_def fresh_buffer_def buffer_sizes)
  have fits: "\<not> unat n < length hdr + min (N_bytes sdu) m"
    using fit unfolding unat_pdu_space by linarith
  show ?thesis
    using big app pre fits
    by (simp add: um_nr_fill_def Let_def mv hdr_def [symmetric] filled_def)
qed

lemma wf_drop: "wf_buffer b \<Longrightarrow> m \<le> N_bytes b \<Longrightarrow> wf_buffer (b\<lparr>headroom := headroom b + m, data := drop m (data b)\<rparr>)"
  by (simp add: wf_buffer_def)

lemma tx_ok_filled:
  assumes "tx_ok tx" "wf_buffer sdu" "m \<le> N_bytes sdu"
  shows "tx_ok (filled h m sdu tx)"
proof -
  have "(TX_Next tx + 1) mod tx_mod tx < tx_mod tx"
    using assms(1) by (intro word_mod_less_divisor) (auto simp: tx_ok_def)
  then show ?thesis
    using assms wf_drop [OF assms(2,3)] by (auto simp: tx_ok_def filled_def Let_def)
qed

lemma um_nr_fill_total:
  assumes "tx_ok tx" "wf_buffer sdu"
  shows "\<exists>payload tx'. um_nr_fill fresh_buffer n (pdu_space_of n) h sdu tx = Ret (payload, tx') \<and>
    tx_ok tx' \<and> length payload \<le> unat n"
proof (cases "unat (pdu_space_of n) \<le> length (rlc_um_nr_write_data_pdu_header h) + 1")
  case True
  then show ?thesis using um_nr_fill_small assms(1) by auto
next
  case False
  then have "length (rlc_um_nr_write_data_pdu_header h) + 1 < unat (pdu_space_of n)" by simp
  note f = um_nr_fill_ok [OF assms(2) this, of tx]
  have "a + min b (unat (pdu_space_of n) - a) \<le> unat n" if "a \<le> unat (pdu_space_of n)" for a b
    using that unfolding unat_pdu_space by linarith
  then show ?thesis
    unfolding f using tx_ok_filled [OF assms] False by (simp del: min_less_iff_conj)
qed

lemma dropWhile_mem: "dropWhile P xs = y # ys \<Longrightarrow> y \<in> set xs \<and> \<not> P y"
  by (metis dropWhile_eq_Cons_conv list.set_intros(1) set_dropWhileD)

lemma um_nr_build_total:
  assumes ok: "tx_ok tx"
  shows "\<exists>payload tx'. um_nr_build mem n tx = Ret (payload, tx') \<and> tx_ok tx' \<and>
    length payload \<le> unat n"
proof (cases "tx_sdu tx")
  case (Some sdu)
  have "wf_buffer sdu" using ok Some by (simp add: tx_ok_def)
  with Some ok um_nr_fill_total [OF ok] show ?thesis
    by (auto simp: um_nr_build_def um_tx_build_data_pdu_def um_nr_tx_build_data_pdu_def um_nr_select_def Let_def)
next
  case None
  have q: "bbq_ok (tx_sdu_queue tx)" using ok by (simp add: tx_ok_def)
  show ?thesis
  proof (cases "queued (tx_sdu_queue tx) = []")
    case True
    then show ?thesis using None ok
      by (auto simp: um_nr_build_def um_tx_build_data_pdu_def bbq_is_empty_iff)
  next
    case False
    have "length (queued (tx_sdu_queue tx)) \<le> Suc (bbq_size (tx_sdu_queue tx))" by (simp add: bbq_size_eq)
    from um_nr_next_sdu_ok [OF q False this] obtain x q' where
      r: "um_nr_next_sdu (bbq_size (tx_sdu_queue tx)) (tx_sdu_queue tx) = Ret (x, q')" "bbq_ok q'"
      and d: "case dropWhile (\<lambda>y. y = None) (queued (tx_sdu_queue tx)) of
        [] \<Rightarrow> x = None \<and> queued q' = [] | y # ys \<Rightarrow> x = y \<and> queued q' = ys" by blast
    have x: "Some b \<in> set (queued (tx_sdu_queue tx))" if "x = Some b" for b
      using d that by (auto split: list.splits dest: dropWhile_mem)
    show ?thesis
    proof (cases x)
      case xN: None
      then show ?thesis using None r ok
        by (auto simp: um_nr_build_def um_tx_build_data_pdu_def um_nr_tx_build_data_pdu_def
            um_nr_select_def Let_def tx_ok_def)
    next
      case (Some sdu)
      have w: "wf_buffer sdu" using queued_wf [OF q] x Some by simp
      have "tx_ok (tx\<lparr>tx_sdu_queue := q', tx_sdu := Some sdu, next_so := 0\<rparr>)"
        using ok r(2) w by (simp add: tx_ok_def)
      from um_nr_fill_total [OF this w] show ?thesis using None r ok Some
        by (auto simp: um_nr_build_def um_tx_build_data_pdu_def um_nr_tx_build_data_pdu_def
            um_nr_select_def Let_def)
    qed
  qed
qed

interpretation um_nr: um_transmitter "um_nr_build mem" tx_ok for mem
  by unfold_locales (rule um_nr_build_total)

section \<open>Properties\<close>

text \<open>
  C15. A MAC opportunity always returns, whatever its size and whether or not a buffer can be
  allocated: it writes no more bytes than were granted, counts them and the PDU in the metrics, and
  leaves the transmitter in order.
\<close>

theorem um_nr_read_pdu_total:
  assumes "pred_option tx_ok (um_tx e)"
  shows "\<exists>payload e'. um_read_pdu (um_nr_build mem) nof_bytes e = Ret (payload, e') \<and>
    pred_option tx_ok (um_tx e') \<and> length payload \<le> unat nof_bytes \<and>
    num_tx_pdu_bytes (metrics e') = num_tx_pdu_bytes (metrics e) + of_nat (length payload) \<and>
    num_tx_pdus (metrics e') = num_tx_pdus (metrics e) + (if payload = [] then 0 else 1) \<and>
    um_rx e' = um_rx e"
  using um_nr.read_pdu_total [OF assms, of mem nof_bytes] by blast

theorem um_nr_read_pdu_total_witness:
  "\<exists>tx payload e'. um_nr_tx_configure (\<lambda>_ sz. sz) um_size12bits False 200 = Ret tx \<and>
     um_read_pdu (um_nr_build True) 10
       \<lparr>um_tx = Some tx, um_rx = None :: unit option, tx_enabled = True, rx_enabled = True, metrics = rlc_bearer_metrics_0\<rparr>
     = Ret (payload, e') \<and> length payload \<le> 10"
proof -
  obtain tx where tx: "um_nr_tx_configure (\<lambda>_ sz. sz) um_size12bits False 200 = Ret tx" "tx_ok tx"
    using um_nr_tx_configure_ok [of um_size12bits 200 "\<lambda>_ sz. sz" False]
    by (auto simp: bbq_configured_def bbq_lim_def)
  then show ?thesis
    using um_nr_read_pdu_total [of "\<lparr>um_tx = Some tx, um_rx = None :: unit option, tx_enabled = True,
        rx_enabled = True, metrics = rlc_bearer_metrics_0\<rparr>" True 10] by auto
qed

text \<open>
  C25. Writing an SDU to an enabled bearer: with room in the queue it is appended and counted as
  transmitted; with none it is dropped and counted as lost.  Nothing else changes.
\<close>

theorem um_write_sdu_counts:
  assumes "um_tx e = Some (tx :: rlc_um_nr_tx)" "tx_enabled e" "tx_ok tx" "wf_buffer b"
  shows "\<exists>e' q. um_write_sdu um_tx_try_write_sdu (Some b) e = Ret e' \<and>
    um_tx e' = Some (tx\<lparr>tx_sdu_queue := q\<rparr>) \<and> bbq_ok q \<and>
    (if bbq_is_full (tx_sdu_queue tx)
     then q = tx_sdu_queue tx \<and>
       metrics e' = (metrics e)\<lparr>num_lost_sdus := num_lost_sdus (metrics e) + 1\<rparr>
     else queued q = queued (tx_sdu_queue tx) @ [Some b] \<and>
       metrics e' = (metrics e)\<lparr>num_tx_sdus := num_tx_sdus (metrics e) + 1,
         num_tx_sdu_bytes := num_tx_sdu_bytes (metrics e) + of_nat (N_bytes b)\<rparr>)"
proof (cases "bbq_is_full (tx_sdu_queue tx)")
  case True
  have ok: "bbq_ok (tx_sdu_queue tx)" using assms(3) by (simp add: tx_ok_def)
  have "um_tx_try_write_sdu (Some b) tx = Ret (False, tx)"
    using um_tx_try_write_full [OF ok, of b] True by (simp add: bbq_is_full_iff)
  then show ?thesis using assms(1,2) ok True by (auto simp: um_write_sdu_def Let_def)
next
  case False
  have ok: "bbq_ok (tx_sdu_queue tx)" using assms(3) by (simp add: tx_ok_def)
  have "length (queued (tx_sdu_queue tx)) \<le> bbq_capacity (tx_sdu_queue tx)"
    by (rule bbq.length_abs) (use bbq_okD(2) [OF ok] in simp)
  then have r: "length (queued (tx_sdu_queue tx)) < bbq_capacity (tx_sdu_queue tx)"
    using False unfolding bbq_is_full_iff by simp
  obtain q where q: "um_tx_try_write_sdu (Some b) tx = Ret (True, tx\<lparr>tx_sdu_queue := q\<rparr>)" "bbq_ok q"
    "queued q = queued (tx_sdu_queue tx) @ [Some b]"
    using um_tx_try_write_room [OF ok assms(4) r] by blast
  then show ?thesis using assms(1,2) False by (auto simp: um_write_sdu_def Let_def)
qed

theorem um_write_sdu_counts_witness:
  "\<exists>tx e'. um_nr_tx_configure (\<lambda>_ sz. sz) um_size12bits False 200 = Ret tx \<and>
     um_write_sdu um_tx_try_write_sdu (Some fresh_buffer)
       \<lparr>um_tx = Some tx, um_rx = None :: unit option, tx_enabled = True, rx_enabled = True, metrics = rlc_bearer_metrics_0\<rparr>
     = Ret e' \<and> (num_tx_sdus (metrics e') = 1 \<or> num_lost_sdus (metrics e') = 1)"
proof -
  obtain tx where tx: "um_nr_tx_configure (\<lambda>_ sz. sz) um_size12bits False 200 = Ret tx" "tx_ok tx"
    using um_nr_tx_configure_ok [of um_size12bits 200 "\<lambda>_ sz. sz" False]
    by (auto simp: bbq_configured_def bbq_lim_def)
  let ?e = "\<lparr>um_tx = Some tx, um_rx = None :: unit option, tx_enabled = True, rx_enabled = True, metrics = rlc_bearer_metrics_0\<rparr>"
  show ?thesis
    using um_write_sdu_counts [of ?e tx fresh_buffer] tx
    by (cases "bbq_is_full (tx_sdu_queue tx)") (auto simp: rlc_bearer_metrics_0_def)
qed

text \<open>
  C26. Discarding by PDCP sequence number: every queued SDU that carries it becomes an empty entry
  and all others stay as they are, in order; but when the queue is full nothing is discarded.  The
  bearer counts one lost SDU in either case, however many were discarded, and the result that is
  logged is always "Couldn't discard".
\<close>

theorem um_discard_sdu_counts:
  assumes "um_tx e = Some (tx :: rlc_um_nr_tx)" "tx_enabled e" "tx_ok tx"
  shows "\<exists>q. um_tx_discard_sdu sn tx = Ret (False, tx\<lparr>tx_sdu_queue := q\<rparr>) \<and> bbq_ok q \<and>
    queued q = (if bbq_is_full (tx_sdu_queue tx) then queued (tx_sdu_queue tx)
                else map (\<lambda>x. case x of Some b \<Rightarrow> if pdcp_sn b = sn then None else x | None \<Rightarrow> None)
                       (queued (tx_sdu_queue tx))) \<and>
    um_discard_sdu um_tx_discard_sdu sn e =
      Ret (e\<lparr>um_tx := Some (tx\<lparr>tx_sdu_queue := q\<rparr>),
             metrics := (metrics e)\<lparr>num_lost_sdus := num_lost_sdus (metrics e) + 1\<rparr>\<rparr>)"
proof (cases "bbq_is_full (tx_sdu_queue tx)")
  case True
  have ok: "bbq_ok (tx_sdu_queue tx)" using assms(3) by (simp add: tx_ok_def)
  have "um_tx_discard_sdu sn tx = Ret (False, tx)" using um_tx_discard_full [OF ok True] .
  then show ?thesis using assms(1,2) ok True
    by (intro exI [of _ "tx_sdu_queue tx"]) (simp add: um_discard_sdu_def)
next
  case False
  have ok: "bbq_ok (tx_sdu_queue tx)" using assms(3) by (simp add: tx_ok_def)
  obtain q where "um_tx_discard_sdu sn tx = Ret (False, tx\<lparr>tx_sdu_queue := q\<rparr>)" "bbq_ok q"
    "queued q = map (discard_one sn) (queued (tx_sdu_queue tx))"
    using um_tx_discard_not_full [OF ok False] by blast
  then show ?thesis using assms(1,2) False
    by (intro exI [of _ q]) (simp add: um_discard_sdu_def discard_one_def [abs_def])
qed

theorem um_discard_sdu_counts_witness:
  "\<exists>tx e'. um_nr_tx_configure (\<lambda>_ sz. sz) um_size12bits False 200 = Ret tx \<and>
     um_discard_sdu um_tx_discard_sdu 7
       \<lparr>um_tx = Some tx, um_rx = None :: unit option, tx_enabled = True, rx_enabled = True, metrics = rlc_bearer_metrics_0\<rparr>
     = Ret e' \<and> num_lost_sdus (metrics e') = 1"
proof -
  obtain tx where tx: "um_nr_tx_configure (\<lambda>_ sz. sz) um_size12bits False 200 = Ret tx" "tx_ok tx"
    using um_nr_tx_configure_ok [of um_size12bits 200 "\<lambda>_ sz. sz" False]
    by (auto simp: bbq_configured_def bbq_lim_def)
  let ?e = "\<lparr>um_tx = Some tx, um_rx = None :: unit option, tx_enabled = True, rx_enabled = True, metrics = rlc_bearer_metrics_0\<rparr>"
  show ?thesis
    using um_discard_sdu_counts [of ?e tx 7] tx by (auto simp: rlc_bearer_metrics_0_def)
qed

end
