(* ===== verification/StdMap.thy ===== *)
theory StdMap
  imports Prelude
begin

text \<open>
  \<^verbatim>\<open>std::map\<close>: an association list in the ascending order of the keys, which is the order
  the code iterates in.  The laws of the operations are the locale \<open>ordered_map\<close>; every
  component that keeps a \<^verbatim>\<open>std::map\<close> uses them through the interpretation below.
\<close>

type_synonym ('k, 'v) std_map = "('k \<times> 'v) list"

text \<open>\<^verbatim>\<open>emplace\<close> keeps an element that is already there, \<^verbatim>\<open>operator[] =\<close> replaces it.\<close>

fun sm_emplace :: "'k::linorder \<Rightarrow> 'v \<Rightarrow> ('k, 'v) std_map \<Rightarrow> ('k, 'v) std_map" where
  "sm_emplace k v [] = [(k, v)]"
| "sm_emplace k v ((l, w) # m) =
     (if k < l then (k, v) # (l, w) # m
      else if k = l then (l, w) # m
      else (l, w) # sm_emplace k v m)"

fun sm_assign :: "'k::linorder \<Rightarrow> 'v \<Rightarrow> ('k, 'v) std_map \<Rightarrow> ('k, 'v) std_map" where
  "sm_assign k v [] = [(k, v)]"
| "sm_assign k v ((l, w) # m) =
     (if k < l then (k, v) # (l, w) # m
      else if k = l then (k, v) # m
      else (l, w) # sm_assign k v m)"

definition sm_erase :: "'k \<Rightarrow> ('k, 'v) std_map \<Rightarrow> ('k, 'v) std_map" where
  "sm_erase k m = filter (\<lambda>(l, _). l \<noteq> k) m"

definition sm_erase_if :: "('k \<Rightarrow> bool) \<Rightarrow> ('k, 'v) std_map \<Rightarrow> ('k, 'v) std_map" where
  "sm_erase_if P m = filter (\<lambda>(l, _). \<not> P l) m"

abbreviation sm_find :: "('k, 'v) std_map \<Rightarrow> 'k \<Rightarrow> 'v option" where
  "sm_find m k \<equiv> map_of m k"

definition sm_ordered :: "('k::linorder, 'v) std_map \<Rightarrow> bool" where
  "sm_ordered m \<longleftrightarrow> sorted_wrt (<) (map fst m)"

locale ordered_map =
  fixes find :: "'m \<Rightarrow> 'k \<Rightarrow> 'v option"
    and emplace assign :: "'k \<Rightarrow> 'v \<Rightarrow> 'm \<Rightarrow> 'm"
    and erase :: "'k \<Rightarrow> 'm \<Rightarrow> 'm"
    and ordered :: "'m \<Rightarrow> bool"
  assumes find_emplace: "ordered m \<Longrightarrow>
      find (emplace k v m) l = (if l = k \<and> find m k = None then Some v else find m l)"
    and find_assign: "ordered m \<Longrightarrow> find (assign k v m) l = (if l = k then Some v else find m l)"
    and find_erase: "find (erase k m) l = (if l = k then None else find m l)"
    and ordered_emplace: "ordered m \<Longrightarrow> ordered (emplace k v m)"
    and ordered_assign: "ordered m \<Longrightarrow> ordered (assign k v m)"
    and ordered_erase: "ordered m \<Longrightarrow> ordered (erase k m)"
begin

lemma find_emplace_same: "ordered m \<Longrightarrow> find m k = Some w \<Longrightarrow> find (emplace k v m) k = Some w"
  by (simp add: find_emplace)

lemma find_assign_same: "ordered m \<Longrightarrow> find (assign k v m) k = Some v"
  by (simp add: find_assign)

lemma erase_after_assign:
  "ordered m \<Longrightarrow> find m k = None \<Longrightarrow> find (erase k (assign k v m)) l = find m l"
  by (simp add: find_assign find_erase)

end

lemma sm_keys [simp]:
  "fst ` set (sm_emplace k v m) = insert k (fst ` set m)"
  "fst ` set (sm_assign k v m) = insert k (fst ` set m)"
  by (induction k v m rule: sm_emplace.induct) (simp_all add: insert_commute)

lemma sm_ordered_Cons: "sm_ordered ((k, v) # m) \<longleftrightarrow> (\<forall>l \<in> fst ` set m. k < l) \<and> sm_ordered m"
  by (auto simp: sm_ordered_def)

lemma sm_ordered_Nil [simp]: "sm_ordered []"
  by (simp add: sm_ordered_def)

lemma sm_find_above: "\<forall>l \<in> fst ` set m. k < l \<Longrightarrow> sm_find m (k :: 'k::linorder) = None"
  by (auto simp: map_of_eq_None_iff)

lemma sm_find_below: "sm_ordered ((l, w) # m) \<Longrightarrow> k < l \<Longrightarrow> sm_find m k = None"
  by (rule sm_find_above) (auto simp: sm_ordered_Cons)

lemma sm_ordered_filter: "sm_ordered m \<Longrightarrow> sm_ordered (filter P m)"
  by (simp add: sm_ordered_def sorted_wrt_map sorted_wrt_filter)

interpretation sm: ordered_map sm_find sm_emplace sm_assign sm_erase sm_ordered
proof (unfold_locales, goal_cases)
  case (1 m k v l)
  then show ?case
  proof (induction m)
    case (Cons p m)
    then show ?case using sm_find_below [of "fst p" "snd p" m k]
      by (cases p) (auto simp: sm_ordered_Cons)
  qed simp
next
  case (2 m k v l)
  then show ?case
    by (induction m) (auto simp: sm_ordered_Cons)
next
  case (3 k m l)
  then show ?case by (induction m) (auto simp: sm_erase_def)
next
  case (4 m k v)
  then show ?case by (induction k v m rule: sm_emplace.induct) (fastforce simp: sm_ordered_Cons)+
next
  case (5 m k v)
  then show ?case by (induction k v m rule: sm_assign.induct) (fastforce simp: sm_ordered_Cons)+
next
  case (6 m k)
  then show ?case by (simp add: sm_erase_def sm_ordered_filter)
qed

lemma sm_find_erase_if: "sm_find (sm_erase_if P m) k = (if P k then None else sm_find m k)"
  by (induction m) (auto simp: sm_erase_if_def)

lemma sm_ordered_erase_if: "sm_ordered m \<Longrightarrow> sm_ordered (sm_erase_if P m)"
  by (simp add: sm_erase_if_def sm_ordered_filter)

lemma sm_keys_erase_if: "fst ` set (sm_erase_if P m) = {k \<in> fst ` set m. \<not> P k}"
  by (force simp: sm_erase_if_def)

end
