(* ===== verification/UmNrRx.thy ===== *)
theory UmNrRx
  imports UmNrPacking ByteBuffer StdMap UmBase
begin

text \<open>
  The receiver of the RLC UM NR entity (\<^verbatim>\<open>rlc/rlc_um_nr.cc\<close>, \<^verbatim>\<open>rlc_um_nr_rx\<close>): segments are
  kept in a window ordered by sequence number and put together into SDUs; a timer gives up on
  SDUs of which a segment is missing.

  The SDUs handed to the PDCP are the list \<open>to_pdcp\<close>, in order.  Of the timer the code reads
  only whether it runs; \<open>um_nr_timer_expired\<close> is its callback.  The counter of lost PDUs lives
  in the entity's metrics and is the field \<open>rx_lost_pdus\<close> here.
\<close>

record rlc_umd_pdu_nr =
  pdu_header :: rlc_um_nr_pdu_header
  pdu_buf :: byte_buffer

record rlc_umd_pdu_segments_nr =
  segments :: "(u32, rlc_umd_pdu_nr) std_map"
  sdu :: "byte_buffer option"
  next_expected_so :: u32
  total_sdu_length :: u32

definition pdu_segments_0 :: rlc_umd_pdu_segments_nr where
  "pdu_segments_0 = \<lparr>segments = [], sdu = None, next_expected_so = 0, total_sdu_length = 0\<rparr>"

record rlc_um_nr_rx =
  rx_sn_field_length :: rlc_um_nr_sn_size
  RX_Next_Reassembly :: u32
  RX_Timer_Trigger :: u32
  RX_Next_Highest :: u32
  rx_window_size :: u32
  rx_mod :: u32
  rx_window :: "(u32, rlc_umd_pdu_segments_nr) std_map"
  timer_running :: bool
  to_pdcp :: "byte_buffer list"
  rx_lost_pdus :: u32

definition um_nr_rx_configure :: "rlc_um_nr_sn_size \<Rightarrow> rlc_um_nr_rx" where
  "um_nr_rx_configure sn_field_length =
     \<lparr>rx_sn_field_length = sn_field_length, RX_Next_Reassembly = 0, RX_Timer_Trigger = 0,
      RX_Next_Highest = 0,
      rx_window_size = (if sn_field_length = um_size6bits then 32 else 2048),
      rx_mod = (if sn_field_length = um_size6bits then 64 else 4096),
      rx_window = [], timer_running = False, to_pdcp = [], rx_lost_pdus = 0\<rparr>"

definition um_nr_rx_reset :: "rlc_um_nr_rx \<Rightarrow> rlc_um_nr_rx" where
  "um_nr_rx_reset rx =
     rx\<lparr>RX_Next_Reassembly := 0, RX_Timer_Trigger := 0, RX_Next_Highest := 0, rx_window := [],
        timer_running := False\<rparr>"

definition um_nr_rx_stop :: "rlc_um_nr_rx \<Rightarrow> rlc_um_nr_rx" where
  "um_nr_rx_stop rx = (um_nr_rx_reset rx)\<lparr>timer_running := False\<rparr>"

definition um_nr_rx_reestablish :: "rlc_um_nr_rx \<Rightarrow> rlc_um_nr_rx" where
  "um_nr_rx_reestablish rx = um_nr_rx_reset rx"

section \<open>Windows\<close>

definition RX_MOD_NR_BASE :: "rlc_um_nr_rx \<Rightarrow> u32 \<Rightarrow> u32" where
  "RX_MOD_NR_BASE rx x = (x - RX_Next_Highest rx - rx_window_size rx) mod rx_mod rx"

definition sn_in_reassembly_window :: "rlc_um_nr_rx \<Rightarrow> u32 \<Rightarrow> bool" where
  "sn_in_reassembly_window rx sn \<longleftrightarrow>
     RX_MOD_NR_BASE rx (RX_Next_Highest rx - rx_window_size rx) \<le> RX_MOD_NR_BASE rx sn \<and>
     RX_MOD_NR_BASE rx sn < RX_MOD_NR_BASE rx (RX_Next_Highest rx)"

definition sn_invalid_for_rx_buffer :: "rlc_um_nr_rx \<Rightarrow> u32 \<Rightarrow> bool" where
  "sn_invalid_for_rx_buffer rx sn \<longleftrightarrow>
     RX_MOD_NR_BASE rx (RX_Next_Highest rx - rx_window_size rx) \<le> RX_MOD_NR_BASE rx sn \<and>
     RX_MOD_NR_BASE rx sn < RX_MOD_NR_BASE rx (RX_Next_Reassembly rx)"

definition has_missing_byte_segment :: "rlc_um_nr_rx \<Rightarrow> u32 \<Rightarrow> bool" where
  "has_missing_byte_segment rx sn \<longleftrightarrow> sm_find (rx_window rx) sn \<noteq> None"

text \<open>The condition under which the reassembly timer is (re)started.\<close>

definition timer_start_cond :: "rlc_um_nr_rx \<Rightarrow> bool" where
  "timer_start_cond rx \<longleftrightarrow>
     RX_MOD_NR_BASE rx (RX_Next_Highest rx) > RX_MOD_NR_BASE rx (RX_Next_Reassembly rx + 1) \<or>
     RX_MOD_NR_BASE rx (RX_Next_Highest rx) = RX_MOD_NR_BASE rx (RX_Next_Reassembly rx + 1) \<and>
       has_missing_byte_segment rx (RX_Next_Reassembly rx)"

section \<open>Expiry of the reassembly timer\<close>

fun um_nr_skip_reassembled :: "nat \<Rightarrow> rlc_um_nr_rx \<Rightarrow> rlc_um_nr_rx outcome" where
  "um_nr_skip_reassembled n rx =
     (if RX_MOD_NR_BASE rx (RX_Next_Reassembly rx) < RX_MOD_NR_BASE rx (RX_Next_Highest rx)
      then (case n of 0 \<Rightarrow> Hang
            | Suc k \<Rightarrow> um_nr_skip_reassembled k
                (rx\<lparr>RX_Next_Reassembly := (RX_Next_Reassembly rx + 1) mod rx_mod rx\<rparr>))
      else Ret rx)"

declare um_nr_skip_reassembled.simps [simp del]

text \<open>
  The timer has stopped when its callback runs.  The fuel of the loop is the modulus.
\<close>

definition um_nr_timer_expired :: "rlc_um_nr_rx \<Rightarrow> rlc_um_nr_rx outcome" where
  "um_nr_timer_expired rx0 =
     (let rx = rx0\<lparr>timer_running := False, rx_lost_pdus := rx_lost_pdus rx0 + 1,
                   RX_Next_Reassembly := RX_Timer_Trigger rx0\<rparr> in
      bind_outcome (um_nr_skip_reassembled (unat (rx_mod rx)) rx) (\<lambda>rx.
        let rx = rx\<lparr>rx_window := sm_erase_if
                      (\<lambda>k. RX_MOD_NR_BASE rx k < RX_MOD_NR_BASE rx (RX_Next_Reassembly rx)) (rx_window rx)\<rparr>
        in Ret (if timer_start_cond rx
                then rx\<lparr>timer_running := True, RX_Timer_Trigger := RX_Next_Highest rx\<rparr> else rx)))"

section \<open>Putting segments together\<close>

text \<open>
  The loop over the segments: \<open>skip\<close> are those the iterator has passed and left in the map.  The
  result says whether the SDU is complete.  When a segment with offset 0 is found while an empty
  first segment has already been taken, the code neither erases it nor advances the iterator;
  the fuel \<open>n\<close> counts those turns.  When an SDU grows beyond its buffer, the message that reports
  it uses \<^verbatim>\<open>rx_sdu\<close>, a null pointer.
\<close>

fun um_nr_assemble ::
  "nat \<Rightarrow> (u32, rlc_umd_pdu_nr) std_map \<Rightarrow> (u32, rlc_umd_pdu_nr) std_map \<Rightarrow> rlc_umd_pdu_segments_nr
     \<Rightarrow> (bool \<times> rlc_umd_pdu_segments_nr) outcome" where
  "um_nr_assemble n skip [] pdu = Ret (False, pdu\<lparr>segments := skip\<rparr>)"
| "um_nr_assemble n skip ((k, s) # rest) pdu =
     (if ucast (um_so (pdu_header s)) = next_expected_so pdu then
        (if next_expected_so pdu = 0 then
           (case sdu pdu of
              None \<Rightarrow>
                um_nr_assemble n skip rest
                  (pdu\<lparr>sdu := Some (pdu_buf s), next_expected_so := of_nat (N_bytes (pdu_buf s))\<rparr>)
            | Some _ \<Rightarrow>
                (case n of 0 \<Rightarrow> Hang | Suc n' \<Rightarrow> um_nr_assemble n' skip ((k, s) # rest) pdu))
         else
           (case sdu pdu of
              None \<Rightarrow> Undef
            | Some b \<Rightarrow>
                if get_tailroom b < N_bytes (pdu_buf s) then Undef
                else
                  let pdu = pdu\<lparr>sdu := Some (b\<lparr>data := data b @ data (pdu_buf s)\<rparr>),
                                next_expected_so := next_expected_so pdu + of_nat (N_bytes (pdu_buf s))\<rparr>
                  in if next_expected_so pdu = total_sdu_length pdu
                     then Ret (True, pdu\<lparr>segments := skip @ rest\<rparr>)
                     else um_nr_assemble n skip rest pdu))
      else um_nr_assemble n (skip @ [(k, s)]) rest pdu)"

text \<open>A complete SDU is delivered and \<open>RX_Next_Reassembly\<close> moves to the next SN in the window.\<close>

definition um_nr_deliver :: "u32 \<Rightarrow> rlc_umd_pdu_segments_nr \<Rightarrow> rlc_um_nr_rx \<Rightarrow> rlc_um_nr_rx outcome" where
  "um_nr_deliver sn pdu rx =
     (case sdu pdu of
        None \<Rightarrow> Undef
      | Some b \<Rightarrow>
          let rx = rx\<lparr>to_pdcp := to_pdcp rx @ [b], rx_window := sm_erase sn (rx_window rx)\<rparr> in
          Ret (if sn = RX_Next_Reassembly rx then
                 (if rx_window rx = [] then rx\<lparr>RX_Next_Reassembly := RX_Next_Highest rx\<rparr>
                  else case List.find (\<lambda>(k, _). RX_MOD_NR_BASE rx k
                              > RX_MOD_NR_BASE rx (RX_Next_Reassembly rx)) (rx_window rx) of
                         Some (k, _) \<Rightarrow> rx\<lparr>RX_Next_Reassembly := k\<rparr>
                       | None \<Rightarrow> rx)
               else rx))"

text \<open>An SN beyond the window moves the window, and what falls out of it is dropped.\<close>

definition um_nr_drop_outside :: "rlc_um_nr_rx \<Rightarrow> rlc_um_nr_rx" where
  "um_nr_drop_outside rx =
     rx\<lparr>rx_window := sm_erase_if (\<lambda>k. \<not> sn_in_reassembly_window rx k) (rx_window rx),
        rx_lost_pdus := rx_lost_pdus rx
          + of_nat (length (filter (\<lambda>(k, _). \<not> sn_in_reassembly_window rx k) (rx_window rx)))\<rparr>"

definition um_nr_advance :: "u32 \<Rightarrow> rlc_um_nr_rx \<Rightarrow> rlc_um_nr_rx" where
  "um_nr_advance sn rx =
     (let rx = um_nr_drop_outside (rx\<lparr>RX_Next_Highest := (sn + 1) mod rx_mod rx\<rparr>) in
      if \<not> sn_in_reassembly_window rx (RX_Next_Reassembly rx) then
        (case List.find (\<lambda>(k, _). RX_MOD_NR_BASE rx (RX_Next_Highest rx - rx_window_size rx) \<le> k)
                (rx_window rx) of
           Some (k, _) \<Rightarrow> rx\<lparr>RX_Next_Reassembly := k\<rparr>
         | None \<Rightarrow> rx)
      else rx)"

text \<open>The two timer decisions at the end of the update.\<close>

definition um_nr_update_timer :: "rlc_um_nr_rx \<Rightarrow> rlc_um_nr_rx" where
  "um_nr_update_timer rx =
     (let rx = (if timer_running rx \<and>
                   (RX_Timer_Trigger rx \<le> RX_Next_Reassembly rx \<or>
                    (\<not> sn_in_reassembly_window rx (RX_Timer_Trigger rx) \<and>
                       RX_Timer_Trigger rx \<noteq> RX_Next_Highest rx) \<or>
                    (RX_Next_Highest rx = RX_Next_Reassembly rx + 1 \<and>
                       \<not> has_missing_byte_segment rx (RX_Next_Reassembly rx)))
                then rx\<lparr>timer_running := False\<rparr> else rx)
      in if \<not> timer_running rx \<and> timer_start_cond rx
         then rx\<lparr>timer_running := True, RX_Timer_Trigger := RX_Next_Highest rx\<rparr> else rx)"

definition um_nr_handle_rx_buffer_update :: "u32 \<Rightarrow> rlc_um_nr_rx \<Rightarrow> rlc_um_nr_rx outcome" where
  "um_nr_handle_rx_buffer_update sn rx =
     (case sm_find (rx_window rx) sn of
        None \<Rightarrow> Ret rx
      | Some pdu \<Rightarrow>
          bind_outcome (um_nr_assemble (length (segments pdu)) [] (segments pdu) pdu) (\<lambda>(complete, pdu).
            let rx = rx\<lparr>rx_window := sm_assign sn pdu (rx_window rx)\<rparr> in
            bind_outcome
              (if complete then um_nr_deliver sn pdu rx
               else if \<not> sn_in_reassembly_window rx sn then Ret (um_nr_advance sn rx)
               else Ret rx)
              (\<lambda>rx. Ret (um_nr_update_timer rx))))"

section \<open>Receiving a PDU\<close>

text \<open>
  A failed allocation is a null pointer that both callers use.  When the header is longer than
  the payload, \<^verbatim>\<open>N_bytes\<close> wraps and the buffer claims bytes it does not have.
\<close>

definition um_nr_strip_pdu_header ::
  "bool \<Rightarrow> rlc_um_nr_pdu_header \<Rightarrow> bytes \<Rightarrow> byte_buffer outcome" where
  "um_nr_strip_pdu_header mem header payload =
     (if \<not> mem then Undef
      else bind_outcome (outcome_of (append_bytes payload fresh_buffer)) (\<lambda>b.
             outcome_of (strip_bytes (unat (rlc_um_nr_packed_length header)) b)))"

definition update_total_sdu_length ::
  "rlc_umd_pdu_nr \<Rightarrow> rlc_umd_pdu_segments_nr \<Rightarrow> rlc_umd_pdu_segments_nr" where
  "update_total_sdu_length rx_pdu pdu_segments =
     (if um_si (pdu_header rx_pdu) = last_segment
      then pdu_segments\<lparr>total_sdu_length :=
             ucast (um_so (pdu_header rx_pdu)) + of_nat (N_bytes (pdu_buf rx_pdu))\<rparr>
      else pdu_segments)"

definition um_nr_store :: "rlc_umd_pdu_nr \<Rightarrow> rlc_um_nr_rx \<Rightarrow> rlc_um_nr_rx" where
  "um_nr_store rx_pdu rx =
     (let sn = ucast (um_sn (pdu_header rx_pdu));
          pdu_segments = update_total_sdu_length rx_pdu
            (case sm_find (rx_window rx) sn of None \<Rightarrow> pdu_segments_0 | Some p \<Rightarrow> p)
      in rx\<lparr>rx_window := sm_assign sn
             (pdu_segments\<lparr>segments := sm_emplace (ucast (um_so (pdu_header rx_pdu))) rx_pdu
                             (segments pdu_segments)\<rparr>) (rx_window rx)\<rparr>)"

definition um_nr_handle_data_pdu :: "bool \<Rightarrow> bytes \<Rightarrow> rlc_um_nr_rx \<Rightarrow> rlc_um_nr_rx outcome" where
  "um_nr_handle_data_pdu mem payload rx =
     (case rlc_um_nr_read_data_pdu_header payload (rx_sn_field_length rx) um_header_0 of
        None \<Rightarrow> Undef
      | Some (_, header) \<Rightarrow>
          if um_si header = full_sdu then
            bind_outcome (um_nr_strip_pdu_header mem header payload) (\<lambda>sdu.
              Ret (rx\<lparr>to_pdcp := to_pdcp rx @ [sdu]\<rparr>))
          else if sn_invalid_for_rx_buffer rx (ucast (um_sn header)) then Ret rx
          else
            bind_outcome (um_nr_strip_pdu_header mem header payload) (\<lambda>buf.
              um_nr_handle_rx_buffer_update (ucast (um_sn header))
                (um_nr_store \<lparr>pdu_header = header, pdu_buf = buf\<rparr> rx)))"

section \<open>Window arithmetic\<close>

definition rx_cfg_ok :: "rlc_um_nr_rx \<Rightarrow> bool" where
  "rx_cfg_ok rx \<longleftrightarrow> rx_mod rx = 64 \<and> rx_window_size rx = 32 \<or> rx_mod rx = 4096 \<and> rx_window_size rx = 2048"

lemma uint_mod_64: "uint (x mod 64 :: u32) = uint x mod 64"
  and uint_mod_4096: "uint (x mod 4096 :: u32) = uint x mod 4096"
  by (simp_all add: uint_mod_distrib)

lemma uint_base:
  assumes "rx_cfg_ok rx"
  shows "uint (RX_MOD_NR_BASE rx x) =
    (uint x - (uint (RX_Next_Highest rx) + uint (rx_window_size rx))) mod uint (rx_mod rx)"
  using assms
  by (auto simp: rx_cfg_ok_def RX_MOD_NR_BASE_def uint_mod_64 uint_mod_4096 uint_word_ariths mod_simps
      mod_mod_cancel diff_diff_eq)

text \<open>The window's lower edge is at 0, its upper edge at the window size.\<close>

lemma base_edges:
  assumes "rx_cfg_ok rx"
  shows "RX_MOD_NR_BASE rx (RX_Next_Highest rx - rx_window_size rx) = 0"
    "RX_MOD_NR_BASE rx (RX_Next_Highest rx) = rx_window_size rx"
proof -
  show "RX_MOD_NR_BASE rx (RX_Next_Highest rx - rx_window_size rx) = 0"
    using assms by (auto simp: rx_cfg_ok_def RX_MOD_NR_BASE_def)
  show "RX_MOD_NR_BASE rx (RX_Next_Highest rx) = rx_window_size rx"
    using assms by (auto simp: rx_cfg_ok_def RX_MOD_NR_BASE_def)
qed

lemma in_window_iff:
  "rx_cfg_ok rx \<Longrightarrow> sn_in_reassembly_window rx sn \<longleftrightarrow> RX_MOD_NR_BASE rx sn < rx_window_size rx"
  by (simp add: sn_in_reassembly_window_def base_edges)

lemma invalid_iff:
  "rx_cfg_ok rx \<Longrightarrow> sn_invalid_for_rx_buffer rx sn \<longleftrightarrow>
     RX_MOD_NR_BASE rx sn < RX_MOD_NR_BASE rx (RX_Next_Reassembly rx)"
  by (simp add: sn_invalid_for_rx_buffer_def base_edges)

lemma int_mod_shift: "0 \<le> x + k * m \<Longrightarrow> x + k * m < m \<Longrightarrow> x mod m = x + k * (m :: int)"
  by (metis mod_mult_self1 mod_pos_pos_trivial)

lemma window_mod:
  fixes s h w :: int
  assumes "0 \<le> s" "s < 2 * w" "0 \<le> h" "h < 2 * w"
  shows "(s - h - w) mod (2 * w) < w \<longleftrightarrow> (if s < h then h - s \<le> w else h + 2 * w - s \<le> w)"
proof -
  consider "s - h - w < - 2 * w" | "- 2 * w \<le> s - h - w" "s - h - w < 0" | "0 \<le> s - h - w" by linarith
  then have "(s - h - w) mod (2 * w) = (if s - h - w < - 2 * w then s - h + 3 * w
      else if s - h - w < 0 then s - h + w else s - h - w)"
    using assms int_mod_shift [of "s - h - w" 2 "2 * w"] int_mod_shift [of "s - h - w" 1 "2 * w"]
      int_mod_shift [of "s - h - w" 0 "2 * w"]
    by cases (simp_all add: algebra_simps)
  then show ?thesis using assms by auto
qed

text \<open>The window of TS 38.322: the sequence numbers from \<open>RX_Next_Highest - W\<close> up to \<open>RX_Next_Highest\<close>.\<close>

lemma window_steps:
  fixes s h w :: nat
  assumes "s < 2 * w" "h < 2 * w"
  shows "(\<exists>d. 1 \<le> d \<and> d \<le> w \<and> (s + d) mod (2 * w) = h) \<longleftrightarrow>
    (if s < h then h - s \<le> w else h + 2 * w - s \<le> w)"
proof
  assume "\<exists>d. 1 \<le> d \<and> d \<le> w \<and> (s + d) mod (2 * w) = h"
  then obtain d where d: "1 \<le> d" "d \<le> w" "(s + d) mod (2 * w) = h" by blast
  have "(s + d) mod (2 * w) = (if s + d < 2 * w then s + d else s + d - 2 * w)"
    using assms d(2) by (simp add: mod_if)
  then show "if s < h then h - s \<le> w else h + 2 * w - s \<le> w"
    using d assms by (auto split: if_splits)
next
  assume a: "if s < h then h - s \<le> w else h + 2 * w - s \<le> w"
  show "\<exists>d. 1 \<le> d \<and> d \<le> w \<and> (s + d) mod (2 * w) = h"
  proof (cases "s < h")
    case True
    then show ?thesis using a assms by (intro exI [of _ "h - s"]) simp
  next
    case False
    then show ?thesis using a assms by (intro exI [of _ "h + 2 * w - s"]) simp
  qed
qed

lemma window_mod_steps:
  fixes s h w :: nat
  assumes "s < 2 * w" "h < 2 * w"
  shows "(int s - int h - int w) mod (2 * int w) < int w \<longleftrightarrow>
    (\<exists>d. 1 \<le> d \<and> d \<le> w \<and> (s + d) mod (2 * w) = h)"
  using window_mod [of "int s" "int w" "int h"] window_steps [OF assms] assms by auto

lemma in_window_spec:
  assumes "rx_cfg_ok rx" "sn < rx_mod rx" "RX_Next_Highest rx < rx_mod rx"
  shows "sn_in_reassembly_window rx sn \<longleftrightarrow>
    (\<exists>d. 1 \<le> d \<and> d \<le> unat (rx_window_size rx) \<and>
       (unat sn + d) mod unat (rx_mod rx) = unat (RX_Next_Highest rx))"
proof -
  have m: "unat (rx_mod rx) = 2 * unat (rx_window_size rx)" using assms(1) by (auto simp: rx_cfg_ok_def)
  have u: "uint (rx_mod rx) = 2 * uint (rx_window_size rx)" using assms(1) by (auto simp: rx_cfg_ok_def)
  have "unat sn < 2 * unat (rx_window_size rx)" "unat (RX_Next_Highest rx) < 2 * unat (rx_window_size rx)"
    using assms(2,3) m by (simp_all add: word_less_nat_alt)
  from window_mod_steps [OF this] show ?thesis
    unfolding in_window_iff [OF assms(1)] word_less_def uint_base [OF assms(1)] u m
    by (simp only: uint_nat diff_diff_eq)
qed

text \<open>Steps of one inside the window, and the numbers below the modulus told apart.\<close>

lemma rx_mod_dvd: "rx_cfg_ok rx \<Longrightarrow> uint (rx_mod rx) dvd 2 ^ 32"
  by (auto simp: rx_cfg_ok_def)

lemma base_mod:
  assumes "rx_cfg_ok rx"
  shows "RX_MOD_NR_BASE rx (x mod rx_mod rx) = RX_MOD_NR_BASE rx x"
  unfolding word_uint_eq_iff uint_base [OF assms]
  by (simp add: uint_mod_distrib mod_diff_left_eq)

lemma base_Suc:
  assumes "rx_cfg_ok rx"
  shows "uint (RX_MOD_NR_BASE rx (x + 1)) = (uint (RX_MOD_NR_BASE rx x) + 1) mod uint (rx_mod rx)"
proof -
  let ?c = "uint (RX_Next_Highest rx) + uint (rx_window_size rx)" and ?m = "uint (rx_mod rx)"
  have "((uint x + 1) mod 2 ^ 32 - ?c) mod ?m = (uint x + 1 - ?c) mod ?m"
    by (subst (1 2) mod_diff_left_eq [symmetric]) (simp only: mod_mod_cancel [OF rx_mod_dvd [OF assms]])
  also have "\<dots> = ((uint x - ?c) mod ?m + 1) mod ?m"
    by (simp only: mod_add_left_eq) (simp add: algebra_simps)
  finally have "((uint x + 1) mod 2 ^ 32 - ?c) mod ?m = ((uint x - ?c) mod ?m + 1) mod ?m" .
  moreover have "uint (x + 1) = (uint x + 1) mod 2 ^ 32" by (simp add: uint_word_ariths)
  ultimately show ?thesis unfolding uint_base [OF assms] by simp
qed

lemma base_Suc_window:
  assumes "rx_cfg_ok rx" "RX_MOD_NR_BASE rx x < rx_window_size rx"
  shows "RX_MOD_NR_BASE rx ((x + 1) mod rx_mod rx) = RX_MOD_NR_BASE rx x + 1"
proof -
  have "uint (RX_MOD_NR_BASE rx x) + 1 < uint (rx_mod rx)"
    using assms by (auto simp: rx_cfg_ok_def word_less_def)
  moreover have "uint (RX_MOD_NR_BASE rx x + 1) = uint (RX_MOD_NR_BASE rx x) + 1"
    using assms by (auto simp: rx_cfg_ok_def word_less_def uint_word_ariths)
  ultimately show ?thesis
    unfolding base_mod [OF assms(1)] by (intro word_uint_eqI) (simp add: base_Suc [OF assms(1)])
qed

lemma base_inj:
  assumes "rx_cfg_ok rx" "x < rx_mod rx" "y < rx_mod rx" "RX_MOD_NR_BASE rx x = RX_MOD_NR_BASE rx y"
  shows "x = y"
proof -
  let ?c = "uint (RX_Next_Highest rx) + uint (rx_window_size rx)" and ?m = "uint (rx_mod rx)"
  have "(uint x - ?c + ?c) mod ?m = (uint y - ?c + ?c) mod ?m"
    using arg_cong [OF assms(4), of uint] unfolding uint_base [OF assms(1)]
    by (intro mod_add_cong) (simp_all add: algebra_simps)
  then show ?thesis using assms(2,3) by (intro word_uint_eqI) (simp add: word_less_def)
qed

text \<open>The receiver's invariant.\<close>

definition rx_at_edge :: "rlc_um_nr_rx \<Rightarrow> u32 \<Rightarrow> bool" where
  "rx_at_edge rx sn \<longleftrightarrow> sn < rx_mod rx \<and> (sn_in_reassembly_window rx sn \<or> sn = RX_Next_Highest rx)"

definition rx_inv :: "rlc_um_nr_rx \<Rightarrow> bool" where
  "rx_inv rx \<longleftrightarrow> rx_cfg_ok rx \<and>
     (rx_sn_field_length rx = um_size6bits \<and> rx_mod rx = 64 \<or>
      rx_sn_field_length rx = um_size12bits \<and> rx_mod rx = 4096) \<and>
     RX_Next_Highest rx < rx_mod rx \<and> rx_at_edge rx (RX_Next_Reassembly rx) \<and>
     RX_Timer_Trigger rx < rx_mod rx \<and>
     (timer_running rx \<longrightarrow> rx_at_edge rx (RX_Timer_Trigger rx)) \<and>
     sm_ordered (rx_window rx) \<and>
     (\<forall>k \<in> fst ` set (rx_window rx). k < rx_mod rx \<and> sn_in_reassembly_window rx k)"

lemma rx_inv_configure: "sz \<noteq> um_nulltype \<Longrightarrow> rx_inv (um_nr_rx_configure sz)"
  by (cases sz) (auto simp: rx_inv_def um_nr_rx_configure_def rx_cfg_ok_def rx_at_edge_def)

lemma rx_inv_reset: "rx_inv rx \<Longrightarrow> rx_inv (um_nr_rx_reset rx)"
  by (auto simp: rx_inv_def um_nr_rx_reset_def rx_cfg_ok_def rx_at_edge_def)

text \<open>The loop of the timer's callback runs up to \<open>RX_Next_Highest\<close>.\<close>

lemma um_nr_skip_ok:
  assumes "rx_cfg_ok rx" "RX_Next_Reassembly rx < rx_mod rx" "RX_Next_Highest rx < rx_mod rx"
    "unat (rx_window_size rx) \<le> unat (RX_MOD_NR_BASE rx (RX_Next_Reassembly rx)) + n"
  shows "um_nr_skip_reassembled n rx =
    Ret (rx\<lparr>RX_Next_Reassembly :=
      (if sn_in_reassembly_window rx (RX_Next_Reassembly rx) then RX_Next_Highest rx
       else RX_Next_Reassembly rx)\<rparr>)"
  using assms
proof (induction n arbitrary: rx)
  case 0
  then show ?case
    by (simp add: um_nr_skip_reassembled.simps base_edges in_window_iff word_less_nat_alt)
next
  case (Suc n)
  let ?rx = "rx\<lparr>RX_Next_Reassembly := (RX_Next_Reassembly rx + 1) mod rx_mod rx\<rparr>"
  have b: "RX_MOD_NR_BASE ?rx = RX_MOD_NR_BASE rx" by (simp add: RX_MOD_NR_BASE_def fun_eq_iff)
  have w: "sn_in_reassembly_window ?rx = sn_in_reassembly_window rx"
    by (simp add: sn_in_reassembly_window_def b fun_eq_iff)
  show ?case
  proof (cases "sn_in_reassembly_window rx (RX_Next_Reassembly rx)")
    case False
    then show ?thesis
      using Suc.prems(1) by (simp add: um_nr_skip_reassembled.simps [of "Suc n"] base_edges in_window_iff)
  next
    case True
    then have lt: "RX_MOD_NR_BASE rx (RX_Next_Reassembly rx) < rx_window_size rx"
      using in_window_iff Suc.prems(1) by blast
    note s = base_Suc_window [OF Suc.prems(1) lt]
    have m: "(RX_Next_Reassembly rx + 1) mod rx_mod rx < rx_mod rx"
      using Suc.prems(1) by (intro word_mod_less_divisor) (auto simp: rx_cfg_ok_def)
    have u: "unat (RX_MOD_NR_BASE rx (RX_Next_Reassembly rx) + 1) =
        Suc (unat (RX_MOD_NR_BASE rx (RX_Next_Reassembly rx)))"
      using lt Suc.prems(1) by (auto simp: rx_cfg_ok_def word_less_nat_alt unat_word_ariths)
    have IH: "um_nr_skip_reassembled n ?rx = Ret (?rx\<lparr>RX_Next_Reassembly :=
      (if sn_in_reassembly_window ?rx (RX_Next_Reassembly ?rx) then RX_Next_Highest ?rx
       else RX_Next_Reassembly ?rx)\<rparr>)"
      using Suc.prems m s u by (intro Suc.IH) (simp_all add: rx_cfg_ok_def b)
    have e: "\<not> sn_in_reassembly_window rx ((RX_Next_Reassembly rx + 1) mod rx_mod rx) \<Longrightarrow>
        (RX_Next_Reassembly rx + 1) mod rx_mod rx = RX_Next_Highest rx"
    proof -
      assume "\<not> sn_in_reassembly_window rx ((RX_Next_Reassembly rx + 1) mod rx_mod rx)"
      then have "RX_MOD_NR_BASE rx (RX_Next_Reassembly rx) + 1 = rx_window_size rx"
        using lt u s in_window_iff [OF Suc.prems(1)]
        by (simp add: word_unat_eq_iff word_less_nat_alt)
      then show ?thesis
        using s base_edges(2) [OF Suc.prems(1)] by (intro base_inj [OF Suc.prems(1) m Suc.prems(3)]) simp
    qed
    show ?thesis
      using IH e True lt unfolding w b
      by (simp add: um_nr_skip_reassembled.simps [of "Suc n" rx] base_edges [OF Suc.prems(1)])
  qed
qed

lemma base_frame [simp]:
  "RX_MOD_NR_BASE (rx\<lparr>RX_Next_Reassembly := a\<rparr>) = RX_MOD_NR_BASE rx"
  "RX_MOD_NR_BASE (rx\<lparr>RX_Timer_Trigger := a\<rparr>) = RX_MOD_NR_BASE rx"
  "RX_MOD_NR_BASE (rx\<lparr>rx_window := w\<rparr>) = RX_MOD_NR_BASE rx"
  "RX_MOD_NR_BASE (rx\<lparr>timer_running := t\<rparr>) = RX_MOD_NR_BASE rx"
  "RX_MOD_NR_BASE (rx\<lparr>to_pdcp := d\<rparr>) = RX_MOD_NR_BASE rx"
  "RX_MOD_NR_BASE (rx\<lparr>rx_lost_pdus := l\<rparr>) = RX_MOD_NR_BASE rx"
  by (simp_all add: RX_MOD_NR_BASE_def fun_eq_iff)

lemma in_window_frame [simp]:
  "sn_in_reassembly_window (rx\<lparr>RX_Next_Reassembly := a\<rparr>) = sn_in_reassembly_window rx"
  "sn_in_reassembly_window (rx\<lparr>RX_Timer_Trigger := a\<rparr>) = sn_in_reassembly_window rx"
  "sn_in_reassembly_window (rx\<lparr>rx_window := w\<rparr>) = sn_in_reassembly_window rx"
  "sn_in_reassembly_window (rx\<lparr>timer_running := t\<rparr>) = sn_in_reassembly_window rx"
  "sn_in_reassembly_window (rx\<lparr>to_pdcp := d\<rparr>) = sn_in_reassembly_window rx"
  "sn_in_reassembly_window (rx\<lparr>rx_lost_pdus := l\<rparr>) = sn_in_reassembly_window rx"
  "sn_in_reassembly_window (rx\<lparr>rx_window := w, RX_Next_Highest := h\<rparr>) =
     sn_in_reassembly_window (rx\<lparr>RX_Next_Highest := h\<rparr>)"
  by (simp_all add: sn_in_reassembly_window_def fun_eq_iff RX_MOD_NR_BASE_def)

lemma rx_cfg_frame [simp]:
  "rx_cfg_ok (rx\<lparr>RX_Next_Highest := h\<rparr>) = rx_cfg_ok rx"
  "rx_cfg_ok (rx\<lparr>RX_Next_Reassembly := a\<rparr>) = rx_cfg_ok rx"
  "rx_cfg_ok (rx\<lparr>RX_Timer_Trigger := a\<rparr>) = rx_cfg_ok rx"
  "rx_cfg_ok (rx\<lparr>rx_window := w\<rparr>) = rx_cfg_ok rx"
  "rx_cfg_ok (rx\<lparr>timer_running := t\<rparr>) = rx_cfg_ok rx"
  "rx_cfg_ok (rx\<lparr>to_pdcp := d\<rparr>) = rx_cfg_ok rx"
  "rx_cfg_ok (rx\<lparr>rx_lost_pdus := l\<rparr>) = rx_cfg_ok rx"
  by (simp_all add: rx_cfg_ok_def)

lemma rx_at_edge_frame [simp]:
  "rx_at_edge (rx\<lparr>RX_Next_Reassembly := a\<rparr>) = rx_at_edge rx"
  "rx_at_edge (rx\<lparr>RX_Timer_Trigger := a\<rparr>) = rx_at_edge rx"
  "rx_at_edge (rx\<lparr>rx_window := w\<rparr>) = rx_at_edge rx"
  "rx_at_edge (rx\<lparr>timer_running := t\<rparr>) = rx_at_edge rx"
  "rx_at_edge (rx\<lparr>to_pdcp := d\<rparr>) = rx_at_edge rx"
  "rx_at_edge (rx\<lparr>rx_lost_pdus := l\<rparr>) = rx_at_edge rx"
  by (simp_all add: rx_at_edge_def fun_eq_iff)

text \<open>The upper edge is not in the window, and nothing is left to wait for there.\<close>

lemma edge_not_in_window: "rx_cfg_ok rx \<Longrightarrow> \<not> sn_in_reassembly_window rx (RX_Next_Highest rx)"
  by (simp add: in_window_iff base_edges)

lemma base_above_edge:
  assumes "rx_cfg_ok rx"
  shows "RX_MOD_NR_BASE rx (RX_Next_Highest rx + 1) = rx_window_size rx + 1"
proof (rule word_uint_eqI)
  show "uint (RX_MOD_NR_BASE rx (RX_Next_Highest rx + 1)) = uint (rx_window_size rx + 1)"
    unfolding base_Suc [OF assms] base_edges(2) [OF assms] using assms by (auto simp: rx_cfg_ok_def)
qed

lemma rx_at_edge_highest: "RX_Next_Highest rx < rx_mod rx \<Longrightarrow> rx_at_edge rx (RX_Next_Highest rx)"
  by (simp add: rx_at_edge_def)

text \<open>
  The expiry of the timer: everything in the window is given up, also the SDUs received after
  the one that started the timer, and the timer is not started again.
\<close>

lemma um_nr_timer_expired_flush:
  assumes inv: "rx_inv rx" and run: "timer_running rx"
  shows "um_nr_timer_expired rx = Ret (rx\<lparr>RX_Next_Reassembly := RX_Next_Highest rx, rx_window := [],
           timer_running := False, rx_lost_pdus := rx_lost_pdus rx + 1\<rparr>)"
proof -
  have c: "rx_cfg_ok rx" and h: "RX_Next_Highest rx < rx_mod rx" and T: "rx_at_edge rx (RX_Timer_Trigger rx)"
    using inv run by (auto simp: rx_inv_def)
  let ?rx = "rx\<lparr>timer_running := False, rx_lost_pdus := rx_lost_pdus rx + 1,
                RX_Next_Reassembly := RX_Timer_Trigger rx\<rparr>"
  have fuel: "unat (rx_window_size rx) \<le> unat (rx_mod rx)" using c by (auto simp: rx_cfg_ok_def)
  have "um_nr_skip_reassembled (unat (rx_mod ?rx)) ?rx = Ret (?rx\<lparr>RX_Next_Reassembly :=
      (if sn_in_reassembly_window ?rx (RX_Next_Reassembly ?rx) then RX_Next_Highest ?rx
       else RX_Next_Reassembly ?rx)\<rparr>)"
    using c h T fuel by (intro um_nr_skip_ok) (simp_all add: rx_at_edge_def)
  then have sk: "um_nr_skip_reassembled (unat (rx_mod rx)) ?rx =
      Ret (?rx\<lparr>RX_Next_Reassembly := RX_Next_Highest rx\<rparr>)"
    using T edge_not_in_window [OF c] by (auto simp: rx_at_edge_def)
  have er: "sm_erase_if (\<lambda>k. RX_MOD_NR_BASE rx k < rx_window_size rx) (rx_window rx) = []"
    using inv in_window_iff [OF c]
    by (force simp: rx_inv_def sm_erase_if_def filter_empty_conv)
  have st: "rx_window_size rx < rx_window_size rx + 1" using c by (auto simp: rx_cfg_ok_def)
  show ?thesis
    using st by (simp add: um_nr_timer_expired_def Let_def sk base_edges [OF c] er timer_start_cond_def
        base_above_edge [OF c] not_less_iff_gr_or_eq)
qed

lemma rx_inv_timer_expired:
  "rx_inv rx \<Longrightarrow> timer_running rx \<Longrightarrow> \<exists>rx'. um_nr_timer_expired rx = Ret rx' \<and> rx_inv rx'"
  by (simp add: um_nr_timer_expired_flush) (auto simp: rx_inv_def rx_at_edge_highest)

section \<open>Every PDU keeps the invariant\<close>

lemma um_nr_update_timer_frame [simp]:
  "RX_Next_Highest (um_nr_update_timer rx) = RX_Next_Highest rx"
  "RX_Next_Reassembly (um_nr_update_timer rx) = RX_Next_Reassembly rx"
  "rx_window (um_nr_update_timer rx) = rx_window rx"
  "to_pdcp (um_nr_update_timer rx) = to_pdcp rx"
  "rx_mod (um_nr_update_timer rx) = rx_mod rx"
  "rx_window_size (um_nr_update_timer rx) = rx_window_size rx"
  "rx_sn_field_length (um_nr_update_timer rx) = rx_sn_field_length rx"
  "RX_MOD_NR_BASE (um_nr_update_timer rx) = RX_MOD_NR_BASE rx"
  "sn_in_reassembly_window (um_nr_update_timer rx) = sn_in_reassembly_window rx"
  "rx_cfg_ok (um_nr_update_timer rx) = rx_cfg_ok rx"
  "rx_at_edge (um_nr_update_timer rx) = rx_at_edge rx"
  by (simp_all add: um_nr_update_timer_def Let_def)

text \<open>A timer that runs on was started by a number that is still in the window.\<close>

lemma um_nr_update_timer_trigger:
  "RX_Next_Highest rx < rx_mod rx \<Longrightarrow> RX_Timer_Trigger rx < rx_mod rx \<Longrightarrow>
     timer_running (um_nr_update_timer rx) \<Longrightarrow>
     rx_at_edge rx (RX_Timer_Trigger (um_nr_update_timer rx))"
  by (auto simp: um_nr_update_timer_def Let_def rx_at_edge_def split: if_splits)

lemma um_nr_update_timer_bound:
  "RX_Next_Highest rx < m \<Longrightarrow> RX_Timer_Trigger rx < m \<Longrightarrow> RX_Timer_Trigger (um_nr_update_timer rx) < m"
  by (simp add: um_nr_update_timer_def Let_def)

text \<open>The invariant without the part on the timer, for windows whose keys a predicate allows.\<close>

definition rx_inv_upto :: "(u32 \<Rightarrow> bool) \<Rightarrow> rlc_um_nr_rx \<Rightarrow> bool" where
  "rx_inv_upto P rx \<longleftrightarrow> rx_cfg_ok rx \<and>
     (rx_sn_field_length rx = um_size6bits \<and> rx_mod rx = 64 \<or>
      rx_sn_field_length rx = um_size12bits \<and> rx_mod rx = 4096) \<and>
     RX_Next_Highest rx < rx_mod rx \<and> RX_Timer_Trigger rx < rx_mod rx \<and>
     rx_at_edge rx (RX_Next_Reassembly rx) \<and> sm_ordered (rx_window rx) \<and>
     (\<forall>k \<in> fst ` set (rx_window rx). k < rx_mod rx \<and> (sn_in_reassembly_window rx k \<or> P k))"

lemma rx_inv_timer:
  "rx_inv_upto (\<lambda>_. False) rx \<Longrightarrow> rx_inv (um_nr_update_timer rx)"
  using um_nr_update_timer_trigger [of rx] um_nr_update_timer_bound [of rx]
  by (auto simp: rx_inv_upto_def rx_inv_def)

lemma find_mem: "List.find P xs = Some x \<Longrightarrow> x \<in> set xs \<and> P x"
  by (auto simp: find_Some_iff)

lemma sm_keys_erase: "fst ` set (sm_erase k m) = fst ` set m - {k}"
  by (force simp: sm_erase_def)

lemma rx_inv_deliver:
  assumes inv: "rx_inv_upto (\<lambda>k. k = sn) rx" and d: "um_nr_deliver sn pdu rx = Ret rx'"
  shows "rx_inv_upto (\<lambda>_. False) rx'"
proof -
  let ?w = "sm_erase sn (rx_window rx)"
  obtain b where b: "sdu pdu = Some b" using d by (cases "sdu pdu") (auto simp: um_nr_deliver_def)
  let ?rx = "rx\<lparr>to_pdcp := to_pdcp rx @ [b], rx_window := ?w\<rparr>"
  have w: "sm_ordered ?w" "\<forall>k \<in> fst ` set ?w. k < rx_mod rx \<and> sn_in_reassembly_window rx k"
    using inv sm.ordered_erase by (auto simp: rx_inv_upto_def sm_keys_erase)
  have k: "rx_at_edge rx (fst p)" if "List.find P ?w = Some p" for P p
    using find_mem [OF that] w(2) by (auto simp: rx_at_edge_def)
  have keep: "rx_inv_upto (\<lambda>_. False) ?rx" using inv w by (simp add: rx_inv_upto_def)
  have set: "rx_inv_upto (\<lambda>_. False) (?rx\<lparr>RX_Next_Reassembly := a\<rparr>)" if "rx_at_edge rx a" for a
    using inv w that by (simp add: rx_inv_upto_def)
  have h: "rx_at_edge rx (RX_Next_Highest rx)"
    using inv by (intro rx_at_edge_highest) (simp add: rx_inv_upto_def)
  from d b have "rx' = (if sn = RX_Next_Reassembly rx then
      (if ?w = [] then ?rx\<lparr>RX_Next_Reassembly := RX_Next_Highest rx\<rparr>
       else case List.find (\<lambda>(k, _). RX_MOD_NR_BASE rx k > RX_MOD_NR_BASE rx (RX_Next_Reassembly rx)) ?w of
              Some (k, _) \<Rightarrow> ?rx\<lparr>RX_Next_Reassembly := k\<rparr> | None \<Rightarrow> ?rx) else ?rx)"
    by (cases "sn = RX_Next_Reassembly rx"; cases "?w = []")
      (auto simp: um_nr_deliver_def Let_def split: option.splits)
  then show ?thesis
    using keep set [OF h] set [OF k] by (auto split: option.splits if_splits)
qed

lemma base_below_edge:
  assumes "rx_cfg_ok rx" "sn < rx_mod rx"
  shows "sn_in_reassembly_window (rx\<lparr>RX_Next_Highest := (sn + 1) mod rx_mod rx\<rparr>) sn"
proof -
  let ?rx = "rx\<lparr>RX_Next_Highest := (sn + 1) mod rx_mod rx\<rparr>"
  have c: "rx_cfg_ok ?rx" using assms by simp
  have m: "(sn + 1) mod rx_mod rx < rx_mod rx"
    using assms(1) by (intro word_mod_less_divisor) (auto simp: rx_cfg_ok_def)
  have "unat (rx_mod rx) dvd 2 ^ LENGTH(32)" using assms(1) by (auto simp: rx_cfg_ok_def)
  then have "(unat sn + 1) mod unat (rx_mod rx) = unat ((sn + 1) mod rx_mod rx)"
    using unat_add_mod [of "rx_mod rx" sn 1] by simp
  then show ?thesis
    using assms m in_window_spec [OF c, of sn] by (auto simp: rx_cfg_ok_def intro: exI [of _ 1])
qed

lemma rx_inv_drop_outside:
  assumes "rx_inv_upto (\<lambda>k. k = sn) rx" "h < rx_mod rx"
    "rx1 = um_nr_drop_outside (rx\<lparr>RX_Next_Highest := h\<rparr>)"
    "a < rx_mod rx" "sn_in_reassembly_window rx1 a"
  shows "rx_inv_upto (\<lambda>_. False) (rx1\<lparr>RX_Next_Reassembly := a\<rparr>)"
  using assms by (auto simp: rx_inv_upto_def rx_at_edge_def um_nr_drop_outside_def sm_keys_erase_if
      intro: sm_ordered_erase_if)

lemma rx_inv_advance:
  assumes inv: "rx_inv_upto (\<lambda>k. k = sn) rx" and sn: "sn \<in> fst ` set (rx_window rx)"
  shows "rx_inv_upto (\<lambda>_. False) (um_nr_advance sn rx)"
proof -
  define rx1 where "rx1 = um_nr_drop_outside (rx\<lparr>RX_Next_Highest := (sn + 1) mod rx_mod rx\<rparr>)"
  have c: "rx_cfg_ok rx" "sn < rx_mod rx" using inv sn by (auto simp: rx_inv_upto_def)
  have m: "(sn + 1) mod rx_mod rx < rx_mod rx"
    using c(1) by (intro word_mod_less_divisor) (auto simp: rx_cfg_ok_def)
  have c1: "rx_cfg_ok rx1" using c(1) by (simp add: rx1_def um_nr_drop_outside_def)
  have mem: "sn \<in> fst ` set (rx_window rx1)"
    using sn base_below_edge [OF c] by (simp add: rx1_def um_nr_drop_outside_def sm_keys_erase_if)
  have keys: "k < rx_mod rx" "sn_in_reassembly_window rx1 k" if "k \<in> fst ` set (rx_window rx1)" for k
    using that inv by (auto simp: rx1_def um_nr_drop_outside_def sm_keys_erase_if rx_inv_upto_def)
  note set = rx_inv_drop_outside [OF inv m rx1_def]
  have eq: "um_nr_advance sn rx =
      (if \<not> sn_in_reassembly_window rx1 (RX_Next_Reassembly rx1) then
         (case List.find (\<lambda>(k, _). RX_MOD_NR_BASE rx1 (RX_Next_Highest rx1 - rx_window_size rx1) \<le> k)
                (rx_window rx1) of
            Some (k, _) \<Rightarrow> rx1\<lparr>RX_Next_Reassembly := k\<rparr> | None \<Rightarrow> rx1) else rx1)"
    unfolding um_nr_advance_def Let_def rx1_def by (rule refl)
  show ?thesis
  proof (cases "sn_in_reassembly_window rx1 (RX_Next_Reassembly rx1)")
    case True
    moreover have "RX_Next_Reassembly rx1 < rx_mod rx"
      using inv by (simp add: rx1_def um_nr_drop_outside_def rx_inv_upto_def rx_at_edge_def)
    ultimately show ?thesis using set [of "RX_Next_Reassembly rx1"] unfolding eq by simp
  next
    case False
    obtain p where p: "List.find (\<lambda>(k, _). RX_MOD_NR_BASE rx1 (RX_Next_Highest rx1 - rx_window_size rx1) \<le> k)
        (rx_window rx1) = Some p"
      using mem unfolding base_edges(1) [OF c1] by (cases "rx_window rx1") auto
    then have "fst p \<in> fst ` set (rx_window rx1)" using find_mem by fastforce
    then show ?thesis unfolding eq using False p keys set [of "fst p"] by (auto split: prod.splits)
  qed
qed

lemma um_nr_handle_update_inv:
  assumes inv: "rx_inv_upto (\<lambda>k. k = sn) rx" and sn: "sn \<in> fst ` set (rx_window rx)"
    and r: "um_nr_handle_rx_buffer_update sn rx = Ret rx'"
  shows "rx_inv rx'"
proof -
  obtain pdu where f: "sm_find (rx_window rx) sn = Some pdu"
    using sn by (metis map_of_eq_None_iff option.exhaust)
  from r obtain complete pdu' rx1 where
    a: "um_nr_assemble (length (segments pdu)) [] (segments pdu) pdu = Ret (complete, pdu')"
    and u: "(if complete then um_nr_deliver sn pdu' (rx\<lparr>rx_window := sm_assign sn pdu' (rx_window rx)\<rparr>)
       else if \<not> sn_in_reassembly_window (rx\<lparr>rx_window := sm_assign sn pdu' (rx_window rx)\<rparr>) sn
       then Ret (um_nr_advance sn (rx\<lparr>rx_window := sm_assign sn pdu' (rx_window rx)\<rparr>))
       else Ret (rx\<lparr>rx_window := sm_assign sn pdu' (rx_window rx)\<rparr>)) = Ret rx1"
    and e: "rx' = um_nr_update_timer rx1"
    by (auto simp: um_nr_handle_rx_buffer_update_def f bind_outcome_Ret_iff Let_def)
  let ?rx = "rx\<lparr>rx_window := sm_assign sn pdu' (rx_window rx)\<rparr>"
  have i: "rx_inv_upto (\<lambda>k. k = sn) ?rx"
    using inv sn sm.ordered_assign by (auto simp: rx_inv_upto_def)
  have "rx_inv_upto (\<lambda>_. False) rx1"
  proof (cases complete)
    case True
    then show ?thesis using u rx_inv_deliver [OF i] by simp
  next
    case nc: False
    show ?thesis
    proof (cases "sn_in_reassembly_window ?rx sn")
      case True
      then have "rx1 = ?rx" using u nc by simp
      then show ?thesis using i True by (auto simp: rx_inv_upto_def)
    next
      case False
      then have "rx1 = um_nr_advance sn ?rx" using u nc by simp
      then show ?thesis using rx_inv_advance [OF i] by simp
    qed
  qed
  then show ?thesis unfolding e by (rule rx_inv_timer)
qed

lemma unat_ucast_16_32: "unat (ucast (x :: u16) :: u32) = unat x"
  using unsigned_less [of x, where 'a=nat] by (simp add: unsigned_ucast_eq take_bit_nat_eq_self)

lemma um_nr_handle_data_pdu_inv:
  assumes inv: "rx_inv rx" and r: "um_nr_handle_data_pdu mem payload rx = Ret rx'"
  shows "rx_inv rx'"
proof -
  obtain n h where h: "rlc_um_nr_read_data_pdu_header payload (rx_sn_field_length rx) um_header_0 = Some (n, h)"
    using r by (auto simp: um_nr_handle_data_pdu_def split: option.splits)
  let ?sn = "ucast (um_sn h) :: u32"
  have sn: "?sn < rx_mod rx"
    using um_read_sn_bound [OF h] inv by (auto simp: rx_inv_def word_less_nat_alt unat_ucast_16_32)
  have r: "(if um_si h = full_sdu then
        bind_outcome (um_nr_strip_pdu_header mem h payload) (\<lambda>sdu. Ret (rx\<lparr>to_pdcp := to_pdcp rx @ [sdu]\<rparr>))
      else if sn_invalid_for_rx_buffer rx ?sn then Ret rx
      else bind_outcome (um_nr_strip_pdu_header mem h payload) (\<lambda>buf.
        um_nr_handle_rx_buffer_update ?sn (um_nr_store \<lparr>pdu_header = h, pdu_buf = buf\<rparr> rx))) = Ret rx'"
    using r unfolding um_nr_handle_data_pdu_def h by simp
  show ?thesis
  proof (cases "um_si h = full_sdu")
    case True
    then obtain b where "rx' = rx\<lparr>to_pdcp := to_pdcp rx @ [b]\<rparr>"
      using r by (cases "um_nr_strip_pdu_header mem h payload") (simp_all, blast)
    then show ?thesis using inv by (simp add: rx_inv_def)
  next
    case nf: False
    show ?thesis
    proof (cases "sn_invalid_for_rx_buffer rx ?sn")
      case True
      then show ?thesis using inv r nf by simp
    next
      case False
      then obtain buf where
        u: "um_nr_handle_rx_buffer_update ?sn (um_nr_store \<lparr>pdu_header = h, pdu_buf = buf\<rparr> rx) = Ret rx'"
        using r nf by (cases "um_nr_strip_pdu_header mem h payload") simp_all
      let ?rx = "um_nr_store \<lparr>pdu_header = h, pdu_buf = buf\<rparr> rx"
      have "rx_inv_upto (\<lambda>k. k = ?sn) ?rx" "?sn \<in> fst ` set (rx_window ?rx)"
        using inv sn sm.ordered_assign by (auto simp: rx_inv_def rx_inv_upto_def um_nr_store_def Let_def)
      then show ?thesis using u by (rule um_nr_handle_update_inv)
    qed
  qed
qed

section \<open>Runs of the receiver\<close>

text \<open>
  What can happen to a receiver: the MAC hands it a PDU (with or without memory left for a
  buffer), its timer expires while it runs, or it is re-established.
\<close>

datatype rx_event = RxPdu bool bytes | RxTimer | RxReestablish

fun rx_step :: "rx_event \<Rightarrow> rlc_um_nr_rx \<Rightarrow> rlc_um_nr_rx outcome" where
  "rx_step (RxPdu mem payload) rx = um_nr_handle_data_pdu mem payload rx"
| "rx_step RxTimer rx = (if timer_running rx then um_nr_timer_expired rx else Ret rx)"
| "rx_step RxReestablish rx = Ret (um_nr_rx_reestablish rx)"

fun rx_run :: "rx_event list \<Rightarrow> rlc_um_nr_rx \<Rightarrow> rlc_um_nr_rx outcome" where
  "rx_run [] rx = Ret rx"
| "rx_run (e # es) rx = bind_outcome (rx_step e rx) (rx_run es)"

lemma rx_step_inv: "rx_inv rx \<Longrightarrow> rx_step e rx = Ret rx' \<Longrightarrow> rx_inv rx'"
  using rx_inv_timer_expired [of rx]
  by (cases e) (auto simp: um_nr_rx_reestablish_def rx_inv_reset dest: um_nr_handle_data_pdu_inv split: if_splits)

lemma rx_run_inv: "rx_inv rx \<Longrightarrow> rx_run es rx = Ret rx' \<Longrightarrow> rx_inv rx'"
  by (induction es arbitrary: rx) (auto simp: bind_outcome_Ret_iff dest: rx_step_inv)

lemma rx_window_bound:
  assumes "rx_inv rx"
  shows "length (rx_window rx) \<le> unat (rx_window_size rx)"
proof -
  let ?K = "fst ` set (rx_window rx)" and ?f = "\<lambda>k. unat (RX_MOD_NR_BASE rx k)"
  have c: "rx_cfg_ok rx" and K: "\<forall>k \<in> ?K. k < rx_mod rx \<and> sn_in_reassembly_window rx k"
    and o: "sm_ordered (rx_window rx)" using assms by (auto simp: rx_inv_def)
  have "?f ` ?K \<subseteq> {..<unat (rx_window_size rx)}"
    using K by (auto simp: in_window_iff [OF c] word_less_nat_alt)
  moreover have "inj_on ?f ?K"
  proof (rule inj_onI)
    fix x y assume a: "x \<in> ?K" "y \<in> ?K" "?f x = ?f y"
    then have "x < rx_mod rx" "y < rx_mod rx" using K by blast+
    moreover have "RX_MOD_NR_BASE rx x = RX_MOD_NR_BASE rx y" using a(3) by (simp add: word_unat_eq_iff)
    ultimately show "x = y" by (rule base_inj [OF c])
  qed
  ultimately have "card ?K \<le> unat (rx_window_size rx)"
    by (metis card_image card_lessThan card_mono finite_lessThan)
  moreover have "distinct (map fst (rx_window rx))"
    using o by (simp add: sm_ordered_def strict_sorted_iff)
  ultimately show ?thesis by (metis distinct_card length_map list.set_map)
qed

text \<open>
  C10. However a configured receiver is used, as long as its operations return, the receive buffer
  holds only sequence numbers inside the reassembly window, at most one entry per sequence number
  and so never more entries than the window is wide; the state variables stay below the modulus,
  and \<open>RX_Next_Reassembly\<close> stays between the two edges of the window.
\<close>

theorem um_nr_rx_window_invariant:
  assumes "sz \<noteq> um_nulltype" "rx_run es (um_nr_rx_configure sz) = Ret rx"
  shows "(\<forall>(k, _) \<in> set (rx_window rx). k < rx_mod rx \<and> sn_in_reassembly_window rx k) \<and>
    distinct (map fst (rx_window rx)) \<and> length (rx_window rx) \<le> unat (rx_window_size rx) \<and>
    RX_Next_Highest rx < rx_mod rx \<and> RX_Timer_Trigger rx < rx_mod rx \<and> RX_Next_Reassembly rx < rx_mod rx \<and>
    (sn_in_reassembly_window rx (RX_Next_Reassembly rx) \<or> RX_Next_Reassembly rx = RX_Next_Highest rx)"
proof -
  have inv: "rx_inv rx" using rx_run_inv [OF rx_inv_configure [OF assms(1)] assms(2)] .
  then show ?thesis using rx_window_bound [OF inv]
    by (auto simp: rx_inv_def rx_at_edge_def sm_ordered_def strict_sorted_iff)
qed

text \<open>
  C21. When the reassembly timer expires, everything still waiting for a segment is given up:
  \<open>RX_Next_Reassembly\<close> moves up to \<open>RX_Next_Highest\<close>, the receive buffer is emptied, also of SDUs
  that arrived after the one the timer was started for, and the timer is not started again.
\<close>

theorem um_nr_timer_gives_up_all:
  assumes "sz \<noteq> um_nulltype" "rx_run es (um_nr_rx_configure sz) = Ret rx" "timer_running rx"
  shows "rx_step RxTimer rx = Ret (rx\<lparr>RX_Next_Reassembly := RX_Next_Highest rx, rx_window := [],
      timer_running := False, rx_lost_pdus := rx_lost_pdus rx + 1\<rparr>)"
  using um_nr_timer_expired_flush [OF rx_run_inv [OF rx_inv_configure [OF assms(1)] assms(2)] assms(3)] assms(3)
  by simp

text \<open>
  C22. The window test on sequence numbers modulo the modulus means what TS 38.322 says: a sequence
  number is in the reassembly window exactly when it lies 1 to \<open>UM_Window_Size\<close> steps below
  \<open>RX_Next_Highest\<close>, also where the numbers wrap around.
\<close>

theorem um_nr_window_meaning:
  assumes "sz \<noteq> um_nulltype" "rx_run es (um_nr_rx_configure sz) = Ret rx" "sn < rx_mod rx"
  shows "sn_in_reassembly_window rx sn \<longleftrightarrow>
    (\<exists>d. 1 \<le> d \<and> d \<le> unat (rx_window_size rx) \<and>
       (unat sn + d) mod unat (rx_mod rx) = unat (RX_Next_Highest rx))"
proof -
  have "rx_inv rx" using rx_run_inv [OF rx_inv_configure [OF assms(1)] assms(2)] .
  then show ?thesis using in_window_spec [of rx sn] assms(3) by (simp add: rx_inv_def)
qed

text \<open>A first segment of the SDU with sequence number 5 starts the timer.\<close>

definition example_rx :: rlc_um_nr_rx where
  "example_rx = (um_nr_rx_configure um_size6bits)
     \<lparr>RX_Next_Reassembly := 0, RX_Timer_Trigger := 6, RX_Next_Highest := 6, timer_running := True,
      rx_window := [(5, \<lparr>segments = [], sdu = Some (fresh_buffer\<lparr>headroom := 1021, data := [1, 2]\<rparr>),
        next_expected_so = 2, total_sdu_length = 0\<rparr>)]\<rparr>"

lemma example_rx: "rx_run [RxPdu True [0x45, 1, 2]] (um_nr_rx_configure um_size6bits) = Ret example_rx"
proof -
  have h: "rlc_um_nr_read_data_pdu_header [0x45, 1, 2] um_size6bits um_header_0 =
    Some (1, \<lparr>um_si = first_segment, um_sn_size = um_size6bits, um_sn = 5, um_so = 0\<rparr>)"
    by (simp add: rlc_um_nr_read_data_pdu_header_def um_header_0_def si_of_def um_nr_read_so_def)
  show ?thesis
    by (simp add: um_nr_handle_data_pdu_def um_nr_rx_configure_def h sn_invalid_for_rx_buffer_def RX_MOD_NR_BASE_def
        um_nr_strip_pdu_header_def append_bytes_def fresh_buffer_def get_tailroom_def buffer_sizes strip_bytes_def
        rlc_um_nr_packed_length_def um_nr_store_def update_total_sdu_length_def pdu_segments_0_def
        um_nr_handle_rx_buffer_update_def sn_in_reassembly_window_def um_nr_advance_def um_nr_drop_outside_def
        sm_erase_if_def um_nr_update_timer_def timer_start_cond_def has_missing_byte_segment_def Let_def example_rx_def)
qed

theorem um_nr_rx_window_invariant_witness:
  "rx_run [RxPdu True [0x45, 1, 2]] (um_nr_rx_configure um_size6bits) = Ret example_rx \<and>
    sn_in_reassembly_window example_rx 5 \<and> length (rx_window example_rx) \<le> 32"
  using um_nr_rx_window_invariant [OF _ example_rx] example_rx
  by (simp add: example_rx_def um_nr_rx_configure_def)

theorem um_nr_timer_gives_up_all_witness:
  "\<exists>rx. rx_step RxTimer example_rx = Ret rx \<and> rx_window rx = [] \<and> RX_Next_Reassembly rx = 6"
proof -
  have "timer_running example_rx" "RX_Next_Highest example_rx = 6" by (simp_all add: example_rx_def)
  then show ?thesis using um_nr_timer_gives_up_all [OF _ example_rx] by auto
qed

theorem um_nr_window_meaning_witness:
  "sn_in_reassembly_window example_rx 40 \<longleftrightarrow>
     (\<exists>d. 1 \<le> d \<and> d \<le> 32 \<and> (40 + d) mod 64 = (6 :: nat))"
  using um_nr_window_meaning [OF _ example_rx, of 40] by (simp add: example_rx_def um_nr_rx_configure_def)

end
