(* ===== verification/UmNrLink.thy ===== *)
theory UmNrLink
  imports UmNrTx UmNrRx
begin

text \<open>
  The two ends of an RLC UM NR bearer together: what the receiver does with the PDUs the
  transmitter builds, over a link that neither loses nor reorders them.
\<close>

section \<open>The entity\<close>

text \<open>
  \<open>rlc_um_nr::configure\<close> makes a new receiver and a new transmitter.  \<open>timer_valid\<close> says whether the
  receiver got a timer.
\<close>

definition um_nr_configure ::
  "(nat \<Rightarrow> nat \<Rightarrow> nat) \<Rightarrow> rlc_um_nr_sn_size \<Rightarrow> bool \<Rightarrow> nat \<Rightarrow> bool \<Rightarrow> (rlc_um_nr_tx, rlc_um_nr_rx) rlc_um
     \<Rightarrow> (bool \<times> (rlc_um_nr_tx, rlc_um_nr_rx) rlc_um) outcome" where
  "um_nr_configure grow sn_field_length is_mrb tx_queue_length timer_valid e =
     (let e = e\<lparr>um_rx := Some (um_nr_rx_configure sn_field_length)\<rparr> in
      if \<not> timer_valid then Ret (False, e)
      else bind_outcome (um_nr_tx_configure grow sn_field_length is_mrb tx_queue_length) (\<lambda>tx.
             Ret (True, e\<lparr>um_tx := Some tx, rx_enabled := True, tx_enabled := True\<rparr>)))"

lemma um_nr_configure_ready:
  assumes "sz \<noteq> um_nulltype" "128 < n \<longrightarrow> n \<le> grow 128 n" "bbq_configured grow n \<le> bbq_lim"
  shows "\<exists>e'. um_nr_configure grow sz mrb n True e = Ret (True, e') \<and> tx_enabled e' \<and> rx_enabled e' \<and>
    pred_option tx_ok (um_tx e') \<and> pred_option rx_inv (um_rx e')"
  using um_nr_tx_configure_ok [OF assms, of mrb] rx_inv_configure [OF assms(1)]
  by (auto simp: um_nr_configure_def Let_def)

section \<open>The receiver on PDUs that arrive in order\<close>

lemma strip_written:
  assumes "length (rlc_um_nr_write_data_pdu_header h) + length d \<le> 12237"
  shows "um_nr_strip_pdu_header True h (rlc_um_nr_write_data_pdu_header h @ d) =
    Ret \<lparr>headroom = 1020 + length (rlc_um_nr_write_data_pdu_header h), data = d, pdcp_sn = 0\<rparr>"
proof -
  have "unat (rlc_um_nr_packed_length h) = length (rlc_um_nr_write_data_pdu_header h)"
    by (simp add: length_um_header rlc_um_nr_packed_length_def)
  then show ?thesis
    using assms by (simp add: um_nr_strip_pdu_header_def append_bytes_def tailroom_fresh
        strip_bytes_def) (simp add: fresh_buffer_def buffer_sizes)
qed

text \<open>A partly received SDU: the bytes \<open>pre\<close> so far, in a buffer of headroom \<open>r\<close>.\<close>

definition partial :: "nat \<Rightarrow> bytes \<Rightarrow> rlc_umd_pdu_segments_nr" where
  "partial r pre = \<lparr>segments = [], sdu = Some \<lparr>headroom = r, data = pre, pdcp_sn = 0\<rparr>,
     next_expected_so = of_nat (length pre), total_sdu_length = 0\<rparr>"

text \<open>The receiver between SDUs, and while the SDU with number \<open>n\<close> is being received.\<close>

definition rx_idle :: "u32 \<Rightarrow> rlc_um_nr_rx \<Rightarrow> bool" where
  "rx_idle n rx \<longleftrightarrow> rx_inv rx \<and> RX_Next_Reassembly rx = n \<and> RX_Next_Highest rx = n \<and> rx_window rx = []"

definition rx_busy :: "u32 \<Rightarrow> nat \<Rightarrow> bytes \<Rightarrow> rlc_um_nr_rx \<Rightarrow> bool" where
  "rx_busy n r pre rx \<longleftrightarrow> rx_inv rx \<and> n < rx_mod rx \<and> RX_Next_Reassembly rx = n \<and>
     RX_Next_Highest rx = (n + 1) mod rx_mod rx \<and> rx_window rx = [(n, partial r pre)]"

text \<open>The header of a segment.\<close>

definition seg_header :: "rlc_nr_si_field \<Rightarrow> rlc_um_nr_sn_size \<Rightarrow> u32 \<Rightarrow> nat \<Rightarrow> rlc_um_nr_pdu_header" where
  "seg_header si sz n so = \<lparr>um_si = si, um_sn_size = sz, um_sn = ucast n, um_so = of_nat so\<rparr>"

abbreviation seg_pdu :: "rlc_nr_si_field \<Rightarrow> rlc_um_nr_sn_size \<Rightarrow> u32 \<Rightarrow> nat \<Rightarrow> bytes \<Rightarrow> bytes" where
  "seg_pdu si sz n so d \<equiv> rlc_um_nr_write_data_pdu_header (seg_header si sz n so) @ d"

lemma rx_full_sdu:
  assumes inv: "rx_inv rx" and d: "length d \<le> 12236"
  shows "um_nr_handle_data_pdu True (seg_pdu full_sdu (rx_sn_field_length rx) n so d) rx =
    Ret (rx\<lparr>to_pdcp := to_pdcp rx @ [\<lparr>headroom = 1021, data = d, pdcp_sn = 0\<rparr>]\<rparr>)"
proof -
  let ?h = "\<lparr>um_si = full_sdu, um_sn_size = rx_sn_field_length rx, um_sn = 0, um_so = 0\<rparr>"
  have w: "rlc_um_nr_write_data_pdu_header (seg_header full_sdu (rx_sn_field_length rx) n so) =
      rlc_um_nr_write_data_pdu_header ?h"
    by (simp add: rlc_um_nr_write_data_pdu_header_def seg_header_def)
  have v: "valid_um_header ?h" using inv by (auto simp: valid_um_header_def rx_inv_def)
  have l: "length (rlc_um_nr_write_data_pdu_header ?h) = 1" by (simp add: length_um_header)
  show ?thesis
    unfolding w using read_written_um [OF v, of um_header_0 d] strip_written [of ?h d] d l
    by (simp add: um_nr_handle_data_pdu_def um_header_0_def)
qed

lemma n_bound: "rx_inv rx \<Longrightarrow> n < rx_mod rx \<Longrightarrow> unat n < 4096"
  by (auto simp: rx_inv_def word_less_nat_alt)

lemma ucast_16: "unat (n :: u32) < 4096 \<Longrightarrow> unat (ucast n :: u16) = unat n"
  by (simp add: unsigned_ucast_eq take_bit_nat_eq_self)

lemma ucast_16_32: "unat (n :: u32) < 4096 \<Longrightarrow> (ucast (ucast n :: u16) :: u32) = n"
  by (simp add: word_unat_eq_iff unat_ucast_16_32 ucast_16)

lemma valid_seg_header:
  assumes "rx_inv rx" "n < rx_mod rx" "so < 65536"
    "si = first_segment \<and> so = 0 \<or> (si = last_segment \<or> si = neither_first_nor_last_segment) \<and> so \<noteq> 0"
  shows "valid_um_header (seg_header si (rx_sn_field_length rx) n so)"
proof -
  have "(of_nat so :: u16) = 0 \<longleftrightarrow> so = 0"
    using assms(3) by (simp add: word_unat_eq_iff unat_of_nat take_bit_nat_eq_self)
  then show ?thesis
    using assms ucast_16 [OF n_bound [OF assms(1,2)]]
    by (auto simp: valid_um_header_def seg_header_def rx_inv_def word_less_nat_alt)
qed

text \<open>What \<open>um_nr_handle_data_pdu\<close> comes down to on a segment.\<close>

lemma rx_segment:
  assumes "rx_inv rx" "n < rx_mod rx" "so < 65536"
    "si = first_segment \<and> so = 0 \<or> (si = last_segment \<or> si = neither_first_nor_last_segment) \<and> so \<noteq> 0"
    "length (seg_pdu si (rx_sn_field_length rx) n so d) \<le> 12237" "\<not> sn_invalid_for_rx_buffer rx n"
  shows "um_nr_handle_data_pdu True (seg_pdu si (rx_sn_field_length rx) n so d) rx =
    um_nr_handle_rx_buffer_update n (um_nr_store
      \<lparr>pdu_header = seg_header si (rx_sn_field_length rx) n so,
       pdu_buf = \<lparr>headroom = 1020 + length (rlc_um_nr_write_data_pdu_header
                    (seg_header si (rx_sn_field_length rx) n so)), data = d, pdcp_sn = 0\<rparr>\<rparr> rx)"
proof -
  let ?h = "seg_header si (rx_sn_field_length rx) n so"
  have r: "rlc_um_nr_read_data_pdu_header (seg_pdu si (rx_sn_field_length rx) n so d)
      (rx_sn_field_length rx) um_header_0 = Some (length (rlc_um_nr_write_data_pdu_header ?h), ?h)"
    using read_written_um [OF valid_seg_header [OF assms(1-4)], of um_header_0 d]
    by (simp add: seg_header_def um_header_0_def)
  have n: "ucast (um_sn ?h) = n" using ucast_16_32 [OF n_bound [OF assms(1,2)]] by (simp add: seg_header_def)
  have s: "um_si ?h \<noteq> full_sdu" using assms(4) by (auto simp: seg_header_def)
  show ?thesis
    unfolding um_nr_handle_data_pdu_def r
    using strip_written [of ?h d] assms(5,6) n s by simp
qed

lemma ucast_of_nat_16: "so < 65536 \<Longrightarrow> (ucast (of_nat so :: u16) :: u32) = of_nat so"
  by (simp add: word_unat_eq_iff unat_ucast_16_32 unat_of_nat take_bit_nat_eq_self)

lemma of_nat_inj_32: "m < 2 ^ 32 \<Longrightarrow> k < 2 ^ 32 \<Longrightarrow> (of_nat m :: u32) = of_nat k \<longleftrightarrow> m = k"
  by (simp add: word_unat_eq_iff unat_of_nat take_bit_nat_eq_self)

lemma of_nat_0_32: "m < 2 ^ 32 \<Longrightarrow> (of_nat m :: u32) = 0 \<longleftrightarrow> m = 0"
  using of_nat_inj_32 [of m 0] by simp

lemma idle_valid: "rx_idle n rx \<Longrightarrow> \<not> sn_invalid_for_rx_buffer rx n"
  by (simp add: rx_idle_def sn_invalid_for_rx_buffer_def)

lemma busy_valid: "rx_busy n r pre rx \<Longrightarrow> \<not> sn_invalid_for_rx_buffer rx n"
  by (simp add: rx_busy_def sn_invalid_for_rx_buffer_def)

lemma busy_in_window:
  assumes "rx_busy n r pre rx"
  shows "sn_in_reassembly_window rx n"
proof -
  have "rx\<lparr>RX_Next_Highest := (n + 1) mod rx_mod rx\<rparr> = rx" using assms by (simp add: rx_busy_def)
  then show ?thesis using base_below_edge [of rx n] assms by (simp add: rx_busy_def rx_inv_def)
qed

lemma rx_first:
  assumes rx: "rx_idle n rx" and d: "length d \<le> 12235"
    and pdu: "pdu = seg_pdu first_segment (rx_sn_field_length rx) n 0 d"
  shows "\<exists>rx' r. um_nr_handle_data_pdu True pdu rx = Ret rx' \<and> rx_busy n r d rx' \<and> r \<le> 1022 \<and>
    to_pdcp rx' = to_pdcp rx \<and> rx_sn_field_length rx' = rx_sn_field_length rx \<and> rx_mod rx' = rx_mod rx"
proof -
  have inv: "rx_inv rx" "n < rx_mod rx" "rx_cfg_ok rx" using rx by (auto simp: rx_idle_def rx_inv_def)
  let ?h = "seg_header first_segment (rx_sn_field_length rx) n 0"
  have hl: "length (rlc_um_nr_write_data_pdu_header ?h) \<le> 2" by (simp add: length_um_header seg_header_def)
  let ?r = "1020 + length (rlc_um_nr_write_data_pdu_header ?h)"
  let ?b = "\<lparr>headroom = ?r, data = d, pdcp_sn = 0\<rparr>"
  let ?s = "\<lparr>pdu_header = ?h, pdu_buf = ?b\<rparr>"
  have st: "um_nr_store ?s rx = rx\<lparr>rx_window := [(n, pdu_segments_0\<lparr>segments := [(0, ?s)]\<rparr>)]\<rparr>"
    using rx ucast_16_32 [OF n_bound [OF inv(1,2)]]
    by (simp add: um_nr_store_def rx_idle_def update_total_sdu_length_def seg_header_def pdu_segments_0_def)
  have as: "um_nr_assemble 1 [] [(0, ?s)] (pdu_segments_0\<lparr>segments := [(0, ?s)]\<rparr>) = Ret (False, partial ?r d)"
    by (simp add: pdu_segments_0_def seg_header_def partial_def)
  have nw: "\<not> sn_in_reassembly_window rx n"
    using rx edge_not_in_window [OF inv(3)] by (simp add: rx_idle_def)
  let ?rx = "rx\<lparr>RX_Next_Highest := (n + 1) mod rx_mod rx, rx_window := [(n, partial ?r d)]\<rparr>"
  have iw: "sn_in_reassembly_window (rx\<lparr>RX_Next_Highest := (n + 1) mod rx_mod rx\<rparr>) n"
    using base_below_edge [OF inv(3,2)] .
  have adv: "um_nr_advance n (rx\<lparr>rx_window := [(n, partial ?r d)]\<rparr>) = ?rx"
    using rx iw by (simp add: um_nr_advance_def Let_def um_nr_drop_outside_def sm_erase_if_def rx_idle_def)
  have u: "um_nr_handle_rx_buffer_update n (um_nr_store ?s rx) = Ret (um_nr_update_timer ?rx)"
    unfolding st um_nr_handle_rx_buffer_update_def using as nw adv by simp
  have h: "um_nr_handle_data_pdu True pdu rx = Ret (um_nr_update_timer ?rx)"
    unfolding pdu u [symmetric] using inv hl d idle_valid [OF rx] by (intro rx_segment) auto
  show ?thesis
    using um_nr_handle_data_pdu_inv [OF inv(1) h] rx inv hl
    by (intro exI [of _ "um_nr_update_timer ?rx"] exI [of _ ?r]) (simp add: h rx_busy_def rx_idle_def)
qed

text \<open>A later segment: stored, appended, and the SDU delivered if it is the last one.\<close>

lemma rx_next_store:
  assumes rx: "rx_busy n r pre rx" and len: "length pre < 65536"
    and s: "s = \<lparr>pdu_header = seg_header si sz n (length pre), pdu_buf = b\<rparr>"
  shows "um_nr_store s rx = rx\<lparr>rx_window := [(n, (partial r pre)\<lparr>segments := [(of_nat (length pre), s)],
    total_sdu_length := (if si = last_segment then of_nat (length pre) + of_nat (N_bytes b) else 0)\<rparr>)]\<rparr>"
proof -
  have "unat n < 4096" using rx n_bound by (auto simp: rx_busy_def)
  then have "(ucast (ucast n :: u16) :: u32) = n" by (rule ucast_16_32)
  then show ?thesis
    using rx ucast_of_nat_16 [OF len]
    by (simp add: um_nr_store_def rx_busy_def s seg_header_def update_total_sdu_length_def partial_def)
qed

lemma rx_next_assemble:
  assumes len: "length pre + N_bytes b < 65536" "pre \<noteq> []" "r + length pre + N_bytes b \<le> 13257"
    and s: "s = \<lparr>pdu_header = seg_header si sz n (length pre), pdu_buf = b\<rparr>"
    and p: "p = (partial r pre)\<lparr>segments := [(of_nat (length pre), s)], total_sdu_length := t\<rparr>"
  shows "um_nr_assemble 1 [] [(of_nat (length pre), s)] p =
    (let p' = (partial r (pre @ data b))\<lparr>total_sdu_length := t\<rparr> in
     Ret (of_nat (length pre + N_bytes b) = t, p'))"
proof -
  have so: "(ucast (of_nat (length pre) :: u16) :: u32) = of_nat (length pre)" using len by (intro ucast_of_nat_16) simp
  have z: "(of_nat (length pre) :: u32) \<noteq> 0" using len of_nat_0_32 [of "length pre"] by simp
  have fit: "\<not> get_tailroom \<lparr>headroom = r, data = pre, pdcp_sn = 0\<rparr> < N_bytes b"
    using len(3) by (simp add: get_tailroom_def buffer_sizes)
  show ?thesis using so z fit by (simp add: p s seg_header_def partial_def Let_def)
qed

lemma rx_more:
  assumes rx: "rx_busy n r pre rx" and r: "r \<le> 1022"
    and len: "pre \<noteq> []" "length pre + length d \<le> 12235"
    and pdu: "pdu = seg_pdu neither_first_nor_last_segment (rx_sn_field_length rx) n (length pre) d"
      "length pdu \<le> 12237"
  shows "\<exists>rx'. um_nr_handle_data_pdu True pdu rx = Ret rx' \<and> rx_busy n r (pre @ d) rx' \<and>
    to_pdcp rx' = to_pdcp rx \<and> rx_sn_field_length rx' = rx_sn_field_length rx \<and> rx_mod rx' = rx_mod rx"
proof -
  have inv: "rx_inv rx" "n < rx_mod rx" "rx_cfg_ok rx" using rx by (auto simp: rx_busy_def rx_inv_def)
  let ?h = "seg_header neither_first_nor_last_segment (rx_sn_field_length rx) n (length pre)"
  let ?b = "\<lparr>headroom = 1020 + length (rlc_um_nr_write_data_pdu_header ?h), data = d, pdcp_sn = 0\<rparr>"
  let ?s = "\<lparr>pdu_header = ?h, pdu_buf = ?b\<rparr>"
  note st = rx_next_store [OF rx _ refl, of neither_first_nor_last_segment "rx_sn_field_length rx" ?b]
  note as = rx_next_assemble [of pre ?b r, OF _ len(1) _ refl refl, of neither_first_nor_last_segment
      "rx_sn_field_length rx" n 0]
  let ?rx = "rx\<lparr>rx_window := [(n, partial r (pre @ d))]\<rparr>"
  have nz: "(of_nat (length pre + length d) :: u32) \<noteq> 0"
    using len by (subst of_nat_0_32) auto
  have p: "(partial r (pre @ d))\<lparr>total_sdu_length := 0\<rparr> = partial r (pre @ d)" by (simp add: partial_def)
  have u: "um_nr_handle_rx_buffer_update n (um_nr_store ?s rx) = Ret (um_nr_update_timer ?rx)"
    using as st len r nz busy_in_window [OF rx]
    by (simp add: um_nr_handle_rx_buffer_update_def Let_def p)
  have h: "um_nr_handle_data_pdu True pdu rx = Ret (um_nr_update_timer ?rx)"
    unfolding pdu(1) u [symmetric] using inv len pdu(2) [unfolded pdu(1)] busy_valid [OF rx]
    by (intro rx_segment) auto
  show ?thesis
    using um_nr_handle_data_pdu_inv [OF inv(1) h] rx
    by (intro exI [of _ "um_nr_update_timer ?rx"]) (simp add: h rx_busy_def)
qed

lemma rx_last:
  assumes rx: "rx_busy n r pre rx" and r: "r \<le> 1022"
    and len: "pre \<noteq> []" "length pre + length d \<le> 12235"
    and pdu: "pdu = seg_pdu last_segment (rx_sn_field_length rx) n (length pre) d"
      "length pdu \<le> 12237"
  shows "\<exists>rx'. um_nr_handle_data_pdu True pdu rx = Ret rx' \<and> rx_idle ((n + 1) mod rx_mod rx) rx' \<and>
    to_pdcp rx' = to_pdcp rx @ [\<lparr>headroom = r, data = pre @ d, pdcp_sn = 0\<rparr>] \<and>
    rx_sn_field_length rx' = rx_sn_field_length rx \<and> rx_mod rx' = rx_mod rx"
proof -
  have inv: "rx_inv rx" "n < rx_mod rx" "rx_cfg_ok rx" using rx by (auto simp: rx_busy_def rx_inv_def)
  let ?h = "seg_header last_segment (rx_sn_field_length rx) n (length pre)"
  let ?b = "\<lparr>headroom = 1020 + length (rlc_um_nr_write_data_pdu_header ?h), data = d, pdcp_sn = 0\<rparr>"
  let ?s = "\<lparr>pdu_header = ?h, pdu_buf = ?b\<rparr>"
  let ?t = "of_nat (length pre) + of_nat (length d) :: u32"
  note st = rx_next_store [OF rx _ refl, of last_segment "rx_sn_field_length rx" ?b]
  note as = rx_next_assemble [of pre ?b r, OF _ len(1) _ refl refl, of last_segment
      "rx_sn_field_length rx" n ?t]
  let ?rx = "rx\<lparr>to_pdcp := to_pdcp rx @ [\<lparr>headroom = r, data = pre @ d, pdcp_sn = 0\<rparr>],
    rx_window := [], RX_Next_Reassembly := (n + 1) mod rx_mod rx\<rparr>"
  have dl: "um_nr_deliver n ((partial r (pre @ d))\<lparr>total_sdu_length := ?t\<rparr>)
      (rx\<lparr>rx_window := [(n, (partial r (pre @ d))\<lparr>total_sdu_length := ?t\<rparr>)]\<rparr>) = Ret ?rx"
    using rx by (simp add: um_nr_deliver_def Let_def partial_def sm_erase_def rx_busy_def)
  have u: "um_nr_handle_rx_buffer_update n (um_nr_store ?s rx) = Ret (um_nr_update_timer ?rx)"
    using as st len r dl by (simp add: um_nr_handle_rx_buffer_update_def Let_def)
  have h: "um_nr_handle_data_pdu True pdu rx = Ret (um_nr_update_timer ?rx)"
    unfolding pdu(1) u [symmetric] using inv len pdu(2) [unfolded pdu(1)] busy_valid [OF rx]
    by (intro rx_segment) auto
  show ?thesis
    using um_nr_handle_data_pdu_inv [OF inv(1) h] rx
    by (intro exI [of _ "um_nr_update_timer ?rx"]) (simp add: h rx_busy_def rx_idle_def)
qed

section \<open>The transmitter with 6-bit sequence numbers\<close>

abbreviation space_of :: "u32 \<Rightarrow> nat" where
  "space_of g \<equiv> min (unat g) 12237"

lemma seg_header_lengths:
  assumes "so < 65536" "0 < so"
  shows "length (rlc_um_nr_write_data_pdu_header (seg_header full_sdu um_size6bits n 0)) = 1"
    "length (rlc_um_nr_write_data_pdu_header (seg_header first_segment um_size6bits n 0)) = 1"
    "length (rlc_um_nr_write_data_pdu_header (seg_header last_segment um_size6bits n so)) = 3"
    "length (rlc_um_nr_write_data_pdu_header (seg_header neither_first_nor_last_segment um_size6bits n so)) = 3"
proof -
  have "(of_nat so :: u16) \<noteq> 0"
    using assms by (simp add: word_unat_eq_iff unat_of_nat take_bit_nat_eq_self)
  then show "length (rlc_um_nr_write_data_pdu_header (seg_header full_sdu um_size6bits n 0)) = 1"
    "length (rlc_um_nr_write_data_pdu_header (seg_header first_segment um_size6bits n 0)) = 1"
    "length (rlc_um_nr_write_data_pdu_header (seg_header last_segment um_size6bits n so)) = 3"
    "length (rlc_um_nr_write_data_pdu_header (seg_header neither_first_nor_last_segment um_size6bits n so)) = 3"
    by (simp_all add: length_um_header seg_header_def)
qed

lemma le_space:
  assumes "h \<le> space_of g" "N < 65536"
  shows "(of_nat N \<le> pdu_space_of g - of_nat h) = (N \<le> space_of g - h)"
proof -
  have h: "h \<le> 12237" using assms(1) by simp
  then have u: "unat (of_nat h :: u32) = h" by (simp add: unat_of_nat take_bit_nat_eq_self)
  have "unat (pdu_space_of g - of_nat h) = space_of g - h"
    using assms(1) u by (subst unat_sub) (simp_all add: word_le_nat_alt unat_pdu_space del: min_less_iff_conj)
  then show ?thesis using assms(2) by (simp add: word_le_nat_alt unat_of_nat take_bit_nat_eq_self)
qed

lemma build_large:
  assumes "5 \<le> unat g" "tx_sdu tx \<noteq> None \<or> queued (tx_sdu_queue tx) \<noteq> []"
  shows "um_nr_build True g tx =
    bind_outcome (um_nr_select (pdu_space_of g) tx) (\<lambda>(si, tx).
          case (si, tx_sdu tx) of
            (Some s, Some b) \<Rightarrow>
              um_nr_fill fresh_buffer g (pdu_space_of g)
                \<lparr>um_si = s, um_sn_size = tx_sn_field_length tx, um_sn = ucast (TX_Next tx),
                 um_so = ucast (next_so tx)\<rparr> b tx
          | _ \<Rightarrow> Ret ([], tx))"
proof -
  have "\<not> g < 2" using assms(1) by (simp add: word_less_nat_alt)
  then show ?thesis
    using assms(2) by (auto simp: um_nr_build_def um_tx_build_data_pdu_def um_nr_tx_build_data_pdu_def
        bbq_is_empty_iff Let_def)
qed

lemma ucast_of_nat_32_16: "k < 65536 \<Longrightarrow> (ucast (of_nat k :: u32) :: u16) = of_nat k"
  by (simp add: word_unat_eq_iff unsigned_ucast_eq unat_of_nat take_bit_nat_eq_self)

lemma tx_continue:
  assumes ok: "tx_ok tx" "tx_sn_field_length tx = um_size6bits" and g: "5 \<le> unat g"
    and b: "tx_sdu tx = Some b" "next_so tx = of_nat k" "0 < k" "k + N_bytes b < 65536"
  shows "um_nr_build True g tx =
    (let m = min (N_bytes b) (space_of g - 3);
         si = (if N_bytes b \<le> space_of g - 3 then last_segment else neither_first_nor_last_segment)
     in Ret (seg_pdu si um_size6bits (TX_Next tx) k (take m (data b)),
             filled (seg_header si um_size6bits (TX_Next tx) k) m b tx))"
proof -
  have w: "wf_buffer b" and hs: "head_len_segment tx = of_nat 3" using ok b(1) by (auto simp: tx_ok_def)
  have s: "5 \<le> space_of g" using g by simp
  let ?si = "if N_bytes b \<le> space_of g - 3 then last_segment else neither_first_nor_last_segment"
  let ?h = "seg_header ?si um_size6bits (TX_Next tx) k"
  have k: "ucast (next_so tx) = (of_nat k :: u16)" unfolding b(2) using b(4) by (intro ucast_of_nat_32_16) simp
  have sel: "um_nr_select (pdu_space_of g) tx = Ret (Some ?si, tx)"
    using le_space [of 3 g "N_bytes b"] s b by (simp add: um_nr_select_def hs del: of_nat_numeral)
  have hl: "length (rlc_um_nr_write_data_pdu_header ?h) = 3"
    using seg_header_lengths(3,4) [of k "TX_Next tx"] b(3,4) by simp
  have "um_nr_fill fresh_buffer g (pdu_space_of g) ?h b tx =
      Ret (rlc_um_nr_write_data_pdu_header ?h @ take (min (N_bytes b) (space_of g - 3)) (data b),
        filled ?h (min (N_bytes b) (space_of g - 3)) b tx)"
    using um_nr_fill_ok [OF w, of ?h g tx] hl s unfolding unat_pdu_space by simp
  then show ?thesis
    using build_large [OF g, of tx] sel k b(1) ok(2) by (simp add: Let_def seg_header_def)
qed

lemma tx_fresh:
  assumes ok: "tx_ok tx" "tx_sn_field_length tx = um_size6bits" and g: "5 \<le> unat g"
    and b: "tx_sdu tx = None" "dropWhile (\<lambda>y. y = None) (queued (tx_sdu_queue tx)) = Some b # ys"
  shows "\<exists>q. bbq_ok q \<and> queued q = ys \<and> um_nr_build True g tx =
    (let m = min (N_bytes b) (space_of g - 1);
         si = (if N_bytes b \<le> space_of g - 1 then full_sdu else first_segment)
     in Ret (seg_pdu si um_size6bits (TX_Next tx) 0 (take m (data b)),
             filled (seg_header si um_size6bits (TX_Next tx) 0) m b
               (tx\<lparr>tx_sdu_queue := q, tx_sdu := Some b, next_so := 0\<rparr>)))"
proof -
  let ?q = "tx_sdu_queue tx"
  have q: "bbq_ok ?q" "queued ?q \<noteq> []" using ok b(2) by (auto simp: tx_ok_def)
  have "Some b \<in> set (queued ?q)" using dropWhile_mem [OF b(2)] by simp
  then have w: "wf_buffer b" using queued_wf q(1) by blast
  obtain q' where q': "um_nr_next_sdu (bbq_size ?q) ?q = Ret (Some b, q')" "bbq_ok q'" "queued q' = ys"
    using um_nr_next_sdu_ok [OF q, of "bbq_size ?q"] b(2) by (auto simp: bbq_size_eq)
  have s: "5 \<le> space_of g" using g by simp
  let ?si = "if N_bytes b \<le> space_of g - 1 then full_sdu else first_segment"
  let ?tx = "tx\<lparr>tx_sdu_queue := q', tx_sdu := Some b, next_so := 0\<rparr>"
  let ?h = "seg_header ?si um_size6bits (TX_Next tx) 0"
  have sel: "um_nr_select (pdu_space_of g) tx = Ret (Some ?si, ?tx)"
    using le_space [of 1 g "N_bytes b"] s wf_N_bytes [OF w] b(1) q'(1)
    by (simp add: um_nr_select_def head_len_full_def Let_def)
  have hl: "length (rlc_um_nr_write_data_pdu_header ?h) = 1"
    using seg_header_lengths(1,2) [of 1 "TX_Next tx"] by simp
  have "um_nr_fill fresh_buffer g (pdu_space_of g) ?h b ?tx =
      Ret (rlc_um_nr_write_data_pdu_header ?h @ take (min (N_bytes b) (space_of g - 1)) (data b),
        filled ?h (min (N_bytes b) (space_of g - 1)) b ?tx)"
    using um_nr_fill_ok [OF w, of ?h g ?tx] hl s unfolding unat_pdu_space by simp
  then show ?thesis
    using build_large [OF g, of tx] sel b(1) q(2) q'(2,3) ok(2)
    by (intro exI [of _ q']) (simp add: Let_def seg_header_def)
qed

lemma tx_nothing:
  assumes ok: "tx_ok tx" and g: "5 \<le> unat g"
    and b: "tx_sdu tx = None" "dropWhile (\<lambda>y. y = None) (queued (tx_sdu_queue tx)) = []"
  shows "\<exists>q. bbq_ok q \<and> queued q = [] \<and> um_nr_build True g tx = Ret ([], tx\<lparr>tx_sdu_queue := q\<rparr>)"
proof (cases "queued (tx_sdu_queue tx) = []")
  case True
  then show ?thesis using ok b(1)
    by (intro exI [of _ "tx_sdu_queue tx"])
      (simp add: um_nr_build_def um_tx_build_data_pdu_def bbq_is_empty_iff tx_ok_def)
next
  case False
  have q: "bbq_ok (tx_sdu_queue tx)" using ok by (simp add: tx_ok_def)
  obtain q' where "um_nr_next_sdu (bbq_size (tx_sdu_queue tx)) (tx_sdu_queue tx) = Ret (None, q')"
    "bbq_ok q'" "queued q' = []"
    using um_nr_next_sdu_ok [OF q False, of "bbq_size (tx_sdu_queue tx)"] b(2) by (auto simp: bbq_size_eq)
  then show ?thesis
    using build_large [OF g, of tx] False b(1)
    by (intro exI [of _ q']) (simp add: um_nr_select_def Let_def)
qed

section \<open>Both ends together\<close>

text \<open>
  One MAC opportunity of \<open>g\<close> bytes: the transmitter builds a PDU and the receiver gets it.
\<close>

definition link_step :: "u32 \<Rightarrow> rlc_um_nr_tx \<times> rlc_um_nr_rx \<Rightarrow> (rlc_um_nr_tx \<times> rlc_um_nr_rx) outcome" where
  "link_step g = (\<lambda>(tx, rx).
     bind_outcome (um_nr_build True g tx) (\<lambda>(payload, tx).
       if payload = [] then Ret (tx, rx)
       else bind_outcome (um_nr_handle_data_pdu True payload rx) (\<lambda>rx. Ret (tx, rx))))"

fun link_run :: "u32 list \<Rightarrow> rlc_um_nr_tx \<times> rlc_um_nr_rx \<Rightarrow> (rlc_um_nr_tx \<times> rlc_um_nr_rx) outcome" where
  "link_run [] s = Ret s"
| "link_run (g # gs) s = bind_outcome (link_step g s) (link_run gs)"

definition waiting :: "rlc_um_nr_tx \<Rightarrow> byte_buffer list" where
  "waiting tx = sdus (queued (tx_sdu_queue tx))"

definition pending :: "rlc_um_nr_tx \<Rightarrow> nat" where
  "pending tx = (case tx_sdu tx of None \<Rightarrow> 0 | Some b \<Rightarrow> N_bytes b)
     + sum_list (map (\<lambda>b. N_bytes b + 1) (waiting tx))"

definition link_inv :: "bytes list \<Rightarrow> rlc_um_nr_tx \<times> rlc_um_nr_rx \<Rightarrow> bool" where
  "link_inv all = (\<lambda>(tx, rx).
     tx_ok tx \<and> tx_sn_field_length tx = um_size6bits \<and> rx_sn_field_length rx = um_size6bits \<and>
     (\<forall>b \<in> set (waiting tx). N_bytes b \<le> 12235) \<and>
     (case tx_sdu tx of
        None \<Rightarrow> rx_idle (TX_Next tx) rx \<and>
          all = map data (to_pdcp rx) @ map data (waiting tx)
      | Some b \<Rightarrow> (\<exists>r pre. rx_busy (TX_Next tx) r pre rx \<and> r \<le> 1022 \<and> pre \<noteq> [] \<and> data b \<noteq> [] \<and>
          next_so tx = of_nat (length pre) \<and> length pre + N_bytes b \<le> 12235 \<and>
          all = map data (to_pdcp rx) @ (pre @ data b) # map data (waiting tx))))"

lemma sdus_dropWhile: "sdus (dropWhile (\<lambda>y. y = None) xs) = sdus xs"
  by (induction xs) auto

lemma dropWhile_None_Cons: "dropWhile (\<lambda>y. y = None) xs = y # ys \<Longrightarrow> \<exists>b. y = Some b"
  by (drule dropWhile_mem) auto

lemma rx6_mod: "rx_inv rx \<Longrightarrow> rx_sn_field_length rx = um_size6bits \<Longrightarrow> rx_mod rx = 64"
  by (auto simp: rx_inv_def)

lemma tx6_mod: "tx_ok tx \<Longrightarrow> tx_sn_field_length tx = um_size6bits \<Longrightarrow> tx_mod tx = 64"
  by (auto simp: tx_ok_def)

text \<open>A segment of the SDU in work.\<close>

lemma link_step_busy:
  assumes inv: "link_inv all (tx, rx)" and g: "5 \<le> unat g" and b: "tx_sdu tx = Some b"
  shows "\<exists>s'. link_step g (tx, rx) = Ret s' \<and> link_inv all s' \<and> pending (fst s') < pending tx"
proof -
  from inv b obtain r pre where rx: "rx_busy (TX_Next tx) r pre rx" and r: "r \<le> 1022"
    and pre: "pre \<noteq> []" "data b \<noteq> []" "next_so tx = of_nat (length pre)" "length pre + N_bytes b \<le> 12235"
    and all: "all = map data (to_pdcp rx) @ (pre @ data b) # map data (waiting tx)"
    and t: "tx_ok tx" "tx_sn_field_length tx = um_size6bits" "rx_sn_field_length rx = um_size6bits"
      "\<forall>b \<in> set (waiting tx). N_bytes b \<le> 12235" by (auto simp: link_inv_def)
  have wb: "wf_buffer b" using t(1) b by (simp add: tx_ok_def)
  have mods: "rx_mod rx = 64" "tx_mod tx = 64"
    using rx t rx6_mod tx6_mod by (auto simp: rx_busy_def)
  note build = tx_continue [OF t(1,2) g b pre(3), unfolded Let_def]
  have lens: "length (rlc_um_nr_write_data_pdu_header (seg_header si um_size6bits (TX_Next tx) (length pre))) = 3"
    if "si = last_segment \<or> si = neither_first_nor_last_segment" for si
    using seg_header_lengths(3,4) [of "length pre" "TX_Next tx"] pre that by auto
  show ?thesis
  proof (cases "N_bytes b \<le> space_of g - 3")
    case True
    let ?pdu = "seg_pdu last_segment um_size6bits (TX_Next tx) (length pre) (data b)"
    let ?tx = "tx\<lparr>tx_sdu := None, next_so := 0, TX_Next := (TX_Next tx + 1) mod 64\<rparr>"
    have l: "length ?pdu \<le> 12237" using lens True g by simp
    obtain rx' where rx': "um_nr_handle_data_pdu True ?pdu rx = Ret rx'"
      "rx_idle ((TX_Next tx + 1) mod 64) rx'" "map data (to_pdcp rx') = map data (to_pdcp rx) @ [pre @ data b]"
      "rx_sn_field_length rx' = um_size6bits"
      using rx_last [OF rx r pre(1,4)] l t(3) mods by auto
    have f: "filled (seg_header last_segment um_size6bits (TX_Next tx) (length pre)) (N_bytes b) b tx = ?tx"
      by (simp add: filled_def seg_header_def mods)
    have ok: "tx_ok ?tx" using tx_ok_filled [OF t(1) wb order_refl] unfolding f [symmetric] .
    have "link_step g (tx, rx) = Ret (?tx, rx')"
      using build True pre(1,4) rx'(1) lens [of last_segment] f by (auto simp: link_step_def)
    moreover have "link_inv all (?tx, rx')"
      using ok t rx' all by (simp add: link_inv_def waiting_def)
    moreover have "pending ?tx < pending tx" using pre(2) b by (simp add: pending_def waiting_def)
    ultimately show ?thesis by auto
  next
    case False
    let ?m = "space_of g - 3"
    let ?pdu = "seg_pdu neither_first_nor_last_segment um_size6bits (TX_Next tx) (length pre) (take ?m (data b))"
    let ?b = "b\<lparr>headroom := headroom b + ?m, data := drop ?m (data b)\<rparr>"
    let ?tx = "tx\<lparr>tx_sdu := Some ?b, next_so := next_so tx + of_nat ?m\<rparr>"
    have m: "?m < N_bytes b" "0 < ?m" using False g by auto
    have l: "length ?pdu \<le> 12237" "length pre + length (take ?m (data b)) \<le> 12235" using lens m g pre(4) by auto
    obtain rx' where rx': "um_nr_handle_data_pdu True ?pdu rx = Ret rx'"
      "rx_busy (TX_Next tx) r (pre @ take ?m (data b)) rx'" "to_pdcp rx' = to_pdcp rx"
      "rx_sn_field_length rx' = um_size6bits"
      using rx_more [OF rx r pre(1) l(2) _ l(1)] t(3) by auto
    have f: "filled (seg_header neither_first_nor_last_segment um_size6bits (TX_Next tx) (length pre)) ?m b tx = ?tx"
      using m by (simp add: filled_def seg_header_def)
    have ok: "tx_ok ?tx" using tx_ok_filled [OF t(1) wb, of ?m] m unfolding f [symmetric] by simp
    have "link_step g (tx, rx) = Ret (?tx, rx')"
      using build False pre(1,4) rx'(1) lens [of neither_first_nor_last_segment] f m
      by (auto simp: link_step_def min_absorb2)
    moreover have "link_inv all (?tx, rx')"
      using ok t rx' all r pre m
      by (auto simp: link_inv_def waiting_def intro!: exI [of _ r] exI [of _ "pre @ take ?m (data b)"])
    moreover have "pending ?tx < pending tx" using m b by (simp add: pending_def waiting_def)
    ultimately show ?thesis by auto
  qed
qed

text \<open>A new SDU, or nothing to send.\<close>

lemma filled_full:
  "filled (seg_header full_sdu sz n so) (N_bytes c) c (tx\<lparr>tx_sdu_queue := q, tx_sdu := x, next_so := 0\<rparr>) =
     tx\<lparr>tx_sdu_queue := q, tx_sdu := None, next_so := of_nat (N_bytes c)\<rparr>"
  unfolding filled_def seg_header_def Let_def by simp

lemma link_step_idle:
  assumes inv: "link_inv all (tx, rx)" and g: "5 \<le> unat g" and b: "tx_sdu tx = None"
  shows "\<exists>s'. link_step g (tx, rx) = Ret s' \<and> link_inv all s' \<and>
    (pending (fst s') < pending tx \<or> pending (fst s') = 0)"
proof -
  from inv b have rx: "rx_idle (TX_Next tx) rx" and all: "all = map data (to_pdcp rx) @ map data (waiting tx)"
    and t: "tx_ok tx" "tx_sn_field_length tx = um_size6bits" "rx_sn_field_length rx = um_size6bits"
      "\<forall>b \<in> set (waiting tx). N_bytes b \<le> 12235" by (auto simp: link_inv_def)
  have rxi: "rx_inv rx" and mods: "rx_mod rx = 64" "tx_mod tx = 64"
    using rx t rx6_mod tx6_mod by (auto simp: rx_idle_def)
  show ?thesis
  proof (cases "dropWhile (\<lambda>y. y = None) (queued (tx_sdu_queue tx))")
    case Nil
    obtain q where q: "bbq_ok q" "queued q = []" "um_nr_build True g tx = Ret ([], tx\<lparr>tx_sdu_queue := q\<rparr>)"
      using tx_nothing [OF t(1) g b Nil] by blast
    have "waiting tx = []"
      using sdus_dropWhile [of "queued (tx_sdu_queue tx)"] Nil by (simp add: waiting_def)
    then show ?thesis
      using q t rx all b by (auto simp: link_step_def link_inv_def waiting_def tx_ok_def pending_def)
  next
    case (Cons y ys)
    then obtain c where c: "dropWhile (\<lambda>y. y = None) (queued (tx_sdu_queue tx)) = Some c # ys"
      using dropWhile_None_Cons by blast
    have wt: "waiting tx = c # sdus ys"
      using sdus_dropWhile [of "queued (tx_sdu_queue tx)"] c by (simp add: waiting_def)
    have N: "N_bytes c \<le> 12235" and wc: "wf_buffer c"
      using t(4) wt dropWhile_mem [OF c] queued_wf t(1) by (auto simp: tx_ok_def)
    obtain q where q: "bbq_ok q" "queued q = ys" and build: "um_nr_build True g tx =
      (let m = min (N_bytes c) (space_of g - 1);
         si = (if N_bytes c \<le> space_of g - 1 then full_sdu else first_segment)
       in Ret (seg_pdu si um_size6bits (TX_Next tx) 0 (take m (data c)),
             filled (seg_header si um_size6bits (TX_Next tx) 0) m c
               (tx\<lparr>tx_sdu_queue := q, tx_sdu := Some c, next_so := 0\<rparr>)))"
      using tx_fresh [OF t(1,2) g b c] by blast
    note build = build [unfolded Let_def]
    let ?ty = "tx\<lparr>tx_sdu_queue := q, tx_sdu := Some c, next_so := 0\<rparr>"
    have ok0: "tx_ok ?ty" using t(1) q wc by (simp add: tx_ok_def)
    have lens: "length (rlc_um_nr_write_data_pdu_header (seg_header si um_size6bits (TX_Next tx) 0)) = 1"
      if "si = full_sdu \<or> si = first_segment" for si
      using seg_header_lengths(1,2) [of 1 "TX_Next tx"] that by auto
    show ?thesis
    proof (cases "N_bytes c \<le> space_of g - 1")
      case True
      let ?pdu = "seg_pdu full_sdu um_size6bits (TX_Next tx) 0 (data c)"
      let ?tx = "?ty\<lparr>tx_sdu := None, next_so := of_nat (N_bytes c)\<rparr>"
      let ?rx = "rx\<lparr>to_pdcp := to_pdcp rx @ [\<lparr>headroom = 1021, data = data c, pdcp_sn = 0\<rparr>]\<rparr>"
      have h: "um_nr_handle_data_pdu True ?pdu rx = Ret ?rx"
        using rx_full_sdu [OF rxi, of "data c" "TX_Next tx" 0] N t(3) by simp
      have f: "filled (seg_header full_sdu um_size6bits (TX_Next tx) 0) (N_bytes c) c ?ty = ?tx"
        by (simp add: filled_full)
      have ok: "tx_ok ?tx" using tx_ok_filled [OF ok0 wc order_refl] unfolding f [symmetric] .
      have "link_step g (tx, rx) = Ret (?tx, ?rx)"
        using build True h lens [of full_sdu] f by (auto simp: link_step_def)
      moreover have "link_inv all (?tx, ?rx)"
        using ok t rx all wt q rxi by (simp add: link_inv_def waiting_def rx_idle_def rx_inv_def)
      moreover have "pending ?tx < pending tx" using b wt q by (simp add: pending_def waiting_def)
      ultimately show ?thesis by auto
    next
      case False
      let ?m = "space_of g - 1"
      let ?pdu = "seg_pdu first_segment um_size6bits (TX_Next tx) 0 (take ?m (data c))"
      let ?b = "c\<lparr>headroom := headroom c + ?m, data := drop ?m (data c)\<rparr>"
      let ?tx = "?ty\<lparr>tx_sdu := Some ?b, next_so := of_nat ?m\<rparr>"
      have m: "?m < N_bytes c" "0 < ?m" using False g by auto
      have lt: "length (take ?m (data c)) \<le> 12235" using m N by simp
      obtain rx' r where rx': "um_nr_handle_data_pdu True ?pdu rx = Ret rx'"
        "rx_busy (TX_Next tx) r (take ?m (data c)) rx'" "r \<le> 1022" "to_pdcp rx' = to_pdcp rx"
        "rx_sn_field_length rx' = um_size6bits"
        using rx_first [OF rx lt, of ?pdu] t(3) by auto
      have f: "filled (seg_header first_segment um_size6bits (TX_Next tx) 0) ?m c ?ty = ?tx"
        using m by (simp add: filled_def seg_header_def)
      have ok: "tx_ok ?tx" using tx_ok_filled [OF ok0 wc, of ?m] m unfolding f [symmetric] by simp
      have "link_step g (tx, rx) = Ret (?tx, rx')"
        using build False rx'(1) lens [of first_segment] f m by (auto simp: link_step_def min_absorb2)
      moreover have "link_inv all (?tx, rx')"
        using ok t rx' all wt q m N
        by (auto simp: link_inv_def waiting_def intro!: exI [of _ r] exI [of _ "take ?m (data c)"])
      moreover have "pending ?tx < pending tx" using m b wt q by (simp add: pending_def waiting_def)
      ultimately show ?thesis by auto
    qed
  qed
qed

lemma link_step_ok:
  assumes "link_inv all s" "5 \<le> unat g"
  shows "\<exists>s'. link_step g s = Ret s' \<and> link_inv all s' \<and> pending (fst s') \<le> pending (fst s) - 1"
proof -
  obtain tx rx where s: "s = (tx, rx)" by (cases s)
  have "\<exists>s'. link_step g (tx, rx) = Ret s' \<and> link_inv all s' \<and>
      (pending (fst s') < pending tx \<or> pending (fst s') = 0)"
  proof (cases "tx_sdu tx")
    case None
    then show ?thesis using link_step_idle assms s by simp
  next
    case (Some b)
    then show ?thesis using link_step_busy [of all tx rx g b] assms s by auto
  qed
  then show ?thesis using s by fastforce
qed

lemma link_run_ok:
  assumes "link_inv all s" "\<forall>g \<in> set gs. 5 \<le> unat g"
  shows "\<exists>s'. link_run gs s = Ret s' \<and> link_inv all s' \<and> pending (fst s') \<le> pending (fst s) - length gs"
  using assms
proof (induction gs arbitrary: s)
  case (Cons g gs)
  obtain s1 where "link_step g s = Ret s1" "link_inv all s1" "pending (fst s1) \<le> pending (fst s) - 1"
    using link_step_ok [of all s g] Cons.prems by auto
  then show ?case using Cons.IH [of s1] Cons.prems by fastforce
qed simp

text \<open>All SDUs queued in a new transmitter.\<close>

lemma link_inv_start:
  assumes "tx_ok tx" "tx_sn_field_length tx = um_size6bits" "tx_sdu tx = None" "TX_Next tx = 0"
    "\<forall>b \<in> set (waiting tx). N_bytes b \<le> 12235"
  shows "link_inv (map data (waiting tx)) (tx, um_nr_rx_configure um_size6bits)"
  using assms rx_inv_configure [of um_size6bits]
  by (simp add: link_inv_def rx_idle_def um_nr_rx_configure_def)

lemma link_inv_done:
  assumes "link_inv all (tx, rx)" "pending tx = 0"
  shows "map data (to_pdcp rx) = all"
  using assms by (cases "tx_sdu tx") (auto simp: link_inv_def pending_def)

lemma link_inv_prefix:
  assumes "link_inv all (tx, rx)"
  shows "\<exists>rest. all = map data (to_pdcp rx) @ rest"
  using assms by (cases "tx_sdu tx") (auto simp: link_inv_def)

section \<open>From the PDCP to the PDCP\<close>

text \<open>The PDCP writes SDUs one after the other.\<close>

fun write_all :: "byte_buffer list \<Rightarrow> rlc_um_nr_tx \<Rightarrow> rlc_um_nr_tx outcome" where
  "write_all [] tx = Ret tx"
| "write_all (b # bs) tx = bind_outcome (um_tx_try_write_sdu (Some b) tx) (\<lambda>(ok, tx). write_all bs tx)"

lemma write_all_ok:
  assumes "tx_ok tx" "\<forall>b \<in> set bs. wf_buffer b"
    "length (queued (tx_sdu_queue tx)) + length bs \<le> bbq_capacity (tx_sdu_queue tx)"
  shows "\<exists>q. write_all bs tx = Ret (tx\<lparr>tx_sdu_queue := q\<rparr>) \<and> tx_ok (tx\<lparr>tx_sdu_queue := q\<rparr>) \<and>
    queued q = queued (tx_sdu_queue tx) @ map Some bs"
  using assms
proof (induction bs arbitrary: tx)
  case Nil
  then show ?case by (auto intro: exI [of _ "tx_sdu_queue tx"])
next
  case (Cons b bs)
  have ok: "bbq_ok (tx_sdu_queue tx)" using Cons.prems(1) by (simp add: tx_ok_def)
  obtain q where q: "um_tx_try_write_sdu (Some b) tx = Ret (True, tx\<lparr>tx_sdu_queue := q\<rparr>)" "bbq_ok q"
    "queued q = queued (tx_sdu_queue tx) @ [Some b]" "bbq_capacity q = bbq_capacity (tx_sdu_queue tx)"
    using um_tx_try_write_room [OF ok, of b] Cons.prems(2,3) by auto
  have "tx_ok (tx\<lparr>tx_sdu_queue := q\<rparr>)" using Cons.prems(1) q(2) by (simp add: tx_ok_def)
  from Cons.IH [OF this] show ?case using q Cons.prems(2,3) by auto
qed

lemma sdus_map_Some [simp]: "sdus (map Some bs) = bs"
  by (induction bs) auto

lemma link_start:
  assumes "128 < n \<longrightarrow> n \<le> grow 128 n" "bbq_configured grow n \<le> bbq_lim" "length bs \<le> n"
    "\<forall>b \<in> set bs. wf_buffer b \<and> N_bytes b \<le> 12235"
  shows "\<exists>tx tx'. um_nr_tx_configure grow um_size6bits mrb n = Ret tx \<and> write_all bs tx = Ret tx' \<and>
    link_inv (map data bs) (tx', um_nr_rx_configure um_size6bits) \<and>
    pending tx' = sum_list (map (\<lambda>b. N_bytes b + 1) bs)"
proof -
  obtain c where c: "um_nr_tx_configure grow um_size6bits mrb n = Ret c" "tx_ok c"
    "tx_sn_field_length c = um_size6bits" "tx_sdu c = None" "TX_Next c = 0"
    "queued (tx_sdu_queue c) = []" "bbq_capacity (tx_sdu_queue c) = bbq_configured grow n"
    using um_nr_tx_configure_ok [of um_size6bits n grow mrb] assms(1,2) by auto
  have "n \<le> bbq_configured grow n" using assms(1) by (auto simp: bbq_configured_def)
  then obtain q where q: "write_all bs c = Ret (c\<lparr>tx_sdu_queue := q\<rparr>)" "tx_ok (c\<lparr>tx_sdu_queue := q\<rparr>)"
    "queued q = map Some bs"
    using write_all_ok [OF c(2), of bs] assms(3,4) c(6,7) by auto
  have w: "waiting (c\<lparr>tx_sdu_queue := q\<rparr>) = bs" by (simp add: waiting_def q(3))
  have "link_inv (map data bs) (c\<lparr>tx_sdu_queue := q\<rparr>, um_nr_rx_configure um_size6bits)"
    using link_inv_start [OF q(2)] c assms(4) unfolding w by simp
  then show ?thesis using c(1,4) q(1) w by (simp add: pending_def)
qed

text \<open>The whole way: SDUs are written, \<open>gs\<close> are the grants.\<close>

definition um_nr_transfer ::
  "(nat \<Rightarrow> nat \<Rightarrow> nat) \<Rightarrow> rlc_um_nr_sn_size \<Rightarrow> nat \<Rightarrow> byte_buffer list \<Rightarrow> u32 list
     \<Rightarrow> (rlc_um_nr_tx \<times> rlc_um_nr_rx) outcome" where
  "um_nr_transfer grow sz n bs gs =
     bind_outcome (um_nr_tx_configure grow sz False n) (\<lambda>tx.
     bind_outcome (write_all bs tx) (\<lambda>tx. link_run gs (tx, um_nr_rx_configure sz)))"

text \<open>The doubling of libstdc++, to instantiate \<open>grow\<close> in examples.\<close>

definition doubling :: "nat \<Rightarrow> nat \<Rightarrow> nat" where
  "doubling cap sz = max (2 * cap) sz"

section \<open>Properties\<close>

text \<open>
  C2. Every SDU written to an RLC UM NR bearer with 6-bit sequence numbers comes out of the peer,
  once, in order and byte by byte, however the MAC cuts its grants, as long as each grant has
  at least five bytes (one byte of data beside the largest header, and the byte the sanity check
  wants) and there are enough of them; segmentation, sequence numbers and reassembly included.
\<close>

theorem um_nr_delivers_all:
  assumes "128 < n \<longrightarrow> n \<le> grow 128 n" "bbq_configured grow n \<le> bbq_lim" "length bs \<le> n"
    "\<forall>b \<in> set bs. wf_buffer b \<and> N_bytes b \<le> 12235" "\<forall>g \<in> set gs. 5 \<le> unat g" "sum_list (map (\<lambda>b. N_bytes b + 1) bs) \<le> length gs"
  shows "\<exists>tx rx. um_nr_transfer grow um_size6bits n bs gs = Ret (tx, rx) \<and>
    map data (to_pdcp rx) = map data bs"
proof -
  obtain tx0 tx where tx: "um_nr_tx_configure grow um_size6bits False n = Ret tx0" "write_all bs tx0 = Ret tx"
    "link_inv (map data bs) (tx, um_nr_rx_configure um_size6bits)"
    "pending tx = sum_list (map (\<lambda>b. N_bytes b + 1) bs)"
    using link_start [OF assms(1-4)] by blast
  from link_run_ok [OF tx(3) assms(5)] obtain tx' rx' where
    "link_run gs (tx, um_nr_rx_configure um_size6bits) = Ret (tx', rx')"
    "link_inv (map data bs) (tx', rx')" "pending tx' = 0"
    using tx(4) assms(6) by auto
  then show ?thesis using tx(1,2) link_inv_done by (auto simp: um_nr_transfer_def)
qed

definition example_sdu :: "nat \<Rightarrow> byte_buffer" where
  "example_sdu n = fresh_buffer\<lparr>data := map of_nat [0..<n]\<rparr>"

lemma wf_example: "n \<le> 12235 \<Longrightarrow> wf_buffer (example_sdu n)"
  by (simp add: example_sdu_def wf_buffer_def fresh_buffer_def buffer_sizes)

theorem um_nr_delivers_all_witness:
  "\<exists>tx rx. um_nr_transfer doubling um_size6bits 4 [example_sdu 9, example_sdu 2] (replicate 20 5) = Ret (tx, rx) \<and>
     map data (to_pdcp rx) = [map of_nat [0..<9], map of_nat [0..<2]]"
  using um_nr_delivers_all [of 4 doubling "[example_sdu 9, example_sdu 2]" "replicate 20 5"] wf_example [of 9] wf_example [of 2]
  by (simp add: bbq_lim_def example_sdu_def bbq_configured_def)

text \<open>
  C4. With 6-bit sequence numbers and any number of grants, each of at least five bytes (C30 shows what a
  smaller one can do), the run never fails, and what has been delivered so far is a prefix of
  what was written: nothing is corrupted, duplicated or reordered.
\<close>

theorem um_nr_delivers_prefix:
  assumes "128 < n \<longrightarrow> n \<le> grow 128 n" "bbq_configured grow n \<le> bbq_lim" "length bs \<le> n"
    "\<forall>b \<in> set bs. wf_buffer b \<and> N_bytes b \<le> 12235" "\<forall>g \<in> set gs. 5 \<le> unat g"
  shows "\<exists>tx rx rest. um_nr_transfer grow um_size6bits n bs gs = Ret (tx, rx) \<and>
    map data bs = map data (to_pdcp rx) @ rest"
proof -
  obtain tx0 tx where tx: "um_nr_tx_configure grow um_size6bits False n = Ret tx0" "write_all bs tx0 = Ret tx"
    "link_inv (map data bs) (tx, um_nr_rx_configure um_size6bits)"
    using link_start [OF assms(1-4)] by blast
  from link_run_ok [OF tx(3) assms(5)] obtain tx' rx' where
    "link_run gs (tx, um_nr_rx_configure um_size6bits) = Ret (tx', rx')"
    "link_inv (map data bs) (tx', rx')" by auto
  then show ?thesis using tx(1,2) link_inv_prefix by (fastforce simp: um_nr_transfer_def)
qed

theorem um_nr_delivers_prefix_witness:
  "\<exists>tx rx rest. um_nr_transfer doubling um_size6bits 4 [example_sdu 9] [5, 6] = Ret (tx, rx) \<and>
     [map of_nat [0..<9]] = map data (to_pdcp rx) @ rest"
  using um_nr_delivers_prefix [of 4 doubling "[example_sdu 9]" "[5, 6]"] wf_example [of 9]
  by (simp add: bbq_lim_def example_sdu_def bbq_configured_def)

text \<open>Header-only segments.\<close>

lemma um_nr_assemble_hangs:
  assumes "um_so (pdu_header s) = 0" "next_expected_so p = 0" "sdu p = Some b"
  shows "um_nr_assemble fuel skip ((k, s) # rest) p = Hang"
  using assms by (induction fuel) simp_all

text \<open>
  C29. A denial of service: two equal PDUs that consist of nothing but the header of a first
  segment make the loop of \<open>handle_rx_buffer_update\<close> run for ever, with the receiver's mutex held.
  The second one is found with \<open>next_expected_so = 0\<close> while the buffer is already there; it is
  neither erased nor skipped.
\<close>

theorem um_nr_empty_segment_hangs:
  assumes "rx_idle n rx" "pdu = seg_pdu first_segment (rx_sn_field_length rx) n 0 []"
  shows "\<exists>rx'. um_nr_handle_data_pdu True pdu rx = Ret rx' \<and> um_nr_handle_data_pdu True pdu rx' = Hang"
proof -
  obtain rx' r where r: "um_nr_handle_data_pdu True pdu rx = Ret rx'" "rx_busy n r [] rx'"
    "rx_sn_field_length rx' = rx_sn_field_length rx"
    using rx_first [OF assms(1) _ assms(2)] by auto
  let ?h = "seg_header first_segment (rx_sn_field_length rx) n 0"
  let ?b = "\<lparr>headroom = 1020 + length (rlc_um_nr_write_data_pdu_header ?h), data = [], pdcp_sn = 0\<rparr>"
  let ?s = "\<lparr>pdu_header = ?h, pdu_buf = ?b\<rparr>"
  have i: "rx_inv rx'" "n < rx_mod rx'" using r(2) by (auto simp: rx_busy_def)
  have st: "um_nr_store ?s rx' = rx'\<lparr>rx_window := [(n, (partial r [])\<lparr>segments := [(0, ?s)]\<rparr>)]\<rparr>"
    using rx_next_store [OF r(2), of ?s first_segment "rx_sn_field_length rx" ?b] by (simp add: partial_def)
  have "um_nr_handle_data_pdu True pdu rx' = um_nr_handle_rx_buffer_update n (um_nr_store ?s rx')"
    using rx_segment [OF i, of 0 first_segment "[]"] busy_valid [OF r(2)] assms(2) r(3)
    by (simp add: length_um_header seg_header_def)
  also have "\<dots> = Hang"
    unfolding st um_nr_handle_rx_buffer_update_def
    using um_nr_assemble_hangs [of ?s "(partial r [])\<lparr>segments := [(0, ?s)]\<rparr>"]
    by (simp add: partial_def seg_header_def)
  finally show ?thesis using r(1) by blast
qed

theorem um_nr_empty_segment_hangs_witness:
  "\<exists>rx'. um_nr_handle_data_pdu True [0x40] (um_nr_rx_configure um_size6bits) = Ret rx' \<and>
     um_nr_handle_data_pdu True [0x40] rx' = Hang"
  using um_nr_empty_segment_hangs [of 0 "um_nr_rx_configure um_size6bits" "[0x40]"] rx_inv_configure [of um_size6bits]
  by (simp add: rx_idle_def um_nr_rx_configure_def seg_header_def rlc_um_nr_write_data_pdu_header_def si_val_def
     push_bit_eq_mult)

lemma example_loaded:
  assumes "sz \<noteq> um_nulltype"
  shows "\<exists>tx. tx_ok tx \<and> tx_sn_field_length tx = sz \<and> tx_sdu tx = None \<and> TX_Next tx = 0 \<and>
    queued (tx_sdu_queue tx) = [Some (example_sdu 9)]"
proof -
  obtain c where c: "tx_ok c" "tx_sn_field_length c = sz" "tx_sdu c = None" "TX_Next c = 0"
    "queued (tx_sdu_queue c) = []" "bbq_capacity (tx_sdu_queue c) = 128"
    using um_nr_tx_configure_ok [OF assms, of 4 doubling False] by (auto simp: bbq_configured_def bbq_lim_def)
  from write_all_ok [OF c(1), of "[example_sdu 9]"] c(5,6) wf_example [of 9] obtain q where
    "tx_ok (c\<lparr>tx_sdu_queue := q\<rparr>)" "queued q = [Some (example_sdu 9)]" by auto
  then show ?thesis using c by (intro exI [of _ "c\<lparr>tx_sdu_queue := q\<rparr>"]) simp
qed

lemma build_two:
  assumes ok: "tx_ok tx" "tx_sn_field_length tx = um_size6bits"
    and b: "tx_sdu tx = None" "queued (tx_sdu_queue tx) = Some b # ys" "2 \<le> N_bytes b"
  shows "\<exists>q. bbq_ok q \<and> queued q = ys \<and>
    um_nr_build True 2 tx = Ret ([], tx\<lparr>tx_sdu_queue := q, tx_sdu := Some b, next_so := 0\<rparr>)"
proof -
  let ?q = "tx_sdu_queue tx"
  have q: "bbq_ok ?q" "queued ?q \<noteq> []" using ok b(2) by (auto simp: tx_ok_def)
  have w: "wf_buffer b" using queued_wf [OF q(1), of b] b(2) by simp
  obtain q' where q': "um_nr_next_sdu (bbq_size ?q) ?q = Ret (Some b, q')" "bbq_ok q'" "queued q' = ys"
    using um_nr_next_sdu_ok [OF q, of "bbq_size ?q"] b(2) by (auto simp: bbq_size_eq)
  have "\<not> (of_nat (N_bytes b) :: u32) \<le> 1"
    using b(3) wf_N_bytes [OF w] by (simp add: word_le_nat_alt unat_of_nat take_bit_nat_eq_self)
  then have sel: "um_nr_select 2 tx =
      Ret (Some first_segment, tx\<lparr>tx_sdu_queue := q', tx_sdu := Some b, next_so := 0\<rparr>)"
    using b(1) q'(1) by (simp add: um_nr_select_def head_len_full_def Let_def)
  let ?h = "\<lparr>um_si = first_segment, um_sn_size = um_size6bits, um_sn = ucast (TX_Next tx), um_so = 0\<rparr>"
  have "um_nr_fill fresh_buffer 2 2 ?h b t = Ret ([], t)" for t
    by (rule um_nr_fill_small) (simp add: length_um_header)
  then show ?thesis
    using sel b(1) q(2) q'(2,3) ok(2)
    by (intro exI [of _ q']) (simp add: um_nr_build_def um_tx_build_data_pdu_def um_nr_tx_build_data_pdu_def
        bbq_is_empty_iff Let_def tailroom_fresh)
qed

lemma read_offset_from_data:
  assumes "unat n < 64"
  shows "rlc_um_nr_read_data_pdu_header (seg_pdu last_segment um_size6bits n 0 (a # c # d)) um_size6bits um_header_0 =
    Some (3, \<lparr>um_si = last_segment, um_sn_size = um_size6bits, um_sn = ucast n,
      um_so = push_bit 8 (ucast a) OR ucast c\<rparr>)"
proof -
  let ?b0 = "push_bit 6 (si_val last_segment AND 3) OR ucast ((ucast n :: u16) AND 0x3f) :: u8"
  have w: "seg_pdu last_segment um_size6bits n 0 (a # c # d) = ?b0 # a # c # d"
    by (simp add: seg_header_def rlc_um_nr_write_data_pdu_header_def)
  have 1: "si_of (drop_bit 6 ?b0 AND 3) = last_segment" by (rule um_si_bits [OF _ um_low_bits(1)]) simp
  have 2: "ucast (?b0 AND 0x3F) = (ucast n :: u16)"
    using assms ucast_16 [of n] by (intro um_sn_6_bits) simp
  have 3: "ucast (push_bit 8 (ucast a AND 0xFF :: u32)) OR ucast (ucast c AND 0xFF :: u32) =
      (push_bit 8 (ucast a) OR ucast c :: u16)"
    by (rule bit_word_eqI) (auto simp: bit_simps field_simps_bits dest: bit_imp_le_length)
  show ?thesis
    unfolding w rlc_um_nr_read_data_pdu_header_def Let_def rd_Cons_0
    using 1 2 3 by (simp add: um_nr_read_so_def um_header_0_def del: push_bit_and ucast_bintr)
qed

text \<open>
  C30. A grant of two bytes is too small for a first segment, but the SDU has left the queue by
  then.  With the next grant the transmitter takes it for an SDU already begun and sends all of
  it as a last segment whose header has no segment offset, because the offset is 0; the reader
  takes the first two bytes of the SDU for the offset.
\<close>

theorem um_nr_small_grant_drops_offset:
  assumes ok: "tx_ok tx" "tx_sn_field_length tx = um_size6bits"
    and b: "tx_sdu tx = None" "queued (tx_sdu_queue tx) = Some b # ys" "2 \<le> N_bytes b"
    and g: "N_bytes b + 3 \<le> space_of g"
  shows "\<exists>tx1 tx2 h. um_nr_build True 2 tx = Ret ([], tx1) \<and>
    um_nr_build True g tx1 = Ret (seg_pdu last_segment um_size6bits (TX_Next tx) 0 (data b), tx2) \<and>
    rlc_um_nr_read_data_pdu_header (seg_pdu last_segment um_size6bits (TX_Next tx) 0 (data b)) um_size6bits
      um_header_0 = Some (3, h) \<and>
    um_si h = last_segment \<and> um_so h = push_bit 8 (ucast (data b ! 0)) OR ucast (data b ! 1)"
proof -
  obtain q where q: "bbq_ok q" and r: "um_nr_build True 2 tx = Ret ([], tx\<lparr>tx_sdu_queue := q, tx_sdu := Some b, next_so := 0\<rparr>)"
    using build_two [OF ok b] by blast
  let ?tx = "tx\<lparr>tx_sdu_queue := q, tx_sdu := Some b, next_so := 0\<rparr>"
  have w: "wf_buffer b" using queued_wf [of "tx_sdu_queue tx" b] ok(1) b(2) by (simp add: tx_ok_def)
  have g5: "5 \<le> unat g" and s: "3 \<le> space_of g" using g b(3) by auto
  have le: "N_bytes b \<le> space_of g - 3" using g by linarith
  have hs: "head_len_segment ?tx = of_nat 3" using ok(1) by (simp add: tx_ok_def)
  let ?h = "seg_header last_segment um_size6bits (TX_Next tx) 0"
  have sel: "um_nr_select (pdu_space_of g) ?tx = Ret (Some last_segment, ?tx)"
    using le_space [OF s, of "N_bytes b"] le wf_N_bytes [OF w] hs by (simp add: um_nr_select_def del: of_nat_numeral)
  have l: "length (rlc_um_nr_write_data_pdu_header ?h) = 1" by (simp add: length_um_header seg_header_def)
  have "min (N_bytes b) (space_of g - 1) = N_bytes b" using g by linarith
  then have "um_nr_fill fresh_buffer g (pdu_space_of g) ?h b ?tx =
      Ret (rlc_um_nr_write_data_pdu_header ?h @ data b, filled ?h (N_bytes b) b ?tx)"
    using um_nr_fill_ok [OF w, of ?h g ?tx] l s unfolding unat_pdu_space by simp
  then have "um_nr_build True g ?tx = Ret (rlc_um_nr_write_data_pdu_header ?h @ data b, filled ?h (N_bytes b) b ?tx)"
    using build_large [OF g5, of ?tx] sel ok(2) by (simp add: seg_header_def)
  moreover obtain a c d where "data b = a # c # d"
    using b(3) by (cases "data b"; cases "tl (data b)") auto
  moreover have "unat (TX_Next tx) < 64" using ok by (auto simp: tx_ok_def word_less_nat_alt)
  ultimately show ?thesis using r read_offset_from_data [of "TX_Next tx" a c d] by auto
qed

theorem um_nr_small_grant_drops_offset_witness:
  "\<exists>tx tx1 tx2 h. tx_ok tx \<and> um_nr_build True 2 tx = Ret ([], tx1) \<and>
    um_nr_build True 20 tx1 = Ret (seg_pdu last_segment um_size6bits (TX_Next tx) 0 (data (example_sdu 9)), tx2) \<and>
    rlc_um_nr_read_data_pdu_header (seg_pdu last_segment um_size6bits (TX_Next tx) 0 (data (example_sdu 9)))
      um_size6bits um_header_0 = Some (3, h) \<and>
    um_so h = push_bit 8 (ucast (data (example_sdu 9) ! 0)) OR ucast (data (example_sdu 9) ! 1)"
proof -
  obtain tx where tx: "tx_ok tx" "tx_sn_field_length tx = um_size6bits" "tx_sdu tx = None"
    "queued (tx_sdu_queue tx) = [Some (example_sdu 9)]"
    using example_loaded [of um_size6bits] by auto
  have "N_bytes (example_sdu 9) = 9" by (simp add: example_sdu_def)
  then show ?thesis using um_nr_small_grant_drops_offset [OF tx, of 20] tx(1) by simp blast
qed

text \<open>
  C31. With 12-bit sequence numbers the transmitter compares with a header length of 3 where the
  header of a segment has 4 bytes (\<open>configure\<close> computes it for 6 bits).  When the rest of the SDU
  is one byte longer than what fits, the PDU is marked as the last segment although the SDU's
  last byte is still to be sent, and the sequence number moves on.
\<close>

theorem um_nr_12bit_last_segment_short:
  assumes ok: "tx_ok tx" "tx_sn_field_length tx = um_size12bits"
    and b: "tx_sdu tx = Some b" "next_so tx = of_nat k" "0 < k" "k + N_bytes b < 65536"
    and g: "N_bytes b + 3 = space_of g" "3 \<le> N_bytes b"
  shows "\<exists>tx' c. um_nr_build True g tx =
      Ret (seg_pdu last_segment um_size12bits (TX_Next tx) k (butlast (data b)), tx') \<and>
    tx_sdu tx' = Some c \<and> data c = [last (data b)] \<and> next_so tx' = 0 \<and> TX_Next tx' = (TX_Next tx + 1) mod 4096"
proof -
  have w: "wf_buffer b" and hs: "head_len_segment tx = of_nat 3" and m: "tx_mod tx = 4096"
    using ok b(1) by (auto simp: tx_ok_def)
  have s: "3 \<le> space_of g" "5 \<le> unat g" using g by auto
  let ?h = "seg_header last_segment um_size12bits (TX_Next tx) k"
  have k: "ucast (next_so tx) = (of_nat k :: u16)" unfolding b(2) using b(4) by (intro ucast_of_nat_32_16) simp
  have sel: "um_nr_select (pdu_space_of g) tx = Ret (Some last_segment, tx)"
    using le_space [OF s(1), of "N_bytes b"] g b by (simp add: um_nr_select_def hs del: of_nat_numeral)
  have "(of_nat k :: u16) \<noteq> 0"
    using b(3,4) by (simp add: word_unat_eq_iff unat_of_nat take_bit_nat_eq_self)
  then have hl: "length (rlc_um_nr_write_data_pdu_header ?h) = 4" by (simp add: length_um_header seg_header_def)
  have mv: "min (N_bytes b) (space_of g - 4) = N_bytes b - 1" using g by linarith
  have lt: "4 + 1 < space_of g" using g by linarith
  have "um_nr_fill fresh_buffer g (pdu_space_of g) ?h b tx =
      Ret (rlc_um_nr_write_data_pdu_header ?h @ take (N_bytes b - 1) (data b), filled ?h (N_bytes b - 1) b tx)"
    using um_nr_fill_ok [OF w, of ?h g tx] hl lt mv unfolding unat_pdu_space by simp
  then have "um_nr_build True g tx =
      Ret (seg_pdu last_segment um_size12bits (TX_Next tx) k (butlast (data b)), filled ?h (N_bytes b - 1) b tx)"
    using build_large [OF s(2), of tx] sel k b(1) ok(2) by (simp add: seg_header_def butlast_conv_take)
  moreover have "data b \<noteq> []" using g(2) by auto
  moreover have "drop (N_bytes b - 1) (data b) = [last (data b)]"
    using \<open>data b \<noteq> []\<close> by (cases "data b" rule: rev_cases) auto
  ultimately show ?thesis using m g(2) by (auto simp: filled_def seg_header_def Let_def)
qed
theorem um_nr_12bit_last_segment_short_witness:
  "\<exists>tx tx' c. tx_ok tx \<and> um_nr_build True 12 tx =
      Ret (seg_pdu last_segment um_size12bits (TX_Next tx) 7 (butlast (data (example_sdu 9))), tx') \<and>
    tx_sdu tx' = Some c \<and> data c = [8]"
proof -
  obtain tx0 where tx0: "tx_ok tx0" "tx_sn_field_length tx0 = um_size12bits"
    using example_loaded [of um_size12bits] by auto
  let ?tx = "tx0\<lparr>tx_sdu := Some (example_sdu 9), next_so := of_nat 7\<rparr>"
  have ok: "tx_ok ?tx" using tx0(1) wf_example [of 9] by (simp add: tx_ok_def)
  have n: "N_bytes (example_sdu 9) = 9" "last (data (example_sdu 9)) = 8"
    by (simp_all add: example_sdu_def last_map)
  show ?thesis
    using um_nr_12bit_last_segment_short [OF ok, of "example_sdu 9" 7 12] tx0(2) ok n by auto
qed

end
