(* ===== verification/AmNrPacking.thy ===== *)
theory AmNrPacking
  imports RlcTypes
begin

text \<open>
  \<^verbatim>\<open>rlc/rlc_am_nr_packing.cc\<close>: the container for the NACKs of an RLC AM NR status PDU and
  the readers and writers of data and status PDUs (TS 38.322, 6.2.2.4 and 6.2.2.5).

  A payload is the list of the \<^verbatim>\<open>nof_bytes\<close> bytes that may be read, the pointer
  \<^verbatim>\<open>ptr\<close> is an index into it, and \<open>None\<close> is a read past its end.  A writer gives the
  bytes it stores from \<^verbatim>\<open>payload\<close> on.  Byte counts are natural numbers; sequence numbers,
  segment offsets and ranges keep their width.
\<close>

section \<open>The container of the NACKs\<close>

definition sizeof_header_ack_sn :: nat where "sizeof_header_ack_sn = 3"
definition sizeof_nack_sn_ext_12bit_sn :: nat where "sizeof_nack_sn_ext_12bit_sn = 2"
definition sizeof_nack_sn_ext_18bit_sn :: nat where "sizeof_nack_sn_ext_18bit_sn = 3"
definition sizeof_nack_so :: nat where "sizeof_nack_so = 4"
definition sizeof_nack_range :: nat where "sizeof_nack_range = 1"

lemmas sizeof_defs = sizeof_header_ack_sn_def sizeof_nack_sn_ext_12bit_sn_def
  sizeof_nack_sn_ext_18bit_sn_def sizeof_nack_so_def sizeof_nack_range_def

record rlc_am_nr_status_pdu =
  st_sn_size :: rlc_am_nr_sn_size
  mod_nr :: u32
  nacks :: "rlc_status_nack list"
  packed_size :: nat
  cpt :: u32
  ack_sn :: u32

definition rlc_am_nr_status_pdu :: "rlc_am_nr_sn_size \<Rightarrow> rlc_am_nr_status_pdu option" where
  "rlc_am_nr_status_pdu sn_size =
     map_option (\<lambda>c. \<lparr>st_sn_size = sn_size, mod_nr = c, nacks = [],
                      packed_size = sizeof_header_ack_sn, cpt = 0, ack_sn = INVALID_RLC_SN\<rparr>)
       (am_cardinality sn_size)"

definition status_reset :: "rlc_am_nr_status_pdu \<Rightarrow> rlc_am_nr_status_pdu" where
  "status_reset st = st\<lparr>cpt := 0, ack_sn := INVALID_RLC_SN, nacks := [],
                        packed_size := sizeof_header_ack_sn\<rparr>"

definition nack_size :: "rlc_am_nr_sn_size \<Rightarrow> rlc_status_nack \<Rightarrow> nat" where
  "nack_size sn_size nack =
     (if sn_size = am_size12bits then sizeof_nack_sn_ext_12bit_sn
      else sizeof_nack_sn_ext_18bit_sn)
     + (if has_so nack then sizeof_nack_so else 0)
     + (if has_nack_range nack then sizeof_nack_range else 0)"

definition refresh_packed_size :: "rlc_am_nr_status_pdu \<Rightarrow> rlc_am_nr_status_pdu" where
  "refresh_packed_size st =
     st\<lparr>packed_size := foldl (\<lambda>s nack. s + nack_size (st_sn_size st) nack) sizeof_header_ack_sn (nacks st)\<rparr>"

definition is_continuous_sequence ::
  "rlc_am_nr_status_pdu \<Rightarrow> rlc_status_nack \<Rightarrow> rlc_status_nack \<Rightarrow> bool" where
  "is_continuous_sequence st left right \<longleftrightarrow>
     \<not> (nack_sn right \<noteq>
          (if has_nack_range left then nack_sn left + ucast (nack_range left)
           else nack_sn left + 1) mod mod_nr st) \<and>
     \<not> (has_so left \<and> so_end left \<noteq> so_end_of_sdu) \<and>
     \<not> (has_so right \<and> so_start right \<noteq> 0)"

text \<open>The branches of \<open>push_nack\<close> that widen the last NACK by the new one.\<close>

definition expand_range :: "rlc_status_nack \<Rightarrow> rlc_status_nack \<Rightarrow> rlc_status_nack" where
  "expand_range prev nack =
     (if has_nack_range nack then
        (if has_nack_range prev then prev\<lparr>nack_range := nack_range prev + nack_range nack\<rparr>
         else prev\<lparr>nack_range := nack_range nack + 1, has_nack_range := True\<rparr>)
      else
        (if has_nack_range prev then prev\<lparr>nack_range := nack_range prev + 1\<rparr>
         else prev\<lparr>nack_range := 2, has_nack_range := True\<rparr>))"

definition expand_so :: "rlc_status_nack \<Rightarrow> rlc_status_nack \<Rightarrow> rlc_status_nack" where
  "expand_so prev nack =
     (if has_so nack then
        (if \<not> has_so prev then prev\<lparr>has_so := True, so_start := 0, so_end := so_end nack\<rparr>
         else prev\<lparr>so_end := so_end nack\<rparr>)
      else
        (if has_so prev then prev\<lparr>so_end := so_end_of_sdu\<rparr> else prev))"

definition push_nack :: "rlc_status_nack \<Rightarrow> rlc_am_nr_status_pdu \<Rightarrow> rlc_am_nr_status_pdu" where
  "push_nack nack st =
     (if nacks st = [] then
        st\<lparr>nacks := nacks st @ [nack], packed_size := packed_size st + nack_size (st_sn_size st) nack\<rparr>
      else
        let prev = last (nacks st) in
        if \<not> is_continuous_sequence st prev nack then
          st\<lparr>nacks := nacks st @ [nack], packed_size := packed_size st + nack_size (st_sn_size st) nack\<rparr>
        else
          let prev' = expand_so (expand_range prev nack) nack in
          st\<lparr>nacks := butlast (nacks st) @ [prev'],
             packed_size := packed_size st - nack_size (st_sn_size st) prev + nack_size (st_sn_size st) prev'\<rparr>)"

text \<open>The body of the loop of \<open>trim\<close>: remove the last NACK and acknowledge up to it.\<close>

definition pop_nack :: "rlc_am_nr_status_pdu \<Rightarrow> rlc_am_nr_status_pdu" where
  "pop_nack st =
     st\<lparr>packed_size := packed_size st - nack_size (st_sn_size st) (last (nacks st)),
        ack_sn := nack_sn (last (nacks st)),
        nacks := butlast (nacks st)\<rparr>"

function trim_loop :: "nat \<Rightarrow> rlc_am_nr_status_pdu \<Rightarrow> rlc_am_nr_status_pdu" where
  "trim_loop max_packed_size st =
     (if nacks st \<noteq> [] \<and>
         (max_packed_size < packed_size st \<or> nack_sn (last (nacks st)) = ack_sn st)
      then trim_loop max_packed_size (pop_nack st)
      else st)"
  by pat_completeness auto
termination
  by (relation "measure (\<lambda>(m, st). length (nacks st))") (auto simp: pop_nack_def)

declare trim_loop.simps [simp del]

definition trim :: "nat \<Rightarrow> rlc_am_nr_status_pdu \<Rightarrow> bool \<times> rlc_am_nr_status_pdu" where
  "trim max_packed_size st =
     (if packed_size st \<le> max_packed_size then (True, st)
      else if max_packed_size < sizeof_header_ack_sn then (False, st)
      else (True, trim_loop max_packed_size st))"

subsection \<open>The packed size is kept in step with the NACKs\<close>

definition nacks_size :: "rlc_am_nr_status_pdu \<Rightarrow> nat" where
  "nacks_size st = sum_list (map (nack_size (st_sn_size st)) (nacks st))"

definition sized :: "rlc_am_nr_status_pdu \<Rightarrow> bool" where
  "sized st \<longleftrightarrow> packed_size st = sizeof_header_ack_sn + nacks_size st"

lemma sized_reset: "sized (status_reset st)"
  by (simp add: sized_def status_reset_def nacks_size_def)

lemma sized_push:
  assumes "sized st"
  shows "sized (push_nack nack st)"
proof (cases "nacks st = []")
  case True
  then show ?thesis using assms by (simp add: sized_def push_nack_def nacks_size_def)
next
  case False
  let ?f = "nack_size (st_sn_size st)"
  have "packed_size st - ?f (last (nacks st)) =
      sizeof_header_ack_sn + sum_list (map ?f (butlast (nacks st)))"
    using assms sum_list_butlast_last [OF False, of ?f] by (simp add: sized_def nacks_size_def)
  then show ?thesis
    using False assms by (simp add: sized_def push_nack_def Let_def nacks_size_def)
qed

lemma push_nack_frame [simp]:
  "st_sn_size (push_nack nack st) = st_sn_size st"
  "mod_nr (push_nack nack st) = mod_nr st"
  "cpt (push_nack nack st) = cpt st"
  "ack_sn (push_nack nack st) = ack_sn st"
  by (simp_all add: push_nack_def Let_def)

lemma refresh_sized: "sized (refresh_packed_size st)"
proof -
  have "foldl (\<lambda>s nack. s + nack_size (st_sn_size st) nack) k ns = k + sum_list (map (nack_size (st_sn_size st)) ns)" for k ns
    by (induction ns arbitrary: k) auto
  then show ?thesis by (simp add: sized_def refresh_packed_size_def nacks_size_def)
qed

subsection \<open>Trimming\<close>

lemma trim_loop_stop:
  "\<not> (nacks st \<noteq> [] \<and> (m < packed_size st \<or> nack_sn (last (nacks st)) = ack_sn st)) \<Longrightarrow>
     trim_loop m st = st"
  by (rule trans [OF trim_loop.simps if_not_P])

lemma trim_loop_go:
  "nacks st \<noteq> [] \<and> (m < packed_size st \<or> nack_sn (last (nacks st)) = ack_sn st) \<Longrightarrow>
     trim_loop m st = trim_loop m (pop_nack st)"
  by (rule trans [OF trim_loop.simps if_P])

lemma pop_nack_simps [simp]:
  "nacks (pop_nack st) = butlast (nacks st)"
  "ack_sn (pop_nack st) = nack_sn (last (nacks st))"
  "st_sn_size (pop_nack st) = st_sn_size st"
  "mod_nr (pop_nack st) = mod_nr st"
  by (simp_all add: pop_nack_def)

lemma sized_pop_nack:
  assumes "sized st" "nacks st \<noteq> []"
  shows "sized (pop_nack st)"
  using assms sum_list_butlast_last [OF assms(2), of "nack_size (st_sn_size st)"]
  by (simp add: sized_def pop_nack_def nacks_size_def)

lemma trim_loop_spec:
  assumes "sized st" "sizeof_header_ack_sn \<le> m"
  shows "sized (trim_loop m st) \<and> packed_size (trim_loop m st) \<le> m \<and>
    st_sn_size (trim_loop m st) = st_sn_size st \<and> mod_nr (trim_loop m st) = mod_nr st \<and>
    (\<exists>removed. nacks st = nacks (trim_loop m st) @ removed \<and>
      ack_sn (trim_loop m st) = (if removed = [] then ack_sn st else nack_sn (hd removed)))"
  using assms
proof (induction m st rule: trim_loop.induct)
  case (1 m st)
  let ?go = "nacks st \<noteq> [] \<and> (m < packed_size st \<or> nack_sn (last (nacks st)) = ack_sn st)"
  show ?case
  proof (cases ?go)
    case False
    then have s: "trim_loop m st = st" by (rule trim_loop_stop)
    have "packed_size st \<le> m"
      using False 1(2,3) by (cases "nacks st") (auto simp: sized_def nacks_size_def)
    then show ?thesis using 1(2) by (simp add: s)
  next
    case True
    have l: "trim_loop m st = trim_loop m (pop_nack st)" using True by (rule trim_loop_go)
    have "sized (pop_nack st)" using sized_pop_nack 1(2) True by blast
    note IH = 1(1) [OF True this 1(3)]
    then obtain removed where r:
      "nacks (pop_nack st) = nacks (trim_loop m (pop_nack st)) @ removed"
      "ack_sn (trim_loop m (pop_nack st)) =
         (if removed = [] then ack_sn (pop_nack st) else nack_sn (hd removed))"
      by blast
    have "nacks st = nacks (trim_loop m (pop_nack st)) @ (removed @ [last (nacks st)])"
      using r(1) True by (metis append_assoc append_butlast_last_id pop_nack_simps(1))
    moreover have "ack_sn (trim_loop m (pop_nack st)) = nack_sn (hd (removed @ [last (nacks st)]))"
      using r(2) by simp
    ultimately show ?thesis
      using IH unfolding l pop_nack_simps by (metis Nil_is_append_conv not_Cons_self2)
  qed
qed

text \<open>NACKs of segments of one SDU are next to each other.\<close>

definition grouped :: "'a list \<Rightarrow> bool" where
  "grouped xs \<longleftrightarrow> (\<forall>i j k. i \<le> j \<and> j \<le> k \<and> k < length xs \<and> xs ! i = xs ! k \<longrightarrow> xs ! j = xs ! k)"

lemma grouped_butlast: "grouped (xs @ [x]) \<Longrightarrow> grouped xs"
  unfolding grouped_def
proof (intro allI impI)
  assume g: "\<forall>i j k. i \<le> j \<and> j \<le> k \<and> k < length (xs @ [x]) \<and> (xs @ [x]) ! i = (xs @ [x]) ! k
      \<longrightarrow> (xs @ [x]) ! j = (xs @ [x]) ! k"
  fix i j k assume "i \<le> j \<and> j \<le> k \<and> k < length xs \<and> xs ! i = xs ! k"
  then show "xs ! j = xs ! k" using g [rule_format, of i j k] by (simp add: nth_append)
qed

lemma grouped_last:
  assumes "grouped (xs @ [a])" "xs \<noteq> []" "last xs \<noteq> a"
  shows "a \<notin> set xs"
proof
  assume "a \<in> set xs"
  then obtain i where i: "i < length xs" "xs ! i = a" by (auto simp: in_set_conv_nth)
  have "(xs @ [a]) ! (length xs - 1) = (xs @ [a]) ! length xs"
    using assms(1) [unfolded grouped_def, rule_format, of i "length xs - 1" "length xs"] i
    by (simp add: nth_append)
  with assms(2,3) show False by (simp add: nth_append last_conv_nth)
qed

lemma trim_loop_ack:
  assumes "grouped (map nack_sn (nacks st) @ [ack_sn st])"
  shows "ack_sn (trim_loop m st) \<notin> nack_sn ` set (nacks (trim_loop m st))"
  using assms
proof (induction m st rule: trim_loop.induct)
  case (1 m st)
  let ?go = "nacks st \<noteq> [] \<and> (m < packed_size st \<or> nack_sn (last (nacks st)) = ack_sn st)"
  show ?case
  proof (cases ?go)
    case False
    then have s: "trim_loop m st = st" by (rule trim_loop_stop)
    show ?thesis
    proof (cases "nacks st = []")
      case True
      then show ?thesis by (simp add: s)
    next
      case ne: False
      with False have "last (map nack_sn (nacks st)) \<noteq> ack_sn st" by (simp add: last_map)
      then show ?thesis using grouped_last [OF 1(2)] ne by (simp add: s)
    qed
  next
    case True
    have "map nack_sn (butlast (nacks st)) @ [nack_sn (last (nacks st))] = map nack_sn (nacks st)"
      using True by (metis append_butlast_last_id list.simps(8,9) map_append)
    then have "grouped (map nack_sn (nacks (pop_nack st)) @ [ack_sn (pop_nack st)])"
      using grouped_butlast [OF 1(2)] by (simp add: pop_nack_def)
    then show ?thesis using 1(1) [OF True] unfolding trim_loop_go [OF True] by simp
  qed
qed

subsection \<open>What a list of NACKs reports as missing\<close>

text \<open>
  The specification of a NACK: one entry per SDU it covers, with the first and the last
  missing byte.  A NACK without a range covers one SDU, one without segment offsets covers
  whole SDUs.
\<close>

definition nack_count :: "rlc_status_nack \<Rightarrow> nat" where
  "nack_count n = (if has_nack_range n then unat (nack_range n) else 1)"

definition first_byte :: "rlc_status_nack \<Rightarrow> u16" where
  "first_byte n = (if has_so n then so_start n else 0)"

definition last_byte :: "rlc_status_nack \<Rightarrow> u16" where
  "last_byte n = (if has_so n then so_end n else so_end_of_sdu)"

definition missing_sdu :: "u32 \<Rightarrow> rlc_status_nack \<Rightarrow> nat \<Rightarrow> u32 \<times> u16 \<times> u16" where
  "missing_sdu m n i =
     ((nack_sn n + of_nat i) mod m,
      if i = 0 then first_byte n else 0,
      if Suc i = nack_count n then last_byte n else so_end_of_sdu)"

definition missing :: "u32 \<Rightarrow> rlc_status_nack \<Rightarrow> (u32 \<times> u16 \<times> u16) list" where
  "missing m n = map (missing_sdu m n) [0..<nack_count n]"

definition st_missing :: "rlc_am_nr_status_pdu \<Rightarrow> (u32 \<times> u16 \<times> u16) list" where
  "st_missing st = concat (map (missing (mod_nr st)) (nacks st))"

text \<open>The moduli are the powers of two \<open>cardinality\<close> gives.\<close>

definition am_modulus :: "u32 \<Rightarrow> bool" where
  "am_modulus m \<longleftrightarrow> m = 4096 \<or> m = 262144"

lemma am_mod_add_left: "am_modulus m \<Longrightarrow> (x mod m + y) mod m = (x + y) mod m"
  by (rule word_mod_add_left) (auto simp: am_modulus_def)

lemma expand_prev:
  fixes prev nack :: rlc_status_nack
  defines "new \<equiv> expand_so (expand_range prev nack) nack"
  assumes cont: "is_continuous_sequence st prev nack"
    and cnt: "nack_count prev + nack_count nack < 256"
  shows "nack_sn new = nack_sn prev" "has_nack_range new"
    "nack_count new = nack_count prev + nack_count nack"
    "first_byte new = first_byte prev" "last_byte new = last_byte nack"
    "last_byte prev = so_end_of_sdu" "first_byte nack = 0"
proof -
  have add: "unat (a + b) = unat a + unat b" if "unat a + unat b < 256" for a b :: u8
    using that by (simp add: unat_word_ariths)
  show "nack_count new = nack_count prev + nack_count nack"
    using cnt add [of "nack_range prev" "nack_range nack"] add [of "nack_range prev" 1]
      add [of "nack_range nack" 1]
    by (auto simp: new_def expand_so_def expand_range_def nack_count_def)
  show "nack_sn new = nack_sn prev" "has_nack_range new"
    by (simp_all add: new_def expand_so_def expand_range_def)
  show "first_byte new = first_byte prev" "last_byte new = last_byte nack"
    "last_byte prev = so_end_of_sdu" "first_byte nack = 0"
    using cont
    by (auto simp: new_def expand_so_def expand_range_def first_byte_def last_byte_def
        is_continuous_sequence_def)
qed

lemma missing_expand:
  assumes m: "am_modulus (mod_nr st)"
    and cont: "is_continuous_sequence st prev nack"
    and cnt: "nack_count prev + nack_count nack < 256" "0 < nack_count prev" "0 < nack_count nack"
  shows "missing (mod_nr st) (expand_so (expand_range prev nack) nack) =
           missing (mod_nr st) prev @ missing (mod_nr st) nack"
proof -
  note e = expand_prev [OF cont cnt(1)]
  let ?new = "expand_so (expand_range prev nack) nack"
  have sn: "nack_sn nack = (nack_sn prev + of_nat (nack_count prev)) mod mod_nr st"
    using cont by (auto simp: is_continuous_sequence_def nack_count_def)
  have "(nack_sn prev + of_nat (nack_count prev + i)) mod mod_nr st =
        (nack_sn nack + of_nat i) mod mod_nr st" for i
    using am_mod_add_left [OF m, of "nack_sn prev + of_nat (nack_count prev)" "of_nat i"]
    by (simp add: sn add.assoc)
  then have r: "missing_sdu (mod_nr st) ?new (nack_count prev + i) = missing_sdu (mod_nr st) nack i" for i
    using e cnt by (simp add: missing_sdu_def)
  have l: "missing_sdu (mod_nr st) ?new i = missing_sdu (mod_nr st) prev i" if "i < nack_count prev" for i
    using e cnt that by (simp add: missing_sdu_def)
  show ?thesis
    by (rule nth_equalityI)
      (use e(3) l r in \<open>auto simp: missing_def nth_append less_diff_conv2\<close>,
        metis le_add_diff_inverse not_le_imp_less r)
qed

text \<open>
  Pushing a NACK adds exactly what it reports, as long as the widened range fits the eight
  bits of \<open>nack_range\<close>.
\<close>

lemma push_nack_missing:
  assumes m: "am_modulus (mod_nr st)"
    and cnt: "0 < nack_count nack"
      "nacks st \<noteq> [] \<longrightarrow> 0 < nack_count (last (nacks st)) \<and>
         nack_count (last (nacks st)) + nack_count nack < 256"
  shows "st_missing (push_nack nack st) = st_missing st @ missing (mod_nr st) nack"
proof (cases "nacks st \<noteq> [] \<and> is_continuous_sequence st (last (nacks st)) nack")
  case False
  then show ?thesis by (auto simp: st_missing_def push_nack_def Let_def)
next
  case True
  then have "missing (mod_nr st) (expand_so (expand_range (last (nacks st)) nack) nack) =
      missing (mod_nr st) (last (nacks st)) @ missing (mod_nr st) nack"
    using missing_expand [OF m] cnt by blast
  moreover have "st_missing st = concat (map (missing (mod_nr st)) (butlast (nacks st)))
      @ missing (mod_nr st) (last (nacks st))"
    unfolding st_missing_def using True concat_map_butlast_last by blast
  ultimately show ?thesis
    using True by (simp add: st_missing_def push_nack_def Let_def)
qed

text \<open>No two neighbours in the container could be one NACK.\<close>

fun canonical :: "rlc_am_nr_status_pdu \<Rightarrow> rlc_status_nack list \<Rightarrow> bool" where
  "canonical st (x # y # zs) \<longleftrightarrow> \<not> is_continuous_sequence st x y \<and> canonical st (y # zs)"
| "canonical st _ \<longleftrightarrow> True"

lemma canonical_append:
  "canonical st (xs @ [y]) \<longleftrightarrow>
     canonical st xs \<and> (xs \<noteq> [] \<longrightarrow> \<not> is_continuous_sequence st (last xs) y)"
  by (induction st xs rule: canonical.induct) auto

lemma is_continuous_sequence_right:
  "nack_sn y' = nack_sn y \<Longrightarrow> first_byte y' = first_byte y \<Longrightarrow>
     is_continuous_sequence st x y' = is_continuous_sequence st x y"
  by (auto simp: is_continuous_sequence_def first_byte_def split: if_splits)

lemma is_continuous_sequence_st:
  "mod_nr st' = mod_nr st \<Longrightarrow> is_continuous_sequence st' = is_continuous_sequence st"
  by (auto simp: is_continuous_sequence_def fun_eq_iff)

lemma canonical_st: "mod_nr st' = mod_nr st \<Longrightarrow> canonical st' xs = canonical st xs"
  by (induction st xs rule: canonical.induct) (auto dest: is_continuous_sequence_st)

lemma first_byte_expand: "first_byte (expand_so (expand_range prev nack) nack) = first_byte prev"
  "nack_sn (expand_so (expand_range prev nack) nack) = nack_sn prev"
  by (auto simp: expand_so_def expand_range_def first_byte_def)

lemma canonical_push:
  assumes "canonical st (nacks st)"
  shows "canonical (push_nack nack st) (nacks (push_nack nack st))"
proof -
  have c: "canonical (push_nack nack st) xs = canonical st xs" for xs
    by (rule canonical_st) simp
  show ?thesis
  proof (cases "nacks st = []")
    case True
    then show ?thesis by (simp add: push_nack_def)
  next
    case False
    then have b: "nacks st = butlast (nacks st) @ [last (nacks st)]" by simp
    have bl: "canonical st (butlast (nacks st) @ [last (nacks st)])" using assms False by simp
    show ?thesis
      using bl False assms is_continuous_sequence_right [OF first_byte_expand(2,1)]
      unfolding c by (simp add: push_nack_def Let_def canonical_append del: append_butlast_last_id)
  qed
qed

section \<open>Data PDU headers\<close>

record rlc_am_nr_pdu_header =
  am_dc :: rlc_dc_field
  am_p :: u8
  am_si :: rlc_nr_si_field
  am_sn_size :: rlc_am_nr_sn_size
  am_sn :: u32
  am_so :: u16

definition has_so_field :: "rlc_nr_si_field \<Rightarrow> bool" where
  "has_so_field s \<longleftrightarrow> s = last_segment \<or> s = neither_first_nor_last_segment"

text \<open>The optional part: the segment offset, if the segmentation info says there is one.\<close>

definition am_nr_read_so ::
  "bytes \<Rightarrow> nat \<Rightarrow> rlc_am_nr_pdu_header \<Rightarrow> (nat \<times> rlc_am_nr_pdu_header) option" where
  "am_nr_read_so payload ptr header =
     (if has_so_field (am_si header) then do {
        b0 \<leftarrow> rd payload ptr;
        b1 \<leftarrow> rd payload (ptr + 1);
        Some (ptr + 2, header\<lparr>am_so := ucast (push_bit 8 (ucast b0 AND 0xFF :: u32))
                                     OR ucast (ucast b1 AND 0xFF :: u32)\<rparr>)
      } else Some (ptr, header))"

text \<open>
  The result is the number of bytes consumed, 0 when the PDU is malformed, and the header as
  far as it was filled in.
\<close>

definition rlc_am_nr_read_data_pdu_header ::
  "bytes \<Rightarrow> rlc_am_nr_sn_size \<Rightarrow> rlc_am_nr_pdu_header \<Rightarrow> (nat \<times> rlc_am_nr_pdu_header) option" where
  "rlc_am_nr_read_data_pdu_header payload sn_sz header = do {
     b0 \<leftarrow> rd payload 0;
     let h = header\<lparr>am_sn_size := sn_sz,
                    am_dc := dc_of (drop_bit 7 b0 AND 0x01),
                    am_p := drop_bit 6 b0 AND 0x01,
                    am_si := si_of (drop_bit 4 b0 AND 0x03)\<rparr>;
     if sn_sz = am_size12bits then do {
       b1 \<leftarrow> rd payload 1;
       am_nr_read_so payload 2
         (h\<lparr>am_sn := push_bit 8 (ucast b0 AND 0x0F) OR (ucast b1 AND 0xFF)\<rparr>)
     }
     else if sn_sz = am_size18bits then
       (if b0 AND 0x0c \<noteq> 0 then Some (0, h)
        else do {
          b1 \<leftarrow> rd payload 1;
          b2 \<leftarrow> rd payload 2;
          am_nr_read_so payload 3
            (h\<lparr>am_sn := push_bit 16 (ucast b0 AND 0x03) OR push_bit 8 (ucast b1 AND 0xFF)
                       OR (ucast b2 AND 0xFF)\<rparr>)
        })
     else Some (0, h)
   }"

definition rlc_am_nr_packed_length :: "rlc_am_nr_pdu_header \<Rightarrow> nat" where
  "rlc_am_nr_packed_length header =
     (if am_si header = full_sdu \<or> am_si header = first_segment then
        2 + (if am_sn_size header = am_size18bits then 1 else 0)
      else 4 + (if am_sn_size header = am_size18bits then 1 else 0))"

definition am_nr_fixed_byte :: "rlc_am_nr_pdu_header \<Rightarrow> u8" where
  "am_nr_fixed_byte header =
     push_bit 7 (dc_val (am_dc header) AND 0x01)
     OR push_bit 6 (am_p header AND 0x01)
     OR push_bit 4 (si_val (am_si header) AND 0x03)"

definition rlc_am_nr_write_data_pdu_header :: "rlc_am_nr_pdu_header \<Rightarrow> bytes \<times> nat" where
  "rlc_am_nr_write_data_pdu_header header =
     ((if am_sn_size header = am_size12bits then
         [am_nr_fixed_byte header OR ucast (drop_bit 8 (am_sn header) AND 0x0f),
          ucast (am_sn header AND 0xff)]
       else
         [am_nr_fixed_byte header OR ucast (drop_bit 16 (am_sn header) AND 0x3),
          ucast (drop_bit 8 (am_sn header)),
          ucast (am_sn header AND 0xff)])
      @ (if am_so header \<noteq> 0
         then [ucast (drop_bit 8 (am_so header)), ucast (am_so header AND 0xff)] else []),
      rlc_am_nr_packed_length header)"

text \<open>Headers the entities build: a segment offset exactly where the segmentation info has one.\<close>

definition valid_header :: "rlc_am_nr_pdu_header \<Rightarrow> bool" where
  "valid_header h \<longleftrightarrow> am_si h \<noteq> si_nulltype \<and> am_sn_size h \<noteq> am_nulltype \<and>
     unat (am_p h) < 2 \<and>
     unat (am_sn h) < (if am_sn_size h = am_size12bits then 2 ^ 12 else 2 ^ 18) \<and>
     (has_so_field (am_si h) \<longleftrightarrow> am_so h \<noteq> 0)"

lemma and_12_eq: "(x :: 8 word) AND 12 = push_bit 2 (take_bit 2 (drop_bit 2 x))"
proof -
  have "(12 :: 8 word) = push_bit 2 (mask 2)" by (simp add: mask_eq_exp_minus_1 push_bit_eq_mult)
  show ?thesis unfolding \<open>12 = push_bit 2 (mask 2)\<close>
    by (rule bit_word_eqI) (auto simp: bit_simps Suc_Suc_minus_2)
qed

lemma packed_length_written:
  "valid_header h \<Longrightarrow> length (fst (rlc_am_nr_write_data_pdu_header h)) = rlc_am_nr_packed_length h"
  by (cases "am_si h"; cases "am_sn_size h")
    (auto simp: rlc_am_nr_write_data_pdu_header_def rlc_am_nr_packed_length_def valid_header_def
      has_so_field_def)

lemma fixed_byte_fields:
  assumes "unat (am_p h) < 2" "am_si h \<noteq> si_nulltype" "x = take_bit 4 (x :: u8)"
  shows "dc_of (drop_bit 7 (am_nr_fixed_byte h OR x) AND 1) = am_dc h"
    "drop_bit 6 (am_nr_fixed_byte h OR x) AND 1 = am_p h"
    "si_of (drop_bit 4 (am_nr_fixed_byte h OR x) AND 3) = am_si h"
    "take_bit 4 (am_nr_fixed_byte h OR x) = x"
proof -
  have p1: "bit (am_p h) n \<Longrightarrow> n = 0" for n
    using bit_below [of 1 "am_p h" n] take_bit_self [of "am_p h" 1] assms(1) by simp
  have d1: "bit (dc_val (am_dc h)) n \<Longrightarrow> n = 0" for n using bit_below [OF dc_val_bit, of "am_dc h" n] by simp
  have s2: "bit (si_val (am_si h)) n \<Longrightarrow> n < 2" for n
    using bit_below [OF si_val_bits [OF assms(2)]] .
  have x4: "bit x n \<Longrightarrow> n < 4" for n using bit_below [OF assms(3) [symmetric]] .
  have "drop_bit 7 (am_nr_fixed_byte h OR x) AND 1 = dc_val (am_dc h)"
    unfolding am_nr_fixed_byte_def and_masks
    by (rule bit_word_eqI) (auto simp: bit_simps dest: d1 p1 s2 x4)
  then show "dc_of (drop_bit 7 (am_nr_fixed_byte h OR x) AND 1) = am_dc h" by simp
  show "drop_bit 6 (am_nr_fixed_byte h OR x) AND 1 = am_p h"
    unfolding am_nr_fixed_byte_def and_masks
    by (rule bit_word_eqI) (auto simp: bit_simps dest: d1 p1 s2 x4)
  have "drop_bit 4 (am_nr_fixed_byte h OR x) AND 3 = si_val (am_si h)"
    unfolding am_nr_fixed_byte_def and_masks
    by (rule bit_word_eqI) (auto simp: bit_simps dest: d1 p1 s2 x4)
  then show "si_of (drop_bit 4 (am_nr_fixed_byte h OR x) AND 3) = am_si h" using assms(2) by simp
  show "take_bit 4 (am_nr_fixed_byte h OR x) = x"
    unfolding am_nr_fixed_byte_def and_masks
    by (rule bit_word_eqI) (auto simp: bit_simps dest: d1 p1 s2 x4)
qed

lemma sn_bytes_12:
  fixes x :: u32
  assumes "unat x < 2 ^ 12"
  shows "push_bit 8 (ucast (ucast (take_bit 4 (drop_bit 8 x)) :: u8))
           OR take_bit 8 (ucast (ucast (take_bit 8 x) :: u8)) = x"
proof -
  have x: "bit x n \<Longrightarrow> n < 12" for n using bit_below [OF take_bit_self [OF assms]] .
  show ?thesis by (rule bit_word_eqI) (auto simp: bit_simps dest: x)
qed

lemma sn_bytes_18:
  fixes x :: u32
  assumes "unat x < 2 ^ 18"
  shows "push_bit 16 (ucast (ucast (take_bit 2 (drop_bit 16 x)) :: u8))
           OR push_bit 8 (take_bit 8 (ucast (ucast (drop_bit 8 x) :: u8)))
           OR take_bit 8 (ucast (ucast (take_bit 8 x) :: u8)) = x"
proof -
  have x: "bit x n \<Longrightarrow> n < 18" for n using bit_below [OF take_bit_self [OF assms]] .
  show ?thesis
  proof (rule bit_word_eqI)
    fix n assume "n < LENGTH(32)"
    consider "n < 8" | "8 \<le> n" "n < 16" | "16 \<le> n" by linarith
    then show "bit (push_bit 16 (ucast (ucast (take_bit 2 (drop_bit 16 x)) :: u8) :: u32)
           OR push_bit 8 (take_bit 8 (ucast (ucast (drop_bit 8 x) :: u8)))
           OR take_bit 8 (ucast (ucast (take_bit 8 x) :: u8))) n = bit x n"
      by cases (use \<open>n < LENGTH(32)\<close> in \<open>auto simp: bit_simps dest: x\<close>)
  qed
qed

lemma so_bytes:
  fixes x :: u16
  shows "ucast (push_bit 8 (take_bit 8 (ucast (ucast (drop_bit 8 x) :: u8))) :: u32)
           OR ucast (take_bit 8 (ucast (ucast (take_bit 8 x) :: u8)) :: u32) = x"
  by (rule bit_word_eqI) (auto simp: bit_simps)

lemma read_so_written:
  assumes "has_so_field (am_si h) \<longleftrightarrow> s \<noteq> 0" "am_so h = s \<or> s \<noteq> 0"
  shows "am_nr_read_so
           (pre @ (if s \<noteq> 0 then [ucast (drop_bit 8 s), ucast (s AND 0xff)] else []) @ rest)
           (length pre) h =
         Some (length pre + (if s \<noteq> 0 then 2 else 0), h\<lparr>am_so := s\<rparr>)"
proof (cases "s = 0")
  case True
  then show ?thesis using assms by (auto simp: am_nr_read_so_def)
next
  case False
  then show ?thesis using assms so_bytes [of s] by (simp add: am_nr_read_so_def and_masks)
qed

lemma fixed_byte_low: "take_bit 4 (am_nr_fixed_byte h) = 0"
  unfolding am_nr_fixed_byte_def and_masks by (rule bit_word_eqI) (auto simp: bit_simps)

lemma fixed_byte_reserved: "x = take_bit 2 (x :: u8) \<Longrightarrow> (am_nr_fixed_byte h OR x) AND 0x0c = 0"
proof -
  assume "x = take_bit 2 x"
  then have x: "bit x n \<Longrightarrow> n < 2" for n using bit_below [of 2 x n] by simp
  show ?thesis
    unfolding am_nr_fixed_byte_def and_masks and_12_eq
    by (rule bit_word_eqI) (auto simp: bit_simps dest!: x)
qed

lemma take_bit_ucast: "n \<le> LENGTH('a) \<Longrightarrow> take_bit n (ucast (w :: 'a::len word) :: 'b::len word) = ucast (take_bit n w)"
  by (rule bit_word_eqI) (auto simp: bit_simps)

lemma packed_length_so:
  "valid_header h \<Longrightarrow> rlc_am_nr_packed_length h =
     (if am_sn_size h = am_size18bits then 3 else 2) + (if am_so h \<noteq> 0 then 2 else 0)"
  by (cases "am_si h") (auto simp: rlc_am_nr_packed_length_def valid_header_def has_so_field_def)

lemma read_header_12:
  assumes "dc_of (drop_bit 7 b0 AND 1) = d" "drop_bit 6 b0 AND 1 = pp" "si_of (drop_bit 4 b0 AND 3) = s"
    "push_bit 8 (ucast b0 AND 15) OR (ucast b1 AND 255) = n"
  shows "rlc_am_nr_read_data_pdu_header (b0 # b1 # rest) am_size12bits h0 =
     am_nr_read_so (b0 # b1 # rest) 2
       (h0\<lparr>am_sn_size := am_size12bits, am_dc := d, am_p := pp, am_si := s, am_sn := n\<rparr>)"
  unfolding assms [symmetric] by (simp add: rlc_am_nr_read_data_pdu_header_def)

lemma read_header_18:
  assumes "dc_of (drop_bit 7 b0 AND 1) = d" "drop_bit 6 b0 AND 1 = pp" "si_of (drop_bit 4 b0 AND 3) = s"
    "b0 AND 12 = 0"
    "push_bit 16 (ucast b0 AND 3) OR push_bit 8 (ucast b1 AND 255) OR (ucast b2 AND 255) = n"
  shows "rlc_am_nr_read_data_pdu_header (b0 # b1 # b2 # rest) am_size18bits h0 =
     am_nr_read_so (b0 # b1 # b2 # rest) 3
       (h0\<lparr>am_sn_size := am_size18bits, am_dc := d, am_p := pp, am_si := s, am_sn := n\<rparr>)"
  unfolding assms(1-3,5) [symmetric] by (simp add: rlc_am_nr_read_data_pdu_header_def assms(4))

lemma read_written_header:
  assumes v: "valid_header h" and h0: "am_so h0 = 0"
  shows "rlc_am_nr_read_data_pdu_header (fst (rlc_am_nr_write_data_pdu_header h) @ rest) (am_sn_size h) h0 =
         Some (rlc_am_nr_packed_length h, h)"
proof -
  let ?sop = "if am_so h \<noteq> 0 then [ucast (drop_bit 8 (am_so h)), ucast (am_so h AND 0xff)] else [] :: bytes"
  have v': "unat (am_p h) < 2" "am_si h \<noteq> si_nulltype" "has_so_field (am_si h) \<longleftrightarrow> am_so h \<noteq> 0"
    using v by (simp_all add: valid_header_def)
  have rso: "am_nr_read_so (pre @ ?sop @ rest) (length pre) (h\<lparr>am_so := 0\<rparr>) =
      Some (length pre + (if am_so h \<noteq> 0 then 2 else 0), h)" for pre
    using read_so_written [of "h\<lparr>am_so := 0\<rparr>" "am_so h" pre rest] v'(3) by auto
  show ?thesis
  proof (cases "am_sn_size h")
    case am_size12bits
    define x where "x = (ucast (drop_bit 8 (am_sn h) AND 0x0f) :: u8)"
    have x: "x = take_bit 4 x"
      unfolding x_def and_masks by (rule bit_word_eqI) (auto simp: bit_simps)
    have snb: "push_bit 8 (ucast (am_nr_fixed_byte h OR x) AND 15)
        OR (ucast (ucast (am_sn h AND 255) :: u8) AND 255) = am_sn h"
      using sn_bytes_12 [of "am_sn h"] v am_size12bits
      by (simp add: and_masks take_bit_ucast fixed_byte_low x_def valid_header_def)
    have w: "fst (rlc_am_nr_write_data_pdu_header h) = [am_nr_fixed_byte h OR x, ucast (am_sn h AND 0xff)] @ ?sop"
      by (simp add: rlc_am_nr_write_data_pdu_header_def am_size12bits x_def)
    have eq: "h0\<lparr>am_sn_size := am_size12bits, am_dc := am_dc h, am_p := am_p h, am_si := am_si h, am_sn := am_sn h\<rparr> = h\<lparr>am_so := 0\<rparr>"
      using h0 am_size12bits by simp
    have "rlc_am_nr_read_data_pdu_header (([am_nr_fixed_byte h OR x, ucast (am_sn h AND 0xff)] @ ?sop) @ rest) am_size12bits h0 =
        am_nr_read_so ([am_nr_fixed_byte h OR x, ucast (am_sn h AND 0xff)] @ ?sop @ rest) 2 (h\<lparr>am_so := 0\<rparr>)"
      using read_header_12 [OF fixed_byte_fields(1-3) [OF v'(1,2) x] snb, of "?sop @ rest" h0]
      unfolding eq by (simp only: append.simps append_assoc)
    also have "\<dots> = Some (2 + (if am_so h \<noteq> 0 then 2 else 0), h)"
      using rso [of "[am_nr_fixed_byte h OR x, ucast (am_sn h AND 0xff)]"] by (simp only: list.size add_0 Suc_eq_plus1 numeral_plus_one one_add_one semiring_norm)
    finally show ?thesis unfolding w am_size12bits packed_length_so [OF v] by simp
  next
    case am_size18bits
    define x where "x = (ucast (drop_bit 16 (am_sn h) AND 0x3) :: u8)"
    have x2: "x = take_bit 2 x"
      unfolding x_def and_masks by (rule bit_word_eqI) (auto simp: bit_simps)
    have x: "x = take_bit 4 x"
      unfolding x_def and_masks by (rule bit_word_eqI) (auto simp: bit_simps)
    have "take_bit 2 (am_nr_fixed_byte h) = 0"
      unfolding am_nr_fixed_byte_def and_masks by (rule bit_word_eqI) (auto simp: bit_simps)
    then have snb: "push_bit 16 (ucast (am_nr_fixed_byte h OR x) AND 3)
        OR push_bit 8 (ucast (ucast (drop_bit 8 (am_sn h)) :: u8) AND 255)
        OR (ucast (ucast (am_sn h AND 255) :: u8) AND 255) = am_sn h"
      using sn_bytes_18 [of "am_sn h"] v am_size18bits
      by (simp add: and_masks take_bit_ucast x_def valid_header_def)
    have w: "fst (rlc_am_nr_write_data_pdu_header h) = [am_nr_fixed_byte h OR x, ucast (drop_bit 8 (am_sn h)), ucast (am_sn h AND 0xff)] @ ?sop"
      by (simp add: rlc_am_nr_write_data_pdu_header_def am_size18bits x_def)
    have eq: "h0\<lparr>am_sn_size := am_size18bits, am_dc := am_dc h, am_p := am_p h, am_si := am_si h, am_sn := am_sn h\<rparr> = h\<lparr>am_so := 0\<rparr>"
      using h0 am_size18bits by simp
    have "rlc_am_nr_read_data_pdu_header (([am_nr_fixed_byte h OR x, ucast (drop_bit 8 (am_sn h)), ucast (am_sn h AND 0xff)] @ ?sop) @ rest) am_size18bits h0 =
        am_nr_read_so ([am_nr_fixed_byte h OR x, ucast (drop_bit 8 (am_sn h)), ucast (am_sn h AND 0xff)] @ ?sop @ rest) 3 (h\<lparr>am_so := 0\<rparr>)"
      using read_header_18 [OF fixed_byte_fields(1-3) [OF v'(1,2) x] fixed_byte_reserved [OF x2] snb, of "?sop @ rest" h0]
      unfolding eq by (simp only: append.simps append_assoc)
    also have "\<dots> = Some (3 + (if am_so h \<noteq> 0 then 2 else 0), h)"
      using rso [of "[am_nr_fixed_byte h OR x, ucast (drop_bit 8 (am_sn h)), ucast (am_sn h AND 0xff)]"] by (simp only: list.size add_0 Suc_eq_plus1 numeral_plus_one one_add_one semiring_norm)
    finally show ?thesis unfolding w am_size18bits packed_length_so [OF v] by simp
  next
    case am_nulltype
    then show ?thesis using v by (simp add: valid_header_def)
  qed
qed

section \<open>Properties\<close>

text \<open>
  C23. A data PDU header read back is the header that was written, and the number of bytes consumed
  is the number of bytes written and the length \<open>rlc_am_nr_packed_length\<close> announces, whatever
  follows the header.
\<close>

theorem am_header_round_trip:
  assumes "valid_header h" "am_so h0 = 0" "rlc_am_nr_write_data_pdu_header h = (bs, n)"
  shows "rlc_am_nr_read_data_pdu_header (bs @ rest) (am_sn_size h) h0 = Some (n, h) \<and> length bs = n"
  using read_written_header [OF assms(1,2), of rest] packed_length_written [OF assms(1)] assms(3)
  by (auto simp: rlc_am_nr_write_data_pdu_header_def)

theorem am_header_round_trip_witness:
  "let h = \<lparr>am_dc = RLC_DC_FIELD_DATA_PDU, am_p = 1, am_si = last_segment, am_sn_size = am_size18bits,
            am_sn = 200000, am_so = 700\<rparr>
   in rlc_am_nr_read_data_pdu_header (fst (rlc_am_nr_write_data_pdu_header h) @ [1, 2]) am_size18bits
        (h\<lparr>am_so := 0\<rparr>) = Some (5, h)"
proof -
  define h where "h = \<lparr>am_dc = RLC_DC_FIELD_DATA_PDU, am_p = 1, am_si = last_segment,
    am_sn_size = am_size18bits, am_sn = 200000, am_so = 700\<rparr>"
  have "valid_header h" "am_so (h\<lparr>am_so := 0\<rparr>) = 0" "snd (rlc_am_nr_write_data_pdu_header h) = 5"
    "am_sn_size h = am_size18bits"
    by (simp_all add: h_def valid_header_def has_so_field_def rlc_am_nr_write_data_pdu_header_def
        rlc_am_nr_packed_length_def)
  then show ?thesis
    using am_header_round_trip [of h "h\<lparr>am_so := 0\<rparr>" "fst (rlc_am_nr_write_data_pdu_header h)" 5 "[1, 2]"]
    unfolding Let_def h_def [symmetric] by (metis prod.collapse)
qed

text \<open>
  C20. \<open>trim\<close> on a status PDU that does not fit removes NACKs from the end only: what is left fits
  the space, its packed size is still in step with its NACKs, and the acknowledged sequence
  number becomes that of the first NACK removed, so that (the NACKs of one SDU being next to each
  other) it is no longer reported missing.  Without room for the fixed part nothing changes.
\<close>

theorem am_trim_fits:
  assumes "sized st" "m < packed_size st" "trim m st = (ok, st')"
  shows "(ok \<longleftrightarrow> sizeof_header_ack_sn \<le> m) \<and> (\<not> ok \<longrightarrow> st' = st) \<and>
    (ok \<longrightarrow> packed_size st' \<le> m \<and> sized st' \<and>
      (\<exists>removed. removed \<noteq> [] \<and> nacks st = nacks st' @ removed \<and> ack_sn st' = nack_sn (hd removed)) \<and>
      (grouped (map nack_sn (nacks st) @ [ack_sn st]) \<longrightarrow> ack_sn st' \<notin> nack_sn ` set (nacks st')))"
proof (cases "sizeof_header_ack_sn \<le> m")
  case False
  then show ?thesis using assms(2,3) by (auto simp: trim_def)
next
  case True
  then have t: "ok" "st' = trim_loop m st" using assms(2,3) by (auto simp: trim_def)
  note L = trim_loop_spec [OF assms(1) True]
  obtain removed where r: "nacks st = nacks st' @ removed"
    "ack_sn st' = (if removed = [] then ack_sn st else nack_sn (hd removed))" using L t(2) by blast
  have "removed \<noteq> []"
  proof
    assume "removed = []"
    then have "nacks_size st = nacks_size st'" using r(1) L t(2) by (simp add: nacks_size_def)
    then show False using L assms(1,2) t(2) by (simp add: sized_def)
  qed
  then show ?thesis using L r t True trim_loop_ack [of st m] by auto
qed

theorem am_trim_fits_witness:
  "let nack = \<lambda>sn. rlc_status_nack\<lparr>nack_sn := sn\<rparr>;
       st = \<lparr>st_sn_size = am_size12bits, mod_nr = 4096, nacks = [nack 3, nack 8], packed_size = 7, cpt = 0, ack_sn = 9\<rparr>
   in fst (trim 6 st) \<and> packed_size (snd (trim 6 st)) \<le> 6"
proof -
  define st where "st = \<lparr>st_sn_size = am_size12bits, mod_nr = 4096,
    nacks = [rlc_status_nack\<lparr>nack_sn := 3\<rparr>, rlc_status_nack\<lparr>nack_sn := 8\<rparr>], packed_size = 7, cpt = 0, ack_sn = 9\<rparr>"
  have "sized st" "6 < packed_size st"
    by (simp_all add: st_def sized_def nacks_size_def nack_size_def sizeof_defs rlc_status_nack_def)
  from am_trim_fits [OF this, of "fst (trim 6 st)" "snd (trim 6 st)"] show ?thesis
    by (simp add: st_def Let_def sizeof_defs)
qed

end
