(* ===== verification/AmNrStatus.thy ===== *)
theory AmNrStatus
  imports AmNrPacking
begin

text \<open>
  The readers and writers of RLC AM NR status PDUs (\<^verbatim>\<open>rlc/rlc_am_nr_packing.cc\<close>) for
  sequence numbers of 12 and 18 bits.

  The readers print a message and return 0 for a malformed PDU and return
  \<^verbatim>\<open>ISRRAN_SUCCESS\<close>, which is 0 as well, for a good one.  The model keeps apart what the
  return value does not: \<open>Parsed\<close> and the message that is printed.  \<open>None\<close> is a read past
  the \<^verbatim>\<open>nof_bytes\<close> bytes of the payload.
\<close>

datatype rd_exit = Parsed | Reserved_bits_set | Not_enough_bytes

definition ret_code :: "rd_exit \<Rightarrow> u32" where
  "ret_code e = (case e of Parsed \<Rightarrow> 0 | Reserved_bits_set \<Rightarrow> 0 | Not_enough_bytes \<Rightarrow> 0)"

section \<open>Reading\<close>

text \<open>The optional segment offsets and range of a NACK, flags E2 and E3.\<close>

definition read_nack_so :: "bytes \<Rightarrow> nat \<Rightarrow> rlc_status_nack \<Rightarrow> (rlc_status_nack \<times> nat) option" where
  "read_nack_so payload ptr nack = do {
     b0 \<leftarrow> rd payload ptr;
     b1 \<leftarrow> rd payload (ptr + 1);
     b2 \<leftarrow> rd payload (ptr + 2);
     b3 \<leftarrow> rd payload (ptr + 3);
     Some (nack\<lparr>has_so := True,
                so_start := ucast (push_bit 8 (ucast b0 :: u32)) OR ucast b1,
                so_end := ucast (push_bit 8 (ucast b2 :: u32)) OR ucast b3\<rparr>, ptr + 4)
   }"

definition read_nack_range :: "bytes \<Rightarrow> nat \<Rightarrow> rlc_status_nack \<Rightarrow> (rlc_status_nack \<times> nat) option" where
  "read_nack_range payload ptr nack = do {
     b \<leftarrow> rd payload ptr;
     Some (nack\<lparr>has_nack_range := True, nack_range := b\<rparr>, ptr + 1)
   }"

definition read_nack_opt ::
  "bytes \<Rightarrow> nat \<Rightarrow> u8 \<Rightarrow> u8 \<Rightarrow> rlc_status_nack \<Rightarrow> (rlc_status_nack \<times> nat) option" where
  "read_nack_opt payload ptr e2 e3 nack = do {
     (nack, ptr) \<leftarrow> (if e2 \<noteq> 0 then read_nack_so payload ptr nack else Some (nack, ptr));
     if e3 \<noteq> 0 then read_nack_range payload ptr nack else Some (nack, ptr)
   }"

text \<open>
  One turn of the loop.  The inner \<open>None\<close> is the return for set reserved bits, otherwise the
  NACK, the new E1 flag and the new pointer.
\<close>

definition read_nack_12 :: "bytes \<Rightarrow> nat \<Rightarrow> (rlc_status_nack \<times> u8 \<times> nat) option option" where
  "read_nack_12 payload ptr = do {
     b0 \<leftarrow> rd payload ptr;
     b1 \<leftarrow> rd payload (ptr + 1);
     if b1 AND 0x01 \<noteq> 0 then Some None
     else do {
       (nack, ptr') \<leftarrow> read_nack_opt payload (ptr + 2) (b1 AND 0x04) (b1 AND 0x02)
          (rlc_status_nack\<lparr>nack_sn := push_bit 4 (ucast b0 AND 0xff)
                                       OR drop_bit 4 (ucast b1 AND 0xF0)\<rparr>);
       Some (Some (nack, b1 AND 0x08, ptr'))
     }
   }"

definition read_nack_18 :: "bytes \<Rightarrow> nat \<Rightarrow> (rlc_status_nack \<times> u8 \<times> nat) option option" where
  "read_nack_18 payload ptr = do {
     b0 \<leftarrow> rd payload ptr;
     b1 \<leftarrow> rd payload (ptr + 1);
     b2 \<leftarrow> rd payload (ptr + 2);
     if b2 AND 0x07 \<noteq> 0 then Some None
     else do {
       (nack, ptr') \<leftarrow> read_nack_opt payload (ptr + 3) (b2 AND 0x10) (b2 AND 0x08)
          (rlc_status_nack\<lparr>nack_sn := push_bit 10 (ucast b0 AND 0xFF)
                                       OR push_bit 2 (ucast b1 AND 0xFF)
                                       OR drop_bit 6 (ucast b2 AND 0xC0)\<rparr>);
       Some (Some (nack, b2 AND 0x20, ptr'))
     }
   }"

definition read_nack ::
  "rlc_am_nr_sn_size \<Rightarrow> bytes \<Rightarrow> nat \<Rightarrow> (rlc_status_nack \<times> u8 \<times> nat) option option" where
  "read_nack sz = (if sz = am_size12bits then read_nack_12 else read_nack_18)"

lemma read_nack_advances:
  "read_nack sz payload ptr = Some (Some (nack, e1, ptr')) \<Longrightarrow> ptr < ptr'"
  by (auto simp: read_nack_def read_nack_12_def read_nack_18_def read_nack_opt_def
      read_nack_so_def read_nack_range_def Option.bind_eq_Some_conv split: if_splits prod.splits)

text \<open>The loop of both readers: \<open>while (e1 != 0)\<close>, with the check of the headroom.\<close>

function read_nacks ::
  "rlc_am_nr_sn_size \<Rightarrow> bytes \<Rightarrow> nat \<Rightarrow> u8 \<Rightarrow> rlc_am_nr_status_pdu
     \<Rightarrow> (rd_exit \<times> rlc_am_nr_status_pdu) option" where
  "read_nacks sz payload ptr e1 status =
     (if e1 = 0 then Some (Parsed, status)
      else if length payload \<le> ptr then Some (Not_enough_bytes, status)
      else case read_nack sz payload ptr of
             None \<Rightarrow> None
           | Some None \<Rightarrow> Some (Reserved_bits_set, status)
           | Some (Some (nack, e1', ptr')) \<Rightarrow>
               read_nacks sz payload ptr' e1' (push_nack nack status))"
  by pat_completeness auto
termination
  by (relation "measure (\<lambda>(sz, payload, ptr, e1, status). length payload - ptr)")
     (auto dest: read_nack_advances)

declare read_nacks.simps [simp del]

definition rlc_am_nr_read_status_pdu_12bit_sn ::
  "bytes \<Rightarrow> rlc_am_nr_status_pdu \<Rightarrow> (rd_exit \<times> rlc_am_nr_status_pdu) option" where
  "rlc_am_nr_read_status_pdu_12bit_sn payload status0 = do {
     let status = status_reset status0;
     b0 \<leftarrow> rd payload 0;
     let status = status\<lparr>cpt := ucast (drop_bit 4 b0 AND 0x07)\<rparr>;
     if cpt status \<noteq> 0 then Some (Reserved_bits_set, status)
     else do {
       b1 \<leftarrow> rd payload 1;
       let status = status\<lparr>ack_sn := push_bit 8 (ucast b0 AND 0x0F) OR (ucast b1 AND 0xFF)\<rparr>;
       b2 \<leftarrow> rd payload 2;
       let e1 = b2 AND 0x80;
       if b2 AND 0x7f \<noteq> 0 then Some (Reserved_bits_set, status)
       else read_nacks am_size12bits payload 3 e1 status
     }
   }"

definition rlc_am_nr_read_status_pdu_18bit_sn ::
  "bytes \<Rightarrow> rlc_am_nr_status_pdu \<Rightarrow> (rd_exit \<times> rlc_am_nr_status_pdu) option" where
  "rlc_am_nr_read_status_pdu_18bit_sn payload status0 = do {
     let status = status_reset status0;
     b0 \<leftarrow> rd payload 0;
     let status = status\<lparr>cpt := ucast (drop_bit 4 b0 AND 0x07)\<rparr>;
     if cpt status \<noteq> 0 then Some (Reserved_bits_set, status)
     else do {
       b1 \<leftarrow> rd payload 1;
       b2 \<leftarrow> rd payload 2;
       let status = status\<lparr>ack_sn := push_bit 14 (ucast b0 AND 0x0F)
                                      OR push_bit 6 (ucast b1 AND 0xFF)
                                      OR drop_bit 2 (ucast b2 AND 0xFC)\<rparr>;
       let e1 = b2 AND 0x02;
       if b2 AND 0x01 \<noteq> 0 then Some (Reserved_bits_set, status)
       else read_nacks am_size18bits payload 3 e1 status
     }
   }"

definition rlc_am_nr_read_status_pdu ::
  "bytes \<Rightarrow> rlc_am_nr_sn_size \<Rightarrow> rlc_am_nr_status_pdu \<Rightarrow> (rd_exit \<times> rlc_am_nr_status_pdu) option" where
  "rlc_am_nr_read_status_pdu payload sz status =
     (if sz = am_size12bits then rlc_am_nr_read_status_pdu_12bit_sn payload status
      else rlc_am_nr_read_status_pdu_18bit_sn payload status)"

section \<open>Writing\<close>

definition write_nack_opt :: "rlc_status_nack \<Rightarrow> bytes" where
  "write_nack_opt nack =
     (if has_so nack
      then [ucast (drop_bit 8 (so_start nack)), ucast (so_start nack),
            ucast (drop_bit 8 (so_end nack)), ucast (so_end nack)] else [])
     @ (if has_nack_range nack then [nack_range nack] else [])"

definition write_nack_12 :: "rlc_status_nack \<Rightarrow> bool \<Rightarrow> bytes" where
  "write_nack_12 nack further =
     [ucast (drop_bit 4 (nack_sn nack) AND 0xff),
      ucast (push_bit 4 (nack_sn nack AND 0x0f))
        OR (if further then 0x08 else 0)
        OR (if has_so nack then 0x04 else 0)
        OR (if has_nack_range nack then 0x02 else 0)]
     @ write_nack_opt nack"

definition write_nack_18 :: "rlc_status_nack \<Rightarrow> bool \<Rightarrow> bytes" where
  "write_nack_18 nack further =
     [ucast (drop_bit 10 (nack_sn nack) AND 0xff),
      ucast (drop_bit 2 (nack_sn nack) AND 0xff),
      ucast (push_bit 6 (nack_sn nack) AND 0xC0)
        OR (if further then 0x20 else 0)
        OR (if has_so nack then 0x10 else 0)
        OR (if has_nack_range nack then 0x08 else 0)]
     @ write_nack_opt nack"

text \<open>The loop over the NACKs; E1 is set on every NACK but the last.\<close>

fun write_nacks :: "(rlc_status_nack \<Rightarrow> bool \<Rightarrow> bytes) \<Rightarrow> rlc_status_nack list \<Rightarrow> bytes" where
  "write_nacks w [] = []"
| "write_nacks w (n # ns) = w n (ns \<noteq> []) @ write_nacks w ns"

text \<open>
  The bytes written from \<^verbatim>\<open>pdu->msg\<close> on; \<^verbatim>\<open>pdu->N_bytes\<close> becomes their number.  The writers
  always return \<^verbatim>\<open>ISRRAN_SUCCESS\<close>.
\<close>

definition rlc_am_nr_write_status_pdu_12bit_sn :: "rlc_am_nr_status_pdu \<Rightarrow> bytes" where
  "rlc_am_nr_write_status_pdu_12bit_sn st =
     [0 OR ucast (drop_bit 8 (ack_sn st) AND 0x0f),
      ucast (ack_sn st AND 0xff),
      (if 0 < length (nacks st) then 0x80 else 0x00)]
     @ write_nacks write_nack_12 (nacks st)"

definition rlc_am_nr_write_status_pdu_18bit_sn :: "rlc_am_nr_status_pdu \<Rightarrow> bytes" where
  "rlc_am_nr_write_status_pdu_18bit_sn st =
     [0 OR ucast (drop_bit 14 (ack_sn st) AND 0x0F),
      ucast (drop_bit 6 (ack_sn st) AND 0xFF),
      ucast (push_bit 2 (ack_sn st) AND 0xFC) OR (if 0 < length (nacks st) then 0x02 else 0)]
     @ write_nacks write_nack_18 (nacks st)"

definition rlc_am_nr_write_status_pdu :: "rlc_am_nr_status_pdu \<Rightarrow> rlc_am_nr_sn_size \<Rightarrow> bytes" where
  "rlc_am_nr_write_status_pdu st sz =
     (if sz = am_size12bits then rlc_am_nr_write_status_pdu_12bit_sn st
      else rlc_am_nr_write_status_pdu_18bit_sn st)"

section \<open>Lengths\<close>

definition write_nack :: "rlc_am_nr_sn_size \<Rightarrow> rlc_status_nack \<Rightarrow> bool \<Rightarrow> bytes" where
  "write_nack sz = (if sz = am_size12bits then write_nack_12 else write_nack_18)"

lemma length_write_nack: "length (write_nack sz n further) = nack_size sz n"
  by (simp add: write_nack_def write_nack_12_def write_nack_18_def write_nack_opt_def
      nack_size_def sizeof_defs)

lemma length_write_nacks:
  "length (write_nacks (write_nack sz) ns) = sum_list (map (nack_size sz) ns)"
  by (induction ns) (simp_all add: length_write_nack)

lemma write_status_pdu_eq:
  "\<exists>b0 b1 b2. rlc_am_nr_write_status_pdu st sz = [b0, b1, b2] @ write_nacks (write_nack sz) (nacks st)"
  by (simp add: rlc_am_nr_write_status_pdu_def rlc_am_nr_write_status_pdu_12bit_sn_def
      rlc_am_nr_write_status_pdu_18bit_sn_def write_nack_def)

lemma length_write_status_pdu:
  "sized st \<Longrightarrow> length (rlc_am_nr_write_status_pdu st (st_sn_size st)) = packed_size st"
  using write_status_pdu_eq [of st "st_sn_size st"]
  by (auto simp: sized_def nacks_size_def length_write_nacks sizeof_header_ack_sn_def)

section \<open>Round trip\<close>

text \<open>NACKs that fit their fields; what is not transmitted has its default value.\<close>

definition valid_nack :: "rlc_am_nr_sn_size \<Rightarrow> rlc_status_nack \<Rightarrow> bool" where
  "valid_nack sz n \<longleftrightarrow>
     unat (nack_sn n) < (if sz = am_size12bits then 2 ^ 12 else 2 ^ 18) \<and>
     (\<not> has_so n \<longrightarrow> so_start n = 0 \<and> so_end n = so_end_of_sdu) \<and>
     (\<not> has_nack_range n \<longrightarrow> nack_range n = 0)"

lemma u16_bytes:
  fixes x :: u16
  shows "ucast (push_bit 8 (ucast (ucast (drop_bit 8 x) :: u8) :: u32)) OR ucast (ucast x :: u8) = x"
  by (rule bit_word_eqI) (auto simp: bit_simps)

lemma read_written_opt:
  assumes "(e2 \<noteq> 0) = has_so n" "(e3 \<noteq> 0) = has_nack_range n" "valid_nack sz n"
  shows "read_nack_opt (pre @ write_nack_opt n @ rest) (length pre) e2 e3
           (rlc_status_nack\<lparr>nack_sn := nack_sn n\<rparr>) =
         Some (n, length pre + length (write_nack_opt n))"
  using assms u16_bytes [of "so_start n"] u16_bytes [of "so_end n"]
    rd_append [of pre _ 4] rd_append [of pre _ 3] rd_append [of pre _ 2]
  by (cases n) (auto simp: read_nack_opt_def write_nack_opt_def read_nack_so_def
      read_nack_range_def valid_nack_def rlc_status_nack_def)

text \<open>
  The sequence numbers are cut into bytes and put together again; the low bits of the last
  byte hold the flags \<open>f\<close>.
\<close>

lemma sn_12_bytes:
  fixes x :: u32
  shows "push_bit 4 (ucast (ucast (drop_bit 4 x AND 0xff) :: u8) AND 0xff)
    OR drop_bit 4 (ucast (ucast (push_bit 4 (x AND 0x0f)) OR take_bit 4 f :: u8) AND 0xF0)
    = take_bit 12 x"
  by (intro bit_word_eqI) (auto simp: bit_simps field_simps_bits drop_masks not_less, metis le_add_diff_inverse not_le)

lemma mask_C0: "(0xC0 :: 'a::len word) = push_bit 6 (mask 2)"
  by (simp add: mask_eq_exp_minus_1 push_bit_eq_mult)

lemma sn_18_bytes:
  fixes x :: u32
  shows "push_bit 10 (ucast (ucast (drop_bit 10 x AND 0xff) :: u8) AND 0xff)
    OR push_bit 2 (ucast (ucast (drop_bit 2 x AND 0xff) :: u8) AND 0xff)
    OR drop_bit 6 (ucast (ucast (push_bit 6 x AND 0xC0) OR take_bit 6 f :: u8) AND 0xC0)
    = take_bit 18 x"
  unfolding mask_C0
proof (rule bit_word_eqI)
  fix n assume "n < LENGTH(32)"
  then show "bit (push_bit 10 (ucast (ucast (drop_bit 10 x AND 0xff) :: u8) AND 0xff)
      OR push_bit 2 (ucast (ucast (drop_bit 2 x AND 0xff) :: u8) AND 0xff)
      OR drop_bit 6 (ucast (ucast (push_bit 6 x AND push_bit 6 (mask 2)) OR take_bit 6 f :: u8)
          AND push_bit 6 (mask 2)) :: u32) n = bit (take_bit 18 x) n"
    by (cases "2 \<le> n"; cases "10 \<le> n") (auto simp: bit_simps field_simps_bits Suc_Suc_minus_2)
qed

lemma flags_12:
  fixes x :: u32
  shows "k < 4 \<Longrightarrow> bit (ucast (push_bit 4 (x AND 0x0f)) OR f :: u8) k = bit f k"
  by (auto simp: bit_simps field_simps_bits)

lemma flags_18:
  fixes x :: u32
  shows "k < 6 \<Longrightarrow> bit (ucast (push_bit 6 x AND 0xC0) OR f :: u8) k = bit f k"
  unfolding mask_C0 by (auto simp: bit_simps field_simps_bits)

text \<open>A NACK read back is the NACK written, E1 is set exactly when more follow.\<close>

lemma read_nack_12_step:
  "\<lbrakk>rd payload ptr = Some b0; rd payload (ptr + 1) = Some b1; b1 AND 1 = 0;
    push_bit 4 (ucast b0 AND 0xff) OR drop_bit 4 (ucast b1 AND 0xF0) = sn;
    read_nack_opt payload (ptr + 2) (b1 AND 4) (b1 AND 2) (rlc_status_nack\<lparr>nack_sn := sn\<rparr>)
      = Some (n, ptr')\<rbrakk> \<Longrightarrow>
   read_nack_12 payload ptr = Some (Some (n, b1 AND 8, ptr'))"
  unfolding read_nack_12_def by simp

lemma read_nack_18_step:
  "\<lbrakk>rd payload ptr = Some b0; rd payload (ptr + 1) = Some b1; rd payload (ptr + 2) = Some b2;
    b2 AND 7 = 0;
    push_bit 10 (ucast b0 AND 0xff) OR push_bit 2 (ucast b1 AND 0xff)
      OR drop_bit 6 (ucast b2 AND 0xC0) = sn;
    read_nack_opt payload (ptr + 3) (b2 AND 16) (b2 AND 8) (rlc_status_nack\<lparr>nack_sn := sn\<rparr>)
      = Some (n, ptr')\<rbrakk> \<Longrightarrow>
   read_nack_18 payload ptr = Some (Some (n, b2 AND 32, ptr'))"
  unfolding read_nack_18_def by simp

lemma read_written_nack_12:
  assumes "valid_nack am_size12bits n"
  shows "\<exists>e1. read_nack_12 (pre @ write_nack_12 n further @ rest) (length pre) =
    Some (Some (n, e1, length pre + nack_size am_size12bits n)) \<and> (e1 \<noteq> 0) = further"
proof -
  define f :: u8 where "f = (if further then 0x08 else 0) OR (if has_so n then 0x04 else 0)
    OR (if has_nack_range n then 0x02 else 0)"
  define b1 :: u8 where "b1 = ucast (push_bit 4 (nack_sn n AND 0x0f)) OR f"
  let ?p = "pre @ [ucast (drop_bit 4 (nack_sn n) AND 0xff), b1]"
  have f: "take_bit 4 f = f" "bit f (Suc 0) = has_nack_range n" "bit f 2 = has_so n"
    "bit f 3 = further" "f AND 1 = 0" by (simp_all add: f_def)
  have b: "bit b1 k = bit f k" if "k < 4" for k using that unfolding b1_def by (rule flags_12)
  have sn: "push_bit 4 (ucast (ucast (drop_bit 4 (nack_sn n) AND 0xff) :: u8) AND 0xff)
      OR drop_bit 4 (ucast b1 AND 0xF0) = nack_sn n"
    using sn_12_bytes [of "nack_sn n" f] assms
    by (simp add: b1_def f take_bit_self valid_nack_def)
  have eq: "pre @ write_nack_12 n further @ rest = ?p @ write_nack_opt n @ rest"
    by (simp add: write_nack_12_def b1_def f_def or.assoc)
  have opt: "read_nack_opt (?p @ write_nack_opt n @ rest) (length ?p) (b1 AND 4) (b1 AND 2)
      (rlc_status_nack\<lparr>nack_sn := nack_sn n\<rparr>) = Some (n, length ?p + length (write_nack_opt n))"
    by (rule read_written_opt [OF _ _ assms]) (simp_all add: and_flag b f)
  have "take_bit 1 b1 = take_bit 1 f"
    by (rule bit_word_eqI) (auto simp: bit_take_bit_iff b)
  then have "b1 AND 1 = 0" using f(5) by (simp only: and_mask_1)
  then have "read_nack_12 (pre @ write_nack_12 n further @ rest) (length pre) =
      Some (Some (n, b1 AND 8, length ?p + length (write_nack_opt n)))"
    unfolding eq by (intro read_nack_12_step [OF _ _ _ sn]) (use opt in simp_all)
  then show ?thesis
    by (simp add: and_flag b f nack_size_def sizeof_defs write_nack_opt_def)
qed

lemma read_written_nack_18:
  assumes "valid_nack am_size18bits n"
  shows "\<exists>e1. read_nack_18 (pre @ write_nack_18 n further @ rest) (length pre) =
    Some (Some (n, e1, length pre + nack_size am_size18bits n)) \<and> (e1 \<noteq> 0) = further"
proof -
  define f :: u8 where "f = (if further then 0x20 else 0) OR (if has_so n then 0x10 else 0)
    OR (if has_nack_range n then 0x08 else 0)"
  define b2 :: u8 where "b2 = ucast (push_bit 6 (nack_sn n) AND 0xC0) OR f"
  let ?p = "pre @ [ucast (drop_bit 10 (nack_sn n) AND 0xff),
    ucast (drop_bit 2 (nack_sn n) AND 0xff), b2]"
  have f: "take_bit 6 f = f" "bit f 3 = has_nack_range n" "bit f 4 = has_so n"
    "bit f 5 = further" "take_bit 3 f = 0" by (simp_all add: f_def)
  have b: "bit b2 k = bit f k" if "k < 6" for k using that unfolding b2_def by (rule flags_18)
  have sn: "push_bit 10 (ucast (ucast (drop_bit 10 (nack_sn n) AND 0xff) :: u8) AND 0xff)
      OR push_bit 2 (ucast (ucast (drop_bit 2 (nack_sn n) AND 0xff) :: u8) AND 0xff)
      OR drop_bit 6 (ucast b2 AND 0xC0) = nack_sn n"
    using sn_18_bytes [of "nack_sn n" f] assms
    by (simp add: b2_def f take_bit_self valid_nack_def)
  have eq: "pre @ write_nack_18 n further @ rest = ?p @ write_nack_opt n @ rest"
    by (simp add: write_nack_18_def b2_def f_def or.assoc)
  have opt: "read_nack_opt (?p @ write_nack_opt n @ rest) (length ?p) (b2 AND 16) (b2 AND 8)
      (rlc_status_nack\<lparr>nack_sn := nack_sn n\<rparr>) = Some (n, length ?p + length (write_nack_opt n))"
    by (rule read_written_opt [OF _ _ assms]) (simp_all add: and_flag b f)
  have "take_bit 3 b2 = take_bit 3 f"
    by (rule bit_word_eqI) (auto simp: bit_take_bit_iff b)
  then have "b2 AND 7 = 0" by (simp add: and_mask_7 f)
  then have "read_nack_18 (pre @ write_nack_18 n further @ rest) (length pre) =
      Some (Some (n, b2 AND 32, length ?p + length (write_nack_opt n)))"
    unfolding eq by (intro read_nack_18_step [OF _ _ _ _ sn]) (use opt rd_append [of pre _ 2] in \<open>simp_all add: numeral_3_eq_3\<close>)
  then show ?thesis
    by (simp add: and_flag b f nack_size_def sizeof_defs write_nack_opt_def)
qed

lemma read_written_nack:
  "valid_nack sz n \<Longrightarrow> \<exists>e1. read_nack sz (pre @ write_nack sz n further @ rest) (length pre) =
    Some (Some (n, e1, length pre + nack_size sz n)) \<and> (e1 \<noteq> 0) = further"
  using read_written_nack_12 read_written_nack_18
  by (cases "sz = am_size12bits") (auto simp: read_nack_def write_nack_def nack_size_def valid_nack_def)

lemma read_written_nacks:
  assumes "\<forall>n \<in> set ns. valid_nack sz n" "(e1 \<noteq> 0) = (ns \<noteq> [])"
  shows "read_nacks sz (pre @ write_nacks (write_nack sz) ns @ rest) (length pre) e1 st =
    Some (Parsed, foldl (\<lambda>s n. push_nack n s) st ns)"
  using assms
proof (induction ns arbitrary: pre e1 st)
  case Nil
  then show ?case by (simp add: read_nacks.simps)
next
  case (Cons n ns)
  let ?w = "write_nack sz n (ns \<noteq> [])"
  let ?all = "pre @ ?w @ write_nacks (write_nack sz) ns @ rest"
  have w: "0 < length ?w" by (simp add: length_write_nack nack_size_def sizeof_defs)
  obtain e1' where r: "read_nack sz ?all (length pre) =
      Some (Some (n, e1', length pre + nack_size sz n))" "(e1' \<noteq> 0) = (ns \<noteq> [])"
    using read_written_nack [of sz n pre "ns \<noteq> []" "write_nacks (write_nack sz) ns @ rest"] Cons(2) by auto
  have "read_nacks sz ((pre @ ?w) @ write_nacks (write_nack sz) ns @ rest) (length (pre @ ?w)) e1'
      (push_nack n st) = Some (Parsed, foldl (\<lambda>s n. push_nack n s) (push_nack n st) ns)"
    using Cons(2) r(2) by (intro Cons(1)) simp_all
  then show ?case
    using r(1) w Cons(3) by (simp add: read_nacks.simps [of sz ?all] length_write_nack)
qed

lemma canonical_prefix: "canonical st (xs @ ys) \<Longrightarrow> canonical st xs"
  by (induction ys rule: rev_induct) (auto simp: canonical_append simp flip: append_assoc)

text \<open>Pushing NACKs that do not merge appends them.\<close>

lemma foldl_push_canonical:
  "canonical st (nacks st @ ns) \<Longrightarrow>
     foldl (\<lambda>s n. push_nack n s) st ns =
     st\<lparr>nacks := nacks st @ ns,
        packed_size := packed_size st + sum_list (map (nack_size (st_sn_size st)) ns)\<rparr>"
proof (induction ns arbitrary: st)
  case (Cons n ns)
  have "canonical st ((nacks st @ [n]) @ ns)" using Cons(2) by simp
  then have c: "canonical st (nacks st @ [n])" by (rule canonical_prefix)
  have p: "push_nack n st = st\<lparr>nacks := nacks st @ [n],
      packed_size := packed_size st + nack_size (st_sn_size st) n\<rparr>"
    using c by (auto simp: push_nack_def canonical_append)
  have "canonical (push_nack n st) (nacks (push_nack n st) @ ns)"
    using Cons(2) canonical_st [of "push_nack n st" st] by (simp add: p)
  from Cons(1) [OF this] show ?case by (simp add: p add.assoc)
qed simp

text \<open>Status PDUs whose numbers fit their fields.\<close>

definition valid_status :: "rlc_am_nr_status_pdu \<Rightarrow> bool" where
  "valid_status st \<longleftrightarrow>
     st_sn_size st \<noteq> am_nulltype \<and> cpt st = 0 \<and> sized st \<and>
     unat (ack_sn st) < (if st_sn_size st = am_size12bits then 2 ^ 12 else 2 ^ 18) \<and>
     (\<forall>n \<in> set (nacks st). valid_nack (st_sn_size st) n)"

lemma ack_12_bytes:
  fixes x :: u32
  shows "push_bit 8 (ucast (ucast (drop_bit 8 x AND 0x0f) :: u8) AND 0x0F)
      OR (ucast (ucast (x AND 0xff) :: u8) AND 0xFF) = take_bit 12 x"
  by (rule bit_word_eqI) (auto simp: bit_simps field_simps_bits not_less)

lemma ack_18_bytes:
  fixes x :: u32
  shows "push_bit 14 (ucast (ucast (drop_bit 14 x AND 0x0F) :: u8) AND 0x0F)
      OR push_bit 6 (ucast (ucast (drop_bit 6 x AND 0xFF) :: u8) AND 0xFF)
      OR drop_bit 2 (ucast (ucast (push_bit 2 x AND 0xFC) OR take_bit 2 f :: u8) AND 0xFC)
      = take_bit 18 x"
proof -
  have m: "(0xFC :: 'a::len word) = push_bit 2 (mask 6)"
    by (simp add: mask_eq_exp_minus_1 push_bit_eq_mult)
  show ?thesis
    unfolding m
  proof (rule bit_word_eqI)
    fix n assume "n < LENGTH(32)"
    then show "bit (push_bit 14 (ucast (ucast (drop_bit 14 x AND 0x0F) :: u8) AND 0x0F)
        OR push_bit 6 (ucast (ucast (drop_bit 6 x AND 0xFF) :: u8) AND 0xFF)
        OR drop_bit 2 (ucast (ucast (push_bit 2 x AND push_bit 2 (mask 6)) OR take_bit 2 f :: u8)
            AND push_bit 2 (mask 6)) :: u32) n = bit (take_bit 18 x) n"
      by (cases "6 \<le> n"; cases "14 \<le> n") (auto simp: bit_simps field_simps_bits)
  qed
qed

text \<open>The fixed part of the header is read back, then the NACKs are pushed one by one.\<close>

lemma read_written_12:
  assumes "valid_status st" "st_sn_size st = am_size12bits"
  shows "rlc_am_nr_read_status_pdu_12bit_sn (rlc_am_nr_write_status_pdu_12bit_sn st @ rest) st0 =
    Some (Parsed, foldl (\<lambda>s n. push_nack n s) ((status_reset st0)\<lparr>ack_sn := ack_sn st\<rparr>) (nacks st))"
proof -
  let ?b0 = "0 OR ucast (drop_bit 8 (ack_sn st) AND 0x0f) :: u8"
  let ?b1 = "ucast (ack_sn st AND 0xff) :: u8"
  let ?e = "if 0 < length (nacks st) then 0x80 else 0x00 :: u8"
  let ?all = "[?b0, ?b1, ?e] @ write_nacks (write_nack am_size12bits) (nacks st) @ rest"
  have eq: "rlc_am_nr_write_status_pdu_12bit_sn st @ rest = ?all"
    by (simp add: rlc_am_nr_write_status_pdu_12bit_sn_def write_nack_def)
  have r: "rd ?all 0 = Some ?b0" "rd ?all 1 = Some ?b1" "rd ?all 2 = Some ?e" by simp_all
  have c: "ucast (drop_bit 4 ?b0 AND 0x07) = (0 :: u32)"
    by (rule bit_word_eqI) (auto simp: bit_simps field_simps_bits)
  have a: "push_bit 8 (ucast ?b0 AND 0x0F) OR (ucast ?b1 AND 0xFF) = ack_sn st"
    using ack_12_bytes [of "ack_sn st"] assms
    by (simp add: take_bit_self valid_status_def del: push_bit_and)
  have n: "read_nacks am_size12bits ?all 3 (?e AND 0x80) s =
      Some (Parsed, foldl (\<lambda>s n. push_nack n s) s (nacks st))" for s
    using read_written_nacks [of "nacks st" am_size12bits "?e AND 0x80" "[?b0, ?b1, ?e]" rest s] assms
    by (simp add: valid_status_def numeral_3_eq_3)
  have s: "(status_reset st0)\<lparr>cpt := 0, ack_sn := x\<rparr> = (status_reset st0)\<lparr>ack_sn := x\<rparr>" for x
    by (simp add: status_reset_def)
  have cp: "cpt ((status_reset st0)\<lparr>cpt := 0\<rparr>) = 0" by simp
  have z: "?e AND 0x7f = 0" by simp
  show ?thesis
    unfolding eq rlc_am_nr_read_status_pdu_12bit_sn_def r Let_def c bind.bind_lunit
    using n a s z cp by (simp only: if_False simp_thms if_True)
qed

lemma read_written_18:
  assumes "valid_status st" "st_sn_size st = am_size18bits"
  shows "rlc_am_nr_read_status_pdu_18bit_sn (rlc_am_nr_write_status_pdu_18bit_sn st @ rest) st0 =
    Some (Parsed, foldl (\<lambda>s n. push_nack n s) ((status_reset st0)\<lparr>ack_sn := ack_sn st\<rparr>) (nacks st))"
proof -
  let ?b0 = "0 OR ucast (drop_bit 14 (ack_sn st) AND 0x0F) :: u8"
  let ?b1 = "ucast (drop_bit 6 (ack_sn st) AND 0xFF) :: u8"
  let ?f = "if 0 < length (nacks st) then 0x02 else 0 :: u8"
  let ?b2 = "ucast (push_bit 2 (ack_sn st) AND 0xFC) OR ?f :: u8"
  let ?all = "[?b0, ?b1, ?b2] @ write_nacks (write_nack am_size18bits) (nacks st) @ rest"
  have f: "take_bit 2 ?f = ?f" by simp
  have m: "(0xFC :: 'a::len word) = push_bit 2 (mask 6)"
    by (simp add: mask_eq_exp_minus_1 push_bit_eq_mult)
  have lo: "bit ?b2 k = bit ?f k" if "k < 2" for k
    using that unfolding m by (auto simp: bit_simps field_simps_bits)
  have eq: "rlc_am_nr_write_status_pdu_18bit_sn st @ rest = ?all"
    by (simp add: rlc_am_nr_write_status_pdu_18bit_sn_def write_nack_def)
  have r: "rd ?all 0 = Some ?b0" "rd ?all 1 = Some ?b1" "rd ?all 2 = Some ?b2" by simp_all
  have c: "ucast (drop_bit 4 ?b0 AND 0x07) = (0 :: u32)"
    by (rule bit_word_eqI) (auto simp: bit_simps field_simps_bits)
  have a: "push_bit 14 (ucast ?b0 AND 0x0F) OR push_bit 6 (ucast ?b1 AND 0xFF)
      OR drop_bit 2 (ucast ?b2 AND 0xFC) = ack_sn st"
    using ack_18_bytes [of "ack_sn st" ?f, unfolded f] assms
    by (simp only: take_bit_self valid_status_def or.left_neutral rlc_am_nr_sn_size.distinct if_False simp_thms)
  have e1: "(?b2 AND 0x02 \<noteq> 0) = (nacks st \<noteq> [])" using lo [of 1] by (simp add: and_flag)
  have "take_bit 1 ?b2 = take_bit 1 ?f"
    by (rule take_bit_eqI_bits, rule lo) simp
  moreover have "?f AND 1 = 0" by simp
  ultimately have z: "?b2 AND 0x01 = 0" by (simp only: and_mask_1)
  have n: "read_nacks am_size18bits ?all 3 (?b2 AND 0x02) s =
      Some (Parsed, foldl (\<lambda>s n. push_nack n s) s (nacks st))" for s
    using read_written_nacks [of "nacks st" am_size18bits "?b2 AND 0x02" "[?b0, ?b1, ?b2]" rest s] assms e1
    by (simp add: valid_status_def numeral_3_eq_3)
  have s: "(status_reset st0)\<lparr>cpt := 0, ack_sn := x\<rparr> = (status_reset st0)\<lparr>ack_sn := x\<rparr>" for x
    by (simp add: status_reset_def)
  have cp: "cpt ((status_reset st0)\<lparr>cpt := 0\<rparr>) = 0" by simp
  show ?thesis
    unfolding eq rlc_am_nr_read_status_pdu_18bit_sn_def r Let_def c bind.bind_lunit
    using n a s z cp by (simp only: if_False simp_thms if_True)
qed

text \<open>A status PDU read back is the one that was written.\<close>

lemma read_written_status:
  assumes "valid_status st" "canonical st (nacks st)"
    "st_sn_size st0 = st_sn_size st" "mod_nr st0 = mod_nr st"
  shows "rlc_am_nr_read_status_pdu (rlc_am_nr_write_status_pdu st (st_sn_size st) @ rest)
           (st_sn_size st) st0 = Some (Parsed, st)"
proof -
  let ?s = "(status_reset st0)\<lparr>ack_sn := ack_sn st\<rparr>"
  have "canonical ?s (nacks ?s @ nacks st)"
    using assms(2,4) canonical_st [of ?s st] by (simp add: status_reset_def)
  from foldl_push_canonical [OF this]
  have "foldl (\<lambda>s n. push_nack n s) ?s (nacks st) = st"
    using assms(1,3,4) by (cases st; cases st0)
      (auto simp: status_reset_def valid_status_def sized_def nacks_size_def)
  moreover have "st_sn_size st = am_size12bits \<or> st_sn_size st = am_size18bits"
    using assms(1) by (cases "st_sn_size st") (auto simp: valid_status_def)
  ultimately show ?thesis
    using read_written_12 [OF assms(1)] read_written_18 [OF assms(1)]
    by (auto simp: rlc_am_nr_read_status_pdu_def rlc_am_nr_write_status_pdu_def)
qed

section \<open>Building, trimming and sending a status PDU\<close>

lemma valid_nack_push:
  assumes "\<forall>n \<in> set (nacks st). valid_nack sz n" "valid_nack sz nack"
  shows "\<forall>n \<in> set (nacks (push_nack nack st)). valid_nack sz n"
proof (cases "nacks st = []")
  case True
  then show ?thesis using assms by (simp add: push_nack_def)
next
  case False
  then have l: "valid_nack sz (last (nacks st))" using assms(1) by simp
  then have "valid_nack sz (expand_so (expand_range (last (nacks st)) nack) nack)"
    using assms(2) by (auto simp: valid_nack_def expand_so_def expand_range_def)
  then show ?thesis
    using assms False by (auto simp: push_nack_def Let_def dest: in_set_butlastD)
qed

lemma push_all:
  assumes "sized st" "canonical st (nacks st)" "\<forall>n \<in> set (nacks st). valid_nack sz n"
    "\<forall>n \<in> set ns. valid_nack sz n"
  shows "let st' = foldl (\<lambda>s n. push_nack n s) st ns in
    sized st' \<and> canonical st' (nacks st') \<and> (\<forall>n \<in> set (nacks st'). valid_nack sz n) \<and>
    st_sn_size st' = st_sn_size st \<and> mod_nr st' = mod_nr st \<and> cpt st' = cpt st \<and> ack_sn st' = ack_sn st"
  using assms
proof (induction ns arbitrary: st)
  case (Cons n ns)
  have v: "valid_nack sz n" "\<forall>n \<in> set ns. valid_nack sz n" using Cons.prems(4) by simp_all
  show ?case
    using Cons.IH [OF sized_push [OF Cons.prems(1)] canonical_push [OF Cons.prems(2)]
        valid_nack_push [OF Cons.prems(3) v(1)] v(2)]
    by (simp only: foldl.simps push_nack_frame)
qed simp

lemma trim_loop_cpt: "cpt (trim_loop m st) = cpt st"
proof (induction m st rule: trim_loop.induct)
  case (1 m st)
  have "cpt (pop_nack st) = cpt st" by (simp add: pop_nack_def)
  then show ?case
    using 1 trim_loop_go [of st m] trim_loop_stop [of st m] by metis
qed

lemma trim_valid:
  assumes "valid_status st" "canonical st (nacks st)" "sizeof_header_ack_sn \<le> m" "trim m st = (ok, st')"
  shows "valid_status st'" "canonical st' (nacks st')" "packed_size st' \<le> m" "ok"
    "st_sn_size st' = st_sn_size st" "mod_nr st' = mod_nr st"
proof -
  have sz: "sized st" using assms(1) by (simp add: valid_status_def)
  have t: "ok" "st' = (if packed_size st \<le> m then st else trim_loop m st)"
    using assms(3,4) by (auto simp: trim_def split: if_splits)
  note L = trim_loop_spec [OF sz assms(3)]
  obtain removed where r: "nacks st = nacks (trim_loop m st) @ removed"
    "ack_sn (trim_loop m st) = (if removed = [] then ack_sn st else nack_sn (hd removed))"
    using L by blast
  have ns: "\<forall>n \<in> set (nacks st). valid_nack (st_sn_size st) n"
    using assms(1) by (simp add: valid_status_def)
  have "valid_nack (st_sn_size st) (hd removed)" if "removed \<noteq> []"
    using ns r(1) that by (metis Un_iff hd_in_set set_append)
  then have "valid_status (trim_loop m st)"
    using assms(1) L r ns by (auto simp: valid_status_def valid_nack_def trim_loop_cpt)
  moreover have "canonical (trim_loop m st) (nacks (trim_loop m st))"
    using canonical_prefix [of st "nacks (trim_loop m st)" removed] assms(2) r(1) L
      canonical_st [of "trim_loop m st" st] by simp
  ultimately show "valid_status st'" "canonical st' (nacks st')" "packed_size st' \<le> m" "ok"
    "st_sn_size st' = st_sn_size st" "mod_nr st' = mod_nr st"
    using assms(1,2) L t by auto
qed

text \<open>
  C8. A status PDU for an acknowledged sequence number and any NACKs in range, collected with
  \<open>push_nack\<close> and trimmed to the space the MAC grants, is written in no more than that space, and
  the reader gets back exactly the object that was written, for both sequence number sizes.
\<close>

theorem am_status_round_trip:
  assumes "rlc_am_nr_status_pdu sz = Some st0"
    and "unat ack < (if sz = am_size12bits then 2 ^ 12 else 2 ^ 18)" "\<forall>n \<in> set ns. valid_nack sz n"
    and "sizeof_header_ack_sn \<le> m"
    and "trim m (foldl (\<lambda>s n. push_nack n s) (st0\<lparr>ack_sn := ack\<rparr>) ns) = (ok, st)"
  shows "ok \<and> length (rlc_am_nr_write_status_pdu st sz) \<le> m \<and>
    rlc_am_nr_read_status_pdu (rlc_am_nr_write_status_pdu st sz @ rest) sz st0 = Some (Parsed, st)"
proof -
  let ?s = "st0\<lparr>ack_sn := ack\<rparr>"
  define st1 where "st1 = foldl (\<lambda>s n. push_nack n s) ?s ns"
  have s0: "st_sn_size st0 = sz" "nacks st0 = []" "sized st0" "cpt st0 = 0" "sz \<noteq> am_nulltype"
    using assms(1) by (cases sz; auto simp: rlc_am_nr_status_pdu_def sized_def nacks_size_def)+
  have "let st' = st1 in sized st' \<and> canonical st' (nacks st') \<and> (\<forall>n \<in> set (nacks st'). valid_nack sz n) \<and>
    st_sn_size st' = st_sn_size ?s \<and> mod_nr st' = mod_nr ?s \<and> cpt st' = cpt ?s \<and> ack_sn st' = ack_sn ?s"
    unfolding st1_def using s0 assms(3) by (intro push_all) (simp_all add: sized_def nacks_size_def)
  then have v: "valid_status st1" "canonical st1 (nacks st1)" "st_sn_size st1 = sz" "mod_nr st1 = mod_nr st0"
    using assms(2) s0 by (simp_all add: valid_status_def)
  note t = trim_valid [OF v(1,2) assms(4) assms(5) [folded st1_def]]
  have sz: "sized st" using t(1) by (simp add: valid_status_def)
  show ?thesis
    using read_written_status [OF t(1,2), of st0 rest] length_write_status_pdu [OF sz] t v s0 by simp
qed

definition example_nacks :: "rlc_status_nack list" where
  "example_nacks = [rlc_status_nack\<lparr>nack_sn := 5\<rparr>, rlc_status_nack\<lparr>nack_sn := 6\<rparr>,
     rlc_status_nack\<lparr>nack_sn := 9, has_so := True, so_start := 3, so_end := 8\<rparr>]"

definition example_status :: rlc_am_nr_status_pdu where
  "example_status = \<lparr>st_sn_size = am_size12bits, mod_nr = 4096, nacks = [], packed_size = 3, cpt = 0,
     ack_sn = INVALID_RLC_SN\<rparr>"

lemma example_status: "rlc_am_nr_status_pdu am_size12bits = Some example_status"
  by (simp add: rlc_am_nr_status_pdu_def example_status_def sizeof_header_ack_sn_def)

theorem am_status_round_trip_witness:
  "\<exists>st. trim 8 (foldl (\<lambda>s n. push_nack n s) (example_status\<lparr>ack_sn := 12\<rparr>) example_nacks) = (True, st) \<and>
    length (rlc_am_nr_write_status_pdu st am_size12bits) \<le> 8 \<and>
    rlc_am_nr_read_status_pdu (rlc_am_nr_write_status_pdu st am_size12bits @ [7]) am_size12bits example_status
      = Some (Parsed, st)"
proof -
  have v: "\<forall>n \<in> set example_nacks. valid_nack am_size12bits n"
    by (simp add: example_nacks_def valid_nack_def rlc_status_nack_def)
  obtain ok st where t: "trim 8 (foldl (\<lambda>s n. push_nack n s) (example_status\<lparr>ack_sn := 12\<rparr>) example_nacks) = (ok, st)"
    by fastforce
  show ?thesis
    using am_status_round_trip [OF example_status _ v _ t, of "[7]"] t by (simp add: sizeof_header_ack_sn_def)
qed

lemma push_nack_counts:
  assumes "\<forall>n \<in> set (nacks st). 0 < nack_count n" "0 < nack_count nack"
    "sum_list (map nack_count (nacks st)) + nack_count nack < 256"
  shows "sum_list (map nack_count (nacks (push_nack nack st))) = sum_list (map nack_count (nacks st)) + nack_count nack"
    and "\<forall>n \<in> set (nacks (push_nack nack st)). 0 < nack_count n"
    and "nacks st \<noteq> [] \<longrightarrow> 0 < nack_count (last (nacks st)) \<and> nack_count (last (nacks st)) + nack_count nack < 256"
proof -
  have l: "nack_count (last (nacks st)) \<le> sum_list (map nack_count (nacks st))" if "nacks st \<noteq> []"
    using that by (intro member_le_sum_list) simp_all
  then show 3: "nacks st \<noteq> [] \<longrightarrow> 0 < nack_count (last (nacks st)) \<and> nack_count (last (nacks st)) + nack_count nack < 256"
    using assms by fastforce
  have e: "nack_count (expand_so (expand_range (last (nacks st)) nack) nack) = nack_count (last (nacks st)) + nack_count nack"
    if "nacks st \<noteq> []" "is_continuous_sequence st (last (nacks st)) nack"
    using expand_prev(3) [OF that(2)] 3 that(1) by blast
  show "sum_list (map nack_count (nacks (push_nack nack st))) = sum_list (map nack_count (nacks st)) + nack_count nack"
    using e sum_list_butlast_last [of "nacks st" nack_count] by (auto simp: push_nack_def Let_def)
  show "\<forall>n \<in> set (nacks (push_nack nack st)). 0 < nack_count n"
    using assms(1,2) e by (auto simp: push_nack_def Let_def dest: in_set_butlastD)
qed

text \<open>Merging keeps what is reported, step by step.\<close>

lemma foldl_push_missing:
  assumes "am_modulus (mod_nr st)" "\<forall>n \<in> set (nacks st). 0 < nack_count n" "\<forall>n \<in> set ns. 0 < nack_count n"
    "sum_list (map nack_count (nacks st)) + sum_list (map nack_count ns) < 256"
  shows "st_missing (foldl (\<lambda>s n. push_nack n s) st ns) = st_missing st @ concat (map (missing (mod_nr st)) ns)"
  using assms
proof (induction ns arbitrary: st)
  case (Cons n ns)
  have c: "0 < nack_count n" "sum_list (map nack_count (nacks st)) + nack_count n < 256"
    using Cons.prems by auto
  note p = push_nack_counts [OF Cons.prems(2) c]
  have "st_missing (push_nack n st) = st_missing st @ missing (mod_nr st) n"
    by (rule push_nack_missing [OF Cons.prems(1) c(1) p(3)])
  then show ?case using Cons.IH [of "push_nack n st"] Cons.prems p by simp
qed simp

text \<open>
  C9. Merging NACKs loses nothing: after any sequence of \<open>push_nack\<close>, the SDUs and byte ranges the
  list of NACKs reports as missing are, in order, exactly those of the pushed NACKs, as long as
  fewer than 256 SDUs are reported in all.
\<close>

theorem am_push_nack_reports_all:
  assumes "rlc_am_nr_status_pdu sz = Some st"
    and "\<forall>n \<in> set ns. 0 < nack_count n" "sum_list (map nack_count ns) < 256"
  shows "st_missing (foldl (\<lambda>s n. push_nack n s) st ns) = concat (map (missing (mod_nr st)) ns)"
proof -
  have m: "am_modulus (mod_nr st)" "nacks st = []"
    using assms(1) by (cases sz; auto simp: rlc_am_nr_status_pdu_def am_modulus_def)+
  then show ?thesis using foldl_push_missing [of st ns] assms(2,3) by (simp add: st_missing_def)
qed

theorem am_push_nack_reports_all_witness:
  "st_missing (foldl (\<lambda>s n. push_nack n s) example_status example_nacks) =
     [(5, 0, 0xFFFF), (6, 0, 0xFFFF), (9, 3, 8)]"
proof -
  have "\<forall>n \<in> set example_nacks. 0 < nack_count n" "sum_list (map nack_count example_nacks) < 256"
    by (simp_all add: example_nacks_def nack_count_def rlc_status_nack_def)
  from am_push_nack_reports_all [OF example_status this] show ?thesis
    by (simp add: example_nacks_def example_status_def missing_def missing_sdu_def nack_count_def
        first_byte_def last_byte_def rlc_status_nack_def so_end_of_sdu_def)
qed

text \<open>
  C32. The number of SDUs a NACK covers is kept in eight bits and merging does not check it: two
  adjacent NACKs that together cover 256 SDUs become one NACK whose range is 0.
\<close>

theorem am_push_nack_range_wraps:
  assumes "is_continuous_sequence st prev nack" "has_nack_range prev" "has_nack_range nack"
    "unat (nack_range prev) + unat (nack_range nack) = 256" "nacks st = [prev]"
  shows "\<exists>n. nacks (push_nack nack st) = [n] \<and> nack_sn n = nack_sn prev \<and> has_nack_range n \<and> nack_range n = 0 \<and>
    st_missing (push_nack nack st) = []"
proof -
  have "nack_range prev + nack_range nack = 0"
    using assms(4) by (simp add: word_unat_eq_iff unat_word_ariths)
  then show ?thesis
    using assms by (auto simp: push_nack_def Let_def expand_range_def expand_so_def st_missing_def missing_def
        nack_count_def)
qed

theorem am_push_nack_range_wraps_witness:
  "let prev = rlc_status_nack\<lparr>nack_sn := 10, has_nack_range := True, nack_range := 200\<rparr>;
       nack = rlc_status_nack\<lparr>nack_sn := 210, has_nack_range := True, nack_range := 56\<rparr>
   in is_continuous_sequence example_status prev nack \<and>
      st_missing (push_nack nack (example_status\<lparr>nacks := [prev]\<rparr>)) = []"
proof -
  let ?prev = "rlc_status_nack\<lparr>nack_sn := 10, has_nack_range := True, nack_range := 200\<rparr>"
  let ?nack = "rlc_status_nack\<lparr>nack_sn := 210, has_nack_range := True, nack_range := 56\<rparr>"
  have c: "is_continuous_sequence example_status ?prev ?nack"
    "is_continuous_sequence (example_status\<lparr>nacks := [?prev]\<rparr>) ?prev ?nack"
    by (simp_all add: is_continuous_sequence_def example_status_def rlc_status_nack_def)
  then show ?thesis using am_push_nack_range_wraps [OF c(2)] by auto
qed

text \<open>
  C33. The readers check that a NACK begins inside the PDU, not that it ends there: a status PDU
  that announces a NACK and stops one byte into it is read past its end, whatever the bytes.
\<close>

theorem am_status_reader_overruns:
  assumes "b0 AND 0xF0 = 0"
  shows "rlc_am_nr_read_status_pdu [b0, b1, 0x80, b3] am_size12bits status = None \<and>
    rlc_am_nr_read_status_pdu [b0, b1, 0x02, b3] am_size18bits status = None"
proof -
  have "drop_bit 4 b0 AND 7 = 0"
  proof (rule bit_word_eqI)
    fix n assume "n < LENGTH(8)"
    have "drop_bit 4 b0 AND 7 = drop_bit 4 (b0 AND 0xF0) AND 7"
      by (rule bit_word_eqI) (auto simp: bit_simps field_simps_bits drop_bit_and)
    then show "bit (drop_bit 4 b0 AND 7) n = bit 0 n" using assms by simp
  qed
  then show ?thesis
    by (simp_all add: rlc_am_nr_read_status_pdu_def rlc_am_nr_read_status_pdu_12bit_sn_def
      rlc_am_nr_read_status_pdu_18bit_sn_def status_reset_def read_nacks.simps read_nack_def
      read_nack_12_def read_nack_18_def Let_def)
qed

theorem am_status_reader_overruns_witness:
  "rlc_am_nr_read_status_pdu [0x05, 0x10, 0x80, 0xff] am_size12bits example_status = None"
  using am_status_reader_overruns [of "0x05" "0x10" "0xff" example_status] by simp

end
