(* ===== verification/CircularMap.thy ===== *)
theory CircularMap
  imports Prelude
begin

text \<open>
  \<^verbatim>\<open>adt/circular_map.h\<close>: a map from unsigned keys to objects in an array of \<open>N\<close> slots; key \<open>k\<close>
  lives in slot \<open>k mod N\<close>, so two keys that agree modulo \<open>N\<close> exclude each other.  The window of
  \<^verbatim>\<open>rlc/rlc_am_data_structs.h\<close> (\<^verbatim>\<open>rlc_ringbuffer_t\<close>) is a wrapper around it.  The arrays
  \<^verbatim>\<open>present\<close> and \<^verbatim>\<open>buffer\<close> are one function from indices to slots, \<open>None\<close> for a slot that is
  not present; only indices below \<open>N\<close> are used.  \<^verbatim>\<open>operator[]\<close> asserts that the key is there:
  \<open>None\<close> otherwise.
\<close>

record 'v circular_map =
  cm_N :: nat
  cm_slot :: "nat \<Rightarrow> (u32 \<times> 'v) option"
  cm_size :: nat

definition static_circular_map :: "nat \<Rightarrow> 'v circular_map" where
  "static_circular_map N = \<lparr>cm_N = N, cm_slot = \<lambda>_. None, cm_size = 0\<rparr>"

definition cm_idx :: "'v circular_map \<Rightarrow> u32 \<Rightarrow> nat" where
  "cm_idx m key = unat key mod cm_N m"

definition cm_contains :: "'v circular_map \<Rightarrow> u32 \<Rightarrow> bool" where
  "cm_contains m key \<longleftrightarrow> (case cm_slot m (cm_idx m key) of None \<Rightarrow> False | Some (k, _) \<Rightarrow> k = key)"

definition cm_at :: "'v circular_map \<Rightarrow> u32 \<Rightarrow> 'v option" where
  "cm_at m key =
    (if cm_contains m key then map_option snd (cm_slot m (cm_idx m key)) else None)"

definition cm_insert :: "u32 \<Rightarrow> 'v \<Rightarrow> 'v circular_map \<Rightarrow> bool \<times> 'v circular_map" where
  "cm_insert key obj m =
    (case cm_slot m (cm_idx m key) of
       Some _ \<Rightarrow> (False, m)
     | None \<Rightarrow> (True, m\<lparr>cm_slot := (cm_slot m)(cm_idx m key := Some (key, obj)), cm_size := cm_size m + 1\<rparr>))"

definition cm_erase :: "u32 \<Rightarrow> 'v circular_map \<Rightarrow> bool \<times> 'v circular_map" where
  "cm_erase key m =
    (if \<not> cm_contains m key then (False, m)
     else (True, m\<lparr>cm_slot := (cm_slot m)(cm_idx m key := None), cm_size := cm_size m - 1\<rparr>))"

definition cm_overwrite :: "u32 \<Rightarrow> 'v \<Rightarrow> 'v circular_map \<Rightarrow> 'v circular_map" where
  "cm_overwrite key obj m =
    (let m = (case cm_slot m (cm_idx m key) of
                Some (k, _) \<Rightarrow> snd (cm_erase k m)
              | None \<Rightarrow> m)
     in snd (cm_insert key obj m))"

definition cm_clear :: "'v circular_map \<Rightarrow> 'v circular_map" where
  "cm_clear m = m\<lparr>cm_slot := \<lambda>_. None, cm_size := 0\<rparr>"

definition cm_empty :: "'v circular_map \<Rightarrow> bool" where
  "cm_empty m \<longleftrightarrow> cm_size m = 0"

definition cm_full :: "'v circular_map \<Rightarrow> bool" where
  "cm_full m \<longleftrightarrow> cm_size m = cm_N m"

definition cm_has_space :: "'v circular_map \<Rightarrow> u32 \<Rightarrow> bool" where
  "cm_has_space m key \<longleftrightarrow> cm_slot m (cm_idx m key) = None"

text \<open>The iterators visit the slots that are present in the order of the array.\<close>

definition cm_iterate :: "'v circular_map \<Rightarrow> (u32 \<times> 'v) list" where
  "cm_iterate m = List.map_filter (cm_slot m) [0..<cm_N m]"

text \<open>Writing through the reference that \<^verbatim>\<open>operator[]\<close> gives.\<close>

definition cm_update :: "u32 \<Rightarrow> ('v \<Rightarrow> 'v) \<Rightarrow> 'v circular_map \<Rightarrow> 'v circular_map option" where
  "cm_update key f m =
    (case cm_at m key of
       None \<Rightarrow> None
     | Some v \<Rightarrow> Some (m\<lparr>cm_slot := (cm_slot m)(cm_idx m key := Some (key, f v))\<rparr>))"

section \<open>Object pools\<close>

text \<open>
  \<^verbatim>\<open>static_id_obj_pool\<close>: a circular map that chooses the next key itself, the first from
  \<open>next_id\<close> on whose slot is free.  The fuel of the search is the number of slots.
\<close>

record 'v id_obj_pool =
  pool_map :: "'v circular_map"
  next_id :: u32

fun pool_next_id :: "nat \<Rightarrow> 'v circular_map \<Rightarrow> u32 \<Rightarrow> u32 outcome" where
  "pool_next_id n m key =
    (if cm_has_space m key then Ret key
     else case n of 0 \<Rightarrow> Hang | Suc n \<Rightarrow> pool_next_id n m (key + 1))"

declare pool_next_id.simps [simp del]

definition pool_insert :: "'v \<Rightarrow> 'v id_obj_pool \<Rightarrow> (u32 option \<times> 'v id_obj_pool) outcome" where
  "pool_insert obj p =
    (if cm_full (pool_map p) then Ret (None, p)
     else bind_outcome (pool_next_id (cm_N (pool_map p)) (pool_map p) (next_id p)) (\<lambda>key.
       Ret (Some key, \<lparr>pool_map = snd (cm_insert key obj (pool_map p)), next_id = key + 1\<rparr>)))"

section \<open>The laws of a window\<close>

text \<open>
  What the users of \<^verbatim>\<open>rlc_ringbuffer_base\<close> rely on.  \<open>slot\<close> is what decides which keys exclude
  each other.
\<close>

locale ringbuffer =
  fixes at :: "'m \<Rightarrow> 'k \<Rightarrow> 'v option"
    and add :: "'k \<Rightarrow> 'v \<Rightarrow> 'm \<Rightarrow> 'm"
    and remove :: "'k \<Rightarrow> 'm \<Rightarrow> 'm"
    and update :: "'k \<Rightarrow> ('v \<Rightarrow> 'v) \<Rightarrow> 'm \<Rightarrow> 'm option"
    and size_of :: "'m \<Rightarrow> nat"
    and slot :: "'m \<Rightarrow> 'k \<Rightarrow> nat"
    and ok :: "'m \<Rightarrow> bool"
  assumes at_add: "ok m \<Longrightarrow> at (add k v m) l =
      (if l = k then Some v else if slot m l = slot m k then None else at m l)"
    and at_remove: "ok m \<Longrightarrow> at (remove k m) l = (if l = k then None else at m l)"
    and update_some: "ok m \<Longrightarrow> at m k = Some v \<Longrightarrow>
      \<exists>m'. update k f m = Some m' \<and> ok m' \<and> slot m' = slot m \<and> size_of m' = size_of m
        \<and> at m' = (at m)(k := Some (f v))"
    and update_none: "at m k = None \<Longrightarrow> update k f m = None"
    and ok_add: "ok m \<Longrightarrow> ok (add k v m)"
    and ok_remove: "ok m \<Longrightarrow> ok (remove k m)"
    and slot_add: "slot (add k v m) = slot m"
    and slot_remove: "slot (remove k m) = slot m"
    and size_of_add: "ok m \<Longrightarrow> \<forall>l. slot m l = slot m k \<longrightarrow> at m l = None \<Longrightarrow> size_of (add k v m) = size_of m + 1"
    and size_of_remove: "ok m \<Longrightarrow> at m k \<noteq> None \<Longrightarrow> size_of (remove k m) + 1 = size_of m"
begin

text \<open>Inside a set of keys that do not exclude each other a window is a finite map.\<close>

lemma at_add_inj:
  assumes "ok m" "inj_on (slot m) K" "k \<in> K" "\<And>l. at m l \<noteq> None \<Longrightarrow> l \<in> K"
  shows "at (add k v m) = (at m)(k := Some v)"
proof
  fix l
  show "at (add k v m) l = ((at m)(k := Some v)) l"
    using at_add [OF assms(1), of k v l] inj_onD [OF assms(2), of l k] assms(3) assms(4) [of l]
    by (cases "at m l") auto
qed

lemma at_remove_fun: "ok m \<Longrightarrow> at (remove k m) = (at m)(k := None)"
  by (auto simp: at_remove)

end

definition cm_ok :: "'v circular_map \<Rightarrow> bool" where
  "cm_ok m \<longleftrightarrow> 0 < cm_N m
    \<and> (\<forall>i k v. cm_slot m i = Some (k, v) \<longrightarrow> i = cm_idx m k)
    \<and> finite {i. cm_slot m i \<noteq> None} \<and> cm_size m = card {i. cm_slot m i \<noteq> None}"

lemma cm_okD: "cm_ok m \<Longrightarrow> cm_slot m i = Some (k, v) \<Longrightarrow> i = cm_idx m k"
  by (simp add: cm_ok_def)

lemma cm_at_slot: "cm_at m key = (case cm_slot m (cm_idx m key) of Some (k, v) \<Rightarrow> if k = key then Some v else None | None \<Rightarrow> None)"
  by (auto simp: cm_at_def cm_contains_def split: option.splits)

lemma cm_contains_at: "cm_contains m key \<longleftrightarrow> cm_at m key \<noteq> None"
  by (auto simp: cm_at_slot cm_contains_def split: option.splits)

lemma cm_idx_frame [simp]:
  "cm_idx (m\<lparr>cm_slot := s\<rparr>) = cm_idx m" "cm_idx (m\<lparr>cm_size := n\<rparr>) = cm_idx m"
  by (auto simp: cm_idx_def)

lemma cm_erase_snd:
  "snd (cm_erase k m) = (if cm_contains m k
     then m\<lparr>cm_slot := (cm_slot m)(cm_idx m k := None), cm_size := cm_size m - 1\<rparr> else m)"
  by (simp add: cm_erase_def)

text \<open>Overwriting leaves one object in the slot, whatever was there.\<close>

lemma cm_overwrite_slot:
  assumes "cm_ok m"
  shows "cm_overwrite key obj m = m\<lparr>cm_slot := (cm_slot m)(cm_idx m key := Some (key, obj)),
      cm_size := (if cm_slot m (cm_idx m key) = None then cm_size m + 1 else cm_size m - 1 + 1)\<rparr>"
proof (cases "cm_slot m (cm_idx m key)")
  case None
  then show ?thesis by (simp add: cm_overwrite_def cm_insert_def)
next
  case (Some kv)
  obtain k v where kv: "kv = (k, v)" by fastforce
  have i: "cm_idx m key = cm_idx m k" using cm_okD [OF assms] Some kv by blast
  have "cm_contains m k" using Some kv i by (simp add: cm_contains_def)
  then show ?thesis using Some kv i by (simp add: cm_overwrite_def cm_insert_def cm_erase_snd)
qed

lemma cm_ok_set:
  assumes "cm_ok m" "n = (if cm_slot m (cm_idx m key) = None then cm_size m + 1 else cm_size m)"
  shows "cm_ok (m\<lparr>cm_slot := (cm_slot m)(cm_idx m key := Some (key, obj)), cm_size := n\<rparr>)"
proof -
  have "{i. ((cm_slot m)(cm_idx m key := Some (key, obj))) i \<noteq> None} = insert (cm_idx m key) {i. cm_slot m i \<noteq> None}"
    by auto
  then show ?thesis using assms by (auto simp: cm_ok_def card_insert_if cm_idx_def)
qed

lemma cm_ok_unset:
  assumes "cm_ok m" "cm_slot m i \<noteq> None"
  shows "cm_ok (m\<lparr>cm_slot := (cm_slot m)(i := None), cm_size := cm_size m - 1\<rparr>)"
proof -
  have "{j. ((cm_slot m)(i := None)) j \<noteq> None} = {j. cm_slot m j \<noteq> None} - {i}" by auto
  then show ?thesis using assms by (auto simp: cm_ok_def cm_idx_def)
qed

lemma cm_size_pos: "cm_ok m \<Longrightarrow> cm_slot m i \<noteq> None \<Longrightarrow> 0 < cm_size m"
  by (auto simp: cm_ok_def card_gt_0_iff)

interpretation cm: ringbuffer cm_at cm_overwrite "\<lambda>k m. snd (cm_erase k m)" cm_update cm_size cm_idx cm_ok
proof (unfold_locales, goal_cases)
  case (1 m k v l)
  then show ?case by (auto simp: cm_overwrite_slot cm_at_slot)
next
  case (2 m k l)
  then show ?case by (auto simp: cm_erase_snd cm_at_slot cm_contains_def dest: cm_okD split: option.splits)
next
  case (3 m k v f)
  then have s: "cm_slot m (cm_idx m k) = Some (k, v)" by (auto simp: cm_at_slot split: option.splits if_splits)
  have "cm_ok (m\<lparr>cm_slot := (cm_slot m)(cm_idx m k := Some (k, f v)), cm_size := cm_size m\<rparr>)"
    using cm_ok_set [OF 3(1), of "cm_size m" k "f v"] s by simp
  moreover have "cm_at (m\<lparr>cm_slot := (cm_slot m)(cm_idx m k := Some (k, f v))\<rparr>) = (cm_at m)(k := Some (f v))"
    using s by (auto simp: cm_at_slot fun_eq_iff)
  ultimately show ?case using 3 by (auto simp: cm_update_def)
next
  case (4 m k f)
  then show ?case by (simp add: cm_update_def)
next
  case (5 m k v)
  have "cm_slot m (cm_idx m k) \<noteq> None \<Longrightarrow> cm_size m - 1 + 1 = cm_size m" using cm_size_pos [OF 5] by fastforce
  then show ?case using cm_ok_set [OF 5 refl, of k v] by (auto simp: cm_overwrite_slot [OF 5])
next
  case (6 m k)
  then show ?case using cm_ok_unset by (auto simp: cm_erase_snd cm_contains_def split: option.splits)
next
  case (7 k v m)
  then show ?case by (auto simp: cm_overwrite_def cm_insert_def cm_erase_snd cm_idx_def fun_eq_iff split: option.splits)
next
  case (8 k m)
  then show ?case by (simp add: cm_erase_snd)
next
  case (9 m k v)
  have "cm_slot m (cm_idx m k) = None"
  proof (rule ccontr)
    assume "cm_slot m (cm_idx m k) \<noteq> None"
    then obtain l w where s: "cm_slot m (cm_idx m k) = Some (l, w)" by auto
    then have "cm_idx m k = cm_idx m l" using cm_okD [OF 9(1)] by blast
    then show False using 9(2) s by (auto simp: cm_at_slot)
  qed
  then show ?case using 9(1) by (simp add: cm_overwrite_slot)
next
  case (10 m k)
  then have "cm_slot m (cm_idx m k) \<noteq> None" "cm_contains m k" by (auto simp: cm_contains_at cm_at_slot split: option.splits)
  then show ?case using cm_size_pos [OF 10(1)] by (fastforce simp: cm_erase_snd)
qed

text \<open>Writing through a reference is overwriting by the changed object.\<close>

lemma cm_update_overwrite:
  assumes "cm_ok m" "cm_at m key = Some v"
  shows "cm_update key f m = Some (cm_overwrite key (f v) m)"
proof -
  have "cm_slot m (cm_idx m key) \<noteq> None" using assms(2) by (auto simp: cm_at_slot split: option.splits)
  then show ?thesis using cm_size_pos [OF assms(1)] assms
    by (fastforce simp: cm_update_def cm_overwrite_slot)
qed

lemma cm_ok_static [simp]: "0 < N \<Longrightarrow> cm_ok (static_circular_map N)"
  by (simp add: cm_ok_def static_circular_map_def)

lemma cm_at_static [simp]: "cm_at (static_circular_map N) = (\<lambda>_. None)"
  by (simp add: cm_at_slot static_circular_map_def fun_eq_iff)

lemma cm_N_frame [simp]:
  "cm_N (cm_overwrite k v m) = cm_N m" "cm_N (snd (cm_erase k m)) = cm_N m"
  by (auto simp: cm_overwrite_def cm_insert_def cm_erase_snd split: option.splits)

lemma cm_N_update: "cm_update k f m = Some m' \<Longrightarrow> cm_N m' = cm_N m"
  by (auto simp: cm_update_def split: option.splits)

lemma cm_clear_ok: "cm_ok m \<Longrightarrow> cm_ok (cm_clear m) \<and> cm_at (cm_clear m) = (\<lambda>_. None)"
  by (simp add: cm_ok_def cm_clear_def cm_at_slot fun_eq_iff)

end
