(* ===== verification/AmNrRx.thy ===== *)
theory AmNrRx
  imports AmNrStatus CircularMap ByteBuffer
begin

text \<open>
  The receiver of the RLC AM NR entity (\<^verbatim>\<open>rlc/rlc_am_nr.cc\<close>, \<^verbatim>\<open>rlc_am_nr_rx\<close>): a window of
  SDUs and of the segments received of them, delivery as soon as an SDU is complete, the state
  variables of TS 38.322, 7.1, the reassembly timer and the status report.

  The SDUs handed to the PDCP are the list \<open>am_to_pdcp\<close>, in order.  Of the timers the code reads
  only whether they run; \<open>am_nr_rx_timer_expired\<close> is their callback.  A failed
  \<^verbatim>\<open>isrran_assert\<close>, a copy that leaves a buffer and the use of an empty pointer are \<open>Undef\<close>.
  The arguments \<open>mem\<close> say whether an allocation succeeds, in the order of the allocations.
\<close>

section \<open>State\<close>

record rlc_amd_rx_pdu_nr =
  seg_header :: rlc_am_nr_pdu_header
  seg_buf :: byte_buffer

record rlc_amd_rx_sdu_nr =
  fully_received :: bool
  has_gap :: bool
  rx_sdu_buf :: "byte_buffer option"
  am_segments :: "rlc_amd_rx_pdu_nr list"

definition rx_sdu_0 :: rlc_amd_rx_sdu_nr where
  "rx_sdu_0 = \<lparr>fully_received = False, has_gap = False, rx_sdu_buf = None, am_segments = []\<rparr>"

text \<open>A timer: whether a duration and a callback were set, and whether it runs.\<close>

record am_timer =
  timer_set :: bool
  is_running :: bool

definition am_timer_0 :: am_timer where
  "am_timer_0 = \<lparr>timer_set = False, is_running = False\<rparr>"

record rlc_am_nr_rx =
  am_rx_cfg :: rlc_am_nr_config
  rx_mod_nr :: u32
  am_rx_window :: "rlc_amd_rx_sdu_nr circular_map"
  am_rx_next :: u32
  rx_next_status_trigger :: u32
  rx_highest_status :: u32
  rx_next_highest :: u32
  do_status :: bool
  status_prohibit_timer :: am_timer
  reassembly_timer :: am_timer
  am_to_pdcp :: "byte_buffer list"
  num_rx_sdus :: u32
  num_rx_sdu_bytes :: u64

text \<open>
  The constructor and \<^verbatim>\<open>configure\<close>, which the container calls one after the other.  The lookup of
  the modulus of an unsupported size reads past a table.
\<close>

definition am_nr_rx_configure :: "rlc_am_nr_config \<Rightarrow> rlc_am_nr_rx outcome" where
  "am_nr_rx_configure cfg =
     bind_outcome (outcome_of (am_cardinality (am_rx_sn_field_length cfg))) (\<lambda>m.
     bind_outcome (outcome_of (am_window_size (am_rx_sn_field_length cfg))) (\<lambda>w.
       Ret \<lparr>am_rx_cfg = cfg, rx_mod_nr = m, am_rx_window = static_circular_map (unat w),
            am_rx_next = 0, rx_next_status_trigger = 0, rx_highest_status = 0, rx_next_highest = 0,
            do_status = False,
            status_prohibit_timer = am_timer_0\<lparr>timer_set := 0 < t_status_prohibit cfg\<rparr>,
            reassembly_timer = am_timer_0\<lparr>timer_set := 0 < t_reassembly cfg\<rparr>,
            am_to_pdcp = [], num_rx_sdus = 0, num_rx_sdu_bytes = 0\<rparr>))"

definition am_nr_rx_stop :: "rlc_am_nr_rx \<Rightarrow> rlc_am_nr_rx" where
  "am_nr_rx_stop rx =
     rx\<lparr>am_rx_window := cm_clear (am_rx_window rx),
        am_rx_next := 0, rx_next_status_trigger := 0, rx_highest_status := 0, rx_next_highest := 0,
        do_status := False,
        status_prohibit_timer := (status_prohibit_timer rx)\<lparr>is_running := False\<rparr>,
        reassembly_timer := (reassembly_timer rx)\<lparr>is_running := False\<rparr>\<rparr>"

definition am_nr_rx_reestablish :: "rlc_am_nr_rx \<Rightarrow> rlc_am_nr_rx" where
  "am_nr_rx_reestablish rx = am_nr_rx_stop rx"

section \<open>Window\<close>

definition rx_mod_base_nr :: "rlc_am_nr_rx \<Rightarrow> u32 \<Rightarrow> u32" where
  "rx_mod_base_nr rx sn = (sn - am_rx_next rx) mod rx_mod_nr rx"

text \<open>\<open>am_nr_rx_configure\<close> has seen to it that the size is supported.\<close>

definition am_rx_window_size :: "rlc_am_nr_rx \<Rightarrow> u32" where
  "am_rx_window_size rx =
     (case am_window_size (am_rx_sn_field_length (am_rx_cfg rx)) of Some w \<Rightarrow> w | None \<Rightarrow> 0)"

definition inside_rx_window :: "rlc_am_nr_rx \<Rightarrow> u32 \<Rightarrow> bool" where
  "inside_rx_window rx sn \<longleftrightarrow> rx_mod_base_nr rx sn < am_rx_window_size rx"

definition rx_valid_ack_sn :: "rlc_am_nr_rx \<Rightarrow> u32 \<Rightarrow> bool" where
  "rx_valid_ack_sn rx sn \<longleftrightarrow>
     0 < rx_mod_base_nr rx sn \<and> rx_mod_base_nr rx sn \<le> am_rx_window_size rx"

definition rx_has_sn :: "rlc_am_nr_rx \<Rightarrow> u32 \<Rightarrow> bool" where
  "rx_has_sn rx sn \<longleftrightarrow> cm_contains (am_rx_window rx) sn"

text \<open>\<^verbatim>\<open>rx_window->has_sn(sn) && (*rx_window)[sn].fully_received\<close>, and the same for the gap.\<close>

definition rx_received :: "rlc_am_nr_rx \<Rightarrow> u32 \<Rightarrow> bool" where
  "rx_received rx sn \<longleftrightarrow>
     (case cm_at (am_rx_window rx) sn of None \<Rightarrow> False | Some s \<Rightarrow> fully_received s)"

definition rx_gap :: "rlc_am_nr_rx \<Rightarrow> u32 \<Rightarrow> bool" where
  "rx_gap rx sn \<longleftrightarrow>
     (case cm_at (am_rx_window rx) sn of None \<Rightarrow> False | Some s \<Rightarrow> has_gap s)"

section \<open>Segments of an SDU\<close>

text \<open>The set of the segments, ordered by offset: inserting an offset that is there changes nothing.\<close>

fun insert_received_segment :: "rlc_amd_rx_pdu_nr \<Rightarrow> rlc_amd_rx_pdu_nr list \<Rightarrow> rlc_amd_rx_pdu_nr list" where
  "insert_received_segment s [] = [s]"
| "insert_received_segment s (t # ts) =
     (if am_so (seg_header s) < am_so (seg_header t) then s # t # ts
      else if am_so (seg_header t) < am_so (seg_header s) then t # insert_received_segment s ts
      else t # ts)"

text \<open>The loop of \<open>update_segment_inventory\<close>: has the SDU a gap, is it fully received?\<close>

fun segment_inventory :: "u32 \<Rightarrow> rlc_amd_rx_pdu_nr list \<Rightarrow> bool \<times> bool" where
  "segment_inventory next_byte [] = (False, False)"
| "segment_inventory next_byte (s # ss) =
     (if ucast (am_so (seg_header s)) \<noteq> next_byte then (True, False)
      else if am_si (seg_header s) = last_segment then (False, True)
      else segment_inventory (next_byte + of_nat (N_bytes (seg_buf s))) ss)"

definition update_segment_inventory :: "rlc_amd_rx_sdu_nr \<Rightarrow> rlc_amd_rx_sdu_nr" where
  "update_segment_inventory rx_sdu =
     (let (gap, full) = segment_inventory 0 (am_segments rx_sdu)
      in rx_sdu\<lparr>has_gap := gap, fully_received := full\<rparr>)"

text \<open>Putting the segments together: \<^verbatim>\<open>memcpy\<close> to the end of what is there.\<close>

fun assemble_segments :: "rlc_amd_rx_pdu_nr list \<Rightarrow> byte_buffer \<Rightarrow> byte_buffer outcome" where
  "assemble_segments [] b = Ret b"
| "assemble_segments (s # ss) b =
     bind_outcome (outcome_of (append_bytes (data (seg_buf s)) b)) (assemble_segments ss)"

text \<open>The check for bytes that were received before, in the arithmetic of \<^verbatim>\<open>uint32_t\<close>.\<close>

definition overlaps_segment :: "rlc_am_nr_pdu_header \<Rightarrow> u32 \<Rightarrow> u32 \<Rightarrow> rlc_amd_rx_pdu_nr \<Rightarrow> bool" where
  "overlaps_segment header nof_bytes hdr_len segm =
     (let segm_so = ucast (am_so (seg_header segm)) :: u32;
          so = ucast (am_so header) :: u32;
          segm_last_byte = segm_so + of_nat (N_bytes (seg_buf segm)) - 1;
          pdu_last_byte = so + nof_bytes - hdr_len - 1
      in (segm_so \<le> so \<and> so \<le> segm_last_byte) \<or>
         (segm_so \<le> pdu_last_byte \<and> pdu_last_byte \<le> segm_last_byte))"

section \<open>Receiving a data PDU\<close>

text \<open>
  \<open>handle_full_data_sdu\<close>.  The result says whether \<^verbatim>\<open>ISRRAN_SUCCESS\<close> is returned.  The object in
  the window is written with the fields it has when the function returns.  When the header is
  longer than the PDU, the length of the copy wraps.
\<close>

definition handle_full_data_sdu ::
  "bool \<Rightarrow> rlc_am_nr_pdu_header \<Rightarrow> bytes \<Rightarrow> rlc_am_nr_rx \<Rightarrow> (bool \<times> rlc_am_nr_rx) outcome" where
  "handle_full_data_sdu mem header payload rx =
     (let sn = am_sn header;
          hdr_len = rlc_am_nr_packed_length header;
          removed = rx\<lparr>am_rx_window := snd (cm_erase sn (cm_overwrite sn rx_sdu_0 (am_rx_window rx)))\<rparr>
      in if \<not> mem then Ret (False, removed)
         else if get_tailroom fresh_buffer < length payload then Ret (False, removed)
         else if length payload < hdr_len then Undef
         else Ret (True, rx\<lparr>am_rx_window := cm_overwrite sn
                (rx_sdu_0\<lparr>rx_sdu_buf := Some (fresh_buffer\<lparr>data := drop hdr_len payload\<rparr>),
                          fully_received := True, has_gap := False\<rparr>) (am_rx_window rx)\<rparr>))"

text \<open>
  \<open>handle_segment_data_sdu\<close>.  Changing an object of the window through its reference is
  overwriting it by the changed object (\<open>cm_update_overwrite\<close>).
\<close>

definition handle_segment_data_sdu ::
  "bool \<Rightarrow> bool \<Rightarrow> rlc_am_nr_pdu_header \<Rightarrow> bytes \<Rightarrow> rlc_am_nr_rx \<Rightarrow> (bool \<times> rlc_am_nr_rx) outcome" where
  "handle_segment_data_sdu mem mem' header payload rx =
     (if am_si header = full_sdu then Ret (False, rx)
      else
        let sn = am_sn header;
            hdr_len = rlc_am_nr_packed_length header;
            rx_sdu = (case cm_at (am_rx_window rx) sn of Some s \<Rightarrow> s | None \<Rightarrow> rx_sdu_0);
            put = (\<lambda>s. rx\<lparr>am_rx_window := cm_overwrite sn s (am_rx_window rx)\<rparr>)
        in if \<not> mem then Ret (False, put rx_sdu)
           else if length payload < hdr_len \<or> get_tailroom fresh_buffer < length payload - hdr_len then Undef
           else
             let pdu_segment = \<lparr>seg_header = header,
                                seg_buf = fresh_buffer\<lparr>data := drop hdr_len payload\<rparr>\<rparr>;
                 rx_sdu = update_segment_inventory
                            (rx_sdu\<lparr>am_segments := insert_received_segment pdu_segment (am_segments rx_sdu)\<rparr>)
             in if fully_received rx_sdu then
                  (if \<not> mem' then
                     Ret (False, rx\<lparr>am_rx_window := snd (cm_erase sn (cm_overwrite sn rx_sdu (am_rx_window rx)))\<rparr>)
                   else bind_outcome (assemble_segments (am_segments rx_sdu) fresh_buffer) (\<lambda>b.
                     Ret (True, put (rx_sdu\<lparr>rx_sdu_buf := Some b\<rparr>))))
                else Ret (True, put rx_sdu))"

text \<open>
  The loops over sequence numbers: \<open>skip_received\<close> walks over SDUs that are fully received,
  \<open>remove_received\<close> takes them out of the window on the way.  The fuel is the modulus.
\<close>

fun skip_received :: "nat \<Rightarrow> rlc_am_nr_rx \<Rightarrow> u32 \<Rightarrow> u32 outcome" where
  "skip_received n rx sn =
     (if rx_mod_base_nr rx sn < rx_mod_base_nr rx (rx_next_highest rx) \<and> rx_received rx sn
      then (case n of 0 \<Rightarrow> Hang | Suc k \<Rightarrow> skip_received k rx ((sn + 1) mod rx_mod_nr rx))
      else Ret sn)"

fun remove_received :: "nat \<Rightarrow> rlc_am_nr_rx \<Rightarrow> u32 \<Rightarrow> (u32 \<times> rlc_am_nr_rx) outcome" where
  "remove_received n rx sn =
     (if rx_mod_base_nr rx sn < rx_mod_base_nr rx (rx_next_highest rx) \<and> rx_received rx sn
      then (case n of 0 \<Rightarrow> Hang
            | Suc k \<Rightarrow> remove_received k (rx\<lparr>am_rx_window := snd (cm_erase sn (am_rx_window rx))\<rparr>)
                         ((sn + 1) mod rx_mod_nr rx))
      else Ret (sn, rx))"

declare skip_received.simps [simp del] remove_received.simps [simp del]

definition rx_fuel :: "rlc_am_nr_rx \<Rightarrow> nat" where
  "rx_fuel rx = unat (rx_mod_nr rx)"

text \<open>\<open>write_to_upper_layers\<close>, which moves the buffer out of the window.\<close>

definition write_to_upper_layers :: "u32 \<Rightarrow> rlc_am_nr_rx \<Rightarrow> rlc_am_nr_rx outcome" where
  "write_to_upper_layers sn rx =
     (case cm_at (am_rx_window rx) sn of
        None \<Rightarrow> Undef
      | Some s \<Rightarrow>
          (case rx_sdu_buf s of
             None \<Rightarrow> Undef
           | Some b \<Rightarrow> Ret (rx\<lparr>am_rx_window := cm_overwrite sn (s\<lparr>rx_sdu_buf := None\<rparr>) (am_rx_window rx),
                              am_to_pdcp := am_to_pdcp rx @ [b],
                              num_rx_sdus := num_rx_sdus rx + 1,
                              num_rx_sdu_bytes := num_rx_sdu_bytes rx + of_nat (N_bytes b)\<rparr>)))"

text \<open>TS 38.322, 5.2.3.2.3: a complete SDU is delivered and the state variables advance over it.\<close>

definition rx_sdu_complete :: "u32 \<Rightarrow> rlc_am_nr_rx \<Rightarrow> rlc_am_nr_rx outcome" where
  "rx_sdu_complete sn rx =
     bind_outcome (write_to_upper_layers sn rx) (\<lambda>rx.
     bind_outcome
       (if rx_mod_base_nr rx sn = rx_mod_base_nr rx (rx_highest_status rx)
        then bind_outcome (skip_received (rx_fuel rx) rx ((rx_highest_status rx + 1) mod rx_mod_nr rx))
               (\<lambda>sn_upd. Ret (rx\<lparr>rx_highest_status := sn_upd\<rparr>))
        else Ret rx) (\<lambda>rx.
     if rx_mod_base_nr rx sn = rx_mod_base_nr rx (am_rx_next rx)
     then bind_outcome (remove_received (rx_fuel rx) rx (am_rx_next rx mod rx_mod_nr rx))
            (\<lambda>(sn_upd, rx). Ret (rx\<lparr>am_rx_next := sn_upd\<rparr>))
     else Ret rx))"

text \<open>The conditions under which the reassembly timer is stopped and started.\<close>

definition stop_reassembly :: "rlc_am_nr_rx \<Rightarrow> bool outcome" where
  "stop_reassembly rx =
     bind_outcome
       (if rx_mod_base_nr rx (rx_next_status_trigger rx) = rx_mod_base_nr rx (am_rx_next rx + 1)
        then bind_outcome (outcome_of (cm_at (am_rx_window rx) (am_rx_next rx))) (\<lambda>s. Ret (\<not> has_gap s))
        else Ret False) (\<lambda>no_gap.
       Ret (rx_next_status_trigger rx = am_rx_next rx \<or> no_gap
            \<or> \<not> inside_rx_window rx (rx_next_status_trigger rx)))"

definition start_reassembly :: "u32 \<Rightarrow> rlc_am_nr_rx \<Rightarrow> bool" where
  "start_reassembly sn rx \<longleftrightarrow>
     rx_mod_base_nr rx (rx_next_highest rx) > rx_mod_base_nr rx (sn + 1) \<or>
     rx_mod_base_nr rx (rx_next_highest rx) = rx_mod_base_nr rx (sn + 1) \<and> rx_gap rx sn"

definition run_reassembly :: "u32 \<Rightarrow> rlc_am_nr_rx \<Rightarrow> rlc_am_nr_rx" where
  "run_reassembly sn rx =
     (if start_reassembly sn rx
      then rx\<lparr>reassembly_timer := (reassembly_timer rx)\<lparr>is_running := True\<rparr>,
              rx_next_status_trigger := rx_next_highest rx\<rparr>
      else rx)"

definition rx_update_timer :: "rlc_am_nr_rx \<Rightarrow> rlc_am_nr_rx outcome" where
  "rx_update_timer rx =
     bind_outcome
       (if is_running (reassembly_timer rx)
        then bind_outcome (stop_reassembly rx) (\<lambda>stop.
               Ret (if stop then rx\<lparr>reassembly_timer := (reassembly_timer rx)\<lparr>is_running := False\<rparr>\<rparr>
                    else rx))
        else Ret rx) (\<lambda>rx.
       Ret (if is_running (reassembly_timer rx) then rx else run_reassembly (am_rx_next rx) rx))"

definition rx_pdu_placed :: "u32 \<Rightarrow> rlc_am_nr_rx \<Rightarrow> rlc_am_nr_rx outcome" where
  "rx_pdu_placed sn rx =
     (let rx = (if rx_mod_base_nr rx (rx_next_highest rx) \<le> rx_mod_base_nr rx sn
                then rx\<lparr>rx_next_highest := (sn + 1) mod rx_mod_nr rx\<rparr> else rx)
      in bind_outcome (if rx_received rx sn then rx_sdu_complete sn rx else Ret rx) rx_update_timer)"

definition am_header_0 :: rlc_am_nr_pdu_header where
  "am_header_0 = \<lparr>am_dc = RLC_DC_FIELD_CONTROL_PDU, am_p = 0, am_si = full_sdu,
                  am_sn_size = am_size12bits, am_sn = 0, am_so = 0\<rparr>"

definition am_nr_rx_handle_data_pdu :: "bool \<Rightarrow> bool \<Rightarrow> bytes \<Rightarrow> rlc_am_nr_rx \<Rightarrow> rlc_am_nr_rx outcome" where
  "am_nr_rx_handle_data_pdu mem mem' payload rx =
     (case rlc_am_nr_read_data_pdu_header payload (am_rx_sn_field_length (am_rx_cfg rx)) am_header_0 of
        None \<Rightarrow> Undef
      | Some (hdr_len, header) \<Rightarrow>
          let sn = am_sn header;
              rx = (if am_p header \<noteq> 0 then rx\<lparr>do_status := True\<rparr> else rx)
          in if \<not> inside_rx_window rx sn then Ret rx
             else if rx_received rx sn then Ret rx
             else if am_si header \<noteq> full_sdu \<and>
               (case cm_at (am_rx_window rx) sn of None \<Rightarrow> False
                | Some s \<Rightarrow> list_ex (overlaps_segment header (of_nat (length payload)) (of_nat hdr_len))
                             (am_segments s)) then Ret rx
             else
               bind_outcome
                 (if am_si header = full_sdu then handle_full_data_sdu mem header payload rx
                  else handle_segment_data_sdu mem mem' header payload rx)
                 (\<lambda>(ok, rx). if \<not> ok then Ret rx else rx_pdu_placed sn rx))"

section \<open>Status report\<close>

text \<open>The loop over the segments of one SDU: the status, \<^verbatim>\<open>last_so\<close> and \<^verbatim>\<open>last_segment_rx\<close>.\<close>

fun nack_segments ::
  "u32 \<Rightarrow> u32 \<Rightarrow> bool \<Rightarrow> rlc_amd_rx_pdu_nr list \<Rightarrow> rlc_am_nr_status_pdu
     \<Rightarrow> (rlc_am_nr_status_pdu \<times> u32 \<times> bool) outcome" where
  "nack_segments sn last_so last_segment_rx [] st = Ret (st, last_so, last_segment_rx)"
| "nack_segments sn last_so last_segment_rx (s # ss) st =
     (let so = ucast (am_so (seg_header s)) :: u32;
          nack = rlc_status_nack\<lparr>nack_sn := sn, has_so := True, so_start := ucast last_so,
                                 so_end := ucast (so - 1)\<rparr>;
          last_segment_rx = (am_si (seg_header s) = last_segment \<or> last_segment_rx);
          last_so' = so + of_nat (N_bytes (seg_buf s))
      in if so \<noteq> last_so then
           (if so_end nack < so_start nack then Undef
            else nack_segments sn last_so' last_segment_rx ss (push_nack nack st))
         else nack_segments sn last_so' last_segment_rx ss st)"

definition nack_sdu :: "rlc_am_nr_rx \<Rightarrow> u32 \<Rightarrow> rlc_am_nr_status_pdu \<Rightarrow> rlc_am_nr_status_pdu outcome" where
  "nack_sdu rx sn st =
     (case cm_at (am_rx_window rx) sn of
        None \<Rightarrow> Ret (push_nack (rlc_status_nack\<lparr>nack_sn := sn, has_so := False\<rparr>) st)
      | Some s \<Rightarrow>
          if fully_received s then Ret st
          else bind_outcome (nack_segments sn 0 False (am_segments s) st) (\<lambda>(st, last_so, last_segment_rx).
            Ret (if last_segment_rx then st
                 else push_nack (rlc_status_nack\<lparr>nack_sn := sn, has_so := True,
                        so_start := ucast last_so, so_end := so_end_of_sdu\<rparr>) st)))"

fun nack_loop :: "nat \<Rightarrow> rlc_am_nr_rx \<Rightarrow> u32 \<Rightarrow> rlc_am_nr_status_pdu \<Rightarrow> rlc_am_nr_status_pdu outcome" where
  "nack_loop n rx i st =
     (if rx_mod_base_nr rx i < rx_mod_base_nr rx (rx_highest_status rx)
      then (case n of 0 \<Rightarrow> Hang
            | Suc k \<Rightarrow> bind_outcome (nack_sdu rx i st) (nack_loop k rx ((i + 1) mod rx_mod_nr rx)))
      else Ret st)"

declare nack_loop.simps [simp del]

text \<open>
  \<open>owns\<close> says whether the lock is free.  The largest \<open>max_len\<close> only asks for the length.
\<close>

definition get_status_pdu ::
  "bool \<Rightarrow> u32 \<Rightarrow> rlc_am_nr_status_pdu \<Rightarrow> rlc_am_nr_rx
     \<Rightarrow> (u32 \<times> rlc_am_nr_status_pdu \<times> rlc_am_nr_rx) outcome" where
  "get_status_pdu owns max_len st rx =
     (if \<not> owns then Ret (- 1, st, rx)
      else bind_outcome (nack_loop (rx_fuel rx) rx (am_rx_next rx) (status_reset st)) (\<lambda>st.
        let st = st\<lparr>ack_sn := rx_highest_status rx\<rparr>;
            st = (if unat max_len < packed_size st then snd (trim (unat max_len) st) else st);
            rx = (if max_len \<noteq> - 1
                  then rx\<lparr>status_prohibit_timer := (status_prohibit_timer rx)\<lparr>is_running := True\<rparr>,
                          do_status := False\<rparr>
                  else rx)
        in Ret (of_nat (packed_size st), st, rx)))"

definition get_status_pdu_length :: "bool \<Rightarrow> rlc_am_nr_rx \<Rightarrow> (u32 \<times> rlc_am_nr_rx) outcome" where
  "get_status_pdu_length owns rx =
     bind_outcome (outcome_of (rlc_am_nr_status_pdu (am_rx_sn_field_length (am_rx_cfg rx)))) (\<lambda>st.
     bind_outcome (get_status_pdu owns (- 1) st rx) (\<lambda>(_, st, rx).
       Ret (of_nat (packed_size st), rx)))"

definition get_do_status :: "rlc_am_nr_rx \<Rightarrow> bool" where
  "get_do_status rx \<longleftrightarrow> do_status rx \<and> \<not> is_running (status_prohibit_timer rx)"

section \<open>Timers\<close>

datatype am_rx_timer = Status_prohibit | Reassembly

definition am_nr_rx_timer_expired :: "am_rx_timer \<Rightarrow> rlc_am_nr_rx \<Rightarrow> rlc_am_nr_rx outcome" where
  "am_nr_rx_timer_expired t rx =
     (case t of
        Status_prohibit \<Rightarrow> Ret rx
      | Reassembly \<Rightarrow>
          bind_outcome (skip_received (rx_fuel rx) rx (rx_next_status_trigger rx)) (\<lambda>sn_upd.
            let rx = rx\<lparr>rx_highest_status := sn_upd\<rparr> in
            if \<not> rx_valid_ack_sn rx (rx_highest_status rx) then Undef
            else Ret ((run_reassembly (rx_highest_status rx) rx)\<lparr>do_status := True\<rparr>)))"

text \<open>
  The timer handler stops a timer before it calls its callback, which is there if the timer was
  set.
\<close>

definition am_nr_rx_expire :: "am_rx_timer \<Rightarrow> rlc_am_nr_rx \<Rightarrow> rlc_am_nr_rx outcome" where
  "am_nr_rx_expire t rx =
     (case t of
        Status_prohibit \<Rightarrow>
          let rx' = rx\<lparr>status_prohibit_timer := (status_prohibit_timer rx)\<lparr>is_running := False\<rparr>\<rparr>
          in if timer_set (status_prohibit_timer rx) then am_nr_rx_timer_expired t rx' else Ret rx'
      | Reassembly \<Rightarrow>
          let rx' = rx\<lparr>reassembly_timer := (reassembly_timer rx)\<lparr>is_running := False\<rparr>\<rparr>
          in if timer_set (reassembly_timer rx) then am_nr_rx_timer_expired t rx' else Ret rx')"

end
