(* ===== verification/AmNrTx.thy ===== *)
theory AmNrTx
  imports AmNrRx UmNrTx
begin

text \<open>
  The transmitter of the RLC AM NR entity (\<^verbatim>\<open>rlc/rlc_am_nr.cc\<close>, \<^verbatim>\<open>rlc_am_nr_tx\<close>): a window of SDUs
  that wait for their acknowledgement, with the segments each was sent in; the queue of
  retransmissions (\<^verbatim>\<open>pdu_retx_queue_list\<close>, \<^verbatim>\<open>rlc/rlc_am_data_structs.h\<close>); segmentation; polls.

  The transmitter asks the entity's receiver for status reports, so operations that do so take
  and return both.  What is written to \<^verbatim>\<open>payload\<close> is a list of bytes; its length is the returned
  number of bytes.  A failed \<^verbatim>\<open>isrran_assert\<close>, an empty pointer, bytes outside an SDU's buffer, or
  bytes of \<^verbatim>\<open>payload\<close> that are returned but not written are \<open>Undef\<close>.  Calls to RRC, PDCP and the
  MAC's callback are collected in \<open>tx_events\<close>.
\<close>

section \<open>State\<close>

record rlc_am_nr_tx_state =
  am_tx_next_ack :: u32
  am_tx_next :: u32
  poll_sn :: u32
  pdu_without_poll :: u32
  byte_without_poll :: u32

definition am_tx_state_0 :: rlc_am_nr_tx_state where
  "am_tx_state_0 = \<lparr>am_tx_next_ack = 0, am_tx_next = 0, poll_sn = 0, pdu_without_poll = 0, byte_without_poll = 0\<rparr>"

record pdu_segment =
  seg_so :: u32
  payload_len :: u32

record rlc_amd_tx_pdu_nr =
  tx_pdcp_sn :: u32
  tx_header :: rlc_am_nr_pdu_header
  tx_sdu_buf :: "byte_buffer option"
  retx_count :: u32
  segment_list :: "pdu_segment list"

definition RETX_COUNT_NOT_STARTED :: u32 where "RETX_COUNT_NOT_STARTED = 0xFFFFFFFF"

definition amd_tx_pdu_0 :: rlc_amd_tx_pdu_nr where
  "amd_tx_pdu_0 = \<lparr>tx_pdcp_sn = INVALID_RLC_SN, tx_header = am_header_0, tx_sdu_buf = None,
                   retx_count = RETX_COUNT_NOT_STARTED, segment_list = []\<rparr>"

record rlc_amd_retx_nr =
  retx_sn :: u32
  is_segment :: bool
  retx_so_start :: u32
  current_so :: u32
  segment_length :: u32

datatype am_tx_call = Max_retx_attempted | Notify_failure "u32 list" | Notify_delivery "u32 list" | Bsr u32 u32

record rlc_am_nr_tx =
  am_tx_cfg :: rlc_am_nr_config
  tx_mod_nr :: u32
  min_hdr_size :: u32
  max_hdr_size :: u32
  am_tx_queue :: byte_buffer_queue
  am_tx_enabled :: bool
  am_st :: rlc_am_nr_tx_state
  am_tx_window :: "rlc_amd_tx_pdu_nr circular_map"
  retx_queue :: "rlc_amd_retx_nr list"
  sdu_under_segmentation_sn :: u32
  poll_retransmit_timer :: am_timer
  has_bsr_callback :: bool
  tx_events :: "am_tx_call list"
  tx_num_lost_pdus :: u32

definition so_size :: u32 where "so_size = 2"

definition max_tx_queue_size :: nat where "max_tx_queue_size = 256"

section \<open>The queue of retransmissions\<close>

definition retx_overlaps :: "rlc_amd_retx_nr \<Rightarrow> u32 \<Rightarrow> bool" where
  "retx_overlaps r segment_offset \<longleftrightarrow>
     retx_so_start r \<le> segment_offset \<and> segment_offset < current_so r + segment_length r"

definition retx_has_sn :: "rlc_amd_retx_nr list \<Rightarrow> u32 \<Rightarrow> bool" where
  "retx_has_sn q sn \<longleftrightarrow> list_ex (\<lambda>r. retx_sn r = sn) q"

definition retx_has_segment :: "rlc_amd_retx_nr list \<Rightarrow> u32 \<Rightarrow> u32 \<Rightarrow> bool" where
  "retx_has_segment q sn so \<longleftrightarrow> list_ex (\<lambda>r. retx_sn r = sn \<and> retx_overlaps r so) q"

text \<open>\<^verbatim>\<open>remove_sn\<close> returns after the first match.\<close>

fun retx_remove_sn :: "u32 \<Rightarrow> rlc_amd_retx_nr list \<Rightarrow> rlc_amd_retx_nr list" where
  "retx_remove_sn sn [] = []"
| "retx_remove_sn sn (r # rs) = (if retx_sn r = sn then rs else r # retx_remove_sn sn rs)"

section \<open>Configuration, stop\<close>

text \<open>The loop over the queue has as many steps as the queue has elements.\<close>

definition am_tx_empty_queue :: "rlc_am_nr_tx \<Rightarrow> rlc_am_nr_tx outcome" where
  "am_tx_empty_queue tx =
     bind_outcome (um_drain (bbq_size (am_tx_queue tx)) (am_tx_queue tx)) (\<lambda>q. Ret (tx\<lparr>am_tx_queue := q\<rparr>))"

definition am_nr_tx :: rlc_am_nr_tx where
  "am_nr_tx =
     \<lparr>am_tx_cfg = \<lparr>am_tx_sn_field_length = am_size12bits, am_rx_sn_field_length = am_size12bits, t_poll_retx = 0,
        t_reassembly = 0, t_status_prohibit = 0, max_retx_thresh = 0, poll_pdu = 0, poll_byte = 0\<rparr>,
      tx_mod_nr = 4096, min_hdr_size = 2, max_hdr_size = 4, am_tx_queue = byte_buffer_queue 128,
      am_tx_enabled = False, am_st = am_tx_state_0, am_tx_window = static_circular_map 0, retx_queue = [],
      sdu_under_segmentation_sn = INVALID_RLC_SN, poll_retransmit_timer = am_timer_0, has_bsr_callback = False,
      tx_events = [], tx_num_lost_pdus = 0\<rparr>"

text \<open>
  \<open>am_nr_tx_configure\<close>; the result says whether it returns \<^verbatim>\<open>true\<close>.  The modulus of an unsupported
  size is looked up past a table before the size is checked.  \<open>grow\<close> is the growth of a vector.
\<close>

definition am_nr_tx_configure ::
  "(nat \<Rightarrow> nat \<Rightarrow> nat) \<Rightarrow> rlc_am_nr_config \<Rightarrow> nat \<Rightarrow> rlc_am_nr_tx \<Rightarrow> (bool \<times> rlc_am_nr_tx) outcome" where
  "am_nr_tx_configure grow cfg tx_queue_length tx =
     (let tx = tx\<lparr>am_tx_cfg := cfg\<rparr> in
      if max_tx_queue_size < tx_queue_length then Ret (False, tx)
      else
        bind_outcome (outcome_of (am_cardinality (am_tx_sn_field_length cfg))) (\<lambda>m.
        bind_outcome (outcome_of (am_window_size (am_tx_sn_field_length cfg))) (\<lambda>w.
          let hdr = (if am_tx_sn_field_length cfg = am_size12bits then 2 else 3);
              tx = tx\<lparr>tx_mod_nr := m, min_hdr_size := hdr, max_hdr_size := hdr + so_size,
                      am_tx_window := static_circular_map (unat w)\<rparr>
          in bind_outcome (am_tx_empty_queue tx) (\<lambda>tx.
             bind_outcome (outcome_of (bbq_resize grow tx_queue_length (am_tx_queue tx))) (\<lambda>q.
               Ret (True, tx\<lparr>am_tx_queue := q,
                  poll_retransmit_timer := (if 0 < t_poll_retx cfg then (poll_retransmit_timer tx)\<lparr>timer_set := True\<rparr>
                                            else poll_retransmit_timer tx),
                  am_tx_enabled := True\<rparr>))))))"

definition am_nr_tx_stop :: "rlc_am_nr_tx \<Rightarrow> rlc_am_nr_tx outcome" where
  "am_nr_tx_stop tx =
     bind_outcome (am_tx_empty_queue tx) (\<lambda>tx.
       Ret (tx\<lparr>poll_retransmit_timer := (poll_retransmit_timer tx)\<lparr>is_running := False\<rparr>,
               am_st := am_tx_state_0,
               sdu_under_segmentation_sn := INVALID_RLC_SN,
               am_tx_window := cm_clear (am_tx_window tx),
               retx_queue := [],
               am_tx_enabled := False\<rparr>))"

definition am_nr_tx_reestablish :: "rlc_am_nr_tx \<Rightarrow> rlc_am_nr_tx outcome" where
  "am_nr_tx_reestablish tx = am_nr_tx_stop tx"

section \<open>Window\<close>

definition tx_mod_base_nr :: "rlc_am_nr_tx \<Rightarrow> u32 \<Rightarrow> u32" where
  "tx_mod_base_nr tx sn = (sn - am_tx_next_ack (am_st tx)) mod tx_mod_nr tx"

definition am_tx_window_size :: "rlc_am_nr_tx \<Rightarrow> u32" where
  "am_tx_window_size tx =
     (case am_window_size (am_tx_sn_field_length (am_tx_cfg tx)) of Some w \<Rightarrow> w | None \<Rightarrow> 0)"

definition inside_tx_window :: "rlc_am_nr_tx \<Rightarrow> u32 \<Rightarrow> bool" where
  "inside_tx_window tx sn \<longleftrightarrow> tx_mod_base_nr tx sn < am_tx_window_size tx"

definition valid_ack_sn :: "rlc_am_nr_tx \<Rightarrow> u32 \<Rightarrow> bool" where
  "valid_ack_sn tx sn \<longleftrightarrow> 0 < tx_mod_base_nr tx sn \<and> tx_mod_base_nr tx sn \<le> am_tx_window_size tx"

abbreviation tx_pdu_at :: "rlc_am_nr_tx \<Rightarrow> u32 \<Rightarrow> rlc_amd_tx_pdu_nr option" where
  "tx_pdu_at tx sn \<equiv> cm_at (am_tx_window tx) sn"

text \<open>
  Changing an object of the window through its reference is overwriting it by the changed object
  (\<open>cm_update_overwrite\<close>); so is \<^verbatim>\<open>add_pdu\<close>.
\<close>

definition put_pdu :: "u32 \<Rightarrow> rlc_amd_tx_pdu_nr \<Rightarrow> rlc_am_nr_tx \<Rightarrow> rlc_am_nr_tx" where
  "put_pdu sn pdu tx = tx\<lparr>am_tx_window := cm_overwrite sn pdu (am_tx_window tx)\<rparr>"

section \<open>Polling\<close>

definition get_pdu_poll :: "u32 \<Rightarrow> bool \<Rightarrow> u32 \<Rightarrow> rlc_am_nr_tx \<Rightarrow> u8 \<times> rlc_am_nr_tx" where
  "get_pdu_poll sn is_retx n_bytes tx =
     (let st = am_st tx;
          st = (if is_retx then st
                else st\<lparr>pdu_without_poll := pdu_without_poll st + 1,
                        byte_without_poll := byte_without_poll st + n_bytes\<rparr>);
          cfg = am_tx_cfg tx;
          poll = (\<not> is_retx \<and> (0 < poll_pdu cfg \<and> word_of_int (poll_pdu cfg) \<le> pdu_without_poll st
                                \<or> 0 < poll_byte cfg \<and> word_of_int (poll_byte cfg) \<le> byte_without_poll st))
                 \<or> bbq_is_empty (am_tx_queue tx) \<and> retx_queue tx = [] \<and> sdu_under_segmentation_sn tx = INVALID_RLC_SN
                 \<or> cm_full (am_tx_window tx)
      in if poll
         then (1, tx\<lparr>am_st := st\<lparr>pdu_without_poll := 0, byte_without_poll := 0,
                                  poll_sn := (if is_retx then poll_sn st else sn)\<rparr>,
                     poll_retransmit_timer :=
                       (if 0 < t_poll_retx cfg then (poll_retransmit_timer tx)\<lparr>is_running := True\<rparr>
                        else poll_retransmit_timer tx)\<rparr>)
         else (0, tx\<lparr>am_st := st\<rparr>))"

section \<open>Building PDUs\<close>

text \<open>
  A header written to \<^verbatim>\<open>payload\<close>, followed by bytes copied to the offset the writer returns.  The
  writer returns the length for the segmentation info, but writes an offset when it is not 0.
\<close>

definition am_pdu_bytes :: "rlc_am_nr_pdu_header \<Rightarrow> bytes \<Rightarrow> bytes outcome" where
  "am_pdu_bytes h bs =
     (let (hdr, hdr_len) = rlc_am_nr_write_data_pdu_header h
      in if length hdr < hdr_len then Undef else Ret (take hdr_len hdr @ bs))"

definition sdu_slice :: "byte_buffer \<Rightarrow> u32 \<Rightarrow> u32 \<Rightarrow> bytes outcome" where
  "sdu_slice b so len =
     (if unat so + unat len \<le> N_bytes b then Ret (take (unat len) (drop (unat so) (data b))) else Undef)"

definition build_new_sdu_segment ::
  "u32 \<Rightarrow> rlc_amd_tx_pdu_nr \<Rightarrow> u32 \<Rightarrow> rlc_am_nr_tx \<Rightarrow> (bytes \<times> rlc_am_nr_tx) outcome" where
  "build_new_sdu_segment sn tx_pdu nof_bytes tx =
     (case tx_sdu_buf tx_pdu of None \<Rightarrow> Undef
      | Some sdu_buf \<Rightarrow>
        if of_nat (N_bytes sdu_buf) + min_hdr_size tx < nof_bytes then Ret ([], tx)
        else if nof_bytes \<le> min_hdr_size tx then Ret ([], tx)
        else
          let segment_payload_len = nof_bytes - min_hdr_size tx;
              tx_next = am_tx_next (am_st tx);
              (poll, tx) = get_pdu_poll tx_next False segment_payload_len (tx\<lparr>sdu_under_segmentation_sn := tx_next\<rparr>);
              hdr = \<lparr>am_dc = RLC_DC_FIELD_DATA_PDU, am_p = poll, am_si = first_segment,
                     am_sn_size = am_tx_sn_field_length (am_tx_cfg tx), am_sn = tx_next, am_so = 0\<rparr>;
              tx_pdu = tx_pdu\<lparr>tx_header := hdr\<rparr>;
              hdr_len = of_nat (rlc_am_nr_packed_length hdr) :: u32
          in if nof_bytes \<le> hdr_len \<or> hdr_len \<noteq> min_hdr_size tx then Ret ([], put_pdu sn tx_pdu tx)
             else if \<not> hdr_len + segment_payload_len \<le> nof_bytes then Undef
             else
               bind_outcome (sdu_slice sdu_buf 0 segment_payload_len) (\<lambda>bs.
               bind_outcome (am_pdu_bytes hdr bs) (\<lambda>payload.
                 Ret (payload, put_pdu sn (tx_pdu\<lparr>segment_list := segment_list tx_pdu @
                   [\<lparr>seg_so = 0, payload_len = segment_payload_len\<rparr>]\<rparr>) tx))))"

text \<open>\<open>mem\<close> says whether the SDU's copy can be allocated.\<close>

definition build_new_pdu :: "bool \<Rightarrow> u32 \<Rightarrow> rlc_am_nr_tx \<Rightarrow> (bytes \<times> rlc_am_nr_tx) outcome" where
  "build_new_pdu mem nof_bytes tx =
     (if nof_bytes \<le> min_hdr_size tx then Ret ([], tx)
      else if cm_full (am_tx_window tx) then Ret ([], tx)
      else
        bind_outcome (um_nr_next_sdu (bbq_size (am_tx_queue tx)) (am_tx_queue tx)) (\<lambda>(tx_sdu, q).
          let tx = tx\<lparr>am_tx_queue := q\<rparr>;
              sn = am_tx_next (am_st tx)
          in case tx_sdu of
               None \<Rightarrow> Ret ([], tx)
             | Some b \<Rightarrow>
                 let tx_pdu = amd_tx_pdu_0\<lparr>tx_pdcp_sn := pdcp_sn b\<rparr>
                 in if \<not> mem then Ret ([], put_pdu sn tx_pdu tx)
                    else if get_tailroom fresh_buffer < N_bytes b then Undef
                    else
                      let tx_pdu = tx_pdu\<lparr>tx_sdu_buf := Some (fresh_buffer\<lparr>data := data b\<rparr>)\<rparr>;
                          tx = put_pdu sn tx_pdu tx
                      in if nof_bytes < of_nat (N_bytes b) + min_hdr_size tx
                         then build_new_sdu_segment sn tx_pdu nof_bytes tx
                         else
                           let (poll, tx) = get_pdu_poll sn False (of_nat (N_bytes b)) tx;
                               hdr = \<lparr>am_dc = RLC_DC_FIELD_DATA_PDU, am_p = poll, am_si = full_sdu,
                                      am_sn_size = am_tx_sn_field_length (am_tx_cfg tx), am_sn = sn, am_so = 0\<rparr>;
                               tx = put_pdu sn (tx_pdu\<lparr>tx_header := hdr\<rparr>) tx
                           in bind_outcome (outcome_of (prepend_bytes (fst (rlc_am_nr_write_data_pdu_header hdr)) b)) (\<lambda>pdu.
                                Ret (data pdu, tx\<lparr>am_st := (am_st tx)\<lparr>am_tx_next := (sn + 1) mod tx_mod_nr tx\<rparr>\<rparr>))))"

definition build_continuation_sdu_segment ::
  "rlc_amd_tx_pdu_nr \<Rightarrow> u32 \<Rightarrow> rlc_am_nr_tx \<Rightarrow> (bytes \<times> rlc_am_nr_tx) outcome" where
  "build_continuation_sdu_segment tx_pdu nof_bytes tx =
     (case tx_sdu_buf tx_pdu of None \<Rightarrow> Undef
      | Some sdu_buf \<Rightarrow>
        let sn = sdu_under_segmentation_sn tx;
            sdu_len = of_nat (N_bytes sdu_buf) :: u32
        in if segment_list tx_pdu = [] then Ret ([], tx\<lparr>sdu_under_segmentation_sn := INVALID_RLC_SN\<rparr>)
           else if nof_bytes \<le> max_hdr_size tx then Ret ([], tx)
           else
             let seg = last (segment_list tx_pdu);
                 last_byte = seg_so seg + payload_len seg
             in if sdu_len < last_byte then Ret ([], tx)
                else
                  let fits = \<not> nof_bytes < sdu_len - last_byte + max_hdr_size tx;
                      si = (if fits then last_segment else neither_first_nor_last_segment);
                      segment_payload_len = (if fits then sdu_len - last_byte else nof_bytes - max_hdr_size tx);
                      tx = (if fits then tx\<lparr>sdu_under_segmentation_sn := INVALID_RLC_SN\<rparr> else tx);
                      tx_next = am_tx_next (am_st tx);
                      (poll, tx) = get_pdu_poll tx_next False segment_payload_len tx;
                      hdr = \<lparr>am_dc = RLC_DC_FIELD_DATA_PDU, am_p = poll, am_si = si,
                             am_sn_size = am_tx_sn_field_length (am_tx_cfg tx), am_sn = tx_next, am_so = ucast last_byte\<rparr>;
                      tx_pdu = tx_pdu\<lparr>tx_header := hdr\<rparr>;
                      hdr_len = of_nat (rlc_am_nr_packed_length hdr) :: u32
                  in if nof_bytes \<le> hdr_len \<or> hdr_len \<noteq> max_hdr_size tx then Ret ([], put_pdu sn tx_pdu tx)
                     else if \<not> hdr_len + segment_payload_len \<le> nof_bytes then Undef
                     else
                       bind_outcome (sdu_slice sdu_buf last_byte segment_payload_len) (\<lambda>bs.
                       bind_outcome (am_pdu_bytes hdr bs) (\<lambda>payload.
                         let tx = put_pdu sn (tx_pdu\<lparr>segment_list := segment_list tx_pdu @
                                    [\<lparr>seg_so = last_byte, payload_len = segment_payload_len\<rparr>]\<rparr>) tx
                         in Ret (payload, if fits then tx\<lparr>am_st := (am_st tx)\<lparr>am_tx_next := (tx_next + 1) mod tx_mod_nr tx\<rparr>\<rparr>
                                          else tx))))"

section \<open>Retransmission\<close>

definition is_retx_segmentation_required :: "rlc_amd_retx_nr \<Rightarrow> u32 \<Rightarrow> rlc_am_nr_tx \<Rightarrow> bool outcome" where
  "is_retx_segmentation_required retx nof_bytes tx =
     (if is_segment retx then
        Ret (nof_bytes < retx_so_start retx + segment_length retx - current_so retx
                         + (if current_so retx = 0 then min_hdr_size tx else max_hdr_size tx))
      else bind_outcome (outcome_of (tx_pdu_at tx (retx_sn retx))) (\<lambda>pdu.
           bind_outcome (outcome_of (tx_sdu_buf pdu)) (\<lambda>sdu_buf.
             Ret (nof_bytes < of_nat (N_bytes sdu_buf) + min_hdr_size tx))))"

definition get_retx_expected_hdr_len :: "rlc_amd_retx_nr \<Rightarrow> rlc_am_nr_tx \<Rightarrow> u32" where
  "get_retx_expected_hdr_len retx tx =
     (if is_segment retx \<and> current_so retx \<noteq> 0 then max_hdr_size tx else min_hdr_size tx)"

definition build_retx_pdu_without_segmentation ::
  "rlc_amd_retx_nr \<Rightarrow> u32 \<Rightarrow> rlc_am_nr_tx \<Rightarrow> (bytes \<times> rlc_am_nr_tx) outcome" where
  "build_retx_pdu_without_segmentation retx nof_bytes tx =
     bind_outcome (outcome_of (tx_pdu_at tx (retx_sn retx))) (\<lambda>tx_pdu.
     bind_outcome (is_retx_segmentation_required retx nof_bytes tx) (\<lambda>required.
     if required then Undef else
     bind_outcome (outcome_of (tx_sdu_buf tx_pdu)) (\<lambda>sdu_buf.
       let sdu_len = of_nat (N_bytes sdu_buf) :: u32;
           retx_payload_len = (if is_segment retx then retx_so_start retx + segment_length retx - current_so retx
                               else sdu_len)
       in if \<not> get_retx_expected_hdr_len retx tx + retx_payload_len \<le> nof_bytes then Undef
          else
            let si = (if is_segment retx
                      then (if current_so retx = 0 then first_segment
                            else if current_so retx + retx_payload_len < sdu_len then neither_first_nor_last_segment
                            else last_segment)
                      else full_sdu);
                (poll, tx) = get_pdu_poll (retx_sn retx) True 0 (tx\<lparr>retx_queue := tl (retx_queue tx)\<rparr>);
                hdr = (tx_header tx_pdu)\<lparr>am_si := si, am_so := ucast (current_so retx), am_p := poll\<rparr>;
                hdr_len = of_nat (rlc_am_nr_packed_length hdr) :: u32
            in if \<not> hdr_len + retx_payload_len \<le> nof_bytes then Undef
               else
                 bind_outcome (sdu_slice sdu_buf (current_so retx) retx_payload_len) (\<lambda>bs.
                 bind_outcome (am_pdu_bytes hdr bs) (\<lambda>payload. Ret (payload, tx))))))"

text \<open>The first segment that starts at the offset is replaced by two.\<close>

fun split_segment :: "u32 \<Rightarrow> u32 \<Rightarrow> pdu_segment list \<Rightarrow> pdu_segment list" where
  "split_segment so len [] = []"
| "split_segment so len (s # ss) =
     (if seg_so s = so
      then \<lparr>seg_so = so, payload_len = len\<rparr> # \<lparr>seg_so = so + len, payload_len = payload_len s - len\<rparr> # ss
      else s # split_segment so len ss)"

text \<open>\<open>retx\<close> is the front of the queue, and is changed through its reference.\<close>

definition build_retx_pdu_with_segmentation ::
  "rlc_amd_retx_nr \<Rightarrow> u32 \<Rightarrow> rlc_am_nr_tx \<Rightarrow> (bytes \<times> rlc_am_nr_tx) outcome" where
  "build_retx_pdu_with_segmentation retx nof_bytes tx =
     bind_outcome (outcome_of (tx_pdu_at tx (retx_sn retx))) (\<lambda>tx_pdu.
     bind_outcome (is_retx_segmentation_required retx nof_bytes tx) (\<lambda>required.
     if \<not> required then Undef else
     bind_outcome (outcome_of (tx_sdu_buf tx_pdu)) (\<lambda>sdu_buf.
       let sdu_len = of_nat (N_bytes sdu_buf) :: u32;
           expected_hdr_len = (if current_so retx \<noteq> 0 then max_hdr_size tx else min_hdr_size tx);
           si = (if current_so retx \<noteq> 0 then neither_first_nor_last_segment else first_segment)
       in if nof_bytes \<le> expected_hdr_len then Ret ([], tx)
          else if sdu_len + expected_hdr_len < nof_bytes then Ret ([], tx)
          else
            let retx_pdu_payload_size = nof_bytes - expected_hdr_len;
                (poll, tx) = get_pdu_poll (retx_sn retx) True 0 tx;
                hdr = (tx_header tx_pdu)\<lparr>am_p := poll, am_so := ucast (current_so retx), am_si := si\<rparr>;
                hdr_len = of_nat (rlc_am_nr_packed_length hdr) :: u32
            in if nof_bytes \<le> hdr_len \<or> hdr_len \<noteq> expected_hdr_len then Ret ([], tx)
               else if \<not> hdr_len + retx_pdu_payload_size \<le> nof_bytes then Undef
               else
                 bind_outcome (sdu_slice sdu_buf (current_so retx) retx_pdu_payload_size) (\<lambda>bs.
                 bind_outcome (am_pdu_bytes hdr bs) (\<lambda>payload.
                   let segs = (if is_segment retx
                               then split_segment (current_so retx) retx_pdu_payload_size (segment_list tx_pdu)
                               else segment_list tx_pdu @
                                 [\<lparr>seg_so = current_so retx, payload_len = retx_pdu_payload_size\<rparr>,
                                  \<lparr>seg_so = current_so retx + retx_pdu_payload_size,
                                   payload_len = segment_length retx - retx_pdu_payload_size\<rparr>]);
                       retx = retx\<lparr>is_segment := True, current_so := current_so retx + retx_pdu_payload_size\<rparr>;
                       tx = (put_pdu (retx_sn retx) (tx_pdu\<lparr>segment_list := segs\<rparr>) tx)
                              \<lparr>retx_queue := retx # tl (retx_queue tx)\<rparr>
                   in if sdu_len \<le> current_so retx then Ret ([], tx)
                      else if retx_so_start retx + segment_length retx \<le> current_so retx then Ret ([], tx)
                      else Ret (payload, tx))))))"

text \<open>
  SNs that are not in the window any more are dropped from the front of the queue.  The code then
  assigns the next element to the reference to the element it has just removed.
\<close>

definition build_retx_pdu :: "u32 \<Rightarrow> rlc_am_nr_tx \<Rightarrow> (bytes \<times> rlc_am_nr_tx) outcome" where
  "build_retx_pdu nof_bytes tx =
     (case retx_queue tx of
        [] \<Rightarrow> Ret ([], tx)
      | retx # rest \<Rightarrow>
          if tx_pdu_at tx (retx_sn retx) = None
          then (if rest \<noteq> [] then Undef else Ret ([], tx\<lparr>retx_queue := rest\<rparr>))
          else
            bind_outcome (is_retx_segmentation_required retx nof_bytes tx) (\<lambda>segmentation_required.
              if segmentation_required then build_retx_pdu_with_segmentation retx nof_bytes tx
              else build_retx_pdu_without_segmentation retx nof_bytes tx))"

end
