(* ===== verification/AmNrTxControl.thy ===== *)
theory AmNrTxControl
  imports AmNrTx
begin

text \<open>
  The rest of the transmitter of \<^verbatim>\<open>rlc/rlc_am_nr.cc\<close>: a MAC opportunity, the buffer state, status
  reports that arrive, the timer.
\<close>

section \<open>MAC interface\<close>

definition am_tx_do_status :: "rlc_am_nr_rx \<Rightarrow> bool" where
  "am_tx_do_status rx = get_do_status rx"

definition am_nr_tx_has_data :: "rlc_am_nr_rx \<Rightarrow> rlc_am_nr_tx \<Rightarrow> bool" where
  "am_nr_tx_has_data rx tx \<longleftrightarrow>
     am_tx_do_status rx \<or> bbq_get_n_sdus (am_tx_queue tx) \<noteq> 0 \<or> retx_queue tx \<noteq> []"

text \<open>
  The status PDU of the receiver, for whose size of sequence numbers it is made, is written with
  the size of the transmitter.  \<open>owns\<close> says whether the receiver's lock is free.
\<close>

definition build_status_pdu ::
  "bool \<Rightarrow> u32 \<Rightarrow> rlc_am_nr_rx \<Rightarrow> rlc_am_nr_tx \<Rightarrow> (bytes \<times> rlc_am_nr_rx) outcome" where
  "build_status_pdu owns nof_bytes rx tx =
     bind_outcome (outcome_of (rlc_am_nr_status_pdu (am_rx_sn_field_length (am_tx_cfg tx)))) (\<lambda>status.
     bind_outcome (get_status_pdu owns nof_bytes status rx) (\<lambda>(pdu_len, status, rx).
       if pdu_len = - 1 then Ret ([], rx)
       else if 0 < sint pdu_len \<and> pdu_len \<le> nof_bytes then
         (let pdu = rlc_am_nr_write_status_pdu status (am_tx_sn_field_length (am_tx_cfg tx))
          in if get_tailroom fresh_buffer < length pdu then Undef else Ret (pdu, rx))
       else Ret ([], rx)))"

text \<open>\<open>mem\<close> and \<open>mem'\<close>: the allocation of a status PDU, of an SDU's copy.\<close>

definition am_nr_tx_read_pdu ::
  "bool \<Rightarrow> bool \<Rightarrow> bool \<Rightarrow> u32 \<Rightarrow> rlc_am_nr_rx \<Rightarrow> rlc_am_nr_tx \<Rightarrow> (bytes \<times> rlc_am_nr_rx \<times> rlc_am_nr_tx) outcome" where
  "am_nr_tx_read_pdu owns mem mem' nof_bytes rx tx =
     (if \<not> am_tx_enabled tx then Ret ([], rx, tx)
      else if am_tx_do_status rx then
        (if \<not> mem then Ret ([], rx, tx)
         else bind_outcome (build_status_pdu owns nof_bytes rx tx) (\<lambda>(pdu, rx). Ret (pdu, rx, tx)))
      else
        bind_outcome
          (if retx_queue tx \<noteq> [] then build_retx_pdu nof_bytes tx
           else if sdu_under_segmentation_sn tx \<noteq> INVALID_RLC_SN then
             (case tx_pdu_at tx (sdu_under_segmentation_sn tx) of
                None \<Rightarrow> Ret ([], tx\<lparr>sdu_under_segmentation_sn := INVALID_RLC_SN\<rparr>)
              | Some tx_pdu \<Rightarrow> build_continuation_sdu_segment tx_pdu nof_bytes tx)
           else if bbq_is_empty (am_tx_queue tx) then Ret ([], tx)
           else build_new_pdu mem' nof_bytes tx)
          (\<lambda>(pdu, tx). Ret (pdu, rx, tx)))"

text \<open>The bytes needed for the queue of retransmissions.\<close>

definition retx_bytes :: "rlc_am_nr_tx \<Rightarrow> rlc_amd_retx_nr \<Rightarrow> u32" where
  "retx_bytes tx retx =
     (if tx_pdu_at tx (retx_sn retx) = None then 0
      else if sint (segment_length retx) \<le> 0 then 0
      else segment_length retx
           + (if is_segment retx \<and> current_so retx \<noteq> 0 then max_hdr_size tx else min_hdr_size tx))"

text \<open>
  The result is \<^verbatim>\<open>n_bytes_new\<close> and \<^verbatim>\<open>n_bytes_prio\<close>, which start at the arguments.
\<close>

definition am_nr_tx_get_buffer_state ::
  "bool \<Rightarrow> u32 \<Rightarrow> u32 \<Rightarrow> rlc_am_nr_rx \<Rightarrow> rlc_am_nr_tx \<Rightarrow> (u32 \<times> u32 \<times> rlc_am_nr_rx \<times> rlc_am_nr_tx) outcome" where
  "am_nr_tx_get_buffer_state owns n_bytes_new n_bytes_prio rx tx =
     (if \<not> am_tx_enabled tx then Ret (n_bytes_new, n_bytes_prio, rx, tx)
      else
        bind_outcome
          (if am_tx_do_status rx
           then bind_outcome (get_status_pdu_length owns rx) (\<lambda>(n, rx). Ret (n_bytes_prio + n, rx))
           else Ret (n_bytes_prio, rx)) (\<lambda>(n_bytes_prio, rx).
        let n_bytes_prio = foldl (\<lambda>n r. n + retx_bytes tx r) n_bytes_prio (retx_queue tx);
            sn = sdu_under_segmentation_sn tx
        in bind_outcome
             (if sn = INVALID_RLC_SN then Ret (n_bytes_new, tx)
              else case tx_pdu_at tx sn of
                None \<Rightarrow> Ret (n_bytes_new, tx\<lparr>sdu_under_segmentation_sn := INVALID_RLC_SN\<rparr>)
              | Some seg_pdu \<Rightarrow>
                  if segment_list seg_pdu = [] then Ret (n_bytes_new, tx)
                  else bind_outcome (outcome_of (tx_sdu_buf seg_pdu)) (\<lambda>sdu_buf.
                    let seg = last (segment_list seg_pdu);
                        last_byte = seg_so seg + payload_len seg;
                        sdu_len = of_nat (N_bytes sdu_buf) :: u32
                    in Ret (if last_byte \<le> sdu_len then n_bytes_new + (sdu_len - last_byte + max_hdr_size tx)
                            else n_bytes_new, tx))) (\<lambda>(n_bytes_new, tx).
           let n_sdus = bbq_get_n_sdus (am_tx_queue tx);
               n_bytes_new = n_bytes_new + bbq_size_bytes (am_tx_queue tx) + min_hdr_size tx * n_sdus
           in Ret (n_bytes_new, n_bytes_prio, rx,
                   if has_bsr_callback tx then tx\<lparr>tx_events := tx_events tx @ [Bsr n_bytes_new n_bytes_prio]\<rparr>
                   else tx))))"

definition am_nr_tx_buffer_bytes ::
  "bool \<Rightarrow> rlc_am_nr_rx \<Rightarrow> rlc_am_nr_tx \<Rightarrow> (u32 \<times> rlc_am_nr_rx \<times> rlc_am_nr_tx) outcome" where
  "am_nr_tx_buffer_bytes owns rx tx =
     bind_outcome (am_nr_tx_get_buffer_state owns 0 0 rx tx) (\<lambda>(tx_queue, prio_tx_queue, rx, tx).
       Ret (tx_queue + prio_tx_queue, rx, tx))"

section \<open>Status reports that arrive\<close>

text \<open>The SNs acknowledged go to \<^verbatim>\<open>notify_info_vec\<close>; the fuel is the modulus.\<close>

fun process_acks :: "nat \<Rightarrow> u32 \<Rightarrow> u32 \<Rightarrow> rlc_am_nr_tx \<Rightarrow> (u32 list \<times> rlc_am_nr_tx) outcome" where
  "process_acks n sn stop_sn tx =
     (if tx_mod_base_nr tx sn < tx_mod_base_nr tx stop_sn then
        (case tx_pdu_at tx sn of
           None \<Rightarrow> Ret ([], tx)
         | Some pdu \<Rightarrow>
             (case n of 0 \<Rightarrow> Hang
              | Suc k \<Rightarrow>
                  bind_outcome
                    (process_acks k ((sn + 1) mod tx_mod_nr tx) stop_sn
                      (tx\<lparr>retx_queue := retx_remove_sn sn (retx_queue tx),
                          am_tx_window := snd (cm_erase sn (am_tx_window tx)),
                          am_st := (am_st tx)\<lparr>am_tx_next_ack := (sn + 1) mod tx_mod_nr tx\<rparr>\<rparr>))
                    (\<lambda>(sns, tx). Ret (tx_pdcp_sn pdu # sns, tx))))
      else Ret ([], tx))"

declare process_acks.simps [simp del]

text \<open>A range of NACKs, one by one: the loop compares SNs without the modulus.\<close>

definition range_nack :: "rlc_status_nack \<Rightarrow> u32 \<Rightarrow> rlc_status_nack" where
  "range_nack r range_sn =
     (let nack = rlc_status_nack\<lparr>nack_sn := range_sn\<rparr>
      in if \<not> has_so r then nack
         else
           let nack = (if range_sn = nack_sn r then nack\<lparr>so_start := so_start r\<rparr> else nack);
               nack = (if range_sn = nack_sn r + ucast (nack_range r) - 1 then nack\<lparr>so_end := so_end r\<rparr> else nack)
           in nack\<lparr>has_so := so_start nack \<noteq> 0 \<or> so_end nack \<noteq> so_end_of_sdu\<rparr>)"

definition expand_nack :: "rlc_status_nack \<Rightarrow> rlc_status_nack list" where
  "expand_nack r =
     (if \<not> has_nack_range r then [r]
      else if nack_sn r \<le> nack_sn r + ucast (nack_range r)
      then map (\<lambda>i. range_nack r (nack_sn r + of_nat i)) [0..<unat (nack_range r)]
      else [])"

definition retx_of_segment :: "u32 \<Rightarrow> pdu_segment \<Rightarrow> rlc_amd_retx_nr" where
  "retx_of_segment sn s =
     \<lparr>retx_sn = sn, is_segment = True, retx_so_start = seg_so s, current_so = seg_so s,
      segment_length = payload_len s\<rparr>"

text \<open>\<^verbatim>\<open>std::set<uint32_t>\<close> is an ordered list; the queue and the set are changed together.\<close>

type_synonym nack_state = "rlc_amd_retx_nr list \<times> u32 list"

definition nack_segment :: "rlc_status_nack \<Rightarrow> pdu_segment \<Rightarrow> nack_state \<Rightarrow> nack_state" where
  "nack_segment nack s = (\<lambda>(q, sns).
     if ucast (so_start nack) \<le> seg_so s \<and> seg_so s \<le> ucast (so_end nack) \<and> \<not> retx_has_segment q (nack_sn nack) (seg_so s)
     then (q @ [retx_of_segment (nack_sn nack) s], insort_insert (nack_sn nack) sns)
     else (q, sns))"

definition nack_whole :: "rlc_status_nack \<Rightarrow> rlc_amd_tx_pdu_nr \<Rightarrow> nack_state \<Rightarrow> nack_state outcome" where
  "nack_whole nack pdu = (\<lambda>(q, sns).
     if retx_has_sn q (nack_sn nack) then Ret (q, sns)
     else if segment_list pdu = [] then
       bind_outcome (outcome_of (tx_sdu_buf pdu)) (\<lambda>sdu_buf.
         Ret (q @ [\<lparr>retx_sn = nack_sn nack, is_segment = False, retx_so_start = 0, current_so = 0,
                    segment_length = of_nat (N_bytes sdu_buf)\<rparr>], insort_insert (nack_sn nack) sns))
     else Ret (q @ map (retx_of_segment (nack_sn nack)) (segment_list pdu), insort_insert (nack_sn nack) sns))"

definition handle_nack :: "rlc_am_nr_tx \<Rightarrow> rlc_status_nack \<Rightarrow> nack_state \<Rightarrow> nack_state outcome" where
  "handle_nack tx nack acc =
     (if tx_mod_base_nr tx (am_tx_next_ack (am_st tx)) \<le> tx_mod_base_nr tx (nack_sn nack) \<and>
         tx_mod_base_nr tx (nack_sn nack) \<le> tx_mod_base_nr tx (am_tx_next (am_st tx))
      then (case tx_pdu_at tx (nack_sn nack) of
              None \<Rightarrow> Ret acc
            | Some pdu \<Rightarrow>
                if has_so nack then Ret (fold (nack_segment nack) (segment_list pdu) acc)
                else nack_whole nack pdu acc)
      else Ret acc)"

fun handle_nacks :: "rlc_am_nr_tx \<Rightarrow> rlc_status_nack list \<Rightarrow> nack_state \<Rightarrow> nack_state outcome" where
  "handle_nacks tx [] acc = Ret acc"
| "handle_nacks tx (n # ns) acc = bind_outcome (handle_nack tx n acc) (handle_nacks tx ns)"

definition check_sn_reached_max_retx :: "u32 \<Rightarrow> rlc_am_nr_tx \<Rightarrow> rlc_am_nr_tx outcome" where
  "check_sn_reached_max_retx sn tx =
     bind_outcome (outcome_of (tx_pdu_at tx sn)) (\<lambda>pdu.
       Ret (if retx_count pdu = max_retx_thresh (am_tx_cfg tx)
            then tx\<lparr>tx_events := tx_events tx @ [Max_retx_attempted, Notify_failure [tx_pdcp_sn pdu]],
                    tx_num_lost_pdus := tx_num_lost_pdus tx + 1\<rparr>
            else tx))"

definition count_retx :: "u32 \<Rightarrow> rlc_am_nr_tx \<Rightarrow> rlc_am_nr_tx outcome" where
  "count_retx sn tx =
     bind_outcome (outcome_of (tx_pdu_at tx sn)) (\<lambda>pdu.
       check_sn_reached_max_retx sn
         (put_pdu sn (pdu\<lparr>retx_count := (if retx_count pdu = RETX_COUNT_NOT_STARTED then 0 else retx_count pdu + 1)\<rparr>) tx))"

fun count_retxs :: "u32 list \<Rightarrow> rlc_am_nr_tx \<Rightarrow> rlc_am_nr_tx outcome" where
  "count_retxs [] tx = Ret tx"
| "count_retxs (sn # sns) tx = bind_outcome (count_retx sn tx) (count_retxs sns)"

text \<open>What \<open>handle_control_pdu\<close> does with a report that passes its sanity checks.\<close>

definition handle_status :: "rlc_am_nr_status_pdu \<Rightarrow> rlc_am_nr_tx \<Rightarrow> rlc_am_nr_tx outcome" where
  "handle_status status tx =
     (let tx = (if tx_mod_base_nr tx (poll_sn (am_st tx)) < tx_mod_base_nr tx (ack_sn status)
                then tx\<lparr>poll_retransmit_timer := (poll_retransmit_timer tx)\<lparr>is_running := False\<rparr>\<rparr> else tx);
          stop_sn = (if nacks status = [] then ack_sn status else nack_sn (hd (nacks status)))
      in bind_outcome (process_acks (unat (tx_mod_nr tx)) (am_tx_next_ack (am_st tx)) stop_sn tx) (\<lambda>(notify_info_vec, tx).
         bind_outcome (handle_nacks tx (concat (map expand_nack (nacks status))) (retx_queue tx, [])) (\<lambda>(q, retx_sn_set).
         bind_outcome (count_retxs retx_sn_set (tx\<lparr>retx_queue := q\<rparr>)) (\<lambda>tx.
           Ret (if notify_info_vec \<noteq> [] then tx\<lparr>tx_events := tx_events tx @ [Notify_delivery notify_info_vec]\<rparr> else tx)))))"

text \<open>The result of reading the PDU is not checked: a report of which a part was read counts.\<close>

definition handle_control_pdu :: "bytes \<Rightarrow> rlc_am_nr_tx \<Rightarrow> rlc_am_nr_tx outcome" where
  "handle_control_pdu payload tx =
     (if \<not> am_tx_enabled tx then Ret tx
      else
        bind_outcome (outcome_of (rlc_am_nr_status_pdu (am_tx_sn_field_length (am_tx_cfg tx)))) (\<lambda>status.
        bind_outcome (outcome_of (rlc_am_nr_read_status_pdu payload (am_tx_sn_field_length (am_tx_cfg tx)) status))
          (\<lambda>(_, status).
            if \<not> valid_ack_sn tx (ack_sn status) then Ret tx
            else if tx_mod_base_nr tx (am_tx_next (am_st tx) + 1) < tx_mod_base_nr tx (ack_sn status) then Ret tx
            else handle_status status tx)))"

section \<open>Timer\<close>

definition am_nr_tx_timer_expired :: "rlc_am_nr_tx \<Rightarrow> rlc_am_nr_tx outcome" where
  "am_nr_tx_timer_expired tx =
     (if bbq_is_empty (am_tx_queue tx) \<and> retx_queue tx = [] \<or> cm_full (am_tx_window tx) then
        (if cm_empty (am_tx_window tx) then Ret tx
         else case tx_pdu_at tx (am_tx_next_ack (am_st tx)) of
           None \<Rightarrow> Ret tx
         | Some pdu \<Rightarrow>
             (case segment_list pdu of
                [] \<Rightarrow>
                  bind_outcome (outcome_of (tx_sdu_buf pdu)) (\<lambda>sdu_buf.
                    Ret (tx\<lparr>retx_queue := retx_queue tx @
                      [\<lparr>retx_sn = am_tx_next_ack (am_st tx), is_segment = False, retx_so_start = 0, current_so = 0,
                        segment_length = of_nat (N_bytes sdu_buf)\<rparr>]\<rparr>))
              | s # _ \<Rightarrow>
                  Ret (tx\<lparr>retx_queue := retx_queue tx @
                    [\<lparr>retx_sn = am_tx_next_ack (am_st tx), is_segment = True, retx_so_start = 0, current_so = 0,
                      segment_length = payload_len s\<rparr>]\<rparr>)))
      else Ret tx)"

definition am_nr_tx_expire :: "rlc_am_nr_tx \<Rightarrow> rlc_am_nr_tx outcome" where
  "am_nr_tx_expire tx =
     (let tx' = tx\<lparr>poll_retransmit_timer := (poll_retransmit_timer tx)\<lparr>is_running := False\<rparr>\<rparr>
      in if timer_set (poll_retransmit_timer tx) then am_nr_tx_timer_expired tx' else Ret tx')"

end
