(* ===== verification/AmBase.thy ===== *)
theory AmBase
  imports AmNrTxControl
begin

text \<open>
  The RLC AM entity (\<^verbatim>\<open>rlc/rlc_am_base.cc\<close>) of a NR bearer: the transmitter and the receiver with
  the bearer's metrics, and the operations the transmitter inherits.  Of the PDUs that arrive,
  control PDUs go to the transmitter and data PDUs to the receiver.
\<close>

section \<open>The queue of the transmitter\<close>

text \<open>
  \<open>write_sdu\<close> of the transmitter; the result says whether \<^verbatim>\<open>ISRRAN_SUCCESS\<close> is returned.
\<close>

definition am_tx_write_sdu :: "byte_buffer option \<Rightarrow> rlc_am_nr_tx \<Rightarrow> (bool \<times> rlc_am_nr_tx) outcome" where
  "am_tx_write_sdu sdu tx =
     (if \<not> am_tx_enabled tx then Ret (False, tx)
      else case sdu of None \<Rightarrow> Ret (False, tx)
      | Some b \<Rightarrow>
          (case bbq_try_write (Some b) (am_tx_queue tx) of
             None \<Rightarrow> Undef
           | Some (Blocks, _) \<Rightarrow> Hang
           | Some (Done ok, q) \<Rightarrow> Ret (ok, tx\<lparr>am_tx_queue := q\<rparr>)))"

text \<open>\<open>discard_sdu\<close> stops at the first SDU that has the PDCP sequence number.\<close>

definition am_discard_fn ::
  "u32 \<Rightarrow> byte_buffer option \<Rightarrow> queue_counters \<Rightarrow> bool \<times> byte_buffer option \<times> queue_counters" where
  "am_discard_fn discard_sn sdu counters =
     (case sdu of
        Some b \<Rightarrow>
          if pdcp_sn b = discard_sn then (True, None, pop_callback sdu counters)
          else (False, sdu, counters)
      | None \<Rightarrow> (False, None, counters))"

definition am_tx_discard_sdu :: "u32 \<Rightarrow> rlc_am_nr_tx \<Rightarrow> (bool \<times> rlc_am_nr_tx) outcome" where
  "am_tx_discard_sdu discard_sn tx =
     (if \<not> am_tx_enabled tx then Ret (False, tx)
      else case bbq_apply_first (am_discard_fn discard_sn) (am_tx_queue tx) of
             None \<Rightarrow> Undef
           | Some (discarded, q) \<Rightarrow> Ret (discarded, tx\<lparr>am_tx_queue := q\<rparr>))"

definition am_tx_sdu_queue_is_full :: "rlc_am_nr_tx \<Rightarrow> bool" where
  "am_tx_sdu_queue_is_full tx = bbq_is_full (am_tx_queue tx)"

definition am_tx_set_bsr_callback :: "bool \<Rightarrow> rlc_am_nr_tx \<Rightarrow> rlc_am_nr_tx" where
  "am_tx_set_bsr_callback callback tx = tx\<lparr>has_bsr_callback := callback\<rparr>"

section \<open>Entity\<close>

record rlc_am =
  am_tx :: rlc_am_nr_tx
  am_rx :: rlc_am_nr_rx
  am_metrics :: rlc_bearer_metrics

definition rlc_am_is_control_pdu :: "u8 \<Rightarrow> bool" where
  "rlc_am_is_control_pdu b \<longleftrightarrow> drop_bit 7 b AND 0x01 = dc_val RLC_DC_FIELD_CONTROL_PDU"

text \<open>
  \<open>am_configure\<close>: the receiver first.  The result says whether \<^verbatim>\<open>true\<close> is returned.
\<close>

definition am_configure ::
  "(nat \<Rightarrow> nat \<Rightarrow> nat) \<Rightarrow> rlc_am_nr_config \<Rightarrow> nat \<Rightarrow> rlc_am \<Rightarrow> (bool \<times> rlc_am) outcome" where
  "am_configure grow cfg tx_queue_length e =
     bind_outcome (am_nr_rx_configure cfg) (\<lambda>rx.
     bind_outcome (am_nr_tx_configure grow cfg tx_queue_length (am_tx e)) (\<lambda>(ok, tx).
       Ret (ok, e\<lparr>am_rx := rx, am_tx := tx\<rparr>)))"

definition am_stop :: "rlc_am \<Rightarrow> rlc_am outcome" where
  "am_stop e = bind_outcome (am_nr_tx_stop (am_tx e)) (\<lambda>tx. Ret (e\<lparr>am_tx := tx, am_rx := am_nr_rx_stop (am_rx e)\<rparr>))"

definition am_reestablish :: "rlc_am \<Rightarrow> rlc_am outcome" where
  "am_reestablish e =
     bind_outcome (am_nr_tx_reestablish (am_tx e)) (\<lambda>tx.
       Ret (e\<lparr>am_tx := tx, am_rx := am_nr_rx_reestablish (am_rx e)\<rparr>))"

definition am_empty_queue :: "rlc_am \<Rightarrow> rlc_am outcome" where
  "am_empty_queue e = bind_outcome (am_tx_empty_queue (am_tx e)) (\<lambda>tx. Ret (e\<lparr>am_tx := tx\<rparr>))"

text \<open>PDCP interface.  The length of the SDU is read before the pointer is checked.\<close>

definition am_write_sdu :: "byte_buffer option \<Rightarrow> rlc_am \<Rightarrow> rlc_am outcome" where
  "am_write_sdu sdu e =
     (case sdu of None \<Rightarrow> Undef
      | Some b \<Rightarrow>
          bind_outcome (am_tx_write_sdu sdu (am_tx e)) (\<lambda>(ok, tx).
            Ret (if ok
                 then e\<lparr>am_tx := tx, am_metrics := (am_metrics e)
                        \<lparr>num_tx_sdus := num_tx_sdus (am_metrics e) + 1,
                         num_tx_sdu_bytes := num_tx_sdu_bytes (am_metrics e) + of_nat (N_bytes b)\<rparr>\<rparr>
                 else e\<lparr>am_tx := tx\<rparr>)))"

definition am_discard_sdu :: "u32 \<Rightarrow> rlc_am \<Rightarrow> rlc_am outcome" where
  "am_discard_sdu discard_sn e =
     bind_outcome (am_tx_discard_sdu discard_sn (am_tx e)) (\<lambda>(_, tx).
       Ret (e\<lparr>am_tx := tx, am_metrics := (am_metrics e)\<lparr>num_lost_sdus := num_lost_sdus (am_metrics e) + 1\<rparr>\<rparr>))"

definition am_sdu_queue_is_full :: "rlc_am \<Rightarrow> bool" where
  "am_sdu_queue_is_full e = am_tx_sdu_queue_is_full (am_tx e)"

text \<open>MAC interface.\<close>

definition am_has_data :: "rlc_am \<Rightarrow> bool" where
  "am_has_data e = am_nr_tx_has_data (am_rx e) (am_tx e)"

definition am_get_buffer_state :: "bool \<Rightarrow> rlc_am \<Rightarrow> (u32 \<times> rlc_am) outcome" where
  "am_get_buffer_state owns e =
     bind_outcome (am_nr_tx_buffer_bytes owns (am_rx e) (am_tx e)) (\<lambda>(n, rx, tx).
       Ret (n, e\<lparr>am_rx := rx, am_tx := tx\<rparr>))"

definition am_read_pdu :: "bool \<Rightarrow> bool \<Rightarrow> bool \<Rightarrow> u32 \<Rightarrow> rlc_am \<Rightarrow> (bytes \<times> rlc_am) outcome" where
  "am_read_pdu owns mem mem' nof_bytes e =
     bind_outcome (am_nr_tx_read_pdu owns mem mem' nof_bytes (am_rx e) (am_tx e)) (\<lambda>(payload, rx, tx).
       Ret (payload, e\<lparr>am_rx := rx, am_tx := tx, am_metrics := (am_metrics e)
         \<lparr>num_tx_pdus := num_tx_pdus (am_metrics e) + (if 0 < length payload then 1 else 0),
          num_tx_pdu_bytes := num_tx_pdu_bytes (am_metrics e) + of_nat (length payload)\<rparr>\<rparr>))"

text \<open>\<open>am_rx_write_pdu\<close> is \<^verbatim>\<open>rlc_am_base_rx::write_pdu\<close>, which sees the parent's transmitter.\<close>

definition am_rx_write_pdu :: "bool \<Rightarrow> bool \<Rightarrow> bytes \<Rightarrow> rlc_am \<Rightarrow> rlc_am outcome" where
  "am_rx_write_pdu mem mem' payload e =
     (if length payload < 1 then Ret e
      else if rlc_am_is_control_pdu (hd payload)
      then bind_outcome (handle_control_pdu payload (am_tx e)) (\<lambda>tx. Ret (e\<lparr>am_tx := tx\<rparr>))
      else bind_outcome (am_nr_rx_handle_data_pdu mem mem' payload (am_rx e)) (\<lambda>rx. Ret (e\<lparr>am_rx := rx\<rparr>)))"

definition am_write_pdu :: "bool \<Rightarrow> bool \<Rightarrow> bytes \<Rightarrow> rlc_am \<Rightarrow> rlc_am outcome" where
  "am_write_pdu mem mem' payload e =
     bind_outcome (am_rx_write_pdu mem mem' payload e) (\<lambda>e.
       Ret (e\<lparr>am_metrics := (am_metrics e)
         \<lparr>num_rx_pdus := num_rx_pdus (am_metrics e) + 1,
          num_rx_pdu_bytes := num_rx_pdu_bytes (am_metrics e) + of_nat (length payload)\<rparr>\<rparr>))"

definition am_reset_metrics :: "rlc_am \<Rightarrow> rlc_am" where
  "am_reset_metrics e = e\<lparr>am_metrics := rlc_bearer_metrics_0\<rparr>"

end
