(* ===== verification/AmNrRxWindow.thy ===== *)
theory AmNrRxWindow
  imports AmNrRx
begin

text \<open>
  The receiver's window with sequence numbers unrolled: SDU \<open>i\<close> of an unbounded stream carries
  the sequence number \<open>i\<close> modulo the modulus, and the state variables are the numbers of SDUs.
\<close>

section \<open>Sequence numbers of a stream\<close>

definition am_sn_of :: "u32 \<Rightarrow> nat \<Rightarrow> u32" where
  "am_sn_of m i = of_nat (i mod unat m)"

lemma am_modulus_pos: "am_modulus m \<Longrightarrow> 0 < unat m"
  by (auto simp: am_modulus_def)

lemma unat_of_uint: "uint (w :: 'a::len word) = int k \<Longrightarrow> unat w = k"
proof -
  assume "uint w = int k"
  then have "int (unat w) = int k" by simp
  then show ?thesis by linarith
qed

lemma uint_am_sn_of:
  assumes "am_modulus m"
  shows "uint (am_sn_of m i) = int i mod uint m"
proof -
  have "i mod unat m < unat m" using am_modulus_pos [OF assms] by simp
  also have "unat m < 2 ^ 32" using assms by (auto simp: am_modulus_def)
  finally have "i mod unat m < 2 ^ 32" .
  then have "uint (am_sn_of m i) = int (i mod unat m)"
    by (simp add: am_sn_of_def unsigned_of_nat take_bit_nat_eq_self)
  then show ?thesis by (simp add: zmod_int)
qed

lemma uint_sn_base:
  assumes "am_modulus m"
  shows "uint ((x - y) mod m) = (uint x - uint y) mod uint m"
proof -
  have "uint m dvd 2 ^ 32" using assms by (auto simp: am_modulus_def)
  then show ?thesis by (simp add: uint_mod_distrib uint_word_ariths mod_mod_cancel)
qed

lemma base_am_sn_of:
  assumes "am_modulus m"
  shows "uint ((am_sn_of m i - am_sn_of m n) mod m) = (int i - int n) mod uint m"
  by (simp only: uint_sn_base [OF assms] uint_am_sn_of [OF assms] mod_diff_eq)

lemma base_above:
  assumes "am_modulus m" "n \<le> i" "i < n + unat m"
  shows "unat ((am_sn_of m i - am_sn_of m n) mod m) = i - n"
proof (rule unat_of_uint)
  have "int i - int n < int (unat m)" using assms(3) by linarith
  then have "(int i - int n) mod uint m = int i - int n"
    using assms(2) by (intro mod_pos_pos_trivial) simp_all
  then show "uint ((am_sn_of m i - am_sn_of m n) mod m) = int (i - n)"
    using base_am_sn_of [OF assms(1), of i n] assms(2) by simp
qed

lemma base_below:
  assumes "am_modulus m" "i < n" "n \<le> i + unat m"
  shows "unat ((am_sn_of m i - am_sn_of m n) mod m) = unat m + i - n"
proof (rule unat_of_uint)
  have b: "0 \<le> int i - int n + int (unat m)" "int i - int n + int (unat m) < int (unat m)"
    "int i - int n + int (unat m) = int (unat m + i - n)"
    using assms(2,3) by linarith+
  have "(int i - int n) mod uint m = (int i - int n + uint m) mod uint m" by simp
  also have "\<dots> = int i - int n + uint m"
    using b(1,2) by (intro mod_pos_pos_trivial) simp_all
  finally show "uint ((am_sn_of m i - am_sn_of m n) mod m) = int (unat m + i - n)"
    using base_am_sn_of [OF assms(1), of i n] b(3) by simp
qed

lemma am_sn_of_Suc:
  assumes "am_modulus m"
  shows "(am_sn_of m i + 1) mod m = am_sn_of m (Suc i)"
proof (rule word_uint_eqI)
  have "uint m dvd 2 ^ 32" using assms by (auto simp: am_modulus_def)
  then have "uint ((am_sn_of m i + 1) mod m) = (uint (am_sn_of m i) + 1) mod uint m"
    by (simp add: uint_mod_distrib uint_word_ariths mod_mod_cancel)
  also have "\<dots> = int (Suc i) mod uint m"
    by (simp add: uint_am_sn_of [OF assms] mod_simps add.commute)
  finally show "uint ((am_sn_of m i + 1) mod m) = uint (am_sn_of m (Suc i))"
    by (simp add: uint_am_sn_of [OF assms])
qed

lemma sn_base_mod:
  assumes "am_modulus m"
  shows "(x mod m - y) mod m = (x - y) mod m"
  unfolding word_uint_eq_iff uint_sn_base [OF assms] by (simp only: uint_mod_distrib mod_diff_left_eq)

lemma sn_base_Suc:
  assumes "am_modulus m"
  shows "(am_sn_of m i + 1 - x) mod m = (am_sn_of m (Suc i) - x) mod m"
  by (simp only: am_sn_of_Suc [OF assms, symmetric] sn_base_mod [OF assms])

lemma am_sn_of_mod: "am_modulus m \<Longrightarrow> am_sn_of m i mod m = am_sn_of m i"
  by (rule word_uint_eqI) (simp only: uint_am_sn_of uint_mod_distrib mod_mod_trivial)

lemma am_sn_of_inj:
  assumes "am_modulus m" "am_sn_of m i = am_sn_of m j" "n \<le> i" "i < n + unat m" "n \<le> j" "j < n + unat m"
  shows "i = j"
  using base_above [OF assms(1,3,4)] base_above [OF assms(1,5,6)] assms(2,3,5) by simp

lemma unat_am_sn_of:
  assumes "am_modulus m"
  shows "unat (am_sn_of m i) = i mod unat m"
  using uint_am_sn_of [OF assms, of i] by (intro unat_of_uint) (simp add: zmod_int)

section \<open>The window in terms of the stream\<close>

abbreviation rx_sn :: "rlc_am_nr_rx \<Rightarrow> nat \<Rightarrow> u32" where
  "rx_sn rx i \<equiv> am_sn_of (rx_mod_nr rx) i"

abbreviation rx_entry :: "rlc_am_nr_rx \<Rightarrow> nat \<Rightarrow> rlc_amd_rx_sdu_nr option" where
  "rx_entry rx i \<equiv> cm_at (am_rx_window rx) (rx_sn rx i)"

abbreviation rx_W :: "rlc_am_nr_rx \<Rightarrow> nat" where
  "rx_W rx \<equiv> cm_N (am_rx_window rx)"

definition rx_cfg_sizes :: "rlc_am_nr_rx \<Rightarrow> bool" where
  "rx_cfg_sizes rx \<longleftrightarrow>
     am_rx_sn_field_length (am_rx_cfg rx) = am_size12bits \<and> rx_mod_nr rx = 4096 \<and> rx_W rx = 2048 \<or>
     am_rx_sn_field_length (am_rx_cfg rx) = am_size18bits \<and> rx_mod_nr rx = 262144 \<and> rx_W rx = 131072"

text \<open>
  \<open>N\<close> is the lower edge of the window and \<open>H\<close> the number after the highest SDU of which something
  was received; every object of the window is of an SDU in between.
\<close>

definition am_win :: "rlc_am_nr_rx \<Rightarrow> nat \<Rightarrow> nat \<Rightarrow> bool" where
  "am_win rx N H \<longleftrightarrow> rx_cfg_sizes rx \<and> cm_ok (am_rx_window rx) \<and>
     am_rx_next rx = rx_sn rx N \<and> rx_next_highest rx = rx_sn rx H \<and> N \<le> H \<and> H \<le> N + rx_W rx \<and>
     (\<forall>k. cm_at (am_rx_window rx) k \<noteq> None \<longrightarrow> (\<exists>i. N \<le> i \<and> i < H \<and> k = rx_sn rx i))"

lemma rx_cfg_sizesD:
  assumes "rx_cfg_sizes rx"
  shows "am_modulus (rx_mod_nr rx)" "unat (rx_mod_nr rx) = 2 * rx_W rx" "2048 \<le> rx_W rx"
    "unat (am_rx_window_size rx) = rx_W rx" "am_rx_sn_field_length (am_rx_cfg rx) \<noteq> am_nulltype"
  using assms by (auto simp: rx_cfg_sizes_def am_modulus_def am_rx_window_size_def)

lemma am_winD:
  assumes "am_win rx N H"
  shows "rx_cfg_sizes rx" "cm_ok (am_rx_window rx)" "am_rx_next rx = rx_sn rx N"
    "rx_next_highest rx = rx_sn rx H" "N \<le> H" "H \<le> N + rx_W rx"
    "cm_at (am_rx_window rx) k \<noteq> None \<Longrightarrow> \<exists>i. N \<le> i \<and> i < H \<and> k = rx_sn rx i"
  using assms by (auto simp: am_win_def)

lemmas am_win_cfg = am_winD(1) [THEN rx_cfg_sizesD(1)] am_winD(1) [THEN rx_cfg_sizesD(2)]
  am_winD(1) [THEN rx_cfg_sizesD(3)] am_winD(1) [THEN rx_cfg_sizesD(4)]

lemma rx_base_frame [simp]:
  "rx_mod_base_nr (rx\<lparr>am_rx_window := w\<rparr>) = rx_mod_base_nr rx"
  "rx_mod_base_nr (rx\<lparr>rx_next_highest := h\<rparr>) = rx_mod_base_nr rx"
  "rx_mod_base_nr (rx\<lparr>rx_highest_status := h\<rparr>) = rx_mod_base_nr rx"
  "rx_mod_base_nr (rx\<lparr>rx_next_status_trigger := h\<rparr>) = rx_mod_base_nr rx"
  "rx_mod_base_nr (rx\<lparr>do_status := b\<rparr>) = rx_mod_base_nr rx"
  "rx_mod_base_nr (rx\<lparr>reassembly_timer := t\<rparr>) = rx_mod_base_nr rx"
  "rx_mod_base_nr (rx\<lparr>am_to_pdcp := l\<rparr>) = rx_mod_base_nr rx"
  by (auto simp: rx_mod_base_nr_def fun_eq_iff)

lemma rx_base:
  assumes "am_win rx N H" "N \<le> i" "i < N + 2 * rx_W rx"
  shows "unat (rx_mod_base_nr rx (rx_sn rx i)) = i - N"
  using base_above [of "rx_mod_nr rx" N i] assms am_win_cfg(1,2) [OF assms(1)] am_winD(3) [OF assms(1)]
  by (simp add: rx_mod_base_nr_def)

lemma rx_base_past:
  assumes "am_win rx N H" "i < N" "N \<le> i + rx_W rx"
  shows "unat (rx_mod_base_nr rx (rx_sn rx i)) = 2 * rx_W rx + i - N"
  using base_below [of "rx_mod_nr rx" i N] assms am_win_cfg(1,2) [OF assms(1)] am_winD(3) [OF assms(1)]
  by (simp add: rx_mod_base_nr_def)

lemma rx_base_less:
  assumes "am_win rx N H" "N \<le> i" "i < N + 2 * rx_W rx" "N \<le> j" "j < N + 2 * rx_W rx"
  shows "rx_mod_base_nr rx (rx_sn rx i) < rx_mod_base_nr rx (rx_sn rx j) \<longleftrightarrow> i < j"
    "rx_mod_base_nr rx (rx_sn rx i) \<le> rx_mod_base_nr rx (rx_sn rx j) \<longleftrightarrow> i \<le> j"
    "rx_mod_base_nr rx (rx_sn rx i) = rx_mod_base_nr rx (rx_sn rx j) \<longleftrightarrow> i = j"
  using rx_base [OF assms(1-3)] rx_base [OF assms(1,4,5)] assms(2,4)
  by (auto simp: word_less_nat_alt word_le_nat_alt word_unat_eq_iff)

lemma rx_inside:
  assumes "am_win rx N H" "N \<le> i + rx_W rx" "i < N + 2 * rx_W rx"
  shows "inside_rx_window rx (rx_sn rx i) \<longleftrightarrow> N \<le> i \<and> i < N + rx_W rx"
proof (cases "N \<le> i")
  case True
  then show ?thesis using rx_base [OF assms(1) True assms(3)] am_win_cfg(4) [OF assms(1)]
    by (auto simp: inside_rx_window_def word_less_nat_alt)
next
  case False
  then show ?thesis using rx_base_past [OF assms(1)] assms(2) am_win_cfg(4) [OF assms(1)]
    by (auto simp: inside_rx_window_def word_less_nat_alt)
qed

lemma rx_base_Suc:
  assumes "am_win rx N H"
  shows "rx_mod_base_nr rx (rx_sn rx i + 1) = rx_mod_base_nr rx (rx_sn rx (Suc i))"
  by (simp add: rx_mod_base_nr_def sn_base_Suc [OF am_win_cfg(1) [OF assms]])

lemma rx_sn_inj:
  assumes "am_win rx N H" "N \<le> i" "i < N + 2 * rx_W rx" "N \<le> j" "j < N + 2 * rx_W rx"
  shows "rx_sn rx i = rx_sn rx j \<longleftrightarrow> i = j"
  using am_sn_of_inj [OF am_win_cfg(1) [OF assms(1)], of i j N] am_win_cfg(2) [OF assms(1)] assms by auto

text \<open>Distinct numbers of the window have distinct slots.\<close>

lemma rx_slot_inj:
  assumes "am_win rx N H"
  shows "inj_on (cm_idx (am_rx_window rx)) (rx_sn rx ` {N..<N + rx_W rx})"
proof -
  have idx: "cm_idx (am_rx_window rx) (rx_sn rx i) = i mod rx_W rx" for i
    by (simp add: cm_idx_def unat_am_sn_of [OF am_win_cfg(1) [OF assms]] am_win_cfg(2) [OF assms]
        mod_mod_cancel)
  have less: "i = j" if h: "i mod rx_W rx = j mod rx_W rx" "N \<le> i" "i \<le> j" "j < N + rx_W rx" for i j
  proof -
    have "(j - i) mod rx_W rx = 0" using h(1,3) by (metis mod_eq_dvd_iff_nat dvd_imp_mod_0)
    moreover have "j - i < rx_W rx" using h by simp
    ultimately show ?thesis using h(3) by simp
  qed
  show ?thesis
  proof (rule inj_onI, clarsimp simp: idx)
    fix i j assume h: "N \<le> i" "i < N + rx_W rx" "N \<le> j" "j < N + rx_W rx" "i mod rx_W rx = j mod rx_W rx"
    have "i = j" using less [of i j] less [of j i] h by (cases "i \<le> j") simp_all
    then show "rx_sn rx i = rx_sn rx j" by simp
  qed
qed

lemma rx_put:
  assumes "am_win rx N H" "N \<le> i" "i < N + rx_W rx"
  shows "cm_at (cm_overwrite (rx_sn rx i) v (am_rx_window rx)) = (cm_at (am_rx_window rx))(rx_sn rx i := Some v)"
proof (rule cm.at_add_inj [OF am_winD(2) [OF assms(1)] rx_slot_inj [OF assms(1)]])
  show "rx_sn rx i \<in> rx_sn rx ` {N..<N + rx_W rx}" using assms(2,3) by simp
next
  fix k assume "cm_at (am_rx_window rx) k \<noteq> None"
  from am_winD(7) [OF assms(1) this] am_winD(6) [OF assms(1)]
  show "k \<in> rx_sn rx ` {N..<N + rx_W rx}" by force
qed

lemma rx_entry_none:
  assumes "am_win rx N H" "H \<le> i" "i < N + 2 * rx_W rx"
  shows "rx_entry rx i = None"
proof (rule ccontr)
  assume "rx_entry rx i \<noteq> None"
  then obtain j where j: "N \<le> j" "j < H" "rx_sn rx i = rx_sn rx j" using am_winD(7) [OF assms(1)] by blast
  then show False using rx_sn_inj [OF assms(1), of i j] assms(2,3) am_winD(5,6) [OF assms(1)] by simp
qed

section \<open>The loops over sequence numbers\<close>

abbreviation rx_recv :: "rlc_am_nr_rx \<Rightarrow> nat \<Rightarrow> bool" where
  "rx_recv rx i \<equiv> rx_received rx (rx_sn rx i)"

lemma rx_received_frame [simp]:
  "rx_received (rx\<lparr>rx_highest_status := h\<rparr>) = rx_received rx"
  "rx_received (rx\<lparr>rx_next_highest := h\<rparr>) = rx_received rx"
  "rx_received (rx\<lparr>am_rx_next := h\<rparr>) = rx_received rx"
  by (auto simp: rx_received_def fun_eq_iff)

lemma rx_recv_range:
  assumes "am_win rx N H" "rx_recv rx i" "N \<le> i" "i < N + 2 * rx_W rx"
  shows "i < H"
  using rx_entry_none [OF assms(1), of i] assms(2-4) by (cases "H \<le> i") (auto simp: rx_received_def)

lemma rx_fuel_eq: "am_win rx N H \<Longrightarrow> rx_fuel rx = 2 * rx_W rx"
  using am_win_cfg(2) by (simp add: rx_fuel_def)

lemma rx_loop_go:
  assumes "am_win rx N H" "N \<le> i" "i < N + 2 * rx_W rx"
  shows "rx_mod_base_nr rx (rx_sn rx i) < rx_mod_base_nr rx (rx_next_highest rx) \<and> rx_recv rx i \<longleftrightarrow> rx_recv rx i"
proof -
  have "H < N + 2 * rx_W rx" using am_winD(6) [OF assms(1)] am_win_cfg(3) [OF assms(1)] by simp
  then show ?thesis
    using rx_base_less(1) [OF assms, of H] rx_recv_range [OF assms(1) _ assms(2,3)] am_winD(4,5) [OF assms(1)]
    by auto
qed

lemma skip_received_spec:
  assumes "am_win rx N H" "N \<le> i" "i \<le> H" "H - i \<le> n"
  shows "\<exists>j. skip_received n rx (rx_sn rx i) = Ret (rx_sn rx j) \<and> i \<le> j \<and> j \<le> H \<and>
    (\<forall>k. i \<le> k \<and> k < j \<longrightarrow> rx_recv rx k) \<and> \<not> rx_recv rx j"
  using assms(2-4)
proof (induction n arbitrary: i)
  case (0 i)
  have r: "i < N + 2 * rx_W rx" using 0 am_winD(6) [OF assms(1)] am_win_cfg(3) [OF assms(1)] by simp
  have "\<not> rx_recv rx i" using rx_recv_range [OF assms(1) _ 0(1) r] 0 by auto
  then show ?case using 0 rx_loop_go [OF assms(1) 0(1) r] by (intro exI [of _ i]) (auto simp: skip_received.simps)
next
  case (Suc n i)
  have r: "i < N + 2 * rx_W rx" using Suc.prems am_winD(6) [OF assms(1)] am_win_cfg(3) [OF assms(1)] by simp
  note go = rx_loop_go [OF assms(1) Suc.prems(1) r]
  show ?case
  proof (cases "rx_recv rx i")
    case True
    have i: "i < H" using rx_recv_range [OF assms(1) True Suc.prems(1) r] .
    have h: "H - Suc i \<le> n" "N \<le> Suc i" "Suc i \<le> H" using Suc.prems i by linarith+
    then obtain j where j: "skip_received n rx (rx_sn rx (Suc i)) = Ret (rx_sn rx j)" "Suc i \<le> j" "j \<le> H"
      "\<forall>k. Suc i \<le> k \<and> k < j \<longrightarrow> rx_recv rx k" "\<not> rx_recv rx j"
      using Suc.IH [of "Suc i"] by blast
    have "skip_received (Suc n) rx (rx_sn rx i) = skip_received n rx (rx_sn rx (Suc i))"
      using True go by (simp add: skip_received.simps [of "Suc n"] am_sn_of_Suc [OF am_win_cfg(1) [OF assms(1)]])
    moreover have "\<forall>k. i \<le> k \<and> k < j \<longrightarrow> rx_recv rx k" using j(4) True by (metis Suc_leI le_neq_implies_less)
    ultimately show ?thesis using j by (intro exI [of _ j]) simp
  next
    case False
    then show ?thesis using Suc.prems go by (intro exI [of _ i]) (auto simp: skip_received.simps [of "Suc n"])
  qed
qed

lemma am_win_erase:
  assumes "am_win rx N H"
  shows "am_win (rx\<lparr>am_rx_window := snd (cm_erase k (am_rx_window rx))\<rparr>) N H"
  using assms cm.ok_remove [OF am_winD(2) [OF assms], of k]
  by (auto simp: am_win_def rx_cfg_sizes_def cm.at_remove split: if_splits)

lemma remove_received_spec:
  assumes "am_win rx N H" "N \<le> i" "i \<le> H" "H - i \<le> n"
  shows "\<exists>j w. remove_received n rx (rx_sn rx i) = Ret (rx_sn rx j, rx\<lparr>am_rx_window := w\<rparr>) \<and>
    i \<le> j \<and> j \<le> H \<and> (\<forall>k. i \<le> k \<and> k < j \<longrightarrow> rx_recv rx k) \<and> \<not> rx_recv rx j \<and>
    cm_ok w \<and> cm_N w = rx_W rx \<and>
    cm_at w = (\<lambda>k. if k \<in> rx_sn rx ` {i..<j} then None else cm_at (am_rx_window rx) k)"
  using assms
proof (induction n arbitrary: i rx)
  case (0 i rx)
  have r: "i < N + 2 * rx_W rx" using 0 am_winD(6) [OF 0(1)] am_win_cfg(3) [OF 0(1)] by simp
  have "\<not> rx_recv rx i" using rx_recv_range [OF 0(1) _ 0(2) r] 0 by auto
  then show ?case using 0 rx_loop_go [OF 0(1,2) r] am_winD(2) [OF 0(1)]
    by (intro exI [of _ i] exI [of _ "am_rx_window rx"]) (auto simp: remove_received.simps)
next
  case (Suc n i rx)
  have r: "i < N + 2 * rx_W rx" using Suc.prems am_winD(6) [OF Suc.prems(1)] am_win_cfg(3) [OF Suc.prems(1)] by simp
  note go = rx_loop_go [OF Suc.prems(1,2) r]
  show ?case
  proof (cases "rx_recv rx i")
    case True
    let ?rx = "rx\<lparr>am_rx_window := snd (cm_erase (rx_sn rx i) (am_rx_window rx))\<rparr>"
    have i: "i < H" using rx_recv_range [OF Suc.prems(1) True Suc.prems(2) r] .
    have at: "cm_at (am_rx_window ?rx) = (cm_at (am_rx_window rx))(rx_sn rx i := None)"
      using cm.at_remove_fun [OF am_winD(2) [OF Suc.prems(1)]] by simp
    have h: "H - Suc i \<le> n" "N \<le> Suc i" "Suc i \<le> H" using Suc.prems i by linarith+
    obtain j w where j: "remove_received n ?rx (rx_sn rx (Suc i)) = Ret (rx_sn rx j, ?rx\<lparr>am_rx_window := w\<rparr>)"
      "Suc i \<le> j" "j \<le> H" "\<forall>k. Suc i \<le> k \<and> k < j \<longrightarrow> rx_received ?rx (rx_sn rx k)" "\<not> rx_received ?rx (rx_sn rx j)"
      "cm_ok w" "cm_N w = rx_W rx"
      "cm_at w = (\<lambda>k. if k \<in> rx_sn rx ` {Suc i..<j} then None else cm_at (am_rx_window ?rx) k)"
      using Suc.IH [OF am_win_erase [OF Suc.prems(1)], of "Suc i" "rx_sn rx i"] h by auto
    have ne: "rx_sn rx k \<noteq> rx_sn rx i" if "Suc i \<le> k" "k \<le> H" for k
      using rx_sn_inj [OF Suc.prems(1), of k i] that Suc.prems(2) i am_winD(6) [OF Suc.prems(1)]
        am_win_cfg(3) [OF Suc.prems(1)] by simp
    have recv: "rx_received ?rx (rx_sn rx k) \<longleftrightarrow> rx_recv rx k" if "Suc i \<le> k" "k \<le> H" for k
      using ne [OF that] at by (simp add: rx_received_def)
    have "remove_received (Suc n) rx (rx_sn rx i) = Ret (rx_sn rx j, rx\<lparr>am_rx_window := w\<rparr>)"
      using True go j(1) by (simp add: remove_received.simps [of "Suc n"] am_sn_of_Suc [OF am_win_cfg(1) [OF Suc.prems(1)]])
    moreover have "\<forall>k. i \<le> k \<and> k < j \<longrightarrow> rx_recv rx k"
      using j(3,4) recv True by (metis Suc_leI le_neq_implies_less less_imp_le order.trans)
    moreover have "\<not> rx_recv rx j" using j(2,3,5) recv by blast
    moreover have "{i..<j} = insert i {Suc i..<j}" using j(2) by auto
    then have "cm_at w = (\<lambda>k. if k \<in> rx_sn rx ` {i..<j} then None else cm_at (am_rx_window rx) k)"
      unfolding j(8) at by (auto simp: fun_eq_iff)
    ultimately show ?thesis using j(2,3,6,7) by (intro exI [of _ j] exI [of _ w]) simp
  next
    case False
    then show ?thesis using Suc.prems go am_winD(2) [OF Suc.prems(1)]
      by (intro exI [of _ i] exI [of _ "am_rx_window rx"]) (auto simp: remove_received.simps [of "Suc n"])
  qed
qed

end
