(* ===== verification/AmNrSegments.thy ===== *)
theory AmNrSegments
  imports AmNrRx
begin

text \<open>
  The segments of one SDU: what the ordered set of the receiver stands for, when its inventory
  says that the SDU is complete, and what the check for bytes received before lets in.
\<close>

abbreviation seg_start :: "rlc_amd_rx_pdu_nr \<Rightarrow> nat" where
  "seg_start s \<equiv> unat (am_so (seg_header s))"

abbreviation seg_len :: "rlc_amd_rx_pdu_nr \<Rightarrow> nat" where
  "seg_len s \<equiv> N_bytes (seg_buf s)"

abbreviation seg_end :: "rlc_amd_rx_pdu_nr \<Rightarrow> nat" where
  "seg_end s \<equiv> seg_start s + seg_len s"

text \<open>A segment of the SDU \<open>d\<close>, and an ordered set of disjoint ones.\<close>

definition seg_of :: "bytes \<Rightarrow> rlc_amd_rx_pdu_nr \<Rightarrow> bool" where
  "seg_of d s \<longleftrightarrow> 0 < seg_len s \<and> seg_end s \<le> length d \<and>
     data (seg_buf s) = take (seg_len s) (drop (seg_start s) d) \<and>
     (am_si (seg_header s) = last_segment \<longleftrightarrow> seg_end s = length d)"

definition segs_of :: "bytes \<Rightarrow> rlc_amd_rx_pdu_nr list \<Rightarrow> bool" where
  "segs_of d ss \<longleftrightarrow> (\<forall>s \<in> set ss. seg_of d s) \<and> sorted_wrt (\<lambda>a b. seg_end a \<le> seg_start b) ss"

definition covers :: "rlc_amd_rx_pdu_nr list \<Rightarrow> nat \<Rightarrow> bool" where
  "covers ss b \<longleftrightarrow> (\<exists>s \<in> set ss. seg_start s \<le> b \<and> b < seg_end s)"

lemma segs_of_Nil [simp]: "segs_of d []"
  by (simp add: segs_of_def)

lemma segs_of_Cons:
  "segs_of d (s # ss) \<longleftrightarrow> seg_of d s \<and> (\<forall>t \<in> set ss. seg_end s \<le> seg_start t) \<and> segs_of d ss"
  by (auto simp: segs_of_def)

text \<open>Offsets keep their value in \<^verbatim>\<open>uint32_t\<close>.\<close>

lemma unat_offset: "unat (ucast (x :: u16) :: u32) = unat x"
proof -
  have "unat x < 2 ^ LENGTH(16)" by (rule unsigned_less)
  then have "unat x < 2 ^ 32" by simp
  then show ?thesis unfolding unsigned_ucast_eq by (simp add: take_bit_nat_eq_self)
qed

lemma unat_u32: "k < 2 ^ 18 \<Longrightarrow> unat (of_nat k :: u32) = k"
  by (simp add: unsigned_of_nat take_bit_nat_eq_self)

lemma ucast_offset: "(ucast (x :: u16) :: u32) = of_nat (unat x)"
proof -
  have "unat x < 2 ^ LENGTH(16)" by (rule unsigned_less)
  then have "unat x < 2 ^ 18" by simp
  then show ?thesis unfolding word_unat_eq_iff unat_offset by (rule unat_u32 [symmetric])
qed

section \<open>The inventory\<close>

lemma segment_inventory_spec:
  assumes "segs_of d ss" "\<forall>s \<in> set ss. p \<le> seg_start s" "p < length d" "length d < 2 ^ 16"
  shows "(if snd (segment_inventory (of_nat p) ss)
          then concat (map (data \<circ> seg_buf) ss) = drop p d
          else \<exists>b. p \<le> b \<and> b < length d \<and> \<not> covers ss b)"
  using assms
proof (induction ss arbitrary: p)
  case Nil
  then show ?case by (auto simp: covers_def intro: exI [of _ p])
next
  case (Cons s ss)
  note s = Cons.prems(1) [unfolded segs_of_Cons]
  have sd: "data (seg_buf s) = take (seg_len s) (drop (seg_start s) d)" "0 < seg_len s" "seg_end s \<le> length d"
    "am_si (seg_header s) = last_segment \<longleftrightarrow> seg_end s = length d"
    using s by (auto simp: seg_of_def)
  have p: "(ucast (am_so (seg_header s)) :: u32) = of_nat p \<longleftrightarrow> seg_start s = p"
  proof -
    have "unat (of_nat p :: u32) = p" using Cons.prems(3,4) by (intro unat_u32) simp
    then show ?thesis by (metis unat_offset ucast_offset)
  qed
  consider "seg_start s \<noteq> p" | "seg_start s = p" "seg_end s = length d" | "seg_start s = p" "seg_end s < length d"
    using sd(3) by linarith
  then show ?case
  proof cases
    case 1
    have "\<not> covers (s # ss) p"
      using 1 Cons.prems(2) s sd(2) by (force simp: covers_def)
    then show ?thesis using 1 p Cons.prems(3) by auto
  next
    case 2
    have "ss = []"
    proof (cases ss)
      case (Cons t ts)
      then have "seg_of d t" "seg_end s \<le> seg_start t" using s by (auto simp: segs_of_Cons)
      then show ?thesis using 2(2) by (auto simp: seg_of_def)
    qed simp
    then show ?thesis using 2 p sd(1,4) by simp
  next
    case 3
    have "segs_of d ss" "\<forall>t \<in> set ss. p + seg_len s \<le> seg_start t" using s 3 by auto
    note IH = Cons.IH [OF this, unfolded of_nat_add] 
    have inv: "segment_inventory (of_nat p) (s # ss) = segment_inventory (of_nat p + of_nat (seg_len s)) ss"
      using 3 p sd(4) by simp
    show ?thesis
    proof (cases "snd (segment_inventory (of_nat p + of_nat (seg_len s)) ss)")
      case True
      then have "concat (map (data \<circ> seg_buf) ss) = drop (p + seg_len s) d" using IH 3 Cons.prems(4) by simp
      moreover have "data (seg_buf s) @ drop (seg_len s) (drop p d) = drop p d"
        using sd(1) 3(1) by (metis append_take_drop_id)
      ultimately show ?thesis unfolding inv using True by (simp add: add.commute [of p])
    next
      case False
      then obtain b where "p + seg_len s \<le> b" "b < length d" "\<not> covers ss b" using IH 3 Cons.prems(4) by auto
      then have "p \<le> b \<and> b < length d \<and> \<not> covers (s # ss) b" using 3(1) by (auto simp: covers_def)
      then show ?thesis unfolding inv using False by auto
    qed
  qed
qed

lemma segment_inventory_full:
  assumes "segs_of d ss" "0 < length d" "length d < 2 ^ 16"
  shows "snd (segment_inventory 0 ss) \<Longrightarrow> concat (map (data \<circ> seg_buf) ss) = d"
    and "\<not> snd (segment_inventory 0 ss) \<Longrightarrow> \<exists>b < length d. \<not> covers ss b"
  using segment_inventory_spec [OF assms(1) _ assms(2,3)] by auto

section \<open>Insertion\<close>

lemma insert_segment_spec:
  assumes "segs_of d ss" "seg_of d s" "\<forall>t \<in> set ss. seg_end s \<le> seg_start t \<or> seg_end t \<le> seg_start s"
  shows "set (insert_received_segment s ss) = insert s (set ss) \<and> segs_of d (insert_received_segment s ss)"
  using assms
proof (induction ss)
  case Nil
  then show ?case by (simp add: segs_of_Cons)
next
  case (Cons t ts)
  note t = Cons.prems(1) [unfolded segs_of_Cons]
  have "0 < seg_len s" "0 < seg_len t" using t Cons.prems(2) by (auto simp: seg_of_def)
  then consider "seg_end s \<le> seg_start t" "seg_start s < seg_start t"
    | "seg_end t \<le> seg_start s" "seg_start t < seg_start s"
    using Cons.prems(3) by (auto intro: that)
  then show ?case
  proof cases
    case 1
    then have "\<forall>u \<in> set (t # ts). seg_end s \<le> seg_start u" using t by fastforce
    then show ?thesis using 1 Cons.prems(1,2) by (simp add: word_less_nat_alt segs_of_Cons)
  next
    case 2
    then have "insert_received_segment s (t # ts) = t # insert_received_segment s ts"
      by (simp add: word_less_nat_alt)
    then show ?thesis using Cons.IH t Cons.prems(2,3) 2 by (auto simp: segs_of_Cons)
  qed
qed

section \<open>Bytes that were received before\<close>

lemma overlap_arith:
  "0 < m \<Longrightarrow> 0 < (l :: nat) \<Longrightarrow>
   (a \<le> b \<and> b \<le> a + l - 1 \<or> a \<le> b + m - 1 \<and> b + m - 1 \<le> a + l - 1) \<longleftrightarrow>
   (a \<le> b \<and> b < a + l) \<or> (a < b + m \<and> b + m \<le> a + l)"
  by arith

lemma of_nat_pred: "0 < l \<Longrightarrow> (of_nat (a + l - 1) :: u32) = of_nat a + of_nat l - 1"
  by (cases l) simp_all

lemma overlaps_iff:
  assumes "0 < len" "0 < seg_len t" "unat (am_so h) + len < 2 ^ 17" "seg_end t < 2 ^ 17" "n < 2 ^ 17"
  shows "overlaps_segment h (of_nat (n + len)) (of_nat n) t \<longleftrightarrow>
    (seg_start t \<le> unat (am_so h) \<and> unat (am_so h) < seg_end t) \<or>
    (seg_start t < unat (am_so h) + len \<and> unat (am_so h) + len \<le> seg_end t)"
proof -
  have l: "ucast (am_so (seg_header t)) + of_nat (seg_len t) - 1 = (of_nat (seg_end t - 1) :: u32)"
    by (simp only: ucast_offset of_nat_pred [OF assms(2)])
  have p: "ucast (am_so h) + of_nat (n + len) - of_nat n - 1 = (of_nat (unat (am_so h) + len - 1) :: u32)"
    by (simp only: ucast_offset of_nat_pred [OF assms(1)]) (simp only: of_nat_add diff_conv_add_uminus, simp add: algebra_simps)
  have b: "seg_end t - 1 < 2 ^ 18" "unat (am_so h) + len - 1 < 2 ^ 18"
    using assms(3,4) by simp_all
  show ?thesis unfolding overlaps_segment_def Let_def l p word_le_nat_alt unat_offset
      unat_u32 [OF b(1)] unat_u32 [OF b(2)]
    using overlap_arith [OF assms(1,2)] .
qed

text \<open>What passes the check is disjoint from a stored segment or contains it on both sides.\<close>

lemma not_overlaps:
  assumes "0 < len" "0 < seg_len t" "unat (am_so h) + len < 2 ^ 17" "seg_end t < 2 ^ 17" "n < 2 ^ 17"
    "\<not> overlaps_segment h (of_nat (n + len)) (of_nat n) t"
    "\<not> (unat (am_so h) < seg_start t \<and> seg_end t < unat (am_so h) + len)"
  shows "unat (am_so h) + len \<le> seg_start t \<or> seg_end t \<le> unat (am_so h)"
  using overlaps_iff [OF assms(1-5)] assms(6,7) by linarith

section \<open>Assembly\<close>

lemma assemble_segments_spec:
  assumes "headroom b + N_bytes b + length (concat (map (data \<circ> seg_buf) ss)) \<le> ISRRAN_MAX_BUFFER_SIZE_BYTES"
  shows "assemble_segments ss b = Ret (b\<lparr>data := data b @ concat (map (data \<circ> seg_buf) ss)\<rparr>)"
  using assms
proof (induction ss arbitrary: b)
  case (Cons s ss)
  then have "append_bytes (data (seg_buf s)) b = Some (b\<lparr>data := data b @ data (seg_buf s)\<rparr>)"
    by (simp add: append_bytes_def get_tailroom_def)
  then show ?case using Cons by simp
qed simp

end
