(* ===== verification/AmNrReceive.thy ===== *)
theory AmNrReceive
  imports AmNrRxWindow AmNrSegments
begin

text \<open>
  The steps of \<open>am_nr_rx_handle_data_pdu\<close> in terms of a stream's numbering: what placing a PDU does
  to the window, the state variables and the timer, and what is stored of the PDUs of a stream.
\<close>

section \<open>Placing an object in the window\<close>

lemma am_win_put:
  assumes "am_win rx N H" "N \<le> i" "i < N + rx_W rx"
  shows "am_win (rx\<lparr>am_rx_window := cm_overwrite (rx_sn rx i) s (am_rx_window rx),
                    rx_next_highest := rx_sn rx (max H (Suc i))\<rparr>) N (max H (Suc i))"
proof -
  note w = am_winD [OF assms(1)]
  have k: "\<exists>j. N \<le> j \<and> j < max H (Suc i) \<and> k = rx_sn rx j"
    if k: "cm_at (cm_overwrite (rx_sn rx i) s (am_rx_window rx)) k \<noteq> None" for k
  proof (cases "k = rx_sn rx i")
    case True
    then show ?thesis using assms(2) by (intro exI [of _ i]) simp
  next
    case False
    then obtain j where "N \<le> j" "j < H" "k = rx_sn rx j" using k w(7) [of k] rx_put [OF assms] by auto
    then show ?thesis by (intro exI [of _ j]) simp
  qed
  have "cm_N (cm_overwrite (rx_sn rx i) s (am_rx_window rx)) = rx_W rx" by simp
  then have "rx_cfg_sizes (rx\<lparr>am_rx_window := cm_overwrite (rx_sn rx i) s (am_rx_window rx),
      rx_next_highest := rx_sn rx (max H (Suc i))\<rparr>)"
    using w(1) by (simp add: rx_cfg_sizes_def)
  then show ?thesis
    using w(3,5,6) assms(2,3) k cm.ok_add [OF w(2)] by (simp add: am_win_def)
qed

lemma rx_pdu_placed_eq:
  fixes s :: rlc_amd_rx_sdu_nr
  assumes "am_win rx N H" "N \<le> i" "i < N + rx_W rx"
  defines "rx' \<equiv> rx\<lparr>am_rx_window := cm_overwrite (rx_sn rx i) s (am_rx_window rx),
                    rx_next_highest := rx_sn rx (max H (Suc i))\<rparr>"
  shows "rx_pdu_placed (rx_sn rx i) (rx\<lparr>am_rx_window := cm_overwrite (rx_sn rx i) s (am_rx_window rx)\<rparr>) =
    bind_outcome (if fully_received s then rx_sdu_complete (rx_sn rx i) rx' else Ret rx') rx_update_timer"
proof -
  have "H < N + 2 * rx_W rx" using am_winD(6) [OF assms(1)] am_win_cfg(3) [OF assms(1)] by simp
  then have "rx_mod_base_nr rx (rx_next_highest rx) \<le> rx_mod_base_nr rx (rx_sn rx i) \<longleftrightarrow> H \<le> i"
    using rx_base_less(2) [OF assms(1), of H i] am_winD(4,5) [OF assms(1)] assms(2,3) by simp
  moreover have "rx_received rx' (rx_sn rx i) = fully_received s"
    using rx_put [OF assms(1-3)] by (simp add: rx_received_def rx'_def)
  moreover have "max H (Suc i) = (if H \<le> i then Suc i else H)" by simp
  moreover have "rx\<lparr>am_rx_window := w, rx_next_highest := rx_next_highest rx\<rparr> = rx\<lparr>am_rx_window := w\<rparr>" for w
    by (cases rx) simp
  ultimately show ?thesis
    using am_winD(4) [OF assms(1), symmetric] am_sn_of_Suc [OF am_win_cfg(1) [OF assms(1)], of i]
    unfolding rx'_def by (cases "H \<le> i") (simp_all add: rx_pdu_placed_def Let_def)
qed

section \<open>Delivery\<close>

lemma rx_sdu_complete_spec:
  assumes w: "am_win rx N H" and i: "N \<le> i" "i < H"
    and s: "rx_entry rx i = Some s" "fully_received s" "rx_sdu_buf s = Some b"
    and S: "rx_highest_status rx = rx_sn rx S" "N \<le> S" "S \<le> H" "S \<noteq> i \<Longrightarrow> \<not> rx_recv rx S"
    and N: "N \<noteq> i \<Longrightarrow> \<not> rx_recv rx N"
  obtains N' S' win where
    "rx_sdu_complete (rx_sn rx i) rx = Ret (rx\<lparr>am_rx_window := win, am_rx_next := rx_sn rx N',
       rx_highest_status := rx_sn rx S', am_to_pdcp := am_to_pdcp rx @ [b], num_rx_sdus := num_rx_sdus rx + 1,
       num_rx_sdu_bytes := num_rx_sdu_bytes rx + of_nat (N_bytes b)\<rparr>)"
    "cm_ok win" "cm_N win = rx_W rx" "N \<le> N'" "N' \<le> S'" "S' \<le> H"
    "cm_at win = (\<lambda>k. if k \<in> rx_sn rx ` {N..<N'} then None
       else if k = rx_sn rx i then Some (s\<lparr>rx_sdu_buf := None\<rparr>) else cm_at (am_rx_window rx) k)"
    "\<forall>k. N \<le> k \<and> k < N' \<longrightarrow> rx_recv rx k" "\<not> rx_recv rx N'" "\<not> rx_recv rx S'"
proof -
  let ?win = "cm_overwrite (rx_sn rx i) (s\<lparr>rx_sdu_buf := None\<rparr>) (am_rx_window rx)"
  let ?rx1 = "rx\<lparr>am_rx_window := ?win, am_to_pdcp := am_to_pdcp rx @ [b],
     num_rx_sdus := num_rx_sdus rx + 1, num_rx_sdu_bytes := num_rx_sdu_bytes rx + of_nat (N_bytes b)\<rparr>"
  have iW: "i < N + rx_W rx" "i < N + 2 * rx_W rx" "S < N + 2 * rx_W rx" "H < N + 2 * rx_W rx"
    using i am_winD(6) [OF w] am_win_cfg(3) [OF w] S by simp_all
  have at1: "cm_at ?win = (cm_at (am_rx_window rx))(rx_sn rx i := Some (s\<lparr>rx_sdu_buf := None\<rparr>))"
    using rx_put [OF w i(1) iW(1)] .
  have wr: "write_to_upper_layers (rx_sn rx i) rx = Ret ?rx1"
    using s by (simp add: write_to_upper_layers_def)
  have "max H (Suc i) = H" using i(2) by simp
  then have "am_win (rx\<lparr>am_rx_window := ?win, rx_next_highest := rx_sn rx H\<rparr>) N H"
    using am_win_put [OF w i(1) iW(1), of "s\<lparr>rx_sdu_buf := None\<rparr>"] by simp
  then have w1: "am_win (?rx1\<lparr>rx_highest_status := h\<rparr>) N H" for h
    using am_winD(4) [OF w] by (simp add: am_win_def rx_cfg_sizes_def)
  have w1': "am_win ?rx1 N H" using w1 [of "rx_highest_status ?rx1"] by simp
  have recv1: "rx_received (?rx1\<lparr>rx_highest_status := h\<rparr>) k \<longleftrightarrow> rx_received rx k" for h k
    using at1 s by (simp add: rx_received_def)
  have recv1': "rx_received ?rx1 k \<longleftrightarrow> rx_received rx k" for k
    using recv1 [of "rx_highest_status ?rx1"] by simp
  have rec_i: "rx_recv rx i" using s by (simp add: rx_received_def)
  obtain S' where S': "
       (if rx_mod_base_nr ?rx1 (rx_sn rx i) = rx_mod_base_nr ?rx1 (rx_highest_status ?rx1)
        then bind_outcome (skip_received (rx_fuel ?rx1) ?rx1 ((rx_highest_status ?rx1 + 1) mod rx_mod_nr ?rx1))
               (\<lambda>sn_upd. Ret (?rx1\<lparr>rx_highest_status := sn_upd\<rparr>))
        else Ret ?rx1) = Ret (?rx1\<lparr>rx_highest_status := rx_sn rx S'\<rparr>)"
    "N \<le> S'" "S' \<le> H" "\<not> rx_recv rx S'"
  proof (cases "i = S")
    case True
    have f: "H - Suc S \<le> rx_fuel ?rx1" "N \<le> Suc S" "Suc S \<le> H"
      using rx_fuel_eq [OF w1'] iW S(2) True i by simp_all
    from skip_received_spec [OF w1' f(2,3,1)] obtain j where
      j: "skip_received (rx_fuel ?rx1) ?rx1 (rx_sn ?rx1 (Suc S)) = Ret (rx_sn rx j)" "Suc S \<le> j" "j \<le> H"
      "\<not> rx_received ?rx1 (rx_sn rx j)" by auto
    show ?thesis
      using j True S(1,2) recv1' that [of j]
      by (simp add: am_sn_of_Suc [OF am_win_cfg(1) [OF w]])
  next
    case False
    have "rx_mod_base_nr ?rx1 (rx_sn ?rx1 i) \<noteq> rx_mod_base_nr ?rx1 (rx_sn ?rx1 S)"
      using rx_base_less(3) [OF w1', of i S] False i S(2) iW by simp
    moreover have "?rx1\<lparr>rx_highest_status := rx_sn rx S\<rparr> = ?rx1" using S(1) by (cases rx) simp
    ultimately show ?thesis using False S that [of S] by simp
  qed
  let ?rx2 = "?rx1\<lparr>rx_highest_status := rx_sn rx S'\<rparr>"
  have iN: "rx_mod_base_nr ?rx2 (rx_sn rx i) = rx_mod_base_nr ?rx2 (am_rx_next ?rx2) \<longleftrightarrow> i = N"
    using rx_base_less(3) [OF w1 [of "rx_sn rx S'"], of i N] i iW am_winD(3) [OF w] am_win_cfg(3) [OF w] by simp
  have upd: "?rx2\<lparr>am_rx_window := win, am_rx_next := n\<rparr> = rx\<lparr>am_rx_window := win, am_rx_next := n,
       rx_highest_status := rx_sn rx S', am_to_pdcp := am_to_pdcp rx @ [b], num_rx_sdus := num_rx_sdus rx + 1,
       num_rx_sdu_bytes := num_rx_sdu_bytes rx + of_nat (N_bytes b)\<rparr>" for win n by simp
  show thesis
  proof (cases "i = N")
    case True
    have f: "H - N \<le> rx_fuel ?rx2" using rx_fuel_eq [OF w1 [of "rx_sn rx S'"]] iW by simp
    from remove_received_spec [OF w1 [of "rx_sn rx S'"] order_refl am_winD(5) [OF w] f] obtain j win where
      j': "remove_received (rx_fuel ?rx2) ?rx2 (rx_sn ?rx2 N) = Ret (rx_sn ?rx2 j, ?rx2\<lparr>am_rx_window := win\<rparr>)"
      "N \<le> j" "j \<le> H" "\<forall>k. N \<le> k \<and> k < j \<longrightarrow> rx_received ?rx2 (rx_sn ?rx2 k)" "\<not> rx_received ?rx2 (rx_sn ?rx2 j)"
      "cm_ok win" "cm_N win = rx_W ?rx2"
      "cm_at win = (\<lambda>k. if k \<in> rx_sn ?rx2 ` {N..<j} then None else cm_at (am_rx_window ?rx2) k)"
      by blast
    have sel: "rx_mod_nr ?rx2 = rx_mod_nr rx" "am_rx_window ?rx2 = ?win" by simp_all
    note j = j' [unfolded sel]
    have "j \<le> S'" using j(4) S'(2,4) recv1 by (metis not_le)
    have "rx_sdu_complete (rx_sn rx i) rx = Ret (?rx2\<lparr>am_rx_window := win, am_rx_next := rx_sn rx j\<rparr>)"
      unfolding rx_sdu_complete_def wr bind_outcome.simps(1) S'(1)
      using iN True j(1) am_winD(3) [OF w] am_sn_of_mod [OF am_win_cfg(1) [OF w]] by simp
    then show ?thesis unfolding upd
      by (rule that) (use j recv1 S' \<open>j \<le> S'\<close> at1 in \<open>auto simp: fun_eq_iff\<close>)
  next
    case False
    have "?rx2\<lparr>am_rx_window := ?win, am_rx_next := rx_sn rx N\<rparr> = ?rx2"
      using am_winD(3) [OF w] by (cases rx) simp
    then have "rx_sdu_complete (rx_sn rx i) rx = Ret (?rx2\<lparr>am_rx_window := ?win, am_rx_next := rx_sn rx N\<rparr>)"
      unfolding rx_sdu_complete_def wr bind_outcome.simps(1) S'(1) using iN False by simp
    then show ?thesis unfolding upd
      by (rule that) (use S' at1 False N cm.ok_add [OF am_winD(2) [OF w]] in \<open>auto simp: fun_eq_iff\<close>)
  qed
qed

section \<open>The reassembly timer\<close>

text \<open>
  \<open>T\<close> is the number of \<open>RX_Next_Status_Trigger\<close> while the timer runs.  \<open>N0\<close> is the lower edge
  before the window moved.
\<close>

lemma rx_base_one:
  assumes "am_win rx N H" "N \<le> T + rx_W rx" "T < N + 2 * rx_W rx"
  shows "rx_mod_base_nr rx (rx_sn rx T) = rx_mod_base_nr rx (rx_sn rx N + 1) \<longleftrightarrow> T = Suc N"
proof (cases "N \<le> T")
  case True
  then show ?thesis
    using rx_base_less(3) [OF assms(1) True assms(3), of "Suc N"] am_win_cfg(3) [OF assms(1)]
    unfolding rx_base_Suc [OF assms(1)] by simp
next
  case False
  have "unat (rx_mod_base_nr rx (rx_sn rx (Suc N))) = 1"
    using rx_base [OF assms(1), of "Suc N"] am_win_cfg(3) [OF assms(1)] by simp
  moreover have "unat (rx_mod_base_nr rx (rx_sn rx T)) \<noteq> 1"
    using rx_base_past [OF assms(1), of T] False assms(2) am_win_cfg(3) [OF assms(1)] by simp
  ultimately have "rx_mod_base_nr rx (rx_sn rx T) \<noteq> rx_mod_base_nr rx (rx_sn rx (Suc N))" by metis
  then show ?thesis unfolding rx_base_Suc [OF assms(1)] using False by simp
qed

lemma start_reassembly_spec:
  assumes "am_win rx N H" "N \<le> S" "S \<le> H"
  shows "start_reassembly (rx_sn rx S) rx \<longleftrightarrow> Suc S < H \<or> H = Suc S \<and> rx_gap rx (rx_sn rx S)"
proof -
  have r: "H < N + 2 * rx_W rx" "Suc S < N + 2 * rx_W rx"
    using assms(2,3) am_winD(6) [OF assms(1)] am_win_cfg(3) [OF assms(1)] by simp_all
  show ?thesis
    using rx_base_less(1) [OF assms(1), of "Suc S" H] rx_base_less(3) [OF assms(1), of H "Suc S"] r assms(2)
      am_winD(5) [OF assms(1)]
    by (simp add: start_reassembly_def rx_base_Suc [OF assms(1)] am_winD(4) [OF assms(1)])
qed

definition timer_inv :: "nat \<Rightarrow> nat \<Rightarrow> rlc_am_nr_rx \<Rightarrow> bool" where
  "timer_inv N H rx \<longleftrightarrow> (is_running (reassembly_timer rx) \<longrightarrow>
     (\<exists>T. rx_next_status_trigger rx = rx_sn rx T \<and> N < T \<and> T \<le> H \<and> rx_entry rx (T - 1) \<noteq> None))"

lemma run_reassembly_spec:
  assumes "am_win rx N H" "N \<le> S" "S \<le> H" "N < H \<Longrightarrow> rx_entry rx (H - 1) \<noteq> None"
    "\<not> is_running (reassembly_timer rx)"
  obtains r t where "run_reassembly (rx_sn rx S) rx = rx\<lparr>reassembly_timer := r, rx_next_status_trigger := t\<rparr>"
    "timer_inv N H (rx\<lparr>reassembly_timer := r, rx_next_status_trigger := t\<rparr>)"
    "timer_set r = timer_set (reassembly_timer rx)"
proof (cases "start_reassembly (rx_sn rx S) rx")
  case True
  then have "N < H" using start_reassembly_spec [OF assms(1-3)] assms(2) by auto
  then have "timer_inv N H (rx\<lparr>reassembly_timer := (reassembly_timer rx)\<lparr>is_running := True\<rparr>,
      rx_next_status_trigger := rx_next_highest rx\<rparr>)"
    using assms(4) am_winD(4) [OF assms(1)] by (auto simp: timer_inv_def)
  then show ?thesis
    using that [where r = "(reassembly_timer rx)\<lparr>is_running := True\<rparr>" and t = "rx_next_highest rx"] True
    by (simp add: run_reassembly_def)
next
  case False
  have "rx\<lparr>reassembly_timer := reassembly_timer rx, rx_next_status_trigger := rx_next_status_trigger rx\<rparr> = rx"
    by (cases rx) simp
  then show ?thesis
    using that [where r = "reassembly_timer rx" and t = "rx_next_status_trigger rx"] False assms(5)
    by (simp add: run_reassembly_def timer_inv_def)
qed

lemma stop_reassembly_spec:
  assumes "am_win rx N H" "rx_next_status_trigger rx = rx_sn rx T" "N \<le> T + rx_W rx" "T \<le> H"
    "N < T \<Longrightarrow> rx_entry rx (T - 1) \<noteq> None"
  shows "\<exists>b. stop_reassembly rx = Ret b \<and> (\<not> b \<longrightarrow> N < T)"
proof -
  have r: "T < N + 2 * rx_W rx" using assms(4) am_winD(6) [OF assms(1)] am_win_cfg(3) [OF assms(1)] by simp
  have "\<exists>g. bind_outcome (if rx_mod_base_nr rx (rx_next_status_trigger rx) = rx_mod_base_nr rx (am_rx_next rx + 1)
        then bind_outcome (outcome_of (cm_at (am_rx_window rx) (am_rx_next rx))) (\<lambda>s. Ret (\<not> has_gap s))
        else Ret False) f = f g" for f :: "bool \<Rightarrow> bool outcome"
  proof (cases "T = Suc N")
    case True
    then obtain s where "rx_entry rx N = Some s" using assms(5) by auto
    then show ?thesis by (auto simp: am_winD(3) [OF assms(1)])
  next
    case False
    then show ?thesis using rx_base_one [OF assms(1,3) r] by (auto simp: assms(2) am_winD(3) [OF assms(1)])
  qed
  then obtain g where "stop_reassembly rx = Ret (rx_next_status_trigger rx = am_rx_next rx \<or> g
      \<or> \<not> inside_rx_window rx (rx_next_status_trigger rx))"
    unfolding stop_reassembly_def by blast
  then show ?thesis
    using rx_inside [OF assms(1,3) r] am_winD(3) [OF assms(1)] assms(2) by (auto simp: le_less)
qed

lemma rx_update_timer_spec:
  assumes w: "am_win rx N H" and e: "N < H \<Longrightarrow> rx_entry rx (H - 1) \<noteq> None"
    and t: "is_running (reassembly_timer rx) \<Longrightarrow> rx_next_status_trigger rx = rx_sn rx T \<and> N \<le> T + rx_W rx \<and>
       T \<le> H \<and> (N < T \<longrightarrow> rx_entry rx (T - 1) \<noteq> None)"
  obtains r t where "rx_update_timer rx = Ret (rx\<lparr>reassembly_timer := r, rx_next_status_trigger := t\<rparr>)"
    "timer_inv N H (rx\<lparr>reassembly_timer := r, rx_next_status_trigger := t\<rparr>)"
    "timer_set r = timer_set (reassembly_timer rx)"
proof -
  have id: "rx\<lparr>reassembly_timer := reassembly_timer rx, rx_next_status_trigger := rx_next_status_trigger rx\<rparr> = rx"
    by (cases rx) simp
  note fin = that
  have start: thesis
    if a: "rx_update_timer rx = Ret (run_reassembly (am_rx_next rx) rx1)" "\<not> is_running (reassembly_timer rx1)"
      "rx1 = rx\<lparr>reassembly_timer := r\<rparr>" "timer_set r = timer_set (reassembly_timer rx)" for rx1 r
  proof -
    have "am_win rx1 N H" using w a(3) by (simp add: am_win_def rx_cfg_sizes_def)
    moreover have "N < H \<Longrightarrow> rx_entry rx1 (H - 1) \<noteq> None" using e a(3) by simp
    ultimately obtain r' t where
      "run_reassembly (rx_sn rx1 N) rx1 = rx1\<lparr>reassembly_timer := r', rx_next_status_trigger := t\<rparr>"
      "timer_inv N H (rx1\<lparr>reassembly_timer := r', rx_next_status_trigger := t\<rparr>)"
      "timer_set r' = timer_set (reassembly_timer rx1)"
      using run_reassembly_spec [OF _ order_refl am_winD(5) [OF w] _ a(2)] by blast
    then show thesis using a(1,4) fin [where r = r' and t = t] unfolding a(3) by (simp add: am_winD(3) [OF w])
  qed
  show thesis
  proof (cases "is_running (reassembly_timer rx)")
    case False
    then show thesis using start [of rx "reassembly_timer rx"] by (simp add: rx_update_timer_def)
  next
    case True
    then obtain b where b: "stop_reassembly rx = Ret b" "\<not> b \<longrightarrow> N < T" using stop_reassembly_spec [OF w] t by blast
    show thesis
    proof (cases b)
      case True
      then show thesis using start [of "rx\<lparr>reassembly_timer := (reassembly_timer rx)\<lparr>is_running := False\<rparr>\<rparr>"
          "(reassembly_timer rx)\<lparr>is_running := False\<rparr>"] b \<open>is_running _\<close> by (simp add: rx_update_timer_def)
    next
      case False
      then have "timer_inv N H rx" using t b True by (auto simp: timer_inv_def)
      then show thesis using True False b fin [where r = "reassembly_timer rx" and t = "rx_next_status_trigger rx"]
        by (simp add: rx_update_timer_def id)
    qed
  qed
qed

section \<open>The PDUs of a stream\<close>

text \<open>
  The PDU that carries \<open>len\<close> bytes of the SDU \<open>d\<close> from offset \<open>so\<close>, as the transmitter builds it;
  \<open>p\<close> is the poll bit.
\<close>

definition am_piece_header :: "rlc_am_nr_sn_size \<Rightarrow> u32 \<Rightarrow> u8 \<Rightarrow> bytes \<Rightarrow> nat \<Rightarrow> nat \<Rightarrow> rlc_am_nr_pdu_header" where
  "am_piece_header sz sn p d so len =
     \<lparr>am_dc = RLC_DC_FIELD_DATA_PDU, am_p = p,
      am_si = (if so = 0 then (if len = length d then full_sdu else first_segment)
               else if so + len = length d then last_segment else neither_first_nor_last_segment),
      am_sn_size = sz, am_sn = sn, am_so = of_nat so\<rparr>"

definition am_piece_pdu :: "rlc_am_nr_sn_size \<Rightarrow> u32 \<Rightarrow> u8 \<Rightarrow> bytes \<Rightarrow> nat \<Rightarrow> nat \<Rightarrow> bytes" where
  "am_piece_pdu sz sn p d so len =
     fst (rlc_am_nr_write_data_pdu_header (am_piece_header sz sn p d so len)) @ take len (drop so d)"

text \<open>SDUs that fit a buffer together with a header, and the pieces of one.\<close>

definition am_sdu_ok :: "bytes \<Rightarrow> bool" where
  "am_sdu_ok d \<longleftrightarrow> 0 < length d \<and> length d + 3 \<le> get_tailroom fresh_buffer"

definition piece_ok :: "bytes \<Rightarrow> nat \<Rightarrow> nat \<Rightarrow> bool" where
  "piece_ok d so len \<longleftrightarrow> 0 < len \<and> so + len \<le> length d"

lemma am_sdu_len: "am_sdu_ok d \<Longrightarrow> 0 < length d \<and> length d \<le> 12234"
  by (simp add: am_sdu_ok_def get_tailroom_def fresh_buffer_def buffer_sizes)

lemma unat_so: "am_sdu_ok d \<Longrightarrow> piece_ok d so len \<Longrightarrow> unat (of_nat so :: u16) = so"
  using am_sdu_len [of d] by (simp add: piece_ok_def unsigned_of_nat take_bit_nat_eq_self)

lemma of_nat_so: "am_sdu_ok d \<Longrightarrow> piece_ok d so len \<Longrightarrow> (of_nat so :: u16) = 0 \<longleftrightarrow> so = 0"
  using unat_so [of d so len] unsigned_eq_0_iff [of "of_nat so :: u16", where 'a = nat] by simp

lemma piece_length: "piece_ok d so len \<Longrightarrow> length (take len (drop so d)) = len"
  by (auto simp: piece_ok_def min_def)

lemma am_piece_header_simps [simp]:
  "am_p (am_piece_header sz sn p d so len) = p" "am_sn (am_piece_header sz sn p d so len) = sn"
  "am_so (am_piece_header sz sn p d so len) = of_nat so"
  "am_sn_size (am_piece_header sz sn p d so len) = sz"
  by (simp_all add: am_piece_header_def)

lemma am_piece_si:
  assumes "piece_ok d so len"
  shows "am_si (am_piece_header sz sn p d so len) = full_sdu \<longleftrightarrow> len = length d"
    "am_si (am_piece_header sz sn p d so len) = last_segment \<longleftrightarrow> so \<noteq> 0 \<and> so + len = length d"
  using assms by (auto simp: am_piece_header_def piece_ok_def)

lemma am_piece_valid:
  assumes "am_sdu_ok d" "piece_ok d so len" "sz \<noteq> am_nulltype" "unat p < 2"
    "unat sn < (if sz = am_size12bits then 2 ^ 12 else 2 ^ 18)"
  shows "valid_header (am_piece_header sz sn p d so len)"
  using assms of_nat_so [OF assms(1,2)]
  by (auto simp: valid_header_def am_piece_header_def has_so_field_def)

lemma am_piece_read:
  assumes "am_sdu_ok d" "piece_ok d so len" "sz \<noteq> am_nulltype" "unat p < 2"
    "unat sn < (if sz = am_size12bits then 2 ^ 12 else 2 ^ 18)"
  defines "h \<equiv> am_piece_header sz sn p d so len"
  shows "rlc_am_nr_read_data_pdu_header (am_piece_pdu sz sn p d so len) sz am_header_0 =
      Some (rlc_am_nr_packed_length h, h)"
    "length (am_piece_pdu sz sn p d so len) = rlc_am_nr_packed_length h + len"
    "drop (rlc_am_nr_packed_length h) (am_piece_pdu sz sn p d so len) = take len (drop so d)"
    "rlc_am_nr_packed_length h \<le> 5" "len = length d \<Longrightarrow> rlc_am_nr_packed_length h \<le> 3"
proof -
  have v: "valid_header h" unfolding h_def by (rule am_piece_valid [OF assms(1-5)])
  have l: "length (fst (rlc_am_nr_write_data_pdu_header h)) = rlc_am_nr_packed_length h"
    by (rule packed_length_written [OF v])
  show "rlc_am_nr_read_data_pdu_header (am_piece_pdu sz sn p d so len) sz am_header_0 =
      Some (rlc_am_nr_packed_length h, h)"
    using read_written_header [OF v, of am_header_0] unfolding h_def am_piece_pdu_def
    by (simp add: am_header_0_def)
  show "length (am_piece_pdu sz sn p d so len) = rlc_am_nr_packed_length h + len"
    using piece_length [OF assms(2)] l by (simp add: am_piece_pdu_def h_def [symmetric])
  show "drop (rlc_am_nr_packed_length h) (am_piece_pdu sz sn p d so len) = take len (drop so d)"
    using l by (simp add: am_piece_pdu_def h_def [symmetric])
  show "rlc_am_nr_packed_length h \<le> 5" by (simp add: rlc_am_nr_packed_length_def)
  show "len = length d \<Longrightarrow> rlc_am_nr_packed_length h \<le> 3"
    using am_piece_si(1) [OF assms(2), of sz sn p] by (simp add: rlc_am_nr_packed_length_def h_def)
qed

section \<open>Storing what a PDU carries\<close>

definition piece_seg :: "rlc_am_nr_sn_size \<Rightarrow> u32 \<Rightarrow> u8 \<Rightarrow> bytes \<Rightarrow> nat \<Rightarrow> nat \<Rightarrow> rlc_amd_rx_pdu_nr" where
  "piece_seg sz sn p d so len =
     \<lparr>seg_header = am_piece_header sz sn p d so len, seg_buf = fresh_buffer\<lparr>data := take len (drop so d)\<rparr>\<rparr>"

lemma piece_seg_simps:
  assumes "am_sdu_ok d" "piece_ok d so len"
  shows "seg_start (piece_seg sz sn p d so len) = so" "seg_len (piece_seg sz sn p d so len) = len"
  using unat_so [OF assms] piece_length [OF assms(2)] by (simp_all add: piece_seg_def)

lemma piece_seg_of:
  assumes "am_sdu_ok d" "piece_ok d so len" "len \<noteq> length d"
  shows "seg_of d (piece_seg sz sn p d so len)"
proof -
  have "so \<noteq> 0 \<or> so + len < length d" using assms(2,3) by (auto simp: piece_ok_def)
  then show ?thesis
    unfolding seg_of_def piece_seg_simps [OF assms(1,2)]
    using assms(2) am_piece_si(2) [OF assms(2)] by (auto simp: piece_ok_def piece_seg_def)
qed

definition stored_ok :: "bytes \<Rightarrow> rlc_amd_rx_sdu_nr \<Rightarrow> bool" where
  "stored_ok d s \<longleftrightarrow> fully_received s \<or>
     segs_of d (am_segments s) \<and> \<not> snd (segment_inventory 0 (am_segments s))"

lemma handle_full_spec:
  assumes "am_sdu_ok d" "piece_ok d so len" "len = length d" "sz \<noteq> am_nulltype" "unat p < 2"
    "unat sn < (if sz = am_size12bits then 2 ^ 12 else 2 ^ 18)"
  shows "\<exists>b. data b = d \<and>
    handle_full_data_sdu True (am_piece_header sz sn p d so len) (am_piece_pdu sz sn p d so len) rx =
    Ret (True, rx\<lparr>am_rx_window := cm_overwrite sn
      \<lparr>fully_received = True, has_gap = False, rx_sdu_buf = Some b, am_segments = []\<rparr> (am_rx_window rx)\<rparr>)"
proof -
  note r = am_piece_read [OF assms(1,2,4-6)]
  have "so = 0" using assms(2,3) by (simp add: piece_ok_def)
  have "length d + 3 \<le> get_tailroom fresh_buffer" using assms(1) by (simp add: am_sdu_ok_def)
  then have "\<not> get_tailroom fresh_buffer < length (am_piece_pdu sz sn p d so len)"
    using r(2) r(5) [OF assms(3)] assms(3) by simp
  moreover have "\<not> length (am_piece_pdu sz sn p d so len) < rlc_am_nr_packed_length (am_piece_header sz sn p d so len)"
    using r(2) by simp
  ultimately show ?thesis
    using r(3) assms(3) \<open>so = 0\<close>
    by (intro exI [of _ "fresh_buffer\<lparr>data := d\<rparr>"]) (simp add: handle_full_data_sdu_def Let_def rx_sdu_0_def)
qed

lemma handle_segment_spec:
  assumes "am_sdu_ok d" "piece_ok d so len" "len \<noteq> length d" "sz \<noteq> am_nulltype" "unat p < 2"
    "unat sn < (if sz = am_size12bits then 2 ^ 12 else 2 ^ 18)"
    and s0: "s0 = (case cm_at (am_rx_window rx) sn of Some s \<Rightarrow> s | None \<Rightarrow> rx_sdu_0)" "segs_of d (am_segments s0)"
    and dis: "\<forall>t \<in> set (am_segments s0). so + len \<le> seg_start t \<or> seg_end t \<le> so"
  shows "\<exists>s. handle_segment_data_sdu True True (am_piece_header sz sn p d so len) (am_piece_pdu sz sn p d so len) rx =
      Ret (True, rx\<lparr>am_rx_window := cm_overwrite sn s (am_rx_window rx)\<rparr>) \<and> stored_ok d s \<and>
      (fully_received s \<longrightarrow> (\<exists>b. rx_sdu_buf s = Some b \<and> data b = d)) \<and>
      set (am_segments s) = insert (piece_seg sz sn p d so len) (set (am_segments s0))"
proof -
  let ?h = "am_piece_header sz sn p d so len" and ?pdu = "am_piece_pdu sz sn p d so len"
    and ?ss = "insert_received_segment (piece_seg sz sn p d so len) (am_segments s0)"
  note r = am_piece_read [OF assms(1,2,4-6)]
  note d = am_sdu_len [OF assms(1)]
  have ins: "set ?ss = insert (piece_seg sz sn p d so len) (set (am_segments s0))" "segs_of d ?ss"
    using insert_segment_spec [OF s0(2) piece_seg_of [OF assms(1-3)], of sz sn p] dis
    by (simp_all add: piece_seg_simps [OF assms(1,2)])
  obtain g full where inv: "segment_inventory 0 ?ss = (g, full)" by fastforce
  let ?s = "s0\<lparr>am_segments := ?ss, has_gap := g, fully_received := full\<rparr>"
  have len: "\<not> (length ?pdu < rlc_am_nr_packed_length ?h \<or>
      get_tailroom fresh_buffer < length ?pdu - rlc_am_nr_packed_length ?h)"
    using r(2) assms(1,2) by (simp add: am_sdu_ok_def piece_ok_def)
  have seg: "\<lparr>seg_header = ?h, seg_buf = fresh_buffer\<lparr>data := drop (rlc_am_nr_packed_length ?h) ?pdu\<rparr>\<rparr>
      = piece_seg sz sn p d so len" unfolding r(3) piece_seg_def ..
  have s: "update_segment_inventory (s0\<lparr>am_segments := ?ss\<rparr>) = ?s"
    using inv by (simp add: update_segment_inventory_def)
  have full: "full \<Longrightarrow> concat (map (data \<circ> seg_buf) ?ss) = d"
    using segment_inventory_full(1) [OF ins(2)] d inv by simp
  have asm: "full \<Longrightarrow> assemble_segments ?ss fresh_buffer = Ret (fresh_buffer\<lparr>data := d\<rparr>)"
    using assemble_segments_spec [of fresh_buffer ?ss] full d
    by (simp add: fresh_buffer_def buffer_sizes)
  have nf: "am_si ?h \<noteq> full_sdu" using am_piece_si(1) [OF assms(2)] assms(3) by simp
  show ?thesis
  proof (cases full)
    case True
    have "handle_segment_data_sdu True True ?h ?pdu rx =
        Ret (True, rx\<lparr>am_rx_window := cm_overwrite sn (?s\<lparr>rx_sdu_buf := Some (fresh_buffer\<lparr>data := d\<rparr>)\<rparr>) (am_rx_window rx)\<rparr>)"
      using nf len seg s asm [OF True] True s0(1)
      by (simp add: handle_segment_data_sdu_def Let_def)
    then show ?thesis using ins True
      by (intro exI [of _ "?s\<lparr>rx_sdu_buf := Some (fresh_buffer\<lparr>data := d\<rparr>)\<rparr>"]) (simp add: stored_ok_def)
  next
    case False
    have "handle_segment_data_sdu True True ?h ?pdu rx =
        Ret (True, rx\<lparr>am_rx_window := cm_overwrite sn ?s (am_rx_window rx)\<rparr>)"
      using nf len seg s False s0(1) by (simp add: handle_segment_data_sdu_def Let_def)
    then show ?thesis using ins False inv by (intro exI [of _ ?s]) (simp add: stored_ok_def)
  qed
qed

section \<open>A PDU is placed in the window\<close>

text \<open>The window's part of \<open>rx_pdu_placed\<close>, the timers apart: \<open>N\<close> becomes \<open>N'\<close>, \<open>S\<close> becomes \<open>S'\<close>.\<close>

definition placed_window ::
  "rlc_am_nr_rx \<Rightarrow> nat \<Rightarrow> rlc_amd_rx_sdu_nr \<Rightarrow> nat \<Rightarrow> nat \<Rightarrow> nat \<Rightarrow> nat \<Rightarrow> rlc_am_nr_rx \<Rightarrow> bool" where
  "placed_window rx i s N N' S' H' rx' \<longleftrightarrow>
     am_win rx' N' H' \<and> N \<le> N' \<and> N' \<le> S' \<and> S' \<le> H' \<and> rx_highest_status rx' = rx_sn rx S' \<and>
     (\<forall>k. N' \<le> k \<and> k < H' \<longrightarrow> rx_entry rx' k =
        (if k = i then Some (if fully_received s then s\<lparr>rx_sdu_buf := None\<rparr> else s) else rx_entry rx k)) \<and>
     (\<forall>k. N \<le> k \<and> k < N' \<longrightarrow> (if k = i then fully_received s else rx_recv rx k)) \<and>
     \<not> rx_recv rx' N' \<and> \<not> rx_recv rx' S' \<and>
     reassembly_timer rx' = reassembly_timer rx \<and> rx_next_status_trigger rx' = rx_next_status_trigger rx \<and>
     am_to_pdcp rx' = am_to_pdcp rx @ (if fully_received s then [the (rx_sdu_buf s)] else []) \<and>
     am_rx_cfg rx' = am_rx_cfg rx \<and> rx_mod_nr rx' = rx_mod_nr rx \<and> rx_W rx' = rx_W rx"

lemma placed_window:
  assumes w: "am_win rx N H" and i: "N \<le> i" "i < N + rx_W rx" "\<not> rx_recv rx i"
    and S: "rx_highest_status rx = rx_sn rx S" "N \<le> S" "S \<le> H" "\<not> rx_recv rx S" and N: "\<not> rx_recv rx N"
    and s: "fully_received s \<longrightarrow> rx_sdu_buf s \<noteq> None"
  obtains rx' N' S' where
    "rx_pdu_placed (rx_sn rx i) (rx\<lparr>am_rx_window := cm_overwrite (rx_sn rx i) s (am_rx_window rx)\<rparr>) =
       rx_update_timer rx'"
    "placed_window rx i s N N' S' (max H (Suc i)) rx'"
proof -
  let ?H = "max H (Suc i)"
  let ?rx = "rx\<lparr>am_rx_window := cm_overwrite (rx_sn rx i) s (am_rx_window rx), rx_next_highest := rx_sn rx ?H\<rparr>"
  note fin = that
  have w1: "am_win ?rx N ?H" by (rule am_win_put [OF w i(1,2)])
  have at: "cm_at (am_rx_window ?rx) = (cm_at (am_rx_window rx))(rx_sn rx i := Some s)"
    using rx_put [OF w i(1,2)] by simp
  have bound: "?H < N + 2 * rx_W rx" using am_winD(6) [OF w] i(2) am_win_cfg(3) [OF w] by simp
  have inj: "rx_sn rx j = rx_sn rx i \<longleftrightarrow> j = i" if "N \<le> j" "j \<le> ?H" for j
    using rx_sn_inj [OF w, of j i] that bound i(1,2) by simp
  have entry1: "rx_entry ?rx j = (if j = i then Some s else rx_entry rx j)" if "N \<le> j" "j \<le> ?H" for j
    using at inj [OF that] by simp
  have recv1: "rx_received ?rx (rx_sn rx j) \<longleftrightarrow> (if j = i then fully_received s else rx_recv rx j)"
    if "N \<le> j" "j \<le> ?H" for j using at inj [OF that] by (simp add: rx_received_def)
  note eq = rx_pdu_placed_eq [OF w i(1,2), of s]
  show thesis
  proof (cases "fully_received s")
    case False
    have "N \<le> ?H" "S \<le> ?H" using S am_winD(5) [OF w] by simp_all
    then have "placed_window rx i s N N S ?H ?rx"
      using w1 S N False entry1 recv1 [of N] recv1 [of S] am_winD(5) [OF w]
      by (simp add: placed_window_def)
    then show thesis using fin eq False by simp
  next
    case True
    obtain b where b: "rx_sdu_buf s = Some b" using s True by blast
    have pre: "rx_entry ?rx i = Some s" "N \<noteq> i \<Longrightarrow> \<not> rx_received ?rx (rx_sn ?rx N)"
      "S \<noteq> i \<Longrightarrow> \<not> rx_received ?rx (rx_sn ?rx S)" "rx_highest_status ?rx = rx_sn ?rx S" "S \<le> ?H" "i < ?H"
      using entry1 [of i] i(1) recv1 [of N] recv1 [of S] S N am_winD(5) [OF w] by simp_all
    obtain N' S' win where c:
      "rx_sdu_complete (rx_sn ?rx i) ?rx = Ret (?rx\<lparr>am_rx_window := win, am_rx_next := rx_sn ?rx N',
         rx_highest_status := rx_sn ?rx S', am_to_pdcp := am_to_pdcp ?rx @ [b], num_rx_sdus := num_rx_sdus ?rx + 1,
         num_rx_sdu_bytes := num_rx_sdu_bytes ?rx + of_nat (N_bytes b)\<rparr>)"
      "cm_ok win" "cm_N win = rx_W ?rx" "N \<le> N'" "N' \<le> S'" "S' \<le> ?H"
      "cm_at win = (\<lambda>k. if k \<in> rx_sn ?rx ` {N..<N'} then None
         else if k = rx_sn ?rx i then Some (s\<lparr>rx_sdu_buf := None\<rparr>) else cm_at (am_rx_window ?rx) k)"
      "\<forall>k. N \<le> k \<and> k < N' \<longrightarrow> rx_received ?rx (rx_sn ?rx k)" "\<not> rx_received ?rx (rx_sn ?rx N')"
      "\<not> rx_received ?rx (rx_sn ?rx S')"
      by (rule rx_sdu_complete_spec [OF w1 i(1) pre(6,1) True b pre(4) S(2) pre(5,3,2)])
    let ?rx' = "?rx\<lparr>am_rx_window := win, am_rx_next := rx_sn ?rx N',
         rx_highest_status := rx_sn ?rx S', am_to_pdcp := am_to_pdcp ?rx @ [b], num_rx_sdus := num_rx_sdus ?rx + 1,
         num_rx_sdu_bytes := num_rx_sdu_bytes ?rx + of_nat (N_bytes b)\<rparr>"
    have W: "cm_N win = rx_W rx" using c(3) by simp
    have erased: "cm_at win (rx_sn rx k) = (if k < N' then None else if k = i then Some (s\<lparr>rx_sdu_buf := None\<rparr>) else rx_entry rx k)"
      if "N \<le> k" "k \<le> ?H" for k
    proof -
      have "rx_sn rx k \<in> rx_sn rx ` {N..<N'} \<longleftrightarrow> k < N'"
        using rx_sn_inj [OF w, of k] that bound c(5,6) by force
      then show ?thesis using c(7) at inj [OF that] by simp
    qed
    have win: "am_win ?rx' N' ?H"
    proof -
      have "\<exists>j. N' \<le> j \<and> j < ?H \<and> k = rx_sn rx j" if "cm_at win k \<noteq> None" for k
      proof -
        have "cm_at (am_rx_window ?rx) k \<noteq> None" "k \<notin> rx_sn rx ` {N..<N'}"
          using that c(7) at by (auto split: if_splits)
        then obtain j where j: "N \<le> j" "j < ?H" "k = rx_sn rx j" using am_winD(7) [OF w1, of k] by auto
        then have "\<not> j < N'" using \<open>k \<notin> _\<close> by auto
        then show ?thesis using j by (intro exI [of _ j]) simp
      qed
      then show ?thesis using am_winD [OF w1] c(2,4,5,6) W
        by (simp add: am_win_def rx_cfg_sizes_def)
    qed
    have recv': "rx_received ?rx' (rx_sn rx k) \<longleftrightarrow> rx_received ?rx (rx_sn rx k)" if "N' \<le> k" "k \<le> ?H" for k
      using erased [of k] entry1 [of k] that c(4) True by (simp add: rx_received_def)
    have "placed_window rx i s N N' S' ?H ?rx'"
      unfolding placed_window_def
    proof (intro conjI)
      show "\<forall>k. N' \<le> k \<and> k < ?H \<longrightarrow> rx_entry ?rx' k =
          (if k = i then Some (if fully_received s then s\<lparr>rx_sdu_buf := None\<rparr> else s) else rx_entry rx k)"
        using erased c(4) True by simp
      show "\<forall>k. N \<le> k \<and> k < N' \<longrightarrow> (if k = i then fully_received s else rx_recv rx k)"
        using c(8) recv1 c(5,6) by (auto split: if_splits)
      show "\<not> rx_received ?rx' (rx_sn ?rx' N')" "\<not> rx_received ?rx' (rx_sn ?rx' S')"
        using recv' [of N'] recv' [of S'] c(5,6,9,10) by simp_all
    qed (use win c(4,5,6) W True b in simp_all)
    then show thesis using fin eq True c(1) by simp
  qed
qed

end
