(* ===== verification/AmNrTxWindow.thy ===== *)
theory AmNrTxWindow
  imports AmBase AmNrReceive
begin

text \<open>
  The transmitter's window with sequence numbers unrolled, as for the receiver: SDU \<open>i\<close> of the
  stream that is sent has the sequence number \<open>i\<close> modulo the modulus.  \<open>am_tx_inv A X tx\<close>: SDUs
  \<open>A\<close> to \<open>X - 1\<close> were sent and are not acknowledged, and SDU \<open>X\<close> is being segmented if
  there is one under segmentation; the segments of an SDU are consecutive; the retransmissions
  are segments of SDUs in the window, at most one for each segment.
\<close>

section \<open>Segments\<close>

text \<open>The segments are consecutive, from byte \<open>a\<close> to byte \<open>e\<close>.\<close>

fun tiled :: "nat \<Rightarrow> pdu_segment list \<Rightarrow> nat \<Rightarrow> bool" where
  "tiled a [] e \<longleftrightarrow> a = e"
| "tiled a (s # ss) e \<longleftrightarrow> unat (seg_so s) = a \<and> 0 < unat (payload_len s) \<and> tiled (a + unat (payload_len s)) ss e"

lemma tiled_le: "tiled a ss e \<Longrightarrow> a \<le> e"
  by (induction ss arbitrary: a) fastforce+

lemma tiled_mem: "tiled a ss e \<Longrightarrow> s \<in> set ss \<Longrightarrow> a \<le> unat (seg_so s) \<and> unat (seg_so s) + unat (payload_len s) \<le> e \<and> 0 < unat (payload_len s)"
proof (induction ss arbitrary: a)
  case (Cons t ss)
  then show ?case using tiled_le [of "a + unat (payload_len t)" ss e] by fastforce
qed simp

lemma tiled_append: "tiled a (ss @ ts) e \<longleftrightarrow> (\<exists>m. tiled a ss m \<and> tiled m ts e)"
  by (induction ss arbitrary: a) auto

lemma tiled_last: "tiled a ss e \<Longrightarrow> ss \<noteq> [] \<Longrightarrow> unat (seg_so (last ss)) + unat (payload_len (last ss)) = e"
  by (induction ss arbitrary: a) (auto split: if_splits)

lemma tiled_same: "tiled a ss e \<Longrightarrow> s \<in> set ss \<Longrightarrow> t \<in> set ss \<Longrightarrow> seg_so s = seg_so t \<Longrightarrow> s = t"
proof (induction ss arbitrary: a)
  case (Cons u ss)
  have "unat (seg_so u) < unat (seg_so v)" if "v \<in> set ss" for v
    using tiled_mem [of "a + unat (payload_len u)" ss e v] Cons.prems(1) that by auto
  then show ?case using Cons by fastforce
qed simp

lemma tiled_distinct: "tiled a ss e \<Longrightarrow> distinct (map seg_so ss)"
proof (induction ss arbitrary: a)
  case (Cons u ss)
  have "unat (seg_so u) < unat (seg_so v)" if "v \<in> set ss" for v
    using tiled_mem [of "a + unat (payload_len u)" ss e v] Cons.prems that by auto
  then show ?case using Cons by fastforce
qed simp

lemma unat_plus_small: "unat a + unat (b :: u32) < 2 ^ 32 \<Longrightarrow> unat (a + b) = unat a + unat b"
  by (simp add: unat_word_ariths)

lemma unat_minus_small: "b \<le> (a :: u32) \<Longrightarrow> unat (a - b) = unat a - unat b"
  by (simp add: unat_sub word_le_nat_alt)

text \<open>Splitting a segment keeps the segments consecutive and replaces only this one.\<close>

lemma split_segment_tiled:
  assumes "tiled a ss e" "s \<in> set ss" "0 < unat len" "unat len < unat (payload_len s)" "e < 2 ^ 32"
  shows "tiled a (split_segment (seg_so s) len ss) e"
    "t \<in> set (split_segment (seg_so s) len ss) \<longleftrightarrow>
       (t \<in> set ss \<and> t \<noteq> s) \<or> t = \<lparr>seg_so = seg_so s, payload_len = len\<rparr> \<or>
       t = \<lparr>seg_so = seg_so s + len, payload_len = payload_len s - len\<rparr>"
    "split_segment (seg_so s) len ss \<noteq> []"
proof -
  have "tiled a (split_segment (seg_so s) len ss) e \<and> set (split_segment (seg_so s) len ss) =
     (set ss - {s}) \<union> {\<lparr>seg_so = seg_so s, payload_len = len\<rparr>, \<lparr>seg_so = seg_so s + len, payload_len = payload_len s - len\<rparr>}"
    using assms(1,2)
  proof (induction ss arbitrary: a)
    case (Cons u ss)
    show ?case
    proof (cases "seg_so u = seg_so s")
      case True
      then have u: "u = s" using tiled_same [OF Cons.prems(1), of u s] Cons.prems(2) by simp
      have "s \<notin> set ss" using tiled_mem [of "a + unat (payload_len s)" ss e s] Cons.prems(1) u assms(3,4) by auto
      moreover have "unat (seg_so s + len) = a + unat len" "unat (payload_len s - len) = unat (payload_len s) - unat len"
        using Cons.prems(1) u assms(4,5) tiled_le [of "a + unat (payload_len s)" ss e]
        by (auto simp: unat_plus_small unat_minus_small word_le_nat_alt)
      ultimately show ?thesis using Cons.prems(1) u assms(3,4) by (auto simp: add.assoc)
    next
      case False
      then have "s \<in> set ss" "u \<noteq> s" using Cons.prems(2) by auto
      then show ?thesis using Cons.IH [of "a + unat (payload_len u)"] Cons.prems(1) False by auto
    qed
  qed simp
  then show "tiled a (split_segment (seg_so s) len ss) e"
    "t \<in> set (split_segment (seg_so s) len ss) \<longleftrightarrow>
       (t \<in> set ss \<and> t \<noteq> s) \<or> t = \<lparr>seg_so = seg_so s, payload_len = len\<rparr> \<or>
       t = \<lparr>seg_so = seg_so s + len, payload_len = payload_len s - len\<rparr>"
    "split_segment (seg_so s) len ss \<noteq> []"
    by auto
qed

section \<open>The invariant\<close>

abbreviation tx_sn :: "rlc_am_nr_tx \<Rightarrow> nat \<Rightarrow> u32" where
  "tx_sn tx i \<equiv> am_sn_of (tx_mod_nr tx) i"

abbreviation tx_W :: "rlc_am_nr_tx \<Rightarrow> nat" where
  "tx_W tx \<equiv> cm_N (am_tx_window tx)"

abbreviation tx_sz :: "rlc_am_nr_tx \<Rightarrow> rlc_am_nr_sn_size" where
  "tx_sz tx \<equiv> am_tx_sn_field_length (am_tx_cfg tx)"

definition tx_cfg_sizes :: "rlc_am_nr_tx \<Rightarrow> bool" where
  "tx_cfg_sizes tx \<longleftrightarrow>
     tx_sz tx = am_size12bits \<and> tx_mod_nr tx = 4096 \<and> tx_W tx = 2048 \<and> min_hdr_size tx = 2 \<and> max_hdr_size tx = 4 \<or>
     tx_sz tx = am_size18bits \<and> tx_mod_nr tx = 262144 \<and> tx_W tx = 131072 \<and> min_hdr_size tx = 3 \<and> max_hdr_size tx = 5"

definition am_pdu_ok :: "rlc_am_nr_sn_size \<Rightarrow> u32 \<Rightarrow> bool \<Rightarrow> rlc_amd_tx_pdu_nr \<Rightarrow> bool" where
  "am_pdu_ok sz sn part pdu \<longleftrightarrow>
     (\<exists>b. tx_sdu_buf pdu = Some b \<and> am_sdu_ok (data b) \<and>
       am_dc (tx_header pdu) = RLC_DC_FIELD_DATA_PDU \<and> am_sn_size (tx_header pdu) = sz \<and> am_sn (tx_header pdu) = sn \<and>
       (if segment_list pdu = [] then \<not> part
        else (\<exists>e. tiled 0 (segment_list pdu) e \<and> e \<le> N_bytes b \<and> (part \<longleftrightarrow> e < N_bytes b)) \<and>
             (\<forall>s \<in> set (segment_list pdu). unat (payload_len s) < N_bytes b)))"

definition retx_ok :: "rlc_amd_tx_pdu_nr circular_map \<Rightarrow> rlc_amd_retx_nr \<Rightarrow> bool" where
  "retx_ok w r \<longleftrightarrow>
     (\<exists>pdu b. cm_at w (retx_sn r) = Some pdu \<and> tx_sdu_buf pdu = Some b \<and>
       (if is_segment r
        then (\<exists>s \<in> set (segment_list pdu). seg_so s = current_so r \<and> unat (retx_so_start r) \<le> unat (current_so r) \<and>
          unat (retx_so_start r) + unat (segment_length r) = unat (current_so r) + unat (payload_len s))
        else segment_list pdu = [] \<and> retx_so_start r = 0 \<and> current_so r = 0 \<and> segment_length r = of_nat (N_bytes b)))"

definition retx_apart :: "rlc_amd_retx_nr list \<Rightarrow> bool" where
  "retx_apart q \<longleftrightarrow> sorted_wrt (\<lambda>r r'. retx_sn r = retx_sn r' \<longrightarrow>
     is_segment r \<and> is_segment r' \<and> current_so r \<noteq> current_so r') q"

definition tx_end :: "rlc_am_nr_tx \<Rightarrow> nat \<Rightarrow> nat" where
  "tx_end tx X = (if sdu_under_segmentation_sn tx = INVALID_RLC_SN then X else Suc X)"

definition tx_win :: "rlc_am_nr_tx \<Rightarrow> nat \<Rightarrow> nat \<Rightarrow> bool" where
  "tx_win tx A X \<longleftrightarrow> tx_cfg_sizes tx \<and> cm_ok (am_tx_window tx) \<and>
     am_tx_next_ack (am_st tx) = tx_sn tx A \<and> am_tx_next (am_st tx) = tx_sn tx X \<and> A \<le> X \<and> tx_end tx X \<le> A + tx_W tx \<and>
     sdu_under_segmentation_sn tx \<in> {INVALID_RLC_SN, tx_sn tx X} \<and>
     (\<forall>k. tx_pdu_at tx k \<noteq> None \<longleftrightarrow> (\<exists>i. A \<le> i \<and> i < tx_end tx X \<and> k = tx_sn tx i))"

definition tx_pdus_ok :: "rlc_am_nr_tx \<Rightarrow> nat \<Rightarrow> nat \<Rightarrow> bool" where
  "tx_pdus_ok tx A X \<longleftrightarrow>
     (\<forall>i pdu. A \<le> i \<and> i < tx_end tx X \<and> tx_pdu_at tx (tx_sn tx i) = Some pdu \<longrightarrow>
        am_pdu_ok (tx_sz tx) (tx_sn tx i) (i = X) pdu)"

definition tx_queue_ok :: "byte_buffer_queue \<Rightarrow> bool" where
  "tx_queue_ok q \<longleftrightarrow> bbq_ok q \<and> (\<forall>b. Some b \<in> set (queued q) \<longrightarrow> am_sdu_ok (data b) \<and> 3 \<le> headroom b)"

definition am_tx_inv :: "nat \<Rightarrow> nat \<Rightarrow> rlc_am_nr_tx \<Rightarrow> bool" where
  "am_tx_inv A X tx \<longleftrightarrow> tx_win tx A X \<and> tx_pdus_ok tx A X \<and> (\<forall>r \<in> set (retx_queue tx). retx_ok (am_tx_window tx) r) \<and>
     retx_apart (retx_queue tx) \<and> tx_queue_ok (am_tx_queue tx)"

lemma tx_cfg_sizesD:
  assumes "tx_cfg_sizes tx"
  shows "am_modulus (tx_mod_nr tx)" "unat (tx_mod_nr tx) = 2 * tx_W tx" "2048 \<le> tx_W tx"
    "unat (am_tx_window_size tx) = tx_W tx" "tx_sz tx \<noteq> am_nulltype"
    "unat (min_hdr_size tx) = (if tx_sz tx = am_size18bits then 3 else 2)"
    "unat (max_hdr_size tx) = unat (min_hdr_size tx) + 2" "tx_sz tx \<noteq> am_size18bits \<longleftrightarrow> tx_sz tx = am_size12bits"
  using assms by (auto simp: tx_cfg_sizes_def am_modulus_def am_tx_window_size_def)

lemma tx_winD:
  assumes "tx_win tx A X"
  shows "tx_cfg_sizes tx" "cm_ok (am_tx_window tx)" "am_tx_next_ack (am_st tx) = tx_sn tx A"
    "am_tx_next (am_st tx) = tx_sn tx X" "A \<le> X" "tx_end tx X \<le> A + tx_W tx"
    "sdu_under_segmentation_sn tx = INVALID_RLC_SN \<or> sdu_under_segmentation_sn tx = tx_sn tx X"
    "\<And>k. tx_pdu_at tx k \<noteq> None \<longleftrightarrow> (\<exists>i. A \<le> i \<and> i < tx_end tx X \<and> k = tx_sn tx i)"
  using assms by (auto simp: tx_win_def)

lemma am_sn_of_valid: "am_modulus m \<Longrightarrow> am_sn_of m i \<noteq> INVALID_RLC_SN"
proof
  assume m: "am_modulus m" and "am_sn_of m i = INVALID_RLC_SN"
  then have "i mod unat m = 4294967295" using unat_am_sn_of [OF m, of i] by (simp add: INVALID_RLC_SN_def)
  moreover have "i mod unat m < unat m" using am_modulus_pos [OF m] by simp
  ultimately show False using m by (auto simp: am_modulus_def)
qed

lemma tx_sn_inj:
  assumes "tx_win tx A X" "A \<le> i" "i < A + 2 * tx_W tx" "A \<le> j" "j < A + 2 * tx_W tx"
  shows "tx_sn tx i = tx_sn tx j \<longleftrightarrow> i = j"
  using am_sn_of_inj [OF tx_cfg_sizesD(1) [OF tx_winD(1) [OF assms(1)]], of i j A] tx_cfg_sizesD(2) [OF tx_winD(1) [OF assms(1)]] assms by auto

lemma tx_base:
  assumes "tx_win tx A X" "A \<le> i" "i < A + 2 * tx_W tx"
  shows "unat (tx_mod_base_nr tx (tx_sn tx i)) = i - A"
  using base_above [of "tx_mod_nr tx" A i] assms tx_cfg_sizesD(1,2) [OF tx_winD(1) [OF assms(1)]] tx_winD(3) [OF assms(1)]
  by (simp add: tx_mod_base_nr_def)

lemma tx_idx:
  assumes "tx_cfg_sizes tx"
  shows "cm_idx (am_tx_window tx) (tx_sn tx i) = i mod tx_W tx"
  by (simp add: cm_idx_def unat_am_sn_of [OF tx_cfg_sizesD(1) [OF assms]] tx_cfg_sizesD(2) [OF assms] mod_mod_cancel)

lemma mod_near: "i mod (n :: nat) = j mod n \<Longrightarrow> i \<le> j \<Longrightarrow> j < i + n \<Longrightarrow> i = j"
proof (rule ccontr)
  assume h: "i mod n = j mod n" "i \<le> j" "j < i + n" "i \<noteq> j"
  then have "n dvd j - i" using mod_eq_dvd_iff_nat [of i j n] by simp
  then show False using h nat_dvd_not_less [of "j - i" n] by auto
qed

lemma tx_slot_inj:
  assumes "tx_cfg_sizes tx" "A \<le> i" "i < A + tx_W tx" "A \<le> j" "j < A + tx_W tx"
  shows "cm_idx (am_tx_window tx) (tx_sn tx i) = cm_idx (am_tx_window tx) (tx_sn tx j) \<longleftrightarrow> i = j"
  using mod_near [of i "tx_W tx" j] mod_near [of j "tx_W tx" i] assms unfolding tx_idx [OF assms(1)] by (cases "i \<le> j") auto

text \<open>While the window is not full, there is room for the next SDU.\<close>

lemma tx_room:
  assumes "tx_win tx A X" "\<not> cm_full (am_tx_window tx)"
  shows "tx_end tx X < A + tx_W tx"
proof (rule ccontr)
  let ?w = "am_tx_window tx"
  note w = tx_winD [OF assms(1)]
  assume "\<not> ?thesis"
  then have T: "tx_end tx X = A + tx_W tx" using w(6) by simp
  have "inj_on (\<lambda>i. cm_idx ?w (tx_sn tx i)) {A..<A + tx_W tx}"
    using tx_slot_inj [OF w(1), of A] by (auto simp: inj_on_def)
  moreover have sub: "(\<lambda>i. cm_idx ?w (tx_sn tx i)) ` {A..<A + tx_W tx} \<subseteq> {i. cm_slot ?w i \<noteq> None}"
  proof (rule image_subsetI)
    fix i assume "i \<in> {A..<A + tx_W tx}"
    then have "tx_pdu_at tx (tx_sn tx i) \<noteq> None" using w(8) T by auto
    then show "cm_idx ?w (tx_sn tx i) \<in> {i. cm_slot ?w i \<noteq> None}" by (auto simp: cm_at_slot split: option.splits)
  qed
  moreover have fin: "finite {i. cm_slot ?w i \<noteq> None}" "cm_size ?w = card {i. cm_slot ?w i \<noteq> None}"
    using w(2) by (simp_all add: cm_ok_def)
  ultimately have "tx_W tx \<le> cm_size ?w" using card_mono [OF fin(1) sub] by (simp add: card_image)
  moreover have "{i. cm_slot ?w i \<noteq> None} \<subseteq> {..<tx_W tx}"
    using w(2) by (fastforce simp: cm_ok_def cm_idx_def)
  then have "cm_size ?w \<le> tx_W tx" using card_mono [of "{..<tx_W tx}"] fin(2) by fastforce
  ultimately show False using assms(2) by (simp add: cm_full_def)
qed

text \<open>Writing an object of the window, or the next one, changes nothing else.\<close>

lemma put_pdu_simps [simp]:
  "am_tx_cfg (put_pdu sn pdu tx) = am_tx_cfg tx" "tx_mod_nr (put_pdu sn pdu tx) = tx_mod_nr tx"
  "min_hdr_size (put_pdu sn pdu tx) = min_hdr_size tx" "max_hdr_size (put_pdu sn pdu tx) = max_hdr_size tx"
  "am_tx_queue (put_pdu sn pdu tx) = am_tx_queue tx" "am_tx_enabled (put_pdu sn pdu tx) = am_tx_enabled tx"
  "am_st (put_pdu sn pdu tx) = am_st tx" "retx_queue (put_pdu sn pdu tx) = retx_queue tx"
  "sdu_under_segmentation_sn (put_pdu sn pdu tx) = sdu_under_segmentation_sn tx"
  "tx_W (put_pdu sn pdu tx) = tx_W tx"
  by (simp_all add: put_pdu_def)

lemma put_pdu_at:
  assumes "tx_win tx A X" "A \<le> i" "i \<le> tx_end tx X" "i < A + tx_W tx"
  shows "tx_pdu_at (put_pdu (tx_sn tx i) pdu tx) = (tx_pdu_at tx)(tx_sn tx i := Some pdu)"
    "cm_ok (am_tx_window (put_pdu (tx_sn tx i) pdu tx))"
proof -
  note w = tx_winD [OF assms(1)]
  have "tx_pdu_at tx l = None" if "cm_idx (am_tx_window tx) l = cm_idx (am_tx_window tx) (tx_sn tx i)" "l \<noteq> tx_sn tx i" for l
  proof (rule ccontr)
    assume "tx_pdu_at tx l \<noteq> None"
    then obtain j where "A \<le> j" "j < tx_end tx X" "l = tx_sn tx j" using w(8) by blast
    then show False using tx_slot_inj [OF w(1), of A j i] that assms w(6) by auto
  qed
  then show "tx_pdu_at (put_pdu (tx_sn tx i) pdu tx) = (tx_pdu_at tx)(tx_sn tx i := Some pdu)"
    using cm.at_add [OF w(2), of "tx_sn tx i" pdu] by (auto simp: put_pdu_def fun_eq_iff)
  show "cm_ok (am_tx_window (put_pdu (tx_sn tx i) pdu tx))"
    using cm.ok_add [OF w(2)] by (simp add: put_pdu_def)
qed

end
