(* ===== verification/AmNrTxSend.thy ===== *)
theory AmNrTxSend
  imports AmNrTxWindow
begin

text \<open>
  A MAC opportunity of the transmitter: in a state with the invariant, it returns a piece of an
  SDU of the window that fits the grant, or nothing, and keeps the invariant.
\<close>

section \<open>What does not matter for the invariant\<close>

lemma get_pdu_poll_frame:
  obtains p st' t' where "get_pdu_poll sn is_retx n tx = (p, tx\<lparr>am_st := st', poll_retransmit_timer := t'\<rparr>)"
    "unat p < 2" "am_tx_next_ack st' = am_tx_next_ack (am_st tx)" "am_tx_next st' = am_tx_next (am_st tx)"
proof -
  have t: "tx\<lparr>am_st := st, poll_retransmit_timer := poll_retransmit_timer tx\<rparr> = tx\<lparr>am_st := st\<rparr>" for st by (cases tx) simp
  obtain p tx' where g: "get_pdu_poll sn is_retx n tx = (p, tx')" by fastforce
  have f: "unat p < 2" "am_tx_next_ack (am_st tx') = am_tx_next_ack (am_st tx)" "am_tx_next (am_st tx') = am_tx_next (am_st tx)"
    "tx' = tx\<lparr>am_st := am_st tx', poll_retransmit_timer := poll_retransmit_timer tx'\<rparr>"
    using g [symmetric] unfolding get_pdu_poll_def Let_def by (simp_all add: t split: if_splits)
  show ?thesis by (rule that [OF _ f(1-3)]) (rule trans [OF g], rule arg_cong [where f = "Pair p"], rule f(4))
qed

lemma tx_end_frame [simp]:
  "tx_end (tx\<lparr>am_st := st'\<rparr>) X = tx_end tx X" "tx_end (tx\<lparr>poll_retransmit_timer := t\<rparr>) X = tx_end tx X"
  "tx_end (tx\<lparr>retx_queue := q\<rparr>) X = tx_end tx X" "tx_end (tx\<lparr>am_tx_queue := q'\<rparr>) X = tx_end tx X"
  "tx_end (put_pdu sn pdu tx) X = tx_end tx X" "tx_end (tx\<lparr>am_tx_window := w\<rparr>) X = tx_end tx X"
  by (simp_all add: tx_end_def)

lemma tx_cfg_frame [simp]:
  "tx_cfg_sizes (tx\<lparr>am_st := st'\<rparr>) = tx_cfg_sizes tx" "tx_cfg_sizes (tx\<lparr>poll_retransmit_timer := t\<rparr>) = tx_cfg_sizes tx"
  "tx_cfg_sizes (tx\<lparr>retx_queue := q\<rparr>) = tx_cfg_sizes tx" "tx_cfg_sizes (tx\<lparr>am_tx_queue := q'\<rparr>) = tx_cfg_sizes tx"
  "tx_cfg_sizes (put_pdu sn pdu tx) = tx_cfg_sizes tx" "tx_cfg_sizes (tx\<lparr>sdu_under_segmentation_sn := sn\<rparr>) = tx_cfg_sizes tx"
  by (simp_all add: tx_cfg_sizes_def)

lemma tx_inv_poll:
  assumes "am_tx_next_ack st' = am_tx_next_ack (am_st tx)" "am_tx_next st' = am_tx_next (am_st tx)"
  shows "am_tx_inv A X (tx\<lparr>am_st := st', poll_retransmit_timer := t\<rparr>) = am_tx_inv A X tx"
  using assms by (simp add: am_tx_inv_def tx_win_def tx_pdus_ok_def)

lemma tx_inv_retx:
  "am_tx_inv A X tx \<Longrightarrow> \<forall>r \<in> set q. retx_ok (am_tx_window tx) r \<Longrightarrow> retx_apart q \<Longrightarrow> am_tx_inv A X (tx\<lparr>retx_queue := q\<rparr>)"
  by (simp add: am_tx_inv_def tx_win_def tx_pdus_ok_def)

text \<open>An object of the window changes.\<close>

lemma tx_inv_put:
  assumes inv: "am_tx_inv A X tx" and i: "A \<le> i" "i < tx_end tx X"
    and pdu: "am_pdu_ok (tx_sz tx) (tx_sn tx i) (i = X) pdu"
    and q: "\<forall>r \<in> set q. retx_ok (am_tx_window (put_pdu (tx_sn tx i) pdu tx)) r" "retx_apart q"
  shows "am_tx_inv A X ((put_pdu (tx_sn tx i) pdu tx)\<lparr>retx_queue := q\<rparr>)"
proof -
  have win: "tx_win tx A X" and ok: "tx_pdus_ok tx A X" and que: "tx_queue_ok (am_tx_queue tx)" using inv by (simp_all add: am_tx_inv_def)
  note w = tx_winD [OF win]
  have le: "i \<le> tx_end tx X" "i < A + tx_W tx" using i(2) w(6) by simp_all
  note at = put_pdu_at [OF win i(1) le, of pdu]
  have k: "((tx_pdu_at tx)(tx_sn tx i := Some pdu)) k \<noteq> None \<longleftrightarrow> (\<exists>j\<ge>A. j < tx_end tx X \<and> k = tx_sn tx j)" for k
    using w(8) [of k] i by auto
  have "tx_win ((put_pdu (tx_sn tx i) pdu tx)\<lparr>retx_queue := q\<rparr>) A X"
    using win at(2) k unfolding tx_win_def by (simp add: at(1))
  moreover have "tx_pdus_ok ((put_pdu (tx_sn tx i) pdu tx)\<lparr>retx_queue := q\<rparr>) A X"
    unfolding tx_pdus_ok_def
  proof (intro allI impI, simp add: at(1))
    fix j p assume h: "A \<le> j \<and> j < tx_end tx X \<and> (if tx_sn tx j = tx_sn tx i then Some pdu else tx_pdu_at tx (tx_sn tx j)) = Some p"
    have "tx_sn tx j = tx_sn tx i \<longleftrightarrow> j = i" using tx_sn_inj [OF win, of j i] h i w(6) by simp
    then show "am_pdu_ok (tx_sz tx) (tx_sn tx j) (j = X) p" using h pdu ok by (auto simp: tx_pdus_ok_def split: if_splits)
  qed
  ultimately show ?thesis using q que by (simp add: am_tx_inv_def)
qed

section \<open>Pieces\<close>

lemma piece_packed_length:
  assumes "tx_cfg_sizes tx" "piece_ok d so len" "am_sdu_ok d"
  shows "rlc_am_nr_packed_length (am_piece_header (tx_sz tx) sn p d so len) =
    (if so = 0 then unat (min_hdr_size tx) else unat (max_hdr_size tx))"
  using assms by (auto simp: rlc_am_nr_packed_length_def am_piece_header_def tx_cfg_sizes_def)

lemma piece_pdu_bytes:
  assumes "tx_cfg_sizes tx" "piece_ok d so len" "am_sdu_ok d" "unat p < 2"
    and h: "h = am_piece_header (tx_sz tx) (tx_sn tx i) p d so len"
  shows "am_pdu_bytes h (take len (drop so d)) = Ret (am_piece_pdu (tx_sz tx) (tx_sn tx i) p d so len)"
    "length (am_piece_pdu (tx_sz tx) (tx_sn tx i) p d so len) = (if so = 0 then unat (min_hdr_size tx) else unat (max_hdr_size tx)) + len"
    "length (fst (rlc_am_nr_write_data_pdu_header h)) = (if so = 0 then unat (min_hdr_size tx) else unat (max_hdr_size tx))"
proof -
  note c = tx_cfg_sizesD [OF assms(1)]
  have "unat (tx_sn tx i) < (if tx_sz tx = am_size12bits then 2 ^ 12 else 2 ^ 18)"
    using unat_am_sn_of [OF c(1), of i] assms(1) by (auto simp: tx_cfg_sizes_def)
  then have v: "valid_header h" unfolding h by (rule am_piece_valid [OF assms(3,2) c(5) assms(4)])
  have l: "length (fst (rlc_am_nr_write_data_pdu_header h)) = rlc_am_nr_packed_length h" by (rule packed_length_written [OF v])
  have l2: "snd (rlc_am_nr_write_data_pdu_header h) = rlc_am_nr_packed_length h" by (simp add: rlc_am_nr_write_data_pdu_header_def)
  show "am_pdu_bytes h (take len (drop so d)) = Ret (am_piece_pdu (tx_sz tx) (tx_sn tx i) p d so len)"
    using l l2 by (cases "rlc_am_nr_write_data_pdu_header h") (simp add: am_pdu_bytes_def am_piece_pdu_def h [symmetric])
  show "length (fst (rlc_am_nr_write_data_pdu_header h)) = (if so = 0 then unat (min_hdr_size tx) else unat (max_hdr_size tx))"
    using l piece_packed_length [OF assms(1-3)] h by simp
  then show "length (am_piece_pdu (tx_sz tx) (tx_sn tx i) p d so len) = (if so = 0 then unat (min_hdr_size tx) else unat (max_hdr_size tx)) + len"
    using piece_length [OF assms(2)] by (simp add: am_piece_pdu_def h [symmetric])
qed

text \<open>What a MAC opportunity is to give: \<open>pdu\<close> and the new state.\<close>

definition tx_data :: "rlc_am_nr_tx \<Rightarrow> nat \<Rightarrow> bytes option" where
  "tx_data tx i = Option.bind (tx_pdu_at tx (tx_sn tx i)) (\<lambda>pdu. map_option data (tx_sdu_buf pdu))"

definition tx_keeps :: "nat \<Rightarrow> nat \<Rightarrow> rlc_am_nr_tx \<Rightarrow> nat \<Rightarrow> rlc_am_nr_tx \<Rightarrow> bool" where
  "tx_keeps A X tx X' tx' \<longleftrightarrow> am_tx_inv A X' tx' \<and> X \<le> X' \<and> am_tx_cfg tx' = am_tx_cfg tx \<and> tx_mod_nr tx' = tx_mod_nr tx \<and>
     am_tx_enabled tx' = am_tx_enabled tx \<and> (\<forall>i. A \<le> i \<and> i < tx_end tx X \<longrightarrow> tx_data tx' i = tx_data tx i)"

definition tx_piece :: "nat \<Rightarrow> nat \<Rightarrow> rlc_am_nr_tx \<Rightarrow> bytes \<Rightarrow> bool" where
  "tx_piece A X tx pdu \<longleftrightarrow> (\<exists>i d so len p. A \<le> i \<and> i \<le> X \<and> tx_data tx i = Some d \<and> piece_ok d so len \<and> unat p < 2 \<and>
     pdu = am_piece_pdu (tx_sz tx) (tx_sn tx i) p d so len)"

text \<open>
  The queue of SDUs from PDCP: it stays if nothing is sent or something else goes first; otherwise its
  first SDU gets the next sequence number and is in the window with its bytes and its PDCP sequence number.
\<close>

definition sdus_in :: "byte_buffer_queue \<Rightarrow> byte_buffer list" where
  "sdus_in q = map the (filter (\<lambda>x. x \<noteq> None) (queued q))"

definition sdu_numbered :: "byte_buffer \<Rightarrow> rlc_amd_tx_pdu_nr option \<Rightarrow> bool" where
  "sdu_numbered b p \<longleftrightarrow> (\<exists>pdu b'. p = Some pdu \<and> tx_pdcp_sn pdu = pdcp_sn b \<and> tx_sdu_buf pdu = Some b' \<and> data b' = data b)"

definition tx_takes :: "rlc_am_nr_tx \<Rightarrow> bytes \<Rightarrow> rlc_am_nr_tx \<Rightarrow> bool" where
  "tx_takes tx pdu tx' \<longleftrightarrow>
     (if pdu = [] \<or> retx_queue tx \<noteq> [] \<or> sdu_under_segmentation_sn tx \<noteq> INVALID_RLC_SN
      then sdus_in (am_tx_queue tx') = sdus_in (am_tx_queue tx)
      else \<exists>b. sdus_in (am_tx_queue tx) = b # sdus_in (am_tx_queue tx') \<and> sdu_numbered b (tx_pdu_at tx' (am_tx_next (am_st tx))))"

text \<open>A new SDU is sent from the first byte that was not sent, to its end or to where the transmitter says that it stopped.\<close>

definition sent_of :: "rlc_amd_tx_pdu_nr option \<Rightarrow> nat" where
  "sent_of p = (case p of None \<Rightarrow> 0 | Some pdu \<Rightarrow> sum_list (map (unat \<circ> payload_len) (segment_list pdu)))"

definition tx_goes_on :: "rlc_am_nr_tx \<Rightarrow> bytes \<Rightarrow> rlc_am_nr_tx \<Rightarrow> bool" where
  "tx_goes_on tx pdu tx' \<longleftrightarrow> pdu = [] \<or>
     (\<exists>p new b len. let so = sent_of (tx_pdu_at tx (am_tx_next (am_st tx))) in
        tx_pdu_at tx' (am_tx_next (am_st tx)) = Some new \<and> tx_sdu_buf new = Some b \<and>
        pdu = am_piece_pdu (tx_sz tx) (am_tx_next (am_st tx)) p (data b) so len \<and>
        (if sdu_under_segmentation_sn tx' = INVALID_RLC_SN then so + len = N_bytes b
         else sdu_under_segmentation_sn tx' = am_tx_next (am_st tx) \<and> sent_of (Some new) = so + len))"

lemma tiled_sum: "tiled a ss e \<Longrightarrow> e = a + sum_list (map (unat \<circ> payload_len) ss)"
  by (induction ss arbitrary: a) fastforce+

text \<open>
  The queue of retransmissions: its first entry is sent, all that is left of it or a part after
  which the rest stays at the front; it stays if nothing is sent.
\<close>

definition retx_left :: "rlc_amd_retx_nr \<Rightarrow> byte_buffer \<Rightarrow> u32" where
  "retx_left r b = (if is_segment r then retx_so_start r + segment_length r - current_so r else of_nat (N_bytes b))"

definition tx_resends :: "rlc_am_nr_tx \<Rightarrow> bytes \<Rightarrow> rlc_am_nr_tx \<Rightarrow> bool" where
  "tx_resends tx pdu tx' \<longleftrightarrow> pdu = [] \<and> retx_queue tx' = retx_queue tx \<or>
     (\<exists>r rest b p len old new. retx_queue tx = r # rest \<and> tx_pdu_at tx (retx_sn r) = Some old \<and> tx_sdu_buf old = Some b \<and>
        tx_pdu_at tx' (retx_sn r) = Some new \<and> tx_sdu_buf new = Some b \<and>
        pdu = am_piece_pdu (tx_sz tx) (retx_sn r) p (data b) (unat (current_so r)) (unat len) \<and>
        (len = retx_left r b \<and> retx_queue tx' = rest \<or>
         len < retx_left r b \<and> retx_queue tx' = r\<lparr>is_segment := True, current_so := current_so r + len\<rparr> # rest))"

definition tx_sends :: "nat \<Rightarrow> nat \<Rightarrow> rlc_am_nr_tx \<Rightarrow> u32 \<Rightarrow> bool \<Rightarrow> (bytes \<times> rlc_am_nr_tx) outcome \<Rightarrow> bool" where
  "tx_sends A X tx nof_bytes waiting res \<longleftrightarrow> (\<exists>pdu tx' X'. res = Ret (pdu, tx') \<and> tx_keeps A X tx X' tx' \<and>
     length pdu \<le> unat nof_bytes \<and> (pdu = [] \<or> tx_piece A X' tx' pdu) \<and>
     (waiting \<and> unat (max_hdr_size tx) < unat nof_bytes \<longrightarrow> pdu \<noteq> []) \<and>
     tx_takes tx pdu tx' \<and> (if retx_queue tx \<noteq> [] then tx_resends tx pdu tx' else tx_goes_on tx pdu tx'))"

lemma tx_keeps_refl: "am_tx_inv A X tx \<Longrightarrow> tx_keeps A X tx X tx"
  by (simp add: tx_keeps_def)

lemma tx_sends_nothing:
  "tx_keeps A X tx X' tx' \<Longrightarrow> (w \<Longrightarrow> unat (max_hdr_size tx) < unat n \<Longrightarrow> False) \<Longrightarrow>
     sdus_in (am_tx_queue tx') = sdus_in (am_tx_queue tx) \<Longrightarrow> retx_queue tx' = retx_queue tx \<Longrightarrow> tx_sends A X tx n w (Ret ([], tx'))"
  unfolding tx_sends_def tx_takes_def tx_resends_def tx_goes_on_def by auto

lemma tx_sends_any: "tx_sends A X tx n True r \<Longrightarrow> tx_sends A X tx n w r"
  unfolding tx_sends_def by blast

lemma tx_data_frame [simp]:
  "tx_data (tx\<lparr>am_st := st'\<rparr>) = tx_data tx" "tx_data (tx\<lparr>poll_retransmit_timer := t\<rparr>) = tx_data tx"
  "tx_data (tx\<lparr>retx_queue := q\<rparr>) = tx_data tx" "tx_data (tx\<lparr>am_tx_queue := q'\<rparr>) = tx_data tx"
  "tx_data (tx\<lparr>sdu_under_segmentation_sn := sn\<rparr>) = tx_data tx"
  by (auto simp: tx_data_def fun_eq_iff)

lemma tx_pdu_okD:
  assumes "am_tx_inv A X tx" "tx_pdu_at tx sn = Some pdu"
  obtains i b where "A \<le> i" "i < tx_end tx X" "sn = tx_sn tx i" "am_pdu_ok (tx_sz tx) sn (i = X) pdu"
    "tx_sdu_buf pdu = Some b" "am_sdu_ok (data b)" "tx_data tx i = Some (data b)" "i \<le> X"
proof -
  have win: "tx_win tx A X" and ok: "tx_pdus_ok tx A X" using assms(1) by (simp_all add: am_tx_inv_def)
  obtain i where i: "A \<le> i" "i < tx_end tx X" "sn = tx_sn tx i" using tx_winD(8) [OF win, of sn] assms(2) by auto
  then have p: "am_pdu_ok (tx_sz tx) sn (i = X) pdu" using ok assms(2) by (auto simp: tx_pdus_ok_def)
  then obtain b where "tx_sdu_buf pdu = Some b" "am_sdu_ok (data b)" by (auto simp: am_pdu_ok_def)
  moreover have "i \<le> X" using i(2) by (auto simp: tx_end_def split: if_splits)
  ultimately show ?thesis using that i p assms(2) by (simp add: tx_data_def)
qed

section \<open>Retransmission\<close>

lemma tx_pieceI:
  "A \<le> i \<Longrightarrow> i \<le> X \<Longrightarrow> tx_data tx i = Some d \<Longrightarrow> piece_ok d so len \<Longrightarrow> unat p < 2 \<Longrightarrow>
     tx_piece A X tx (am_piece_pdu (tx_sz tx) (tx_sn tx i) p d so len)"
  unfolding tx_piece_def by blast

lemma tiled_apart:
  "tiled a ss e \<Longrightarrow> s \<in> set ss \<Longrightarrow> t \<in> set ss \<Longrightarrow> unat (seg_so s) < unat (seg_so t) \<Longrightarrow>
     unat (seg_so s) + unat (payload_len s) \<le> unat (seg_so t)"
proof (induction ss arbitrary: a)
  case (Cons u ss)
  note m = tiled_mem [of "a + unat (payload_len u)" ss e]
  show ?case using Cons m [of s] m [of t] by fastforce
qed simp

lemma slice_piece:
  "piece_ok (data b) (unat c) (unat l) \<Longrightarrow> sdu_slice b c l = Ret (take (unat l) (drop (unat c) (data b)))"
  by (simp add: sdu_slice_def piece_ok_def)

lemma retx_header:
  assumes "am_pdu_ok sz sn part pdu"
  shows "(tx_header pdu)\<lparr>am_si := am_si (am_piece_header sz sn p d (unat c) len), am_so := ucast c, am_p := p\<rparr>
     = am_piece_header sz sn p d (unat c) len"
proof -
  have "(ucast c :: u16) = of_nat (unat c)" for c :: u32 by simp
  then show ?thesis using assms by (cases "tx_header pdu") (auto simp: am_pdu_ok_def am_piece_header_def)
qed

text \<open>An entry of the queue of retransmissions stands for a piece of its SDU.\<close>

lemma retx_pieceD:
  assumes inv: "am_tx_inv A X tx" and r: "r \<in> set (retx_queue tx)"
  obtains i pdu b where "A \<le> i" "i < tx_end tx X" "i \<le> X" "retx_sn r = tx_sn tx i" "tx_pdu_at tx (retx_sn r) = Some pdu"
    "am_pdu_ok (tx_sz tx) (tx_sn tx i) (i = X) pdu" "tx_sdu_buf pdu = Some b" "am_sdu_ok (data b)" "tx_data tx i = Some (data b)"
    "piece_ok (data b) (unat (current_so r)) (unat (retx_left r b))"
    "is_segment r \<longrightarrow> unat (retx_left r b) < N_bytes b" "\<not> is_segment r \<longrightarrow> current_so r = 0 \<and> segment_list pdu = [] \<and> unat (retx_left r b) = N_bytes b \<and> segment_length r = of_nat (N_bytes b) \<and> retx_so_start r = 0"
    "is_segment r \<longrightarrow> (\<exists>s \<in> set (segment_list pdu). seg_so s = current_so r \<and> payload_len s = retx_left r b \<and>
       unat (retx_so_start r) \<le> unat (current_so r) \<and> unat (retx_so_start r) + unat (segment_length r) = unat (current_so r) + unat (payload_len s))"
proof -
  have "retx_ok (am_tx_window tx) r" using inv r by (simp add: am_tx_inv_def)
  then obtain pdu b where p: "tx_pdu_at tx (retx_sn r) = Some pdu" "tx_sdu_buf pdu = Some b"
    "if is_segment r
     then (\<exists>s \<in> set (segment_list pdu). seg_so s = current_so r \<and> unat (retx_so_start r) \<le> unat (current_so r) \<and>
          unat (retx_so_start r) + unat (segment_length r) = unat (current_so r) + unat (payload_len s))
     else segment_list pdu = [] \<and> retx_so_start r = 0 \<and> current_so r = 0 \<and> segment_length r = of_nat (N_bytes b)"
    by (auto simp: retx_ok_def)
  obtain i where i: "A \<le> i" "i < tx_end tx X" "i \<le> X" "retx_sn r = tx_sn tx i" "am_pdu_ok (tx_sz tx) (retx_sn r) (i = X) pdu"
    "am_sdu_ok (data b)" "tx_data tx i = Some (data b)"
    by (rule tx_pdu_okD [OF inv p(1)]) (use p(2) in auto)
  have N: "0 < N_bytes b" "N_bytes b \<le> 12234" using am_sdu_len [OF i(6)] by simp_all
  have Nw: "unat (of_nat (N_bytes b) :: u32) = N_bytes b" using N(2) by (intro unat_u32) simp
  show ?thesis
  proof (cases "is_segment r")
    case True
    then obtain s where s: "s \<in> set (segment_list pdu)" "seg_so s = current_so r" "unat (retx_so_start r) \<le> unat (current_so r)"
      "unat (retx_so_start r) + unat (segment_length r) = unat (current_so r) + unat (payload_len s)" using p(3) by auto
    obtain e where e: "tiled 0 (segment_list pdu) e" "e \<le> N_bytes b" "unat (payload_len s) < N_bytes b"
      using i(5) s(1) p(2) by (auto simp: am_pdu_ok_def split: if_splits)
    note m = tiled_mem [OF e(1) s(1)]
    have "unat (retx_so_start r + segment_length r) = unat (current_so r) + unat (payload_len s)"
      using s m e N by (subst unat_plus_small) auto
    then have "unat (retx_left r b) = unat (payload_len s)"
      using True by (simp add: retx_left_def unat_minus_small word_le_nat_alt)
    then have l: "retx_left r b = payload_len s" by (simp add: word_unat_eq_iff)
    have pc: "piece_ok (data b) (unat (current_so r)) (unat (retx_left r b))"
      using m e s(2) l by (auto simp: piece_ok_def)
    show ?thesis by (rule that [OF i(1-4) p(1) _ p(2) i(6,7) pc]) (use True i(4,5) e(3) l s in auto)
  next
    case False
    then have l: "unat (retx_left r b) = N_bytes b" using Nw by (simp add: retx_left_def)
    have pc: "piece_ok (data b) (unat (current_so r)) (unat (retx_left r b))"
      using p(3) False N unfolding l by (simp add: piece_ok_def)
    show ?thesis by (rule that [OF i(1-4) p(1) _ p(2) i(6,7) pc]) (use False i(4,5) p(3) l in auto)
  qed
qed

lemma hdr_small: "tx_cfg_sizes tx \<Longrightarrow> unat (min_hdr_size tx) \<le> 3 \<and> unat (max_hdr_size tx) \<le> 5 \<and> 2 \<le> unat (min_hdr_size tx)"
  by (auto simp: tx_cfg_sizes_def)

lemma of_nat_unat_u32: "(of_nat (unat (x :: u32)) :: u32) = x"
  by simp

lemma send_retx_whole:
  assumes inv: "am_tx_inv A X tx" and q: "retx_queue tx = r # rest"
    and req: "is_retx_segmentation_required r nof_bytes tx = Ret False"
  shows "tx_sends A X tx nof_bytes True (build_retx_pdu_without_segmentation r nof_bytes tx)"
proof -
  have "r \<in> set (retx_queue tx)" using q by simp
  then obtain i pdu b where r: "A \<le> i" "i < tx_end tx X" "i \<le> X" "retx_sn r = tx_sn tx i" "tx_pdu_at tx (retx_sn r) = Some pdu"
    "am_pdu_ok (tx_sz tx) (tx_sn tx i) (i = X) pdu" "tx_sdu_buf pdu = Some b" "am_sdu_ok (data b)" "tx_data tx i = Some (data b)"
    "piece_ok (data b) (unat (current_so r)) (unat (retx_left r b))"
    "is_segment r \<longrightarrow> unat (retx_left r b) < N_bytes b" "\<not> is_segment r \<longrightarrow> current_so r = 0 \<and> segment_list pdu = [] \<and> unat (retx_left r b) = N_bytes b \<and> segment_length r = of_nat (N_bytes b) \<and> retx_so_start r = 0"
    by (rule retx_pieceD [OF inv])
  have cfg: "tx_cfg_sizes tx" using inv by (simp add: am_tx_inv_def tx_win_def)
  note h = hdr_small [OF cfg]
  let ?c = "current_so r" and ?L = "retx_left r b"
  have N: "N_bytes b \<le> 12234" "unat (of_nat (N_bytes b) :: u32) = N_bytes b"
    using am_sdu_len [OF r(8)] by (auto intro: unat_u32)
  have so: "unat ?c = 0 \<longleftrightarrow> ?c = 0" by (simp add: unat_eq_0)
  have fit: "?c = 0 \<longrightarrow> unat ?L + unat (min_hdr_size tx) \<le> unat nof_bytes" "?c \<noteq> 0 \<longrightarrow> unat ?L + unat (max_hdr_size tx) \<le> unat nof_bytes"
    using req r(5,7,10,12) N h
    by (auto simp: is_retx_segmentation_required_def retx_left_def piece_ok_def word_less_nat_alt unat_plus_small split: if_splits)
  define q' where "q' = tx\<lparr>retx_queue := rest\<rparr>"
  obtain p st' t' where g: "get_pdu_poll (retx_sn r) True 0 q' = (p, q'\<lparr>am_st := st', poll_retransmit_timer := t'\<rparr>)"
    "unat p < 2" "am_tx_next_ack st' = am_tx_next_ack (am_st q')" "am_tx_next st' = am_tx_next (am_st q')"
    by (rule get_pdu_poll_frame)
  let ?d = "data b" and ?sz = "tx_sz tx" and ?sn = "tx_sn tx i"
  let ?H = "am_piece_header ?sz ?sn p ?d (unat ?c) (unat ?L)" and ?tx' = "q'\<lparr>am_st := st', poll_retransmit_timer := t'\<rparr>"
  have len: "(if is_segment r then retx_so_start r + segment_length r - ?c else of_nat (N_bytes b)) = ?L" by (simp add: retx_left_def)
  have Ls: "unat ?c + unat ?L \<le> N_bytes b" using r(10) by (simp add: piece_ok_def)
  have cL: "unat (?c + ?L) = unat ?c + unat ?L" using Ls N by (intro unat_plus_small) simp
  have si: "(if is_segment r then (if ?c = 0 then first_segment
              else if ?c + ?L < of_nat (N_bytes b) then neither_first_nor_last_segment else last_segment) else full_sdu) = am_si ?H"
    using r(11,12) N(2) so Ls by (auto simp: am_piece_header_def word_less_nat_alt cL)
  have hlen: "(of_nat (rlc_am_nr_packed_length ?H) :: u32) = (if ?c = 0 then min_hdr_size tx else max_hdr_size tx)"
    using piece_packed_length [OF cfg r(10,8)] so by (simp add: of_nat_unat_u32)
  have ex: "get_retx_expected_hdr_len r tx = (if ?c = 0 then min_hdr_size tx else max_hdr_size tx)"
    using r(12) by (auto simp: get_retx_expected_hdr_len_def)
  have le: "(if ?c = 0 then min_hdr_size tx else max_hdr_size tx) + ?L \<le> nof_bytes"
    using fit h N Ls by (auto simp: word_le_nat_alt unat_plus_small)
  note by_ = piece_pdu_bytes [OF cfg r(10,8) g(2) refl, where i = i]
  have res: "build_retx_pdu_without_segmentation r nof_bytes tx = Ret (am_piece_pdu ?sz ?sn p ?d (unat ?c) (unat ?L), ?tx')"
    unfolding build_retx_pdu_without_segmentation_def r(5) req
    by (simp only: outcome_of.simps bind_outcome.simps r(7) Let_def len ex le if_False not_True_eq_False simp_thms si q list.sel
        q'_def [symmetric] g(1) prod.case retx_header [OF r(6)] hlen slice_piece [OF r(10)] by_(1))
  have "retx_apart rest" "\<forall>r \<in> set rest. retx_ok (am_tx_window tx) r" using inv q by (simp_all add: am_tx_inv_def retx_apart_def)
  then have "am_tx_inv A X q'" unfolding q'_def by (intro tx_inv_retx [OF inv])
  then have inv': "am_tx_inv A X ?tx'" using tx_inv_poll [OF g(3,4)] by simp
  have k: "tx_keeps A X tx X ?tx'" using inv' by (simp add: tx_keeps_def q'_def)
  have "length (am_piece_pdu ?sz ?sn p ?d (unat ?c) (unat ?L)) \<le> unat nof_bytes"
    using by_(2) fit so by auto
  moreover have "am_piece_pdu ?sz ?sn p ?d (unat ?c) (unat ?L) \<noteq> []" using by_(2) r(10) by (auto simp: piece_ok_def)
  moreover have "tx_piece A X ?tx' (am_piece_pdu ?sz ?sn p ?d (unat ?c) (unat ?L))"
    using tx_pieceI [of A i X ?tx' ?d "unat ?c" "unat ?L" p] r(1,3,9,10) g(2) by (simp add: q'_def)
  moreover have "tx_resends tx (am_piece_pdu ?sz ?sn p ?d (unat ?c) (unat ?L)) ?tx'"
    unfolding tx_resends_def using q r(4,5,7)
    by (intro disjI2 exI [of _ r] exI [of _ rest] exI [of _ b] exI [of _ p] exI [of _ ?L] exI [of _ pdu] exI [of _ pdu]) (simp add: q'_def)
  moreover have "tx_takes tx (am_piece_pdu ?sz ?sn p ?d (unat ?c) (unat ?L)) ?tx'" using q by (simp add: tx_takes_def q'_def)
  ultimately show ?thesis unfolding tx_sends_def res using k q by auto
qed

text \<open>The segment that is retransmitted is split; the rest of it stays at the front of the queue.\<close>

definition split_pdu :: "rlc_amd_retx_nr \<Rightarrow> u32 \<Rightarrow> rlc_amd_tx_pdu_nr \<Rightarrow> rlc_amd_tx_pdu_nr" where
  "split_pdu r len pdu = pdu\<lparr>segment_list :=
     (if is_segment r then split_segment (current_so r) len (segment_list pdu)
      else segment_list pdu @ [\<lparr>seg_so = current_so r, payload_len = len\<rparr>,
             \<lparr>seg_so = current_so r + len, payload_len = segment_length r - len\<rparr>])\<rparr>"

lemma split_pdu_inv:
  assumes inv: "am_tx_inv A X tx" and q: "retx_queue tx = r # rest"
    and i: "A \<le> i" "i < tx_end tx X" "retx_sn r = tx_sn tx i" "tx_pdu_at tx (retx_sn r) = Some pdu" "tx_sdu_buf pdu = Some b"
    and len: "0 < unat len" "unat len < unat (retx_left r b)"
  shows "am_tx_inv A X ((put_pdu (retx_sn r) (split_pdu r len pdu) tx)
     \<lparr>retx_queue := r\<lparr>is_segment := True, current_so := current_so r + len\<rparr> # rest\<rparr>)"
proof -
  let ?pdu = "split_pdu r len pdu" and ?r = "r\<lparr>is_segment := True, current_so := current_so r + len\<rparr>" and ?L = "retx_left r b"
  let ?tx = "put_pdu (retx_sn r) ?pdu tx" and ?c = "current_so r"
  have win: "tx_win tx A X" using inv by (simp add: am_tx_inv_def)
  have ins: "i \<le> tx_end tx X" "i < A + tx_W tx" using i(2) tx_winD(6) [OF win] by simp_all
  note at = put_pdu_at [OF win i(1) ins, of ?pdu, folded i(3)]
  have rs: "r \<in> set (retx_queue tx)" using q by simp
  obtain j pdu' b' where j: "A \<le> j" "j < tx_end tx X" "j \<le> X" "retx_sn r = tx_sn tx j" "tx_pdu_at tx (retx_sn r) = Some pdu'"
    "am_pdu_ok (tx_sz tx) (tx_sn tx j) (j = X) pdu'" "tx_sdu_buf pdu' = Some b'" "am_sdu_ok (data b')" "tx_data tx j = Some (data b')"
    "piece_ok (data b') (unat ?c) (unat (retx_left r b'))"
    "is_segment r \<longrightarrow> unat (retx_left r b') < N_bytes b'" "\<not> is_segment r \<longrightarrow> ?c = 0 \<and> segment_list pdu' = [] \<and> unat (retx_left r b') = N_bytes b' \<and> segment_length r = of_nat (N_bytes b') \<and> retx_so_start r = 0"
    "is_segment r \<longrightarrow> (\<exists>s \<in> set (segment_list pdu'). seg_so s = ?c \<and> payload_len s = retx_left r b' \<and>
       unat (retx_so_start r) \<le> unat ?c \<and> unat (retx_so_start r) + unat (segment_length r) = unat ?c + unat (payload_len s))"
    by (rule retx_pieceD [OF inv rs])
  have "j = i" "pdu' = pdu" "b' = b" using j(1-5,7) i tx_sn_inj [OF win, of j i] tx_winD(6) [OF win] by auto
  note r0 = j(6,8,10-13) [unfolded this]
  have N: "N_bytes b \<le> 12234" "unat (of_nat (N_bytes b) :: u32) = N_bytes b"
    using am_sdu_len [OF r0(2)] by (auto intro: unat_u32)
  have cl: "unat (?c + len) = unat ?c + unat len" using r0(3) len(2) N by (intro unat_plus_small) (simp add: piece_ok_def)
  have ml: "unat (?L - len) = unat ?L - unat len" using len(2) by (simp add: unat_minus_small word_le_nat_alt)
  have new0: "(\<exists>e. tiled 0 (segment_list ?pdu) e \<and> e \<le> N_bytes b \<and> (i = X \<longleftrightarrow> e < N_bytes b)) \<and> segment_list ?pdu \<noteq> [] \<and>
      (\<forall>s \<in> set (segment_list ?pdu). unat (payload_len s) < N_bytes b) \<and> \<lparr>seg_so = ?c + len, payload_len = ?L - len\<rparr> \<in> set (segment_list ?pdu) \<and>
      (\<forall>t. t \<in> set (segment_list pdu) \<longrightarrow> seg_so t \<noteq> ?c \<longrightarrow> t \<in> set (segment_list ?pdu) \<and> seg_so t \<noteq> ?c + len)"
  proof (cases "is_segment r")
    case True
    then obtain s where s: "s \<in> set (segment_list pdu)" "seg_so s = ?c" "payload_len s = ?L" using r0(6) by auto
    then obtain e where e: "tiled 0 (segment_list pdu) e" "e \<le> N_bytes b" "i = X \<longleftrightarrow> e < N_bytes b"
      "\<forall>s \<in> set (segment_list pdu). unat (payload_len s) < N_bytes b"
      using r0(1) i(5) by (auto simp: am_pdu_ok_def split: if_splits)
    have sp: "unat len < unat (payload_len s)" "e < 2 ^ 32" using len(2) s(3) e(2) N by simp_all
    note sp = split_segment_tiled [OF e(1) s(1) len(1) sp, unfolded s(2)]
    have "t \<noteq> s \<and> seg_so t \<noteq> ?c + len" if "t \<in> set (segment_list pdu)" "seg_so t \<noteq> ?c" for t
      using tiled_apart [OF e(1) s(1) that(1)] s that(2) len cl by auto
    moreover have "unat (payload_len s - len) < N_bytes b" "unat len < N_bytes b"
      using e(4) s len(2) ml by auto
    ultimately show ?thesis
      using True sp e s by (auto simp: split_pdu_def)
  next
    case False
    then have f: "?c = 0" "segment_list pdu = []" "unat ?L = N_bytes b" "segment_length r = ?L" "i \<noteq> X"
      using r0(1,5) by (auto simp: am_pdu_ok_def retx_left_def)
    then show ?thesis
      using False len ml by (simp add: split_pdu_def)
  qed
  have new: "\<exists>e. tiled 0 (segment_list ?pdu) e \<and> e \<le> N_bytes b \<and> (i = X \<longleftrightarrow> e < N_bytes b)" "segment_list ?pdu \<noteq> []"
    "\<forall>s \<in> set (segment_list ?pdu). unat (payload_len s) < N_bytes b"
    "\<lparr>seg_so = ?c + len, payload_len = ?L - len\<rparr> \<in> set (segment_list ?pdu)"
    "\<And>t. t \<in> set (segment_list pdu) \<Longrightarrow> seg_so t \<noteq> ?c \<Longrightarrow> t \<in> set (segment_list ?pdu) \<and> seg_so t \<noteq> ?c + len"
    using new0 by blast+
  have hdr: "tx_header ?pdu = tx_header pdu" "tx_sdu_buf ?pdu = tx_sdu_buf pdu" by (simp_all add: split_pdu_def)
  have ok: "am_pdu_ok (tx_sz tx) (tx_sn tx i) (i = X) ?pdu"
    using r0(1) new(1-3) i(5) by (auto simp: am_pdu_ok_def hdr)
  have apart: "retx_apart rest" "\<forall>x \<in> set rest. retx_sn r = retx_sn x \<longrightarrow> is_segment r \<and> is_segment x \<and> ?c \<noteq> current_so x"
    "\<forall>x \<in> set rest. retx_ok (am_tx_window tx) x"
    using inv q by (auto simp: am_tx_inv_def retx_apart_def)
  have other: "retx_ok (am_tx_window ?tx) x \<and> (retx_sn r = retx_sn x \<longrightarrow> is_segment x \<and> ?c + len \<noteq> current_so x)" if x: "x \<in> set rest" for x
  proof (cases "retx_sn x = retx_sn r")
    case True
    then have a: "is_segment x" "?c \<noteq> current_so x" using apart(2) x by auto
    obtain s where s: "s \<in> set (segment_list pdu)" "seg_so s = current_so x" "unat (retx_so_start x) \<le> unat (current_so x)"
      "unat (retx_so_start x) + unat (segment_length x) = unat (current_so x) + unat (payload_len s)"
      using bspec [OF apart(3) x] a(1) True i(4,5) by (auto simp: retx_ok_def)
    then have "s \<in> set (segment_list ?pdu)" "?c + len \<noteq> current_so x" using new(5) [of s] a(2) by auto
    then show ?thesis using a(1) s(2-4) i(5) True at(1) by (auto simp: retx_ok_def hdr)
  next
    case False
    then show ?thesis using apart(3) x at(1) by (auto simp: retx_ok_def)
  qed
  have so: "unat (retx_so_start r) \<le> unat ?c \<and> unat (retx_so_start r) + unat (segment_length r) = unat ?c + unat ?L"
    using r0(5,6) N(2) by (cases "is_segment r") auto
  have "retx_ok (am_tx_window ?tx) ?r"
    unfolding retx_ok_def using at(1) new(4) i(5) so cl ml len(2)
    by (intro exI [of _ ?pdu] exI [of _ b]) (force simp: hdr)
  then have "\<forall>x \<in> set (?r # rest). retx_ok (am_tx_window ?tx) x" using other by auto
  moreover have "retx_apart (?r # rest)" using apart(1) other by (auto simp: retx_apart_def)
  ultimately show ?thesis using tx_inv_put [OF inv i(1,2) ok] unfolding i(3) by blast
qed

lemma send_retx_split:
  assumes inv: "am_tx_inv A X tx" and q: "retx_queue tx = r # rest"
    and req: "is_retx_segmentation_required r nof_bytes tx = Ret True"
  shows "tx_sends A X tx nof_bytes True (build_retx_pdu_with_segmentation r nof_bytes tx)"
proof -
  have "r \<in> set (retx_queue tx)" using q by simp
  then obtain i pdu b where r: "A \<le> i" "i < tx_end tx X" "i \<le> X" "retx_sn r = tx_sn tx i" "tx_pdu_at tx (retx_sn r) = Some pdu"
    "am_pdu_ok (tx_sz tx) (tx_sn tx i) (i = X) pdu" "tx_sdu_buf pdu = Some b" "am_sdu_ok (data b)" "tx_data tx i = Some (data b)"
    "piece_ok (data b) (unat (current_so r)) (unat (retx_left r b))"
    "is_segment r \<longrightarrow> unat (retx_left r b) < N_bytes b" "\<not> is_segment r \<longrightarrow> current_so r = 0 \<and> segment_list pdu = [] \<and> unat (retx_left r b) = N_bytes b \<and> segment_length r = of_nat (N_bytes b) \<and> retx_so_start r = 0"
    "is_segment r \<longrightarrow> (\<exists>s \<in> set (segment_list pdu). seg_so s = current_so r \<and> payload_len s = retx_left r b \<and>
       unat (retx_so_start r) \<le> unat (current_so r) \<and> unat (retx_so_start r) + unat (segment_length r) = unat (current_so r) + unat (payload_len s))"
    by (rule retx_pieceD [OF inv])
  have win: "tx_win tx A X" and cfg: "tx_cfg_sizes tx" using inv by (simp_all add: am_tx_inv_def tx_win_def)
  note h = hdr_small [OF cfg]
  let ?c = "current_so r" and ?L = "retx_left r b" and ?hdr = "if current_so r \<noteq> 0 then max_hdr_size tx else min_hdr_size tx"
  let ?P = "nof_bytes - ?hdr" and ?d = "data b" and ?sz = "tx_sz tx" and ?sn = "tx_sn tx i"
  have N: "N_bytes b \<le> 12234" "unat (of_nat (N_bytes b) :: u32) = N_bytes b"
    using am_sdu_len [OF r(8)] by (auto intro: unat_u32)
  have so: "unat ?c = 0 \<longleftrightarrow> ?c = 0" by (simp add: unat_eq_0)
  have Ls: "unat ?c + unat ?L \<le> N_bytes b" using r(10) by (simp add: piece_ok_def)
  have short: "unat nof_bytes < unat ?L + unat ?hdr"
    using req r(5,7,10,12) N h
    by (auto simp: is_retx_segmentation_required_def retx_left_def piece_ok_def word_less_nat_alt unat_plus_small split: if_splits)
  have sum: "unat (of_nat (N_bytes b) + ?hdr) = N_bytes b + unat ?hdr" using N h by (simp add: unat_plus_small)
  show ?thesis
  proof (cases "nof_bytes \<le> ?hdr \<or> of_nat (N_bytes b) + ?hdr < nof_bytes")
    case True
    then have "build_retx_pdu_with_segmentation r nof_bytes tx = Ret ([], tx)"
      unfolding build_retx_pdu_with_segmentation_def r(5) req by (auto simp: r(7) Let_def)
    moreover have "\<not> unat (max_hdr_size tx) < unat nof_bytes"
      using True short sum Ls tx_cfg_sizesD(7) [OF cfg] by (auto simp: word_le_nat_alt word_less_nat_alt split: if_splits)
    ultimately show ?thesis using tx_sends_nothing [OF tx_keeps_refl [OF inv], of True nof_bytes] by simp
  next
    case False
    have up: "unat ?P = unat nof_bytes - unat ?hdr" "unat ?hdr < unat nof_bytes"
      using False by (auto simp: unat_minus_small word_le_nat_alt)
    have P: "0 < unat ?P" "unat ?P < unat ?L" using up short by linarith+
    have pc: "piece_ok ?d (unat ?c) (unat ?P)" using P Ls by (simp add: piece_ok_def)
    obtain p st' t' where g: "get_pdu_poll (retx_sn r) True 0 tx = (p, tx\<lparr>am_st := st', poll_retransmit_timer := t'\<rparr>)"
      "unat p < 2" "am_tx_next_ack st' = am_tx_next_ack (am_st tx)" "am_tx_next st' = am_tx_next (am_st tx)"
      by (rule get_pdu_poll_frame)
    let ?H = "am_piece_header ?sz ?sn p ?d (unat ?c) (unat ?P)" and ?tx1 = "tx\<lparr>am_st := st', poll_retransmit_timer := t'\<rparr>"
    let ?tx' = "(put_pdu (retx_sn r) (split_pdu r ?P pdu) ?tx1)\<lparr>retx_queue := r\<lparr>is_segment := True, current_so := ?c + ?P\<rparr> # rest\<rparr>"
    have si: "(if ?c \<noteq> 0 then neither_first_nor_last_segment else first_segment) = am_si ?H"
      using so Ls P by (auto simp: am_piece_header_def)
    have hd: "(tx_header pdu)\<lparr>am_p := p, am_so := ucast ?c, am_si := am_si ?H\<rparr> = ?H"
      using retx_header [OF r(6), where p = p and d = ?d and c = ?c and len = "unat ?P"] by (cases "tx_header pdu") simp
    have hlen: "(of_nat (rlc_am_nr_packed_length ?H) :: u32) = ?hdr"
      using piece_packed_length [OF cfg pc r(8)] so by (simp add: of_nat_unat_u32)
    note by_ = piece_pdu_bytes [OF cfg pc r(8) g(2) refl, where i = i]
    have cP: "unat (?c + ?P) = unat ?c + unat ?P" 
    proof (rule unat_plus_small, rule le_less_trans)
      show "unat ?c + unat ?P \<le> 12234" using Ls P N by linarith
    qed simp
    have cL: "unat (retx_so_start r + segment_length r) = unat ?c + unat ?L"
      using r(12,13) N Ls by (cases "is_segment r") (auto simp: unat_plus_small)
    have no: "\<not> of_nat (N_bytes b) \<le> ?c + ?P" "\<not> retx_so_start r + segment_length r \<le> ?c + ?P"
      using cP cL N Ls P by (simp_all add: word_le_nat_alt)
    have sum: "?hdr + ?P \<le> nof_bytes" by simp
    have flds: "retx_queue ?tx1 = r # rest" "current_so (r\<lparr>is_segment := True, current_so := x\<rparr>) = x"
      "retx_so_start (r\<lparr>is_segment := True, current_so := x\<rparr>) = retx_so_start r"
      "segment_length (r\<lparr>is_segment := True, current_so := x\<rparr>) = segment_length r"
      "retx_sn (r\<lparr>is_segment := True, current_so := x\<rparr>) = retx_sn r" for x by (simp_all add: q)
    have res: "build_retx_pdu_with_segmentation r nof_bytes tx = Ret (am_piece_pdu ?sz ?sn p ?d (unat ?c) (unat ?P), ?tx')"
      unfolding build_retx_pdu_with_segmentation_def r(5) req
      using False no
      by (simp only: outcome_of.simps bind_outcome.simps r(7) Let_def si hd g(1) prod.case hlen slice_piece [OF pc] by_(1) simp_thms
          if_False if_True sum de_Morgan_disj rlc_amd_retx_nr.simps split_pdu_def [symmetric] flds list.sel rlc_am_nr_tx.simps)
    have inv1: "am_tx_inv A X ?tx1" using inv tx_inv_poll [OF g(3,4)] by simp
    have inv': "am_tx_inv A X ?tx'"
      by (rule split_pdu_inv [OF inv1, where i = i and b = b]) (use q r(1-5,7) P in auto)
    have win1: "tx_win ?tx1 A X" using inv1 by (simp add: am_tx_inv_def)
    have at1: "tx_pdu_at (put_pdu (tx_sn ?tx1 i) (split_pdu r ?P pdu) ?tx1) = (tx_pdu_at ?tx1)(tx_sn ?tx1 i := Some (split_pdu r ?P pdu))"
      by (rule put_pdu_at [OF win1 r(1)]) (use r(2) tx_winD(6) [OF win] in auto)
    have dat: "tx_data ?tx' j = tx_data tx j" if "A \<le> j" "j < tx_end tx X" for j
      using at1 r(4,5,7) by (auto simp: tx_data_def split_pdu_def)
    have k: "tx_keeps A X tx X ?tx'" using inv' dat by (simp add: tx_keeps_def)
    have "length (am_piece_pdu ?sz ?sn p ?d (unat ?c) (unat ?P)) \<le> unat nof_bytes"
      using by_(2) up so by (auto split: if_splits)
    moreover have "am_piece_pdu ?sz ?sn p ?d (unat ?c) (unat ?P) \<noteq> []" using by_(2) P by auto
    moreover have "tx_piece A X ?tx' (am_piece_pdu ?sz ?sn p ?d (unat ?c) (unat ?P))"
      using tx_pieceI [of A i X ?tx' ?d "unat ?c" "unat ?P" p] r(1-3,9) dat [OF r(1,2)] pc g(2) by simp
    moreover have "tx_resends tx (am_piece_pdu ?sz ?sn p ?d (unat ?c) (unat ?P)) ?tx'"
      unfolding tx_resends_def using q r(4,5,7) at1 P
      by (intro disjI2 exI [of _ r] exI [of _ rest] exI [of _ b] exI [of _ p] exI [of _ ?P] exI [of _ pdu] exI [of _ "split_pdu r ?P pdu"])
        (simp add: split_pdu_def word_less_nat_alt)
    moreover have "tx_takes tx (am_piece_pdu ?sz ?sn p ?d (unat ?c) (unat ?P)) ?tx'" using q by (simp add: tx_takes_def)
    moreover have "retx_queue tx \<noteq> []" using q by simp
    ultimately show ?thesis unfolding tx_sends_def res using k by metis
  qed
qed

lemma send_retx:
  assumes inv: "am_tx_inv A X tx"
  shows "tx_sends A X tx nof_bytes (retx_queue tx \<noteq> []) (build_retx_pdu nof_bytes tx)"
proof (cases "retx_queue tx")
  case Nil
  then show ?thesis using tx_sends_nothing [OF tx_keeps_refl [OF inv]] by (simp add: build_retx_pdu_def)
next
  case (Cons r rest)
  then obtain pdu b where r: "tx_pdu_at tx (retx_sn r) = Some pdu" "tx_sdu_buf pdu = Some b"
    using retx_pieceD [OF inv, of r] by (metis list.set_intros(1))
  obtain req where req: "is_retx_segmentation_required r nof_bytes tx = Ret req"
    by (cases "is_segment r") (auto simp: is_retx_segmentation_required_def r)
  show ?thesis using send_retx_whole [OF inv Cons] send_retx_split [OF inv Cons] req r(1) Cons
    by (cases req) (simp_all add: build_retx_pdu_def)
qed

section \<open>New SDUs\<close>

lemma put_put:
  assumes "cm_ok (am_tx_window tx)"
  shows "put_pdu sn a (put_pdu sn b tx) = put_pdu sn a tx"
proof -
  let ?w = "am_tx_window tx"
  have ok: "cm_ok (cm_overwrite sn b ?w)" by (rule cm.ok_add [OF assms])
  have "cm_overwrite sn a (cm_overwrite sn b ?w) = cm_overwrite sn a ?w"
    using cm_size_pos [OF assms, of "cm_idx ?w sn"] unfolding cm_overwrite_slot [OF ok]
    by (auto simp: cm_overwrite_slot [OF assms])
  then show ?thesis by (simp add: put_pdu_def)
qed

text \<open>The SDU with the next sequence number: sent, or a part of it.\<close>

lemma tx_inv_last:
  assumes inv: "am_tx_inv A X tx" and room: "X < A + tx_W tx"
    and pdu: "am_pdu_ok (tx_sz tx) (tx_sn tx X) part pdu" and q: "tx_queue_ok q"
    and retx: "\<forall>r \<in> set (retx_queue tx). retx_ok (am_tx_window (put_pdu (tx_sn tx X) pdu tx)) r"
    and st: "am_tx_next_ack st' = am_tx_next_ack (am_st tx)" "am_tx_next st' = tx_sn tx (if part then X else Suc X)"
  shows "am_tx_inv A (if part then X else Suc X) ((put_pdu (tx_sn tx X) pdu tx)\<lparr>am_st := st', poll_retransmit_timer := t',
    sdu_under_segmentation_sn := (if part then tx_sn tx X else INVALID_RLC_SN), am_tx_queue := q\<rparr>)" (is "am_tx_inv A ?X ?tx")
proof -
  have win: "tx_win tx A X" and ok: "tx_pdus_ok tx A X" and ap: "retx_apart (retx_queue tx)" using inv by (simp_all add: am_tx_inv_def)
  note w = tx_winD [OF win]
  have X: "X \<le> tx_end tx X" "tx_end tx X \<le> Suc X" by (auto simp: tx_end_def)
  note at = put_pdu_at [OF win w(5) X(1) room, of pdu]
  have e: "tx_end ?tx ?X = Suc X"
    using am_sn_of_valid [OF tx_cfg_sizesD(1) [OF w(1)], of X] by (simp add: tx_end_def)
  have k: "((tx_pdu_at tx)(tx_sn tx X := Some pdu)) k \<noteq> None \<longleftrightarrow> (\<exists>j\<ge>A. j < Suc X \<and> k = tx_sn tx j)" for k
    using w(8) [of k] X w(5) by (auto simp: less_Suc_eq tx_end_def split: if_splits)
  have "tx_win ?tx A ?X"
    using w(1,3,5) at(2) k st room e unfolding tx_win_def by (simp add: at(1) tx_cfg_sizes_def)
  moreover have "tx_pdus_ok ?tx A ?X"
    unfolding tx_pdus_ok_def e
  proof (intro allI impI)
    fix j p assume h: "A \<le> j \<and> j < Suc X \<and> tx_pdu_at ?tx (tx_sn ?tx j) = Some p"
    have s: "tx_sn tx j = tx_sn tx X \<longleftrightarrow> j = X" using tx_sn_inj [OF win, of j X] h w(5) room by simp
    have p: "((tx_pdu_at tx)(tx_sn tx X := Some pdu)) (tx_sn tx j) = Some p" using h by (simp add: at(1) [symmetric])
    show "am_pdu_ok (tx_sz ?tx) (tx_sn ?tx j) (j = ?X) p"
    proof (cases "j = X")
      case True
      then show ?thesis using p pdu by auto
    next
      case False
      then have "j < tx_end tx X" "j < X" using h X by simp_all
      then have "tx_pdu_at tx (tx_sn tx j) = Some p" using p s False by simp
      then show ?thesis using ok [unfolded tx_pdus_ok_def, rule_format, of j p] h \<open>j < tx_end tx X\<close> False \<open>j < X\<close> by auto
    qed
  qed
  ultimately show ?thesis using retx ap q by (simp add: am_tx_inv_def)
qed

lemma retx_ok_grow:
  assumes "tx_pdu_at (put_pdu sn pdu tx) = (tx_pdu_at tx)(sn := Some pdu)" "retx_ok (am_tx_window tx) r"
    and "\<And>old. tx_pdu_at tx sn = Some old \<Longrightarrow> tx_sdu_buf pdu = tx_sdu_buf old \<and> segment_list old \<noteq> [] \<and> set (segment_list old) \<subseteq> set (segment_list pdu)"
  shows "retx_ok (am_tx_window (put_pdu sn pdu tx)) r"
proof (cases "retx_sn r = sn")
  case True
  then obtain old b where old: "tx_pdu_at tx sn = Some old" "tx_sdu_buf old = Some b" using assms(2) by (auto simp: retx_ok_def)
  note o = assms(3) [OF old(1)]
  have "is_segment r" "\<exists>s \<in> set (segment_list old). seg_so s = current_so r \<and> unat (retx_so_start r) \<le> unat (current_so r) \<and>
          unat (retx_so_start r) + unat (segment_length r) = unat (current_so r) + unat (payload_len s)"
    using assms(2) True old o by (auto simp: retx_ok_def split: if_splits)
  then show ?thesis unfolding retx_ok_def using True assms(1) o old(2) by fastforce
next
  case False
  then show ?thesis using assms(1,2) by (auto simp: retx_ok_def)
qed

text \<open>The state after a piece of the SDU with the next sequence number was sent.\<close>

lemma tx_sends_last:
  assumes inv: "am_tx_inv A X tx" and room: "X < A + tx_W tx"
    and pdu: "am_pdu_ok (tx_sz tx) (tx_sn tx X) part pdu" "tx_sdu_buf pdu = Some b" and q: "tx_queue_ok q"
    and grow: "\<And>old. tx_pdu_at tx (tx_sn tx X) = Some old \<Longrightarrow>
      tx_sdu_buf pdu = tx_sdu_buf old \<and> segment_list old \<noteq> [] \<and> set (segment_list old) \<subseteq> set (segment_list pdu)"
    and st: "am_tx_next_ack st' = am_tx_next_ack (am_st tx)" "am_tx_next st' = tx_sn tx (if part then X else Suc X)"
    and p: "piece_ok (data b) so len" "unat p < 2" and fit: "(if so = 0 then unat (min_hdr_size tx) else unat (max_hdr_size tx)) + len \<le> unat nof_bytes"
    and taken: "if sdu_under_segmentation_sn tx \<noteq> INVALID_RLC_SN then sdus_in q = sdus_in (am_tx_queue tx) else (\<exists>b'. sdus_in (am_tx_queue tx) = b' # sdus_in q \<and> tx_pdcp_sn pdu = pdcp_sn b' \<and> data b = data b')"
    and on: "so = sent_of (tx_pdu_at tx (tx_sn tx X))" "if part then sent_of (Some pdu) = so + len else so + len = N_bytes b"
    and idle: "retx_queue tx = []"
    and tx': "tx' = (put_pdu (tx_sn tx X) pdu tx)\<lparr>am_st := st', poll_retransmit_timer := t',
      sdu_under_segmentation_sn := (if part then tx_sn tx X else INVALID_RLC_SN), am_tx_queue := q\<rparr>"
  shows "tx_sends A X tx nof_bytes w (Ret (am_piece_pdu (tx_sz tx) (tx_sn tx X) p (data b) so len, tx'))"
proof -
  let ?X = "if part then X else Suc X"
  have win: "tx_win tx A X" using inv by (simp add: am_tx_inv_def)
  note w = tx_winD [OF win]
  have X: "X \<le> tx_end tx X" by (simp add: tx_end_def)
  note at = put_pdu_at [OF win w(5) X(1) room, of pdu]
  have retx: "\<forall>r \<in> set (retx_queue tx). retx_ok (am_tx_window (put_pdu (tx_sn tx X) pdu tx)) r"
    using retx_ok_grow [OF at(1) _ grow] inv by (auto simp: am_tx_inv_def)
  have inv': "am_tx_inv A ?X tx'" unfolding tx' by (rule tx_inv_last [OF inv room pdu(1) q retx st])
  have at': "tx_pdu_at tx' = (tx_pdu_at tx)(tx_sn tx X := Some pdu)" 
    by (rule trans [OF _ at(1)]) (simp add: tx')
  have f: "tx_mod_nr tx' = tx_mod_nr tx" "tx_sz tx' = tx_sz tx" "am_tx_cfg tx' = am_tx_cfg tx" "am_tx_enabled tx' = am_tx_enabled tx"
    by (simp_all add: tx')
  have dat: "tx_data tx' i = tx_data tx i" if "A \<le> i" "i < tx_end tx X" for i
  proof (cases "i = X")
    case True
    then have "tx_pdu_at tx (tx_sn tx X) \<noteq> None" using w(8) [of "tx_sn tx X"] that by blast
    then obtain old where old: "tx_pdu_at tx (tx_sn tx X) = Some old" by blast
    then show ?thesis using True grow [OF old] by (simp add: tx_data_def f at')
  next
    case False
    then have "tx_sn tx i \<noteq> tx_sn tx X" using tx_sn_inj [OF win, of i X] that w(5,6) room by simp
    then show ?thesis by (simp add: tx_data_def f at')
  qed
  have ok: "am_sdu_ok (data b)" using pdu by (auto simp: am_pdu_ok_def)
  have "tx_data tx' X = Some (data b)" using pdu(2) by (simp add: tx_data_def f at')
  then have "tx_piece A ?X tx' (am_piece_pdu (tx_sz tx) (tx_sn tx X) p (data b) so len)"
    using tx_pieceI [of A X ?X tx' "data b" so len p] p w(5) f by simp
  moreover have "length (am_piece_pdu (tx_sz tx) (tx_sn tx X) p (data b) so len) \<le> unat nof_bytes"
    using piece_pdu_bytes(2) [OF w(1) p(1) ok p(2) refl, of X] fit by simp
  moreover have "am_piece_pdu (tx_sz tx) (tx_sn tx X) p (data b) so len \<noteq> []"
    using piece_pdu_bytes(2) [OF w(1) p(1) ok p(2) refl, of X] p(1) by (auto simp: piece_ok_def)
  moreover have "tx_keeps A X tx ?X tx'" using inv' dat f by (simp add: tx_keeps_def)
  moreover have "am_tx_queue tx' = q" by (simp add: tx')
  then have "tx_takes tx (am_piece_pdu (tx_sz tx) (tx_sn tx X) p (data b) so len) tx'"
    using taken pdu(2) idle calculation(3) by (auto simp: tx_takes_def sdu_numbered_def at' w(4) split: if_splits)
  moreover have "tx_sn tx X \<noteq> INVALID_RLC_SN" using am_sn_of_valid [OF tx_cfg_sizesD(1) [OF w(1)], of X] .
  then have "tx_goes_on tx (am_piece_pdu (tx_sz tx) (tx_sn tx X) p (data b) so len) tx'"
    unfolding tx_goes_on_def w(4) at' using on pdu(2)
    by (intro disjI2 exI [of _ p] exI [of _ pdu] exI [of _ b] exI [of _ len]) (cases part; simp add: tx' Let_def)
  ultimately show ?thesis unfolding tx_sends_def using idle by auto
qed

lemma next_header:
  "\<lparr>am_dc = RLC_DC_FIELD_DATA_PDU, am_p = p, am_si = am_si (am_piece_header sz sn p d (unat c) len), am_sn_size = sz,
      am_sn = sn, am_so = ucast c\<rparr> = am_piece_header sz sn p d (unat c) len"
proof -
  have "(ucast c :: u16) = of_nat (unat c)" for c :: u32 by simp
  then show ?thesis by (simp add: am_piece_header_def)
qed

lemma send_continuation:
  assumes inv: "am_tx_inv A X tx" and seg: "sdu_under_segmentation_sn tx \<noteq> INVALID_RLC_SN"
    and pdu: "tx_pdu_at tx (sdu_under_segmentation_sn tx) = Some pdu" and idle: "retx_queue tx = []"
  shows "tx_sends A X tx nof_bytes True (build_continuation_sdu_segment pdu nof_bytes tx)"
proof -
  have win: "tx_win tx A X" and ok: "tx_pdus_ok tx A X" and q: "tx_queue_ok (am_tx_queue tx)" using inv by (simp_all add: am_tx_inv_def)
  note w = tx_winD [OF win]
  note cfg = w(1) and h = hdr_small [OF w(1)]
  have sn: "sdu_under_segmentation_sn tx = tx_sn tx X" and e1: "tx_end tx X = Suc X" using w(7) seg by (auto simp: tx_end_def)
  have room: "X < A + tx_W tx" using w(6) e1 by simp
  have pok: "am_pdu_ok (tx_sz tx) (tx_sn tx X) True pdu"
    using ok [unfolded tx_pdus_ok_def, rule_format, of X pdu] w(5) e1 pdu sn by simp
  then obtain b e where b: "tx_sdu_buf pdu = Some b" "am_sdu_ok (data b)" "segment_list pdu \<noteq> []"
    "tiled 0 (segment_list pdu) e" "e < N_bytes b" "\<forall>s \<in> set (segment_list pdu). unat (payload_len s) < N_bytes b"
    by (auto simp: am_pdu_ok_def split: if_splits)
  have N: "N_bytes b \<le> 12234" "unat (of_nat (N_bytes b) :: u32) = N_bytes b"
    using am_sdu_len [OF b(2)] by (auto intro: unat_u32)
  define lb where "lb = seg_so (last (segment_list pdu)) + payload_len (last (segment_list pdu))"
  have l: "unat lb = e" unfolding lb_def using tiled_last [OF b(4,3)] b(5) N by (subst unat_plus_small) simp_all
  have e0: "0 < e" using tiled_last [OF b(4,3)] tiled_mem [OF b(4) last_in_set [OF b(3)]] by simp
  have n1: "\<not> of_nat (N_bytes b) < lb" using l b(5) N by (simp add: word_less_nat_alt)
  show ?thesis
  proof (cases "nof_bytes \<le> max_hdr_size tx")
    case True
    then have "build_continuation_sdu_segment pdu nof_bytes tx = Ret ([], tx)"
      by (simp add: build_continuation_sdu_segment_def b Let_def)
    then show ?thesis using tx_sends_nothing [OF tx_keeps_refl [OF inv], of True nof_bytes] True by (simp add: word_le_nat_alt)
  next
    case False
    define fits where "fits \<longleftrightarrow> \<not> nof_bytes < of_nat (N_bytes b) - lb + max_hdr_size tx"
    define L where "L = (if fits then of_nat (N_bytes b) - lb else nof_bytes - max_hdr_size tx)"
    have left1: "unat (of_nat (N_bytes b) - lb) = N_bytes b - e"
      using n1 N l by (simp add: unat_minus_small word_le_nat_alt word_less_nat_alt)
    have left2: "unat (of_nat (N_bytes b) - lb + max_hdr_size tx) = N_bytes b - e + unat (max_hdr_size tx)"
    proof (subst unat_plus_small)
      have "N_bytes b - e + unat (max_hdr_size tx) \<le> 20000" using N h by linarith
      then show "unat (of_nat (N_bytes b) - lb) + unat (max_hdr_size tx) < 2 ^ 32"
        unfolding left1 by (rule le_less_trans) simp
    qed (simp add: left1)
    note left = left1 left2
    have mx: "unat (nof_bytes - max_hdr_size tx) = unat nof_bytes - unat (max_hdr_size tx)" "unat (max_hdr_size tx) < unat nof_bytes"
      using False by (auto simp: unat_minus_small word_le_nat_alt)
    have L: "0 < unat L" "e + unat L \<le> N_bytes b" "fits \<longleftrightarrow> e + unat L = N_bytes b" "unat (max_hdr_size tx) + unat L \<le> unat nof_bytes"
      using left mx b(5) by (auto simp: L_def fits_def word_less_nat_alt)
    define tx0 where "tx0 = (if fits then tx\<lparr>sdu_under_segmentation_sn := INVALID_RLC_SN\<rparr> else tx)"
    obtain p st' t' where g: "get_pdu_poll (tx_sn tx X) False L tx0 = (p, tx0\<lparr>am_st := st', poll_retransmit_timer := t'\<rparr>)"
      "unat p < 2" "am_tx_next_ack st' = am_tx_next_ack (am_st tx0)" "am_tx_next st' = am_tx_next (am_st tx0)"
      by (rule get_pdu_poll_frame)
    let ?d = "data b" and ?sz = "tx_sz tx" and ?sn = "tx_sn tx X"
    let ?H = "am_piece_header ?sz ?sn p ?d (unat lb) (unat L)" and ?tx1 = "tx0\<lparr>am_st := st', poll_retransmit_timer := t'\<rparr>"
    let ?pdu = "pdu\<lparr>tx_header := ?H, segment_list := segment_list pdu @ [\<lparr>seg_so = lb, payload_len = L\<rparr>]\<rparr>"
    let ?st = "if fits then st'\<lparr>am_tx_next := (?sn + 1) mod tx_mod_nr tx\<rparr> else st'"
    let ?tx' = "(put_pdu ?sn ?pdu tx)\<lparr>am_st := ?st, poll_retransmit_timer := t',
      sdu_under_segmentation_sn := (if \<not> fits then ?sn else INVALID_RLC_SN), am_tx_queue := am_tx_queue tx\<rparr>"
    have pc: "piece_ok ?d (unat lb) (unat L)" using L l by (simp add: piece_ok_def)
    have si: "(if fits then last_segment else neither_first_nor_last_segment) = am_si ?H"
      using L(3) l e0 by (simp add: am_piece_header_def)
    have hlen: "(of_nat (rlc_am_nr_packed_length ?H) :: u32) = max_hdr_size tx"
      using piece_packed_length [OF cfg pc b(2)] l e0 by (simp add: of_nat_unat_u32)
    note by_ = piece_pdu_bytes [OF cfg pc b(2) g(2) refl, where i = X]
    have flds: "am_tx_next (am_st tx0) = ?sn" "tx_sz ?tx1 = ?sz" "max_hdr_size ?tx1 = max_hdr_size tx"
      "\<And>h. segment_list (pdu\<lparr>tx_header := h\<rparr>) = segment_list pdu"
      using w(4) by (simp_all add: tx0_def)
    have asum: "max_hdr_size tx + L \<le> nof_bytes" using L(4) L(2) N h by (simp add: word_le_nat_alt unat_plus_small)
    have fin: "(let tx = put_pdu ?sn ?pdu ?tx1 in if fits then tx\<lparr>am_st := (am_st tx)\<lparr>am_tx_next := (?sn + 1) mod tx_mod_nr tx\<rparr>\<rparr> else tx) = ?tx'"
      by (cases fits; intro rlc_am_nr_tx.equality) (simp_all add: Let_def put_pdu_def tx0_def sn)
    have res: "build_continuation_sdu_segment pdu nof_bytes tx = Ret (am_piece_pdu ?sz ?sn p ?d (unat lb) (unat L), ?tx')"
      unfolding build_continuation_sdu_segment_def fin [symmetric]
      by (simp only: b(1,3) option.case Let_def False if_False lb_def [symmetric] n1 fits_def [symmetric] L_def [symmetric] si
          tx0_def [symmetric] flds g(1) prod.case next_header hlen simp_thms asum slice_piece [OF pc] by_(1) bind_outcome.simps sn
          rlc_amd_tx_pdu_nr.simps if_cancel)
    have ok': "am_pdu_ok ?sz ?sn (\<not> fits) ?pdu"
      unfolding am_pdu_ok_def using b L l e0 pok
      by (intro exI [of _ b]) (auto simp: tiled_append am_piece_header_def)
    have st: "am_tx_next_ack ?st = am_tx_next_ack (am_st tx)" "am_tx_next ?st = tx_sn tx (if \<not> fits then X else Suc X)"
      using g(3,4) w(4) am_sn_of_Suc [OF tx_cfg_sizesD(1) [OF cfg], of X] by (auto simp: tx0_def)
    have buf: "tx_sdu_buf ?pdu = Some b" using b by simp
    have fit: "(if unat lb = 0 then unat (min_hdr_size tx) else unat (max_hdr_size tx)) + unat L \<le> unat nof_bytes" using L(4) l e0 by simp
    show ?thesis unfolding res
      by (rule tx_sends_last [OF inv room ok' buf q _ st pc g(2) fit _ _ _ idle refl])
        (use pdu sn b seg l L(3) tiled_sum [OF b(4)] in \<open>auto simp: sent_of_def\<close>)
  qed
qed

lemma filter_dropWhile_None: "filter (\<lambda>y. y \<noteq> None) (dropWhile (\<lambda>y. y = None) ys) = filter (\<lambda>y. y \<noteq> None) ys"
  by (induction ys) auto

lemma sdus_in_empty: "sdus_in q = [] \<longleftrightarrow> (\<forall>b. Some b \<notin> set (queued q))"
  by (auto simp: sdus_in_def filter_empty_conv) (metis not_Some_eq)

lemma next_sdu_queue:
  assumes "tx_queue_ok q" "\<not> bbq_is_empty q"
  obtains x q' where "um_nr_next_sdu (bbq_size q) q = Ret (x, q')" "tx_queue_ok q'" "\<And>b. x = Some b \<Longrightarrow> am_sdu_ok (data b) \<and> 3 \<le> headroom b"
    "sdus_in q = (case x of None \<Rightarrow> [] | Some b \<Rightarrow> b # sdus_in q')" "x = None \<Longrightarrow> sdus_in q' = []"
proof -
  have q: "bbq_ok q" "queued q \<noteq> []" using assms by (auto simp: tx_queue_ok_def bbq_is_empty_iff)
  obtain x q' where n: "um_nr_next_sdu (bbq_size q) q = Ret (x, q')" "bbq_ok q'"
    "case dropWhile (\<lambda>y. y = None) (queued q) of [] \<Rightarrow> x = None \<and> queued q' = [] | y # ys \<Rightarrow> x = y \<and> queued q' = ys"
    using um_nr_next_sdu_ok [OF q, of "bbq_size q"] by (auto simp: bbq_size_eq)
  have sub: "set (dropWhile (\<lambda>y. y = None) (queued q)) \<subseteq> set (queued q)" by (meson set_dropWhileD subsetI)
  have "set (queued q') \<subseteq> set (queued q) \<and> (\<forall>b. x = Some b \<longrightarrow> Some b \<in> set (queued q))"
    using n(3) sub by (auto split: list.splits)
  moreover have d: "sdus_in q = map the (filter (\<lambda>y. y \<noteq> None) (dropWhile (\<lambda>y. y = None) (queued q)))"
    unfolding sdus_in_def filter_dropWhile_None ..
  moreover have "x \<noteq> None" if "dropWhile (\<lambda>y. y = None) (queued q) = y # ys" for y ys
    using n(3) that hd_dropWhile [of "\<lambda>y. y = None" "queued q"] by auto
  then have "sdus_in q = (case x of None \<Rightarrow> [] | Some b \<Rightarrow> b # sdus_in q') \<and> (x = None \<longrightarrow> sdus_in q' = [])"
    using n(3) d by (cases "dropWhile (\<lambda>y. y = None) (queued q)") (fastforce simp: sdus_in_def)+
  ultimately show ?thesis
    by (intro that [OF n(1)]) (use n(2) assms(1) in \<open>auto simp: tx_queue_ok_def\<close>)
qed

lemma put_put_window:
  fixes tx :: rlc_am_nr_tx
  shows
  "cm_ok (am_tx_window tx) \<Longrightarrow> cm_overwrite sn a (cm_overwrite sn b (am_tx_window tx)) = cm_overwrite sn a (am_tx_window tx)"
  using arg_cong [OF put_put, of tx rlc_am_nr_tx.am_tx_window sn a b] by (simp add: put_pdu_def)

text \<open>The first segment of an SDU.\<close>

lemma send_first_segment:
  assumes inv: "am_tx_inv A X tx" and seg: "sdu_under_segmentation_sn tx = INVALID_RLC_SN" and room: "X < A + tx_W tx"
    and q: "tx_queue_ok q" "sdus_in (am_tx_queue tx) = b # sdus_in q" and b: "am_sdu_ok (data b)" and c: "c = pdcp_sn b" and idle: "retx_queue tx = []"
    and n: "unat (min_hdr_size tx) < unat nof_bytes" "unat nof_bytes < N_bytes b + unat (min_hdr_size tx)"
  shows "tx_sends A X tx nof_bytes True (build_new_sdu_segment (tx_sn tx X) (amd_tx_pdu_0\<lparr>tx_pdcp_sn := c, tx_sdu_buf := Some (fresh_buffer\<lparr>data := data b\<rparr>)\<rparr>)
     nof_bytes (put_pdu (tx_sn tx X) (amd_tx_pdu_0\<lparr>tx_pdcp_sn := c, tx_sdu_buf := Some (fresh_buffer\<lparr>data := data b\<rparr>)\<rparr>) (tx\<lparr>am_tx_queue := q\<rparr>)))"
proof -
  have win: "tx_win tx A X" using inv by (simp add: am_tx_inv_def)
  note w = tx_winD [OF win]
  note cfg = w(1) and h = hdr_small [OF w(1)]
  let ?b = "fresh_buffer\<lparr>data := data b\<rparr>" and ?sn = "tx_sn tx X" and ?d = "data b" and ?sz = "tx_sz tx"
  let ?p0 = "amd_tx_pdu_0\<lparr>tx_pdcp_sn := c, tx_sdu_buf := Some (fresh_buffer\<lparr>data := data b\<rparr>)\<rparr>"
  let ?tx0 = "(put_pdu ?sn ?p0 (tx\<lparr>am_tx_queue := q\<rparr>))\<lparr>sdu_under_segmentation_sn := ?sn\<rparr>" and ?L = "nof_bytes - min_hdr_size tx"
  obtain p st' t' where g: "get_pdu_poll ?sn False ?L ?tx0 = (p, ?tx0\<lparr>am_st := st', poll_retransmit_timer := t'\<rparr>)"
    "unat p < 2" "am_tx_next_ack st' = am_tx_next_ack (am_st ?tx0)" "am_tx_next st' = am_tx_next (am_st ?tx0)"
    by (rule get_pdu_poll_frame)
  have N: "N_bytes b \<le> 12234" "unat (of_nat (N_bytes b) :: u32) = N_bytes b"
    using am_sdu_len [OF b] by (auto intro: unat_u32)
  have L: "unat ?L = unat nof_bytes - unat (min_hdr_size tx)" using n by (simp add: unat_minus_small word_le_nat_alt)
  have pc: "piece_ok ?d 0 (unat ?L)" using L n by (simp add: piece_ok_def)
  have pc': "piece_ok (data ?b) (unat 0) (unat ?L)" using pc by simp
  let ?H = "am_piece_header ?sz ?sn p ?d 0 (unat ?L)"
  let ?pdu = "?p0\<lparr>tx_header := ?H, segment_list := [\<lparr>seg_so = 0, payload_len = ?L\<rparr>]\<rparr>"
  let ?tx' = "(put_pdu ?sn ?pdu tx)\<lparr>am_st := st', poll_retransmit_timer := t', sdu_under_segmentation_sn := (if True then ?sn else INVALID_RLC_SN), am_tx_queue := q\<rparr>"
  have hd: "\<lparr>am_dc = RLC_DC_FIELD_DATA_PDU, am_p = p, am_si = first_segment, am_sn_size = ?sz, am_sn = ?sn, am_so = 0\<rparr> = ?H"
    using L n by (auto simp: am_piece_header_def)
  have hlen: "(of_nat (rlc_am_nr_packed_length ?H) :: u32) = min_hdr_size tx"
    using piece_packed_length [OF cfg pc b] by (simp add: of_nat_unat_u32)
  note by_ = piece_pdu_bytes [OF cfg pc b g(2) refl, where i = X]
  have lim: "\<not> of_nat (N_bytes b) + min_hdr_size tx < nof_bytes" "\<not> nof_bytes \<le> min_hdr_size tx"
    using n N h by (auto simp: word_less_nat_alt word_le_nat_alt unat_plus_small)
  have tx': "put_pdu ?sn ?pdu (?tx0\<lparr>am_st := st', poll_retransmit_timer := t'\<rparr>) = ?tx'"
    using put_put_window [OF w(2), of ?sn ?pdu ?p0] by (intro rlc_am_nr_tx.equality) (simp_all add: put_pdu_def)
  have flds: "tx_sdu_buf ?p0 = Some ?b" "am_tx_next (am_st (put_pdu ?sn ?p0 (tx\<lparr>am_tx_queue := q\<rparr>))) = ?sn"
    "min_hdr_size (put_pdu ?sn ?p0 (tx\<lparr>am_tx_queue := q\<rparr>)) = min_hdr_size tx"
    "tx_sz (?tx0\<lparr>am_st := st', poll_retransmit_timer := t'\<rparr>) = ?sz" "min_hdr_size (?tx0\<lparr>am_st := st', poll_retransmit_timer := t'\<rparr>) = min_hdr_size tx"
    "segment_list (?p0\<lparr>tx_header := x\<rparr>) = []" "min_hdr_size tx + ?L \<le> nof_bytes" "data ?b = ?d" for x
    using w(4) by (simp_all add: amd_tx_pdu_0_def)
  have res: "build_new_sdu_segment ?sn ?p0 nof_bytes (put_pdu ?sn ?p0 (tx\<lparr>am_tx_queue := q\<rparr>)) = Ret (am_piece_pdu ?sz ?sn p ?d 0 (unat ?L), ?tx')"
    unfolding build_new_sdu_segment_def tx' [symmetric]
    by (simp only: flds option.case Let_def lim if_False g(1) prod.case hd hlen simp_thms slice_piece [OF pc'] unat_0 by_(1)
        bind_outcome.simps append_Nil)
  have ok': "am_pdu_ok ?sz ?sn True ?pdu"
    unfolding am_pdu_ok_def using b L n by (intro exI [of _ ?b]) (auto simp: am_piece_header_def)
  have old: "tx_pdu_at tx ?sn = None" 
  proof (rule ccontr)
    assume "tx_pdu_at tx ?sn \<noteq> None"
    then obtain i where "A \<le> i" "i < X" "?sn = tx_sn tx i" using w(8) [of ?sn] seg by (auto simp: tx_end_def)
    then show False using tx_sn_inj [OF win, of X i] room w(5) by simp
  qed
  have fit: "(if (0::nat) = 0 then unat (min_hdr_size tx) else unat (max_hdr_size tx)) + unat ?L \<le> unat nof_bytes" using L n by simp
  have pcb: "piece_ok (data ?b) 0 (unat ?L)" using pc by simp
  have "tx_sends A X tx nof_bytes True (Ret (am_piece_pdu ?sz ?sn p (data ?b) 0 (unat ?L), ?tx'))"
    by (rule tx_sends_last [OF inv room ok' _ q(1) _ _ _ pcb g(2) fit _ _ _ idle refl])
      (use old g(3,4) w(4) q(2) c seg in \<open>auto simp: sent_of_def\<close>)
  then show ?thesis unfolding res by simp
qed

lemma send_whole:
  assumes inv: "am_tx_inv A X tx" and seg: "sdu_under_segmentation_sn tx = INVALID_RLC_SN" and room: "X < A + tx_W tx"
    and q: "tx_queue_ok q" "sdus_in (am_tx_queue tx) = b # sdus_in q" and b: "am_sdu_ok (data b)" "3 \<le> headroom b" and idle: "retx_queue tx = []"
    and n: "N_bytes b + unat (min_hdr_size tx) \<le> unat nof_bytes"
    and p0: "p0 = amd_tx_pdu_0\<lparr>tx_pdcp_sn := pdcp_sn b, tx_sdu_buf := Some (fresh_buffer\<lparr>data := data b\<rparr>)\<rparr>"
    and g0: "get_pdu_poll (tx_sn tx X) False (of_nat (N_bytes b)) (put_pdu (tx_sn tx X) p0 (tx\<lparr>am_tx_queue := q\<rparr>)) = (p, tx1)"
    and H: "H = \<lparr>am_dc = RLC_DC_FIELD_DATA_PDU, am_p = p, am_si = full_sdu, am_sn_size = tx_sz tx, am_sn = tx_sn tx X, am_so = 0\<rparr>"
  shows "\<exists>pdu. prepend_bytes (fst (rlc_am_nr_write_data_pdu_header H)) b = Some pdu \<and> tx_sends A X tx nof_bytes True
    (Ret (data pdu, (put_pdu (tx_sn tx X) (p0\<lparr>tx_header := H\<rparr>) tx1)\<lparr>am_st := (am_st tx1)\<lparr>am_tx_next := (tx_sn tx X + 1) mod tx_mod_nr tx\<rparr>\<rparr>))"
proof -
  have win: "tx_win tx A X" using inv by (simp add: am_tx_inv_def)
  note w = tx_winD [OF win]
  note cfg = w(1) and h = hdr_small [OF w(1)]
  let ?b = "fresh_buffer\<lparr>data := data b\<rparr>" and ?sn = "tx_sn tx X" and ?d = "data b" and ?sz = "tx_sz tx"
  let ?tx0 = "put_pdu ?sn p0 (tx\<lparr>am_tx_queue := q\<rparr>)"
  obtain st' t' where g: "tx1 = ?tx0\<lparr>am_st := st', poll_retransmit_timer := t'\<rparr>"
    "unat p < 2" "am_tx_next_ack st' = am_tx_next_ack (am_st ?tx0)" "am_tx_next st' = am_tx_next (am_st ?tx0)"
    using get_pdu_poll_frame [of ?sn False "of_nat (N_bytes b)" ?tx0] g0 by (metis prod.inject)
  have N: "0 < N_bytes b" using am_sdu_len [OF b(1)] by simp
  have pc: "piece_ok ?d 0 (N_bytes b)" using N by (simp add: piece_ok_def)
  have Hd: "H = am_piece_header ?sz ?sn p ?d 0 (N_bytes b)" unfolding H by (simp add: am_piece_header_def)
  note by_ = piece_pdu_bytes [OF cfg pc b(1) g(2) Hd]
  have pre: "prepend_bytes (fst (rlc_am_nr_write_data_pdu_header H)) b = Some (b\<lparr>headroom := headroom b - unat (min_hdr_size tx),
      data := fst (rlc_am_nr_write_data_pdu_header H) @ ?d\<rparr>)"
    using by_(3) b(2) h by (simp add: prepend_bytes_def)
  have dat: "fst (rlc_am_nr_write_data_pdu_header H) @ ?d = am_piece_pdu ?sz ?sn p ?d 0 (N_bytes b)"
    by (simp add: am_piece_pdu_def Hd)
  let ?pdu = "p0\<lparr>tx_header := H\<rparr>"
  let ?st = "st'\<lparr>am_tx_next := (?sn + 1) mod tx_mod_nr tx\<rparr>"
  let ?tx' = "(put_pdu ?sn ?pdu tx)\<lparr>am_st := ?st, poll_retransmit_timer := t', sdu_under_segmentation_sn := (if False then ?sn else INVALID_RLC_SN), am_tx_queue := q\<rparr>"
  have tx': "(put_pdu ?sn ?pdu tx1)\<lparr>am_st := (am_st tx1)\<lparr>am_tx_next := (?sn + 1) mod tx_mod_nr tx\<rparr>\<rparr> = ?tx'"
    using put_put_window [OF w(2), of ?sn ?pdu p0] seg by (intro rlc_am_nr_tx.equality) (simp_all add: put_pdu_def g(1))
  have ok': "am_pdu_ok ?sz ?sn False ?pdu"
    unfolding am_pdu_ok_def using b by (intro exI [of _ ?b]) (auto simp: am_piece_header_def p0 Hd amd_tx_pdu_0_def)
  have old: "tx_pdu_at tx ?sn = None"
  proof (rule ccontr)
    assume "tx_pdu_at tx ?sn \<noteq> None"
    then obtain i where "A \<le> i" "i < X" "?sn = tx_sn tx i" using w(8) [of ?sn] seg by (auto simp: tx_end_def)
    then show False using tx_sn_inj [OF win, of X i] room w(5) by simp
  qed
  have st: "am_tx_next_ack ?st = am_tx_next_ack (am_st tx)" "am_tx_next ?st = tx_sn tx (if False then X else Suc X)"
    using g(3) am_sn_of_Suc [OF tx_cfg_sizesD(1) [OF cfg], of X] by simp_all
  have fit: "(if (0::nat) = 0 then unat (min_hdr_size tx) else unat (max_hdr_size tx)) + N_bytes b \<le> unat nof_bytes" using n by simp
  have pcb: "piece_ok (data ?b) 0 (N_bytes b)" using pc by simp
  have "tx_sends A X tx nof_bytes True (Ret (am_piece_pdu ?sz ?sn p (data ?b) 0 (N_bytes b), ?tx'))"
    by (rule tx_sends_last [OF inv room ok' _ q(1) _ st pcb g(2) fit _ _ _ idle refl])
      (use old q(2) seg in \<open>auto simp: p0 sent_of_def\<close>)
  then show ?thesis unfolding tx' using pre dat by auto
qed

lemma send_new:
  assumes inv: "am_tx_inv A X tx" and seg: "sdu_under_segmentation_sn tx = INVALID_RLC_SN" and ne: "\<not> bbq_is_empty (am_tx_queue tx)"
    and idle: "retx_queue tx = []"
  shows "tx_sends A X tx nof_bytes (\<not> cm_full (am_tx_window tx) \<and> (\<exists>b. Some b \<in> set (queued (am_tx_queue tx)))) (build_new_pdu True nof_bytes tx)"
proof (cases "nof_bytes \<le> min_hdr_size tx \<or> cm_full (am_tx_window tx)")
  case True
  then have "build_new_pdu True nof_bytes tx = Ret ([], tx)" by (auto simp: build_new_pdu_def)
  moreover have "unat (max_hdr_size tx) = unat (min_hdr_size tx) + 2"
    using inv by (intro tx_cfg_sizesD) (simp add: am_tx_inv_def tx_win_def)
  ultimately show ?thesis using True by (auto intro!: tx_sends_nothing [OF tx_keeps_refl [OF inv]] simp: word_le_nat_alt)
next
  case False
  have win: "tx_win tx A X" and qok: "tx_queue_ok (am_tx_queue tx)" using inv by (simp_all add: am_tx_inv_def)
  note w = tx_winD [OF win] and h = hdr_small [OF tx_winD(1) [OF win]]
  have room: "X < A + tx_W tx" using tx_room [OF win] False seg by (simp add: tx_end_def)
  obtain x q' where q: "um_nr_next_sdu (bbq_size (am_tx_queue tx)) (am_tx_queue tx) = Ret (x, q')" "tx_queue_ok q'"
    "\<And>b. x = Some b \<Longrightarrow> am_sdu_ok (data b) \<and> 3 \<le> headroom b"
    "sdus_in (am_tx_queue tx) = (case x of None \<Rightarrow> [] | Some b \<Rightarrow> b # sdus_in q')" "x = None \<Longrightarrow> sdus_in q' = []"
    by (rule next_sdu_queue [OF qok ne]) blast
  have invq: "am_tx_inv A X (tx\<lparr>am_tx_queue := q'\<rparr>)" using inv q(2) by (simp add: am_tx_inv_def tx_win_def tx_pdus_ok_def)
  show ?thesis
  proof (cases x)
    case None
    have "tx_keeps A X tx X (tx\<lparr>am_tx_queue := q'\<rparr>)" using invq by (simp add: tx_keeps_def)
    moreover have "build_new_pdu True nof_bytes tx = Ret ([], tx\<lparr>am_tx_queue := q'\<rparr>)"
      using False q(1) None by (simp add: build_new_pdu_def Let_def)
    ultimately show ?thesis using q(4) q(5) [OF None] None sdus_in_empty [of "am_tx_queue tx"] by (auto intro!: tx_sends_nothing)
  next
    case (Some b)
    then have b: "am_sdu_ok (data b)" "3 \<le> headroom b" and left: "sdus_in (am_tx_queue tx) = b # sdus_in q'" using q(3,4) by auto
    have N: "N_bytes b \<le> 12234" "unat (of_nat (N_bytes b) :: u32) = N_bytes b"
      using am_sdu_len [OF b(1)] by (auto intro: unat_u32)
    have tail: "\<not> get_tailroom fresh_buffer < N_bytes b" using N by (simp add: tailroom_fresh)
    define p0 where "p0 = amd_tx_pdu_0\<lparr>tx_pdcp_sn := pdcp_sn b, tx_sdu_buf := Some (fresh_buffer\<lparr>data := data b\<rparr>)\<rparr>"
    have cmp: "nof_bytes < of_nat (N_bytes b) + min_hdr_size tx \<longleftrightarrow> unat nof_bytes < N_bytes b + unat (min_hdr_size tx)"
      using N h by (simp add: word_less_nat_alt unat_plus_small)
    show ?thesis
    proof (cases "nof_bytes < of_nat (N_bytes b) + min_hdr_size tx")
      case True
      have "unat (min_hdr_size tx) < unat nof_bytes" using False by (simp add: word_le_nat_alt)
      then have "tx_sends A X tx nof_bytes w (build_new_sdu_segment (tx_sn tx X) p0 nof_bytes (put_pdu (tx_sn tx X) p0 (tx\<lparr>am_tx_queue := q'\<rparr>)))"
        for w unfolding p0_def using True cmp by (intro tx_sends_any [OF send_first_segment [OF inv seg room q(2) left b(1) refl idle]]) auto
      then show ?thesis using False q(1) Some tail True w(4) by (simp add: build_new_pdu_def Let_def p0_def)
    next
      case whole: False
      obtain p tx1 where g: "get_pdu_poll (tx_sn tx X) False (of_nat (N_bytes b)) (put_pdu (tx_sn tx X) p0 (tx\<lparr>am_tx_queue := q'\<rparr>)) = (p, tx1)"
        by fastforce
      have n: "N_bytes b + unat (min_hdr_size tx) \<le> unat nof_bytes" using whole cmp by simp
      obtain st' t' where f: "tx1 = (put_pdu (tx_sn tx X) p0 (tx\<lparr>am_tx_queue := q'\<rparr>))\<lparr>am_st := st', poll_retransmit_timer := t'\<rparr>"
        using get_pdu_poll_frame [of "tx_sn tx X" False "of_nat (N_bytes b)" "put_pdu (tx_sn tx X) p0 (tx\<lparr>am_tx_queue := q'\<rparr>)"] g by (metis prod.inject)
      have fl: "tx_sz tx1 = tx_sz tx" "tx_mod_nr tx1 = tx_mod_nr tx" by (simp_all add: f)
      show ?thesis
        using send_whole [OF inv seg room q(2) left b idle n p0_def g refl] False q(1) Some tail whole w(4) g fl
        by (auto simp: build_new_pdu_def Let_def p0_def intro: tx_sends_any)
    qed
  qed
qed

end
