(* ===== verification/AmNrTxStatus.thy ===== *)
theory AmNrTxStatus
  imports AmNrTxSend
begin

text \<open>
  A status report arrives at the transmitter: SDUs that are acknowledged leave the window and the
  queue of retransmissions, and what is reported missing is in that queue afterwards, once and, if
  nothing of the SDU was waiting before, in full.  The
  condition: of an SDU that is acknowledged at most one part waits for its retransmission, because
  \<^verbatim>\<open>remove_sn\<close> removes one element.
\<close>

section \<open>Acknowledgements\<close>

definition retx_once :: "rlc_amd_retx_nr list \<Rightarrow> u32 \<Rightarrow> bool" where
  "retx_once q sn \<longleftrightarrow> length (filter (\<lambda>r. retx_sn r = sn) q) \<le> 1"

lemma retx_remove_filter: "retx_once q sn \<Longrightarrow> retx_remove_sn sn q = filter (\<lambda>r. retx_sn r \<noteq> sn) q"
  by (induction q) (auto simp: retx_once_def filter_empty_conv intro: sym [OF filter_True])

lemma retx_once_filter: "retx_once q sn \<Longrightarrow> retx_once (filter P q) sn"
proof -
  have "length (filter (\<lambda>r. retx_sn r = sn) (filter P q)) \<le> length (filter (\<lambda>r. retx_sn r = sn) q)"
    by (induction q) auto
  then show "retx_once q sn \<Longrightarrow> retx_once (filter P q) sn" by (simp add: retx_once_def)
qed

lemma retx_apart_filter: "retx_apart q \<Longrightarrow> retx_apart (filter P q)"
  by (simp add: retx_apart_def sorted_wrt_filter)

definition acked :: "u32 \<Rightarrow> rlc_am_nr_tx \<Rightarrow> rlc_am_nr_tx" where
  "acked sn tx = tx\<lparr>retx_queue := retx_remove_sn sn (retx_queue tx), am_tx_window := snd (cm_erase sn (am_tx_window tx)),
      am_st := (am_st tx)\<lparr>am_tx_next_ack := (sn + 1) mod tx_mod_nr tx\<rparr>\<rparr>"

lemma acked_simps [simp]:
  "am_tx_cfg (acked sn tx) = am_tx_cfg tx" "tx_mod_nr (acked sn tx) = tx_mod_nr tx"
  "min_hdr_size (acked sn tx) = min_hdr_size tx" "max_hdr_size (acked sn tx) = max_hdr_size tx"
  "am_tx_queue (acked sn tx) = am_tx_queue tx" "am_tx_enabled (acked sn tx) = am_tx_enabled tx"
  "sdu_under_segmentation_sn (acked sn tx) = sdu_under_segmentation_sn tx" "tx_events (acked sn tx) = tx_events tx"
  "am_tx_next (am_st (acked sn tx)) = am_tx_next (am_st tx)" "tx_W (acked sn tx) = tx_W tx" "tx_end (acked sn tx) X = tx_end tx X"
  by (simp_all add: acked_def tx_end_def)

lemma acked_at: "cm_ok (am_tx_window tx) \<Longrightarrow> tx_pdu_at (acked sn tx) = (tx_pdu_at tx)(sn := None)"
  by (auto simp: acked_def cm.at_remove_fun)

lemma tx_inv_acked:
  assumes inv: "am_tx_inv A X tx" and A: "A < X" and once: "retx_once (retx_queue tx) (tx_sn tx A)"
  shows "am_tx_inv (Suc A) X (acked (tx_sn tx A) tx)"
    "retx_queue (acked (tx_sn tx A) tx) = filter (\<lambda>r. retx_sn r \<noteq> tx_sn tx A) (retx_queue tx)"
proof -
  let ?tx = "acked (tx_sn tx A) tx"
  have win: "tx_win tx A X" and ok: "tx_pdus_ok tx A X" using inv by (simp_all add: am_tx_inv_def)
  note w = tx_winD [OF win]
  note at = acked_at [OF w(2), of "tx_sn tx A"]
  have e: "X \<le> tx_end tx X" by (simp add: tx_end_def)
  have inj: "tx_sn tx i = tx_sn tx A \<longleftrightarrow> i = A" if "A \<le> i" "i < tx_end tx X" for i
    using tx_sn_inj [OF win, of i A] that w(6) A by simp
  show q: "retx_queue ?tx = filter (\<lambda>r. retx_sn r \<noteq> tx_sn tx A) (retx_queue tx)"
    by (simp add: acked_def retx_remove_filter [OF once])
  have k: "((tx_pdu_at tx)(tx_sn tx A := None)) k \<noteq> None \<longleftrightarrow> (\<exists>i\<ge>Suc A. i < tx_end tx X \<and> k = tx_sn tx i)" for k
  proof (cases "k = tx_sn tx A")
    case True
    have "i = A" if "Suc A \<le> i" "i < tx_end tx X" "k = tx_sn tx i" for i using inj [of i] that True by simp
    then show ?thesis using True by fastforce
  next
    case False
    have "A \<le> i \<and> i < tx_end tx X \<and> k = tx_sn tx i \<longleftrightarrow> Suc A \<le> i \<and> i < tx_end tx X \<and> k = tx_sn tx i" for i
      using False by (cases "i = A") auto
    then show ?thesis using w(8) [of k] False by simp
  qed
  have "tx_win ?tx (Suc A) X"
    using w(1,4,5,6,7) A k cm.ok_remove [OF w(2)] am_sn_of_Suc [OF tx_cfg_sizesD(1) [OF w(1)], of A]
    unfolding tx_win_def by (simp add: at tx_cfg_sizes_def) (simp add: acked_def)
  moreover have "tx_pdus_ok ?tx (Suc A) X"
    unfolding tx_pdus_ok_def
  proof (intro allI impI)
    fix i p assume h: "Suc A \<le> i \<and> i < tx_end ?tx X \<and> tx_pdu_at ?tx (tx_sn ?tx i) = Some p"
    then have "tx_pdu_at tx (tx_sn tx i) = Some p" using inj [of i] by (auto simp: at split: if_splits)
    then show "am_pdu_ok (tx_sz ?tx) (tx_sn ?tx i) (i = X) p" using ok h by (auto simp: tx_pdus_ok_def)
  qed
  moreover have "retx_ok (am_tx_window ?tx) r" if "r \<in> set (retx_queue ?tx)" for r
  proof -
    have "retx_ok (am_tx_window tx) r" "retx_sn r \<noteq> tx_sn tx A" using that inv by (auto simp: q am_tx_inv_def)
    then show ?thesis by (auto simp: retx_ok_def at)
  qed
  moreover have "retx_apart (retx_queue ?tx)" using inv by (simp add: q retx_apart_filter am_tx_inv_def)
  ultimately show "am_tx_inv (Suc A) X ?tx" using inv by (simp add: am_tx_inv_def)
qed

definition tx_pdcp :: "rlc_am_nr_tx \<Rightarrow> nat \<Rightarrow> u32" where
  "tx_pdcp tx i = (case tx_pdu_at tx (tx_sn tx i) of Some pdu \<Rightarrow> tx_pdcp_sn pdu | None \<Rightarrow> 0)"

text \<open>What the loop over acknowledged SDUs leaves.\<close>

definition acked_all :: "nat \<Rightarrow> nat \<Rightarrow> nat \<Rightarrow> rlc_am_nr_tx \<Rightarrow> rlc_am_nr_tx \<Rightarrow> bool" where
  "acked_all A S X tx tx' \<longleftrightarrow> am_tx_inv S X tx' \<and>
     retx_queue tx' = filter (\<lambda>r. \<forall>i \<in> {A..<S}. retx_sn r \<noteq> tx_sn tx i) (retx_queue tx) \<and>
     (\<forall>i. S \<le> i \<and> i < tx_end tx X \<longrightarrow> tx_pdu_at tx' (tx_sn tx i) = tx_pdu_at tx (tx_sn tx i)) \<and>
     am_tx_cfg tx' = am_tx_cfg tx \<and> tx_mod_nr tx' = tx_mod_nr tx \<and> am_tx_enabled tx' = am_tx_enabled tx \<and>
     am_tx_queue tx' = am_tx_queue tx \<and> tx_events tx' = tx_events tx \<and>
     sdu_under_segmentation_sn tx' = sdu_under_segmentation_sn tx"

lemma process_acks_all:
  assumes "am_tx_inv A X tx" "A \<le> S" "S \<le> X" "S - A \<le> n" "\<forall>i \<in> {A..<S}. retx_once (retx_queue tx) (tx_sn tx i)"
  shows "\<exists>tx'. process_acks n (tx_sn tx A) (tx_sn tx S) tx = Ret (map (tx_pdcp tx) [A..<S], tx') \<and> acked_all A S X tx tx'"
  using assms
proof (induction n arbitrary: A tx)
  case 0
  then have "S = A" by simp
  then show ?case using 0(1) by (auto simp: process_acks.simps acked_all_def)
next
  case (Suc n)
  have win: "tx_win tx A X" using Suc.prems(1) by (simp add: am_tx_inv_def)
  note w = tx_winD [OF win]
  show ?case
  proof (cases "S = A")
    case True
    then show ?thesis using Suc.prems(1) by (auto simp: process_acks.simps acked_all_def)
  next
    case False
    then have A: "A < S" "A < X" using Suc.prems(2,3) by simp_all
    let ?sn = "tx_sn tx A" and ?tx = "acked (tx_sn tx A) tx"
    have e: "X \<le> tx_end tx X" by (simp add: tx_end_def)
    have "tx_pdu_at tx ?sn \<noteq> None" using w(8) [of ?sn] A e by auto
    then obtain pdu where pdu: "tx_pdu_at tx ?sn = Some pdu" by blast
    have b: "unat (tx_mod_base_nr tx ?sn) = 0" "unat (tx_mod_base_nr tx (tx_sn tx S)) = S - A"
      using tx_base [OF win, of A] tx_base [OF win, of S] A Suc.prems(3) w(6) e by simp_all
    have in': "tx_mod_base_nr tx ?sn < tx_mod_base_nr tx (tx_sn tx S)" using b A by (simp add: word_less_nat_alt)
    have once: "retx_once (retx_queue tx) ?sn" using Suc.prems(5) A by simp
    note ack = tx_inv_acked [OF Suc.prems(1) A(2) once]
    have sn': "(?sn + 1) mod tx_mod_nr tx = tx_sn ?tx (Suc A)"
      using am_sn_of_Suc [OF tx_cfg_sizesD(1) [OF w(1)], of A] by simp
    have "\<exists>tx'. process_acks n (tx_sn ?tx (Suc A)) (tx_sn ?tx S) ?tx = Ret (map (tx_pdcp ?tx) [Suc A..<S], tx') \<and> acked_all (Suc A) S X ?tx tx'"
      by (rule Suc.IH [OF ack(1)]) (use Suc.prems(3-5) A in \<open>auto simp: ack(2) retx_once_filter\<close>)
    then obtain tx' where tx': "process_acks n (tx_sn ?tx (Suc A)) (tx_sn ?tx S) ?tx = Ret (map (tx_pdcp ?tx) [Suc A..<S], tx')"
      "acked_all (Suc A) S X ?tx tx'" by blast
    have inj: "tx_sn tx i \<noteq> ?sn" if "Suc A \<le> i" "i < tx_end tx X" for i
      using tx_sn_inj [OF win, of i A] that w(6) A by simp
    have same: "tx_pdu_at ?tx (tx_sn tx i) = tx_pdu_at tx (tx_sn tx i)" if "Suc A \<le> i" "i < tx_end tx X" for i
      using inj [OF that] by (simp add: acked_at [OF w(2)])
    have "tx_pdcp ?tx i = tx_pdcp tx i" if "i \<in> set [Suc A..<S]" for i
      using same [of i] that Suc.prems(3) e by (simp add: tx_pdcp_def)
    then have m: "map (tx_pdcp ?tx) [Suc A..<S] = map (tx_pdcp tx) [Suc A..<S]" by simp
    have "process_acks (Suc n) ?sn (tx_sn tx S) tx = Ret (tx_pdcp_sn pdu # map (tx_pdcp tx) [Suc A..<S], tx')"
      unfolding process_acks.simps [of "Suc n"] unfolding acked_def [symmetric] unfolding sn'
      by (simp only: in' if_True pdu option.case nat.case tx'(1) [unfolded acked_simps] m acked_simps bind_outcome.simps prod.case)
    moreover have "map (tx_pdcp tx) [A..<S] = tx_pdcp_sn pdu # map (tx_pdcp tx) [Suc A..<S]"
      using A pdu by (simp add: upt_conv_Cons tx_pdcp_def)
    moreover have "{A..<S} = insert A {Suc A..<S}" using A(1) by auto
    then have "filter (\<lambda>r. \<forall>i \<in> {Suc A..<S}. retx_sn r \<noteq> tx_sn tx i) (filter (\<lambda>r. retx_sn r \<noteq> ?sn) (retx_queue tx))
        = filter (\<lambda>r. \<forall>i \<in> {A..<S}. retx_sn r \<noteq> tx_sn tx i) (retx_queue tx)"
      by simp
    then have "acked_all A S X tx tx'"
      using tx'(2) same A(1) by (simp add: acked_all_def ack(2))
    ultimately show ?thesis by auto
  qed
qed

section \<open>Missing SDUs and segments\<close>

definition nack_ok :: "rlc_am_nr_tx \<Rightarrow> nack_state \<Rightarrow> bool" where
  "nack_ok tx acc \<longleftrightarrow> (\<forall>r \<in> set (fst acc). retx_ok (am_tx_window tx) r) \<and> retx_apart (fst acc) \<and>
     (\<forall>sn \<in> set (snd acc). tx_pdu_at tx sn \<noteq> None)"

text \<open>\<open>q\<close> has a retransmission of what the NACK reports.\<close>

definition nack_answered :: "rlc_am_nr_tx \<Rightarrow> rlc_amd_retx_nr list \<Rightarrow> rlc_status_nack \<Rightarrow> bool" where
  "nack_answered tx q n \<longleftrightarrow> (case tx_pdu_at tx (nack_sn n) of None \<Rightarrow> True
     | Some pdu \<Rightarrow>
         if has_so n then \<forall>s \<in> set (segment_list pdu). ucast (so_start n) \<le> seg_so s \<and> seg_so s \<le> ucast (so_end n) \<longrightarrow>
           retx_has_segment q (nack_sn n) (seg_so s)
         else retx_has_sn q (nack_sn n))"

lemma retx_has_mono:
  "retx_has_sn q sn \<Longrightarrow> set q \<subseteq> set q' \<Longrightarrow> retx_has_sn q' sn"
  "retx_has_segment q sn so \<Longrightarrow> set q \<subseteq> set q' \<Longrightarrow> retx_has_segment q' sn so"
  by (auto simp: retx_has_sn_def retx_has_segment_def list_ex_iff)

lemma nack_answered_mono: "nack_answered tx q n \<Longrightarrow> set q \<subseteq> set q' \<Longrightarrow> nack_answered tx q' n"
  using retx_has_mono(1) [of q "nack_sn n" q'] retx_has_mono(2) [of q "nack_sn n" _ q']
  by (auto simp: nack_answered_def split: option.splits)

lemma pdu_tiled:
  assumes "am_tx_inv A X tx" "tx_pdu_at tx sn = Some pdu"
  obtains e b where "tx_sdu_buf pdu = Some b" "segment_list pdu \<noteq> [] \<longrightarrow> tiled 0 (segment_list pdu) e" "e \<le> 12234"
proof -
  obtain i b where i: "am_pdu_ok (tx_sz tx) sn (i = X) pdu" "tx_sdu_buf pdu = Some b" "am_sdu_ok (data b)"
    by (rule tx_pdu_okD [OF assms]) blast
  have "N_bytes b \<le> 12234" using am_sdu_len [OF i(3)] by simp
  then show ?thesis using i that by (fastforce simp: am_pdu_ok_def split: if_splits)
qed

lemma retx_of_segment_ok:
  "tx_pdu_at tx sn = Some pdu \<Longrightarrow> tx_sdu_buf pdu = Some b \<Longrightarrow> s \<in> set (segment_list pdu) \<Longrightarrow>
     retx_ok (am_tx_window tx) (retx_of_segment sn s)"
  by (auto simp: retx_ok_def retx_of_segment_def)

text \<open>An entry that starts at the segment is found.\<close>

lemma retx_overlaps_own:
  assumes inv: "am_tx_inv A X tx" and r: "retx_ok (am_tx_window tx) r" "tx_pdu_at tx (retx_sn r) = Some pdu"
    and s: "s \<in> set (segment_list pdu)" "current_so r = seg_so s"
  shows "is_segment r" "retx_overlaps r (seg_so s)"
proof -
  obtain e b where e: "tiled 0 (segment_list pdu) e" "e \<le> 12234" "tx_sdu_buf pdu = Some b"
    using pdu_tiled [OF inv r(2)] s(1) by (metis list.set(1) empty_iff)
  show seg: "is_segment r" using r s(1) by (auto simp: retx_ok_def split: if_splits)
  obtain t where t: "t \<in> set (segment_list pdu)" "unat (retx_so_start r) \<le> unat (current_so r)"
    "unat (retx_so_start r) + unat (segment_length r) = unat (current_so r) + unat (payload_len t)"
    using r seg by (auto simp: retx_ok_def)
  have m: "unat (seg_so s) \<le> 12234" "0 < unat (payload_len t)" "unat (payload_len t) \<le> 12234"
    using tiled_mem [OF e(1) s(1)] tiled_mem [OF e(1) t(1)] e(2) by linarith+
  have "unat (current_so r) + unat (segment_length r) \<le> 50000" using m t s(2) by simp
  then have "unat (current_so r + segment_length r) = unat (current_so r) + unat (segment_length r)"
    by (intro unat_plus_small) (rule le_less_trans, assumption, simp)
  then show "retx_overlaps r (seg_so s)"
    using t m s(2) by (simp add: retx_overlaps_def word_le_nat_alt word_less_nat_alt)
qed

lemma nack_segment_ok:
  assumes inv: "am_tx_inv A X tx" and pdu: "tx_pdu_at tx (nack_sn n) = Some pdu" and s: "s \<in> set (segment_list pdu)"
    and acc: "nack_ok tx acc"
  shows "nack_ok tx (nack_segment n s acc) \<and> set (fst acc) \<subseteq> set (fst (nack_segment n s acc)) \<and>
    (ucast (so_start n) \<le> seg_so s \<and> seg_so s \<le> ucast (so_end n) \<longrightarrow>
       retx_has_segment (fst (nack_segment n s acc)) (nack_sn n) (seg_so s))"
proof (cases "ucast (so_start n) \<le> seg_so s \<and> seg_so s \<le> ucast (so_end n) \<and> \<not> retx_has_segment (fst acc) (nack_sn n) (seg_so s)")
  case True
  let ?r = "retx_of_segment (nack_sn n) s"
  obtain b where b: "tx_sdu_buf pdu = Some b" by (rule pdu_tiled [OF inv pdu])
  have new: "nack_segment n s acc = (fst acc @ [?r], insort_insert (nack_sn n) (snd acc))"
    using True by (simp add: nack_segment_def split_beta)
  have rok: "retx_ok (am_tx_window tx) ?r" by (rule retx_of_segment_ok [OF pdu b s])
  have "is_segment r \<and> current_so r \<noteq> seg_so s" if r: "r \<in> set (fst acc)" "retx_sn r = nack_sn n" for r
  proof -
    have ok: "retx_ok (am_tx_window tx) r" "tx_pdu_at tx (retx_sn r) = Some pdu" using acc r pdu by (auto simp: nack_ok_def)
    have "segment_list pdu \<noteq> []" using s by auto
    then have "is_segment r" using ok by (auto simp: retx_ok_def split: if_splits)
    moreover have "current_so r \<noteq> seg_so s"
      using retx_overlaps_own(2) [OF inv ok s] True r by (auto simp: retx_has_segment_def list_ex_iff)
    ultimately show ?thesis by simp
  qed
  then have "retx_apart (fst acc @ [?r])"
    using acc by (auto simp: retx_apart_def sorted_wrt_append nack_ok_def retx_of_segment_def)
  moreover have "retx_overlaps ?r (seg_so s)" by (rule retx_overlaps_own(2) [OF inv rok _ s]) (simp_all add: retx_of_segment_def pdu)
  ultimately show ?thesis
    using rok acc pdu by (auto simp: new nack_ok_def retx_has_segment_def set_insort_insert retx_of_segment_def)
next
  case False
  then have "nack_segment n s acc = acc" by (auto simp: nack_segment_def split_beta)
  then show ?thesis using False acc by auto
qed

lemma nack_segments_ok:
  assumes inv: "am_tx_inv A X tx" and pdu: "tx_pdu_at tx (nack_sn n) = Some pdu"
  shows "set ss \<subseteq> set (segment_list pdu) \<Longrightarrow> nack_ok tx acc \<Longrightarrow>
    nack_ok tx (fold (nack_segment n) ss acc) \<and> set (fst acc) \<subseteq> set (fst (fold (nack_segment n) ss acc)) \<and>
    (\<forall>s \<in> set ss. ucast (so_start n) \<le> seg_so s \<and> seg_so s \<le> ucast (so_end n) \<longrightarrow>
       retx_has_segment (fst (fold (nack_segment n) ss acc)) (nack_sn n) (seg_so s))"
proof (induction ss arbitrary: acc)
  case (Cons s ss)
  note one = nack_segment_ok [OF inv pdu _ Cons.prems(2), of s]
  note rest = Cons.IH [of "nack_segment n s acc"]
  show ?case using one rest Cons.prems(1) retx_has_mono(2) by (simp) blast
qed simp

lemma nack_whole_ok:
  assumes inv: "am_tx_inv A X tx" and pdu: "tx_pdu_at tx (nack_sn n) = Some pdu" and acc: "nack_ok tx acc"
  shows "\<exists>acc'. nack_whole n pdu acc = Ret acc' \<and> nack_ok tx acc' \<and> set (fst acc) \<subseteq> set (fst acc') \<and> retx_has_sn (fst acc') (nack_sn n)"
proof (cases "retx_has_sn (fst acc) (nack_sn n)")
  case True
  then show ?thesis using acc by (auto simp: nack_whole_def split_beta)
next
  case False
  obtain e b where b: "tx_sdu_buf pdu = Some b" "segment_list pdu \<noteq> [] \<longrightarrow> tiled 0 (segment_list pdu) e" by (rule pdu_tiled [OF inv pdu])
  have other: "retx_sn r \<noteq> nack_sn n" if "r \<in> set (fst acc)" for r using False that by (auto simp: retx_has_sn_def list_ex_iff)
  show ?thesis
  proof (cases "segment_list pdu = []")
    case True
    let ?r = "\<lparr>retx_sn = nack_sn n, is_segment = False, retx_so_start = 0, current_so = 0, segment_length = of_nat (N_bytes b)\<rparr>"
    have "nack_whole n pdu acc = Ret (fst acc @ [?r], insort_insert (nack_sn n) (snd acc))"
      using False True b(1) by (simp add: nack_whole_def split_beta)
    moreover have "nack_ok tx (fst acc @ [?r], insort_insert (nack_sn n) (snd acc))"
      using acc pdu b(1) True other
      by (auto simp: nack_ok_def retx_apart_def sorted_wrt_append set_insort_insert retx_ok_def)
    ultimately show ?thesis by (auto simp: retx_has_sn_def)
  next
    case seg: False
    let ?rs = "map (retx_of_segment (nack_sn n)) (segment_list pdu)"
    have d: "distinct (map seg_so (segment_list pdu))" using b(2) seg tiled_distinct by blast
    then have "retx_apart ?rs"
      unfolding retx_apart_def sorted_wrt_map distinct_map distinct_conv_nth sorted_wrt_iff_nth_less
      by (auto simp: retx_of_segment_def inj_on_def)
    then have "nack_ok tx (fst acc @ ?rs, insort_insert (nack_sn n) (snd acc))"
      using acc pdu other retx_of_segment_ok [OF pdu b(1)]
      by (auto simp: nack_ok_def retx_apart_def sorted_wrt_append set_insort_insert retx_of_segment_def)
    moreover have "nack_whole n pdu acc = Ret (fst acc @ ?rs, insort_insert (nack_sn n) (snd acc))"
      using False seg by (simp add: nack_whole_def split_beta)
    moreover have "retx_has_sn (fst acc @ ?rs) (nack_sn n)"
      using seg by (cases "segment_list pdu") (auto simp: retx_has_sn_def list_ex_iff retx_of_segment_def)
    ultimately show ?thesis by auto
  qed
qed

lemma handle_nack_ok:
  assumes inv: "am_tx_inv A X tx" and acc: "nack_ok tx acc"
  shows "\<exists>acc'. handle_nack tx n acc = Ret acc' \<and> nack_ok tx acc' \<and> set (fst acc) \<subseteq> set (fst acc') \<and> nack_answered tx (fst acc') n"
proof (cases "tx_pdu_at tx (nack_sn n)")
  case None
  then show ?thesis using acc by (intro exI [of _ acc]) (auto simp: handle_nack_def nack_answered_def)
next
  case (Some pdu)
  have win: "tx_win tx A X" using inv by (simp add: am_tx_inv_def)
  note w = tx_winD [OF win]
  obtain i where i: "A \<le> i" "i < tx_end tx X" "nack_sn n = tx_sn tx i" using w(8) [of "nack_sn n"] Some by auto
  have e: "tx_end tx X \<le> Suc X" "X \<le> tx_end tx X" by (auto simp: tx_end_def)
  have "tx_mod_base_nr tx (am_tx_next_ack (am_st tx)) \<le> tx_mod_base_nr tx (nack_sn n) \<and>
      tx_mod_base_nr tx (nack_sn n) \<le> tx_mod_base_nr tx (am_tx_next (am_st tx))"
    using tx_base [OF win, of A] tx_base [OF win, of i] tx_base [OF win, of X] i e w(3-6)
    by (simp add: word_le_nat_alt)
  then have h: "handle_nack tx n acc = (if has_so n then Ret (fold (nack_segment n) (segment_list pdu) acc) else nack_whole n pdu acc)"
    using Some by (simp add: handle_nack_def)
  show ?thesis
    using nack_segments_ok [OF inv Some _ acc, of "segment_list pdu"] nack_whole_ok [OF inv Some acc] Some
    by (cases "has_so n") (simp_all add: h nack_answered_def)
qed

lemma handle_nacks_ok:
  "am_tx_inv A X tx \<Longrightarrow> nack_ok tx acc \<Longrightarrow> \<exists>acc'. handle_nacks tx ns acc = Ret acc' \<and> nack_ok tx acc' \<and>
     set (fst acc) \<subseteq> set (fst acc') \<and> (\<forall>n \<in> set ns. nack_answered tx (fst acc') n)"
proof (induction ns arbitrary: acc)
  case (Cons n ns)
  obtain a where a: "handle_nack tx n acc = Ret a" "nack_ok tx a" "set (fst acc) \<subseteq> set (fst a)" "nack_answered tx (fst a) n"
    using handle_nack_ok [OF Cons.prems] by blast
  obtain c where c: "handle_nacks tx ns a = Ret c" "nack_ok tx c" "set (fst a) \<subseteq> set (fst c)" "\<forall>n \<in> set ns. nack_answered tx (fst c) n"
    using Cons.IH [OF Cons.prems(1) a(2)] by blast
  then show ?case using a nack_answered_mono [OF a(4) c(3)] by auto
qed simp

text \<open>
  What was not waiting before the report is queued in full: every byte of the SDU (of what was sent of
  it) or of the segment lies in what an entry of the queue has still to send.
\<close>

definition retx_covers :: "rlc_amd_retx_nr list \<Rightarrow> u32 \<Rightarrow> nat \<Rightarrow> nat \<Rightarrow> bool" where
  "retx_covers q sn a e \<longleftrightarrow> (\<forall>k \<in> {a..<e}. \<exists>r \<in> set q. retx_sn r = sn \<and> unat (current_so r) \<le> k \<and>
     k < unat (retx_so_start r) + unat (segment_length r))"

definition retx_covers_segment :: "rlc_amd_retx_nr list \<Rightarrow> u32 \<Rightarrow> pdu_segment \<Rightarrow> bool" where
  "retx_covers_segment q sn s \<longleftrightarrow> retx_covers q sn (unat (seg_so s)) (unat (seg_so s) + unat (payload_len s))"

definition retx_covers_sent :: "rlc_amd_retx_nr list \<Rightarrow> u32 \<Rightarrow> rlc_amd_tx_pdu_nr \<Rightarrow> bool" where
  "retx_covers_sent q sn pdu \<longleftrightarrow>
     (if segment_list pdu = [] then (\<forall>b. tx_sdu_buf pdu = Some b \<longrightarrow> retx_covers q sn 0 (N_bytes b))
      else (\<forall>s \<in> set (segment_list pdu). retx_covers_segment q sn s))"

definition nack_queued :: "rlc_am_nr_tx \<Rightarrow> rlc_amd_retx_nr list \<Rightarrow> rlc_status_nack list \<Rightarrow> rlc_amd_retx_nr list \<Rightarrow> rlc_status_nack \<Rightarrow> bool" where
  "nack_queued tx q0 ns q n \<longleftrightarrow> (\<forall>pdu. tx_pdu_at tx (nack_sn n) = Some pdu \<and> \<not> retx_has_sn q0 (nack_sn n) \<longrightarrow>
     (if has_so n then \<forall>s \<in> set (segment_list pdu). ucast (so_start n) \<le> seg_so s \<and> seg_so s \<le> ucast (so_end n) \<longrightarrow>
        retx_covers_segment q (nack_sn n) s
      else (\<forall>m \<in> set ns. nack_sn m = nack_sn n \<longrightarrow> \<not> has_so m) \<longrightarrow> retx_covers_sent q (nack_sn n) pdu))"

lemma retx_covers_mono:
  "retx_covers q sn a e \<Longrightarrow> {r \<in> set q. retx_sn r = sn} \<subseteq> set q' \<Longrightarrow> retx_covers q' sn a e"
  unfolding retx_covers_def by blast

lemma retx_covers_segment_mono:
  "retx_covers_segment q sn s \<Longrightarrow> {r \<in> set q. retx_sn r = sn} \<subseteq> set q' \<Longrightarrow> retx_covers_segment q' sn s"
  unfolding retx_covers_segment_def by (rule retx_covers_mono)

lemma retx_covers_sent_mono:
  "retx_covers_sent q sn pdu \<Longrightarrow> {r \<in> set q. retx_sn r = sn} \<subseteq> set q' \<Longrightarrow> retx_covers_sent q' sn pdu"
  using retx_covers_segment_mono [of q sn _ q'] retx_covers_mono [of q sn _ _ q'] by (auto simp: retx_covers_sent_def)

lemma retx_covers_new:
  "retx_of_segment sn s \<in> set q \<Longrightarrow> retx_covers_segment q sn s"
  unfolding retx_covers_segment_def retx_covers_def by (auto intro!: bexI [of _ "retx_of_segment sn s"] simp: retx_of_segment_def)

text \<open>The state of the loop: what it has queued starts at its beginning; an SDU reported as a whole is complete.\<close>

definition nacks_so_far :: "rlc_am_nr_tx \<Rightarrow> rlc_amd_retx_nr list \<Rightarrow> rlc_status_nack list \<Rightarrow> nack_state \<Rightarrow> bool" where
  "nacks_so_far tx q0 ns acc \<longleftrightarrow> (\<forall>r \<in> set (fst acc). r \<in> set q0 \<or> current_so r = retx_so_start r) \<and>
     (\<forall>sn pdu. tx_pdu_at tx sn = Some pdu \<and> \<not> retx_has_sn q0 sn \<and> (\<forall>m \<in> set ns. nack_sn m = sn \<longrightarrow> \<not> has_so m) \<and>
        retx_has_sn (fst acc) sn \<longrightarrow> retx_covers_sent (fst acc) sn pdu)"

text \<open>An entry that was queued for the SDU and is found at the segment is this segment.\<close>

lemma retx_found_covers:
  assumes inv: "am_tx_inv A X tx" and pdu: "tx_pdu_at tx sn = Some pdu" and acc: "nack_ok tx acc" "nacks_so_far tx q0 ns acc"
    and new: "\<not> retx_has_sn q0 sn" and s: "s \<in> set (segment_list pdu)" and found: "retx_has_segment (fst acc) sn (seg_so s)"
  shows "retx_covers_segment (fst acc) sn s"
proof -
  obtain e b where b: "tx_sdu_buf pdu = Some b" "tiled 0 (segment_list pdu) e" "e \<le> 12234"
    using pdu_tiled [OF inv pdu] s by (metis list.set(1) empty_iff)
  obtain r where r: "r \<in> set (fst acc)" "retx_sn r = sn" "retx_overlaps r (seg_so s)"
    using found by (auto simp: retx_has_segment_def list_ex_iff)
  have start: "current_so r = retx_so_start r"
    using acc(2) r(1,2) new by (auto simp: nacks_so_far_def retx_has_sn_def list_ex_iff)
  have ok: "retx_ok (am_tx_window tx) r" using acc(1) r(1) by (simp add: nack_ok_def)
  have "segment_list pdu \<noteq> []" using s by auto
  then obtain t where t: "t \<in> set (segment_list pdu)" "seg_so t = current_so r"
    "unat (retx_so_start r) + unat (segment_length r) = unat (current_so r) + unat (payload_len t)"
    using ok pdu r(2) by (auto simp: retx_ok_def split: if_splits)
  note m = tiled_mem [OF b(2) t(1)] and m' = tiled_mem [OF b(2) s]
  have "unat (current_so r) + unat (segment_length r) \<le> 12234" using t start m b(3) by simp
  then have "unat (current_so r + segment_length r) = unat (current_so r) + unat (segment_length r)"
    by (intro unat_plus_small) (rule le_less_trans, assumption, simp)
  then have so: "unat (seg_so t) \<le> unat (seg_so s)" "unat (seg_so s) < unat (seg_so t) + unat (payload_len t)"
    using r(3) t start by (simp_all add: retx_overlaps_def word_le_nat_alt word_less_nat_alt)
  have "\<not> unat (seg_so t) < unat (seg_so s)" using tiled_apart [OF b(2) t(1) s] so(2) by linarith
  then have "seg_so t = seg_so s" using so(1) by (simp add: word_unat_eq_iff)
  then have "t = s" using tiled_distinct [OF b(2)] t(1) s by (simp add: distinct_map inj_on_def)
  then show ?thesis
    unfolding retx_covers_segment_def retx_covers_def using r(1,2) t by (auto intro!: bexI [of _ r])
qed

lemma answered_queued:
  assumes inv: "am_tx_inv A X tx" and acc: "nack_ok tx acc" "nacks_so_far tx q0 ns acc" and ans: "nack_answered tx (fst acc) n"
  shows "nack_queued tx q0 ns (fst acc) n"
  unfolding nack_queued_def
proof (intro allI impI, elim conjE)
  fix pdu assume p: "tx_pdu_at tx (nack_sn n) = Some pdu" and new: "\<not> retx_has_sn q0 (nack_sn n)"
  show "if has_so n then \<forall>s \<in> set (segment_list pdu). ucast (so_start n) \<le> seg_so s \<and> seg_so s \<le> ucast (so_end n) \<longrightarrow>
        retx_covers_segment (fst acc) (nack_sn n) s
      else (\<forall>m \<in> set ns. nack_sn m = nack_sn n \<longrightarrow> \<not> has_so m) \<longrightarrow> retx_covers_sent (fst acc) (nack_sn n) pdu"
    using ans p new acc(2) retx_found_covers [OF inv p acc new] by (auto simp: nack_answered_def nacks_so_far_def)
qed

lemma retx_has_sn_append: "retx_has_sn (q @ q') sn \<longleftrightarrow> retx_has_sn q sn \<or> retx_has_sn q' sn"
  by (simp add: retx_has_sn_def)

text \<open>The loop adds entries for one sequence number, which start at their beginning.\<close>

lemma nacks_so_far_add:
  assumes far: "nacks_so_far tx q0 ns (q, sns)" and new: "\<forall>r \<in> set rs. retx_sn r = sn \<and> current_so r = retx_so_start r"
    and done': "\<And>pdu. (\<forall>m \<in> set ns. nack_sn m = sn \<longrightarrow> \<not> has_so m) \<Longrightarrow> tx_pdu_at tx sn = Some pdu \<Longrightarrow> retx_covers_sent (q @ rs) sn pdu"
  shows "nacks_so_far tx q0 ns (q @ rs, sns')"
proof -
  have "retx_covers_sent (q @ rs) k pdu"
    if "tx_pdu_at tx k = Some pdu" "\<not> retx_has_sn q0 k" "\<forall>m \<in> set ns. nack_sn m = k \<longrightarrow> \<not> has_so m" "retx_has_sn (q @ rs) k" for k pdu
  proof (cases "k = sn")
    case True
    then show ?thesis using done' that by simp
  next
    case False
    then have "retx_has_sn q k" using that(4) new by (auto simp: retx_has_sn_def list_ex_iff)
    then have "retx_covers_sent q k pdu" using far that by (auto simp: nacks_so_far_def)
    then show ?thesis by (rule retx_covers_sent_mono) auto
  qed
  then show ?thesis using far new by (auto simp: nacks_so_far_def)
qed

lemma nack_segments_far:
  assumes "has_so n" "n \<in> set ns"
  shows "nacks_so_far tx q0 ns acc \<Longrightarrow> nacks_so_far tx q0 ns (fold (nack_segment n) ss acc)"
proof (induction ss arbitrary: acc)
  case (Cons s ss)
  have "nacks_so_far tx q0 ns (nack_segment n s acc)"
    using nacks_so_far_add [of tx q0 ns "fst acc" "snd acc" "[retx_of_segment (nack_sn n) s]" "nack_sn n"] Cons.prems assms
    by (cases acc) (auto simp: nack_segment_def retx_of_segment_def)
  then show ?case using Cons.IH by simp
qed simp

lemma nack_whole_far:
  assumes inv: "am_tx_inv A X tx" and pdu: "tx_pdu_at tx (nack_sn n) = Some pdu" and far: "nacks_so_far tx q0 ns acc"
    and res: "nack_whole n pdu acc = Ret acc'"
  shows "nacks_so_far tx q0 ns acc'"
proof (cases "retx_has_sn (fst acc) (nack_sn n)")
  case True
  then show ?thesis using res far by (cases acc) (auto simp: nack_whole_def)
next
  case False
  obtain i b where b: "tx_sdu_buf pdu = Some b" "am_sdu_ok (data b)" by (rule tx_pdu_okD [OF inv pdu]) blast
  have N: "unat (of_nat (N_bytes b) :: u32) = N_bytes b" using am_sdu_len [OF b(2)] by (auto intro: unat_u32)
  let ?rs = "if segment_list pdu = [] then [\<lparr>retx_sn = nack_sn n, is_segment = False, retx_so_start = 0, current_so = 0,
      segment_length = of_nat (N_bytes b)\<rparr>] else map (retx_of_segment (nack_sn n)) (segment_list pdu)"
  have acc': "acc' = (fst acc @ ?rs, insort_insert (nack_sn n) (snd acc))"
    using res False b(1) by (cases acc) (auto simp: nack_whole_def)
  have "retx_covers_sent (fst acc @ ?rs) (nack_sn n) pdu"
    using N b(1) by (auto simp: retx_covers_sent_def retx_covers_def intro!: retx_covers_new)
  then show ?thesis
    unfolding acc' using far pdu
    by (intro nacks_so_far_add [where sns = "snd acc" and sn = "nack_sn n"]) (auto simp: retx_of_segment_def)
qed

lemma handle_nack_far:
  assumes inv: "am_tx_inv A X tx" and far: "nacks_so_far tx q0 ns acc" and n: "n \<in> set ns" and res: "handle_nack tx n acc = Ret acc'"
  shows "nacks_so_far tx q0 ns acc'"
  using res far nack_segments_far [OF _ n far] nack_whole_far [OF inv _ far]
  by (auto simp: handle_nack_def split: if_splits option.splits)

lemma handle_nacks_far:
  "am_tx_inv A X tx \<Longrightarrow> nacks_so_far tx q0 ns acc \<Longrightarrow> set ns' \<subseteq> set ns \<Longrightarrow> handle_nacks tx ns' acc = Ret acc' \<Longrightarrow>
     nacks_so_far tx q0 ns acc'"
  by (induction ns' arbitrary: acc) (auto simp: bind_outcome_Ret_iff dest: handle_nack_far)

section \<open>Counting retransmissions\<close>

definition max_retx_call :: "am_tx_call \<Rightarrow> bool" where
  "max_retx_call c \<longleftrightarrow> c = Max_retx_attempted \<or> (\<exists>sns. c = Notify_failure sns)"

definition same_sdu :: "rlc_amd_tx_pdu_nr option \<Rightarrow> rlc_amd_tx_pdu_nr option \<Rightarrow> bool" where
  "same_sdu p p' \<longleftrightarrow> map_option (\<lambda>p. (tx_pdcp_sn p, tx_header p, tx_sdu_buf p, segment_list p)) p =
     map_option (\<lambda>p. (tx_pdcp_sn p, tx_header p, tx_sdu_buf p, segment_list p)) p'"

lemma retx_ok_same: "(\<And>k. same_sdu (cm_at w' k) (cm_at w k)) \<Longrightarrow> retx_ok w r \<Longrightarrow> retx_ok w' r"
proof -
  assume s: "\<And>k. same_sdu (cm_at w' k) (cm_at w k)" and r: "retx_ok w r"
  then obtain pdu b where p: "cm_at w (retx_sn r) = Some pdu" "tx_sdu_buf pdu = Some b" by (auto simp: retx_ok_def)
  obtain pdu' where p': "cm_at w' (retx_sn r) = Some pdu'" "tx_sdu_buf pdu' = tx_sdu_buf pdu" "segment_list pdu' = segment_list pdu"
    using s [of "retx_sn r"] p(1) by (auto simp: same_sdu_def)
  show "retx_ok w' r" using r unfolding retx_ok_def p(1) p'(1) by (simp split del: if_split cong: if_cong add: p'(2,3))
qed

definition tx_counted :: "nat \<Rightarrow> nat \<Rightarrow> rlc_am_nr_tx \<Rightarrow> rlc_am_nr_tx \<Rightarrow> bool" where
  "tx_counted A X tx tx' \<longleftrightarrow> am_tx_inv A X tx' \<and> retx_queue tx' = retx_queue tx \<and> (\<forall>k. same_sdu (tx_pdu_at tx' k) (tx_pdu_at tx k)) \<and>
     am_tx_cfg tx' = am_tx_cfg tx \<and> tx_mod_nr tx' = tx_mod_nr tx \<and> am_tx_enabled tx' = am_tx_enabled tx \<and>
     am_tx_queue tx' = am_tx_queue tx \<and> sdu_under_segmentation_sn tx' = sdu_under_segmentation_sn tx \<and>
     (\<exists>ev. tx_events tx' = tx_events tx @ ev \<and> list_all max_retx_call ev)"

lemma count_retx_ok:
  assumes inv: "am_tx_inv A X tx" and sn: "tx_pdu_at tx sn \<noteq> None"
  shows "\<exists>tx'. count_retx sn tx = Ret tx' \<and> tx_counted A X tx tx'"
proof -
  obtain pdu where p: "tx_pdu_at tx sn = Some pdu" using sn by blast
  obtain i where i: "A \<le> i" "i < tx_end tx X" "sn = tx_sn tx i" "am_pdu_ok (tx_sz tx) sn (i = X) pdu"
    by (rule tx_pdu_okD [OF inv p]) blast
  have win: "tx_win tx A X" using inv by (simp add: am_tx_inv_def)
  let ?n = "if retx_count pdu = RETX_COUNT_NOT_STARTED then 0 else retx_count pdu + 1"
  let ?pdu = "pdu\<lparr>retx_count := ?n\<rparr>"
  let ?tx = "put_pdu sn ?pdu tx"
  have "i \<le> tx_end tx X" "i < A + tx_W tx" using i(2) tx_winD(6) [OF win] by simp_all
  note at = put_pdu_at(1) [OF win i(1) this, of ?pdu, folded i(3)]
  have same: "same_sdu (tx_pdu_at ?tx k) (tx_pdu_at tx k)" for k using p by (simp add: at same_sdu_def)
  have "am_pdu_ok (tx_sz tx) (tx_sn tx i) (i = X) ?pdu" using i(3,4) by (simp split del: if_split cong: if_cong add: am_pdu_ok_def)
  then have "am_tx_inv A X (?tx\<lparr>retx_queue := retx_queue tx\<rparr>)"
    using tx_inv_put [OF inv i(1,2), of ?pdu "retx_queue tx"] inv retx_ok_same [OF same] i(3) by (auto simp: am_tx_inv_def)
  then have inv': "am_tx_inv A X ?tx" by (simp add: put_pdu_def)
  let ?tx2 = "?tx\<lparr>tx_events := tx_events ?tx @ [Max_retx_attempted, Notify_failure [tx_pdcp_sn pdu]], tx_num_lost_pdus := tx_num_lost_pdus ?tx + 1\<rparr>"
  have fr: "tx_events ?tx = tx_events tx" by (simp add: put_pdu_def)
  have inv2: "am_tx_inv A X ?tx2" using inv' by (simp add: am_tx_inv_def tx_win_def tx_pdus_ok_def tx_end_def tx_cfg_sizes_def)
  have c: "count_retx sn tx = Ret (if ?n = max_retx_thresh (am_tx_cfg tx) then ?tx2 else ?tx)"
    using p by (simp add: count_retx_def check_sn_reached_max_retx_def at)
  have "tx_counted A X tx (if ?n = max_retx_thresh (am_tx_cfg tx) then ?tx2 else ?tx)"
    unfolding tx_counted_def using inv' inv2 same fr by (cases "?n = max_retx_thresh (am_tx_cfg tx)") (simp_all add: max_retx_call_def)
  then show ?thesis using c by blast
qed

lemma count_retxs_ok:
  "am_tx_inv A X tx \<Longrightarrow> \<forall>sn \<in> set sns. tx_pdu_at tx sn \<noteq> None \<Longrightarrow> \<exists>tx'. count_retxs sns tx = Ret tx' \<and> tx_counted A X tx tx'"
proof (induction sns arbitrary: tx)
  case Nil
  then show ?case by (simp add: tx_counted_def same_sdu_def)
next
  case (Cons sn sns)
  obtain t where t: "count_retx sn tx = Ret t" "tx_counted A X tx t" using count_retx_ok [OF Cons.prems(1)] Cons.prems(2) by auto
  have "tx_pdu_at t k = None \<longleftrightarrow> tx_pdu_at tx k = None" for k
    using t(2) by (auto simp: tx_counted_def same_sdu_def dest: spec [of _ k])
  then obtain u where u: "count_retxs sns t = Ret u" "tx_counted A X t u"
    using Cons.IH [of t] t(2) Cons.prems(2) by (auto simp: tx_counted_def)
  have "same_sdu (tx_pdu_at u k) (tx_pdu_at tx k)" for k
    using t(2) u(2) by (simp add: tx_counted_def same_sdu_def)
  then have "tx_counted A X tx u" using t(2) u(2) by (auto simp: tx_counted_def)
  then show ?case using t(1) u(1) by simp
qed

section \<open>A report\<close>

definition report_stop :: "rlc_am_nr_status_pdu \<Rightarrow> u32" where
  "report_stop status = (if nacks status = [] then ack_sn status else nack_sn (hd (nacks status)))"

definition report_done :: "nat \<Rightarrow> nat \<Rightarrow> nat \<Rightarrow> rlc_am_nr_status_pdu \<Rightarrow> rlc_am_nr_tx \<Rightarrow> rlc_am_nr_tx \<Rightarrow> bool" where
  "report_done A S X status tx tx' \<longleftrightarrow> am_tx_inv S X tx' \<and> am_tx_cfg tx' = am_tx_cfg tx \<and> tx_mod_nr tx' = tx_mod_nr tx \<and>
     am_tx_enabled tx' = am_tx_enabled tx \<and> am_tx_queue tx' = am_tx_queue tx \<and>
     sdu_under_segmentation_sn tx' = sdu_under_segmentation_sn tx \<and>
     (\<forall>i. S \<le> i \<and> i < tx_end tx X \<longrightarrow> tx_data tx' i = tx_data tx i) \<and>
     (\<forall>n \<in> set (concat (map expand_nack (nacks status))). nack_answered tx' (retx_queue tx') n \<and>
        nack_queued tx' (retx_queue tx) (concat (map expand_nack (nacks status))) (retx_queue tx') n) \<and>
     (\<exists>ev. tx_events tx' = tx_events tx @ ev @ (if A < S then [Notify_delivery (map (tx_pdcp tx) [A..<S])] else []) \<and>
        list_all max_retx_call ev)"

lemma handle_status_ok:
  assumes inv: "am_tx_inv A X tx" and S: "report_stop status = tx_sn tx S" "A \<le> S" "S \<le> X"
    and once: "\<forall>i \<in> {A..<S}. retx_once (retx_queue tx) (tx_sn tx i)"
  shows "\<exists>tx'. handle_status status tx = Ret tx' \<and> report_done A S X status tx tx'"
proof -
  define tx0 where "tx0 = (if tx_mod_base_nr tx (poll_sn (am_st tx)) < tx_mod_base_nr tx (ack_sn status)
      then tx\<lparr>poll_retransmit_timer := (poll_retransmit_timer tx)\<lparr>is_running := False\<rparr>\<rparr> else tx)"
  have eq: "tx0 = tx\<lparr>am_st := am_st tx, poll_retransmit_timer := poll_retransmit_timer tx0\<rparr>" by (simp add: tx0_def)
  have inv0: "am_tx_inv A X tx0" using inv tx_inv_poll [of "am_st tx" tx A X "poll_retransmit_timer tx0"] by (subst eq) simp
  have f: "tx_mod_nr tx0 = tx_mod_nr tx" "retx_queue tx0 = retx_queue tx" "am_tx_window tx0 = am_tx_window tx" "am_st tx0 = am_st tx"
    "am_tx_cfg tx0 = am_tx_cfg tx" "am_tx_enabled tx0 = am_tx_enabled tx" "am_tx_queue tx0 = am_tx_queue tx" "tx_events tx0 = tx_events tx"
    "sdu_under_segmentation_sn tx0 = sdu_under_segmentation_sn tx" "tx_end tx0 X = tx_end tx X"
    by (simp_all add: tx0_def tx_end_def)
  have win: "tx_win tx A X" using inv by (simp add: am_tx_inv_def)
  note w = tx_winD [OF win]
  have "S - A \<le> unat (tx_mod_nr tx)" using tx_cfg_sizesD(2) [OF w(1)] S w(6) by (auto simp: tx_end_def split: if_splits)
  then obtain t1 where t1: "process_acks (unat (tx_mod_nr tx)) (tx_sn tx A) (tx_sn tx S) tx0 = Ret (map (tx_pdcp tx0) [A..<S], t1)"
    "acked_all A S X tx0 t1"
    using process_acks_all [OF inv0 S(2,3), of "unat (tx_mod_nr tx)"] once f by auto
  have pd: "tx_pdcp tx0 = tx_pdcp tx" by (simp add: tx_pdcp_def fun_eq_iff f)
  have inv1: "am_tx_inv S X t1" using t1(2) by (simp add: acked_all_def)
  let ?ns = "concat (map expand_nack (nacks status))"
  have "nack_ok t1 (retx_queue t1, [])" using inv1 by (simp add: nack_ok_def am_tx_inv_def)
  then obtain q sns where q: "handle_nacks t1 ?ns (retx_queue t1, []) = Ret (q, sns)"
    "nack_ok t1 (q, sns)" "\<forall>n \<in> set ?ns. nack_answered t1 q n"
    using handle_nacks_ok [OF inv1, of "(retx_queue t1, [])"] by force
  have "set (retx_queue t1) \<subseteq> set (retx_queue tx)" using t1(2) f by (auto simp: acked_all_def)
  then have "nacks_so_far t1 (retx_queue tx) ?ns (retx_queue t1, [])"
    by (auto simp: nacks_so_far_def retx_has_sn_def list_ex_iff)
  from handle_nacks_far [OF inv1 this subset_refl q(1)]
  have qd: "nack_queued t1 (retx_queue tx) ?ns q n" if "n \<in> set ?ns" for n
    using answered_queued [OF inv1 q(2)] q(3) that by auto
  have inv2: "am_tx_inv S X (t1\<lparr>retx_queue := q\<rparr>)" using q(2) by (intro tx_inv_retx [OF inv1]) (simp_all add: nack_ok_def)
  obtain t3 where t3: "count_retxs sns (t1\<lparr>retx_queue := q\<rparr>) = Ret t3" "tx_counted S X (t1\<lparr>retx_queue := q\<rparr>) t3"
    using count_retxs_ok [OF inv2, of sns] q(2) by (auto simp: nack_ok_def)
  note c = t3(2) [unfolded tx_counted_def] and a = t1(2) [unfolded acked_all_def]
  have same: "same_sdu (tx_pdu_at t3 k) (tx_pdu_at t1 k)" for k using c by simp
  have ans: "nack_answered t3 (retx_queue t3) n" if "n \<in> set (concat (map expand_nack (nacks status)))" for n
  proof -
    have "nack_answered t1 q n" using q(3) that by blast
    then show ?thesis using same [of "nack_sn n"] c
      by (cases "tx_pdu_at t1 (nack_sn n)") (auto simp: nack_answered_def same_sdu_def)
  qed
  have queued': "nack_queued t3 (retx_queue tx) ?ns (retx_queue t3) n" if "n \<in> set ?ns" for n
    unfolding nack_queued_def
  proof (intro allI impI, elim conjE)
    fix pdu assume p: "tx_pdu_at t3 (nack_sn n) = Some pdu" and new: "\<not> retx_has_sn (retx_queue tx) (nack_sn n)"
    obtain old where old: "tx_pdu_at t1 (nack_sn n) = Some old" "segment_list old = segment_list pdu" "tx_sdu_buf old = tx_sdu_buf pdu"
      using same [of "nack_sn n"] p by (cases "tx_pdu_at t1 (nack_sn n)") (auto simp: same_sdu_def)
    have e: "retx_queue t3 = q" "retx_covers_sent q k old = retx_covers_sent q k pdu" for k
      using c old(2,3) by (simp_all add: retx_covers_sent_def)
    show "if has_so n then \<forall>s \<in> set (segment_list pdu). ucast (so_start n) \<le> seg_so s \<and> seg_so s \<le> ucast (so_end n) \<longrightarrow>
          retx_covers_segment (retx_queue t3) (nack_sn n) s
        else (\<forall>m \<in> set ?ns. nack_sn m = nack_sn n \<longrightarrow> \<not> has_so m) \<longrightarrow> retx_covers_sent (retx_queue t3) (nack_sn n) pdu"
      using qd [OF that] old(1) new unfolding nack_queued_def e(1) e(2) [symmetric] old(2) [symmetric] by blast
  qed
  have dat: "tx_data t3 i = tx_data tx i" if "S \<le> i" "i < tx_end tx X" for i
  proof -
    have m: "tx_mod_nr t3 = tx_mod_nr tx" using a c f by simp
    have "tx_pdu_at t1 (tx_sn tx i) = tx_pdu_at tx (tx_sn tx i)" using a that f by simp
    then show ?thesis using same [of "tx_sn tx i"]
      by (cases "tx_pdu_at tx (tx_sn tx i)") (auto simp: tx_data_def same_sdu_def m)
  qed
  define t4 where "t4 = (if map (tx_pdcp tx) [A..<S] \<noteq> [] then t3\<lparr>tx_events := tx_events t3 @ [Notify_delivery (map (tx_pdcp tx) [A..<S])]\<rparr> else t3)"
  have res: "handle_status status tx = Ret t4"
    using t1(1) w(3) q(1) t3(1) S(1) f(1,4) unfolding handle_status_def tx0_def [symmetric] report_stop_def t4_def by (simp add: Let_def pd)
  have f4: "am_tx_inv S X t4 = am_tx_inv S X t3" "am_tx_cfg t4 = am_tx_cfg t3" "tx_mod_nr t4 = tx_mod_nr t3" "am_tx_enabled t4 = am_tx_enabled t3"
    "am_tx_queue t4 = am_tx_queue t3" "sdu_under_segmentation_sn t4 = sdu_under_segmentation_sn t3" "tx_data t4 = tx_data t3"
    "nack_answered t4 = nack_answered t3" "nack_queued t4 = nack_queued t3" "retx_queue t4 = retx_queue t3"
    "tx_events t4 = tx_events t3 @ (if A < S then [Notify_delivery (map (tx_pdcp tx) [A..<S])] else [])"
    by (auto simp: t4_def am_tx_inv_def tx_win_def tx_pdus_ok_def tx_end_def tx_cfg_sizes_def tx_data_def fun_eq_iff nack_answered_def nack_queued_def)
  have "report_done A S X status tx t4"
    unfolding report_done_def f4 using c a ans queued' dat f by auto
  then show ?thesis using res by blast
qed

end
