(* ===== verification/AmNrReassembly.thy ===== *)
theory AmNrReassembly
  imports AmNrReceive
begin

text \<open>
  The invariant of the AM NR receiver over a stream of SDUs, the steps that keep it (a data PDU,
  the expiry of the reassembly timer, a status report) and the properties of a receiver that
  takes part in such steps in any order.
\<close>

section \<open>The receiver's invariant\<close>

text \<open>
  The receiver seen as a point of a stream \<open>f\<close> of SDUs: the numbers \<open>vN\<close>, \<open>vH\<close> and \<open>vS\<close> of
  \<open>RX_Next\<close>, \<open>RX_Next_Highest\<close> and \<open>RX_Highest_Status\<close>, the numbers of the SDUs delivered so far
  and the pieces (SDU, offset, length) that have arrived.
\<close>

record am_view =
  vN :: nat
  vH :: nat
  vS :: nat
  vD :: "nat list"
  vP :: "(nat \<times> nat \<times> nat) set"

definition rx_window_inv :: "am_view \<Rightarrow> rlc_am_nr_rx \<Rightarrow> bool" where
  "rx_window_inv v rx \<longleftrightarrow> am_win rx (vN v) (vH v) \<and> rx_highest_status rx = rx_sn rx (vS v) \<and>
     vN v \<le> vS v \<and> vS v \<le> vH v \<and> \<not> rx_recv rx (vN v) \<and> \<not> rx_recv rx (vS v) \<and>
     (vN v < vH v \<longrightarrow> rx_entry rx (vH v - 1) \<noteq> None) \<and> timer_inv (vN v) (vH v) rx"

definition rx_stored_inv :: "(nat \<Rightarrow> bytes) \<Rightarrow> am_view \<Rightarrow> rlc_am_nr_rx \<Rightarrow> bool" where
  "rx_stored_inv f v rx \<longleftrightarrow>
     (\<forall>i s. vN v \<le> i \<and> i < vH v \<and> rx_entry rx i = Some s \<longrightarrow> stored_ok (f i) s \<and>
        (\<not> fully_received s \<longrightarrow> (\<forall>t \<in> set (am_segments s). (i, seg_start t, seg_len t) \<in> vP v)))"

definition rx_delivered_inv :: "(nat \<Rightarrow> bytes) \<Rightarrow> nat \<Rightarrow> am_view \<Rightarrow> rlc_am_nr_rx \<Rightarrow> bool" where
  "rx_delivered_inv f n0 v rx \<longleftrightarrow> n0 \<le> vN v \<and> map data (am_to_pdcp rx) = map f (vD v) \<and> distinct (vD v) \<and>
     set (vD v) = {n0..<vN v} \<union> {i. vN v \<le> i \<and> i < vH v \<and> rx_recv rx i} \<and> set (vD v) \<subseteq> fst ` vP v"

definition meets :: "nat \<Rightarrow> nat \<Rightarrow> rlc_amd_rx_pdu_nr \<Rightarrow> bool" where
  "meets so len t \<longleftrightarrow> seg_start t < so + len \<and> so < seg_end t"

definition rx_arrived_inv :: "(nat \<Rightarrow> bytes) \<Rightarrow> am_view \<Rightarrow> rlc_am_nr_rx \<Rightarrow> bool" where
  "rx_arrived_inv f v rx \<longleftrightarrow>
     (\<forall>(i, so, len) \<in> vP v. i \<in> set (vD v) \<or>
        vN v \<le> i \<and> i < vH v \<and> len \<noteq> length (f i) \<and>
        (\<exists>s. rx_entry rx i = Some s \<and> (\<exists>t \<in> set (am_segments s). meets so len t)))"

definition am_rx_inv :: "(nat \<Rightarrow> bytes) \<Rightarrow> nat \<Rightarrow> am_view \<Rightarrow> rlc_am_nr_rx \<Rightarrow> bool" where
  "am_rx_inv f n0 v rx \<longleftrightarrow> rx_window_inv v rx \<and> rx_stored_inv f v rx \<and> rx_delivered_inv f n0 v rx \<and>
     rx_arrived_inv f v rx"

lemma rx_window_invD:
  assumes "rx_window_inv v rx"
  shows "am_win rx (vN v) (vH v)" "rx_highest_status rx = rx_sn rx (vS v)" "vN v \<le> vS v" "vS v \<le> vH v"
    "\<not> rx_recv rx (vN v)" "\<not> rx_recv rx (vS v)" "vN v < vH v \<Longrightarrow> rx_entry rx (vH v - 1) \<noteq> None"
    "timer_inv (vN v) (vH v) rx"
  using assms by (auto simp: rx_window_inv_def)

text \<open>Only these parts of the state matter.\<close>

lemma rx_received_cong: "am_rx_window rx = am_rx_window rx' \<Longrightarrow> rx_received rx = rx_received rx'"
  by (simp add: rx_received_def fun_eq_iff)

lemma am_win_cong:
  assumes "am_rx_window rx' = am_rx_window rx" "rx_mod_nr rx' = rx_mod_nr rx" "am_rx_cfg rx' = am_rx_cfg rx"
    "am_rx_next rx' = am_rx_next rx" "rx_next_highest rx' = rx_next_highest rx"
  shows "am_win rx' = am_win rx"
  using assms by (simp add: am_win_def rx_cfg_sizes_def fun_eq_iff)

lemma am_rx_inv_poll: "am_rx_inv f n0 v rx \<Longrightarrow> am_rx_inv f n0 v (rx\<lparr>do_status := b\<rparr>)"
proof -
  let ?r = "rx\<lparr>do_status := b\<rparr>"
  have "am_win ?r = am_win rx" by (rule am_win_cong) simp_all
  moreover have "rx_received ?r = rx_received rx" by (rule rx_received_cong) simp
  ultimately have "rx_window_inv v ?r = rx_window_inv v rx" "rx_delivered_inv f n0 v ?r = rx_delivered_inv f n0 v rx"
    by (simp_all add: rx_window_inv_def timer_inv_def rx_delivered_inv_def)
  moreover have "rx_stored_inv f v ?r = rx_stored_inv f v rx" "rx_arrived_inv f v ?r = rx_arrived_inv f v rx"
    by (simp_all add: rx_stored_inv_def rx_arrived_inv_def)
  ultimately show "am_rx_inv f n0 v rx \<Longrightarrow> am_rx_inv f n0 v ?r" by (simp add: am_rx_inv_def)
qed

section \<open>One PDU\<close>

lemma placed_step:
  assumes inv: "am_rx_inv f n0 v rx" and i: "vN v \<le> i" "i < vN v + rx_W rx" "\<not> rx_recv rx i"
    and s: "stored_ok (f i) s" "fully_received s \<longrightarrow> (\<exists>b. rx_sdu_buf s = Some b \<and> data b = f i)"
    and P: "vP v \<subseteq> P" "i \<in> fst ` P" "\<forall>(j, so, len) \<in> P - vP v. j = i \<and>
        (fully_received s \<or> len \<noteq> length (f i) \<and> (\<exists>t \<in> set (am_segments s). meets so len t))"
      "\<not> fully_received s \<longrightarrow> (\<forall>t \<in> set (am_segments s). (i, seg_start t, seg_len t) \<in> P)"
      "\<forall>s0. rx_entry rx i = Some s0 \<and> \<not> fully_received s \<longrightarrow> set (am_segments s0) \<subseteq> set (am_segments s)"
  shows "\<exists>v' rx'. rx_pdu_placed (rx_sn rx i) (rx\<lparr>am_rx_window := cm_overwrite (rx_sn rx i) s (am_rx_window rx)\<rparr>) = Ret rx' \<and>
    am_rx_inv f n0 v' rx' \<and> vP v' = P \<and> vH v' \<le> max (vH v) (Suc i) \<and> am_rx_cfg rx' = am_rx_cfg rx \<and> rx_mod_nr rx' = rx_mod_nr rx \<and>
    timer_set (reassembly_timer rx') = timer_set (reassembly_timer rx)"
proof -
  note w = rx_window_invD [OF inv [unfolded am_rx_inv_def, THEN conjunct1]]
  let ?N = "vN v" and ?H = "max (vH v) (Suc i)" and ?S = "vS v"
  have st: "rx_stored_inv f v rx" and del: "rx_delivered_inv f n0 v rx" and arr: "rx_arrived_inv f v rx"
    using inv by (simp_all add: am_rx_inv_def)
  have "fully_received s \<longrightarrow> rx_sdu_buf s \<noteq> None" using s(2) by blast
  then obtain rx' N' S' where p:
    "rx_pdu_placed (rx_sn rx i) (rx\<lparr>am_rx_window := cm_overwrite (rx_sn rx i) s (am_rx_window rx)\<rparr>) =
       rx_update_timer rx'"
    "placed_window rx i s ?N N' S' ?H rx'"
    by (rule placed_window [OF w(1) i w(2-4,6,5)])
  note p2 = p(2) [unfolded placed_window_def]
  have w': "am_win rx' N' ?H" and le: "?N \<le> N'" "N' \<le> S'" "S' \<le> ?H" and mod: "rx_mod_nr rx' = rx_mod_nr rx"
    and W: "rx_W rx' = rx_W rx"
    using p2 by simp_all
  have entry: "rx_entry rx' k =
      (if k = i then Some (if fully_received s then s\<lparr>rx_sdu_buf := None\<rparr> else s) else rx_entry rx k)"
    if "N' \<le> k" "k < ?H" for k using p2 that by blast
  have recv: "rx_recv rx' k \<longleftrightarrow> (if k = i then fully_received s else rx_recv rx k)" if "N' \<le> k" "k < ?H" for k
    using entry [OF that] mod by (simp add: rx_received_def)
  have gone: "if k = i then fully_received s else rx_recv rx k" if "?N \<le> k" "k < N'" for k using p2 that by blast
  have HW: "vH v \<le> ?N + rx_W rx" using am_winD(6) [OF w(1)] .
  have HW': "?H \<le> ?N + rx_W rx" using HW i(2) by simp
  have old: "rx_entry rx k = None" if "vH v \<le> k" "k < ?H" for k
  proof -
    have "k < ?N + 2 * rx_W rx" using that(2) HW' am_win_cfg(3) [OF w(1)] by linarith
    then show ?thesis by (rule rx_entry_none [OF w(1) that(1)])
  qed
  have last: "N' < ?H \<Longrightarrow> rx_entry rx' (?H - 1) \<noteq> None"
    using entry [of "?H - 1"] w(7) le(1) by (cases "vH v \<le> i") (auto simp: max_def)
  have timer: "rx_next_status_trigger rx' = rx_sn rx' T \<and> N' \<le> T + rx_W rx' \<and> T \<le> ?H \<and>
      (N' < T \<longrightarrow> rx_entry rx' (T - 1) \<noteq> None)"
    if T: "rx_next_status_trigger rx = rx_sn rx T" "?N < T" "T \<le> vH v" "rx_entry rx (T - 1) \<noteq> None" for T
  proof -
    have "N' \<le> T + rx_W rx'" using le HW i(2) T(2) W by simp
    moreover have "rx_entry rx' (T - 1) \<noteq> None" if "N' < T"
      using entry [of "T - 1"] that T(3,4) by auto
    ultimately show ?thesis using T p2 mod by simp
  qed
  have "\<exists>T. is_running (reassembly_timer rx') \<longrightarrow> rx_next_status_trigger rx' = rx_sn rx' T \<and> N' \<le> T + rx_W rx' \<and>
      T \<le> ?H \<and> (N' < T \<longrightarrow> rx_entry rx' (T - 1) \<noteq> None)"
    using w(8) timer p2 unfolding timer_inv_def by metis
  then obtain T where T: "is_running (reassembly_timer rx') \<Longrightarrow> rx_next_status_trigger rx' = rx_sn rx' T \<and>
      N' \<le> T + rx_W rx' \<and> T \<le> ?H \<and> (N' < T \<longrightarrow> rx_entry rx' (T - 1) \<noteq> None)" by blast
  obtain r t where u: "rx_update_timer rx' = Ret (rx'\<lparr>reassembly_timer := r, rx_next_status_trigger := t\<rparr>)"
    "timer_inv N' ?H (rx'\<lparr>reassembly_timer := r, rx_next_status_trigger := t\<rparr>)"
    "timer_set r = timer_set (reassembly_timer rx')"
    by (rule rx_update_timer_spec [OF w' last T])
  let ?rx = "rx'\<lparr>reassembly_timer := r, rx_next_status_trigger := t\<rparr>"
  let ?D = "vD v @ (if fully_received s then [i] else [])"
  let ?v = "\<lparr>vN = N', vH = ?H, vS = S', vD = ?D, vP = P\<rparr>"
  have win: "am_rx_window ?rx = am_rx_window rx'" by simp
  have recv_eq: "rx_received ?rx = rx_received rx'" by (rule rx_received_cong) simp
  have window: "rx_window_inv ?v ?rx"
  proof -
    have "am_win ?rx N' ?H" using w' am_win_cong [of ?rx rx'] by simp
    moreover have "\<not> rx_recv rx' N'" "\<not> rx_recv rx' S'" using p2 by blast+
    moreover have "rx_highest_status rx' = rx_sn rx' S'" using p2 by simp
    ultimately show ?thesis using le u(2) last recv_eq by (simp add: rx_window_inv_def)
  qed
  have stored: "rx_stored_inv f ?v ?rx"
    unfolding rx_stored_inv_def
  proof (intro allI impI)
    fix k s' assume k: "vN ?v \<le> k \<and> k < vH ?v \<and> rx_entry ?rx k = Some s'"
    show "stored_ok (f k) s' \<and> (\<not> fully_received s' \<longrightarrow> (\<forall>t \<in> set (am_segments s'). (k, seg_start t, seg_len t) \<in> vP ?v))"
    proof (cases "k = i")
      case True
      then have "s' = (if fully_received s then s\<lparr>rx_sdu_buf := None\<rparr> else s)" using entry [of k] k by simp
      then show ?thesis using s(1) True P(4) by (auto simp: stored_ok_def)
    next
      case False
      then have e: "rx_entry rx k = Some s'" using entry [of k] k by simp
      have "k < vH v" using old [of k] e k by (cases "vH v \<le> k") simp_all
      then show ?thesis using st e k le(1) P(1) unfolding rx_stored_inv_def by fastforce
    qed
  qed
  have "i \<notin> set (vD v)" using del i by (auto simp: rx_delivered_inv_def)
  have delivered: "rx_delivered_inv f n0 ?v ?rx"
  proof -
    have "map data (am_to_pdcp ?rx) = map f ?D" using p2 del s(2) by (auto simp: rx_delivered_inv_def)
    moreover have "set ?D = {n0..<N'} \<union> {k. N' \<le> k \<and> k < ?H \<and> rx_recv rx' k}"
    proof (rule set_eqI)
      fix k
      have H: "rx_recv rx k \<and> ?N \<le> k \<and> k < vH v \<longleftrightarrow> rx_recv rx k \<and> ?N \<le> k \<and> k < ?H"
        using old [of k] by (cases "vH v \<le> k") (auto simp: rx_received_def)
      have D: "k \<in> set (vD v) \<longleftrightarrow> n0 \<le> k \<and> k < ?N \<or> ?N \<le> k \<and> k < ?H \<and> rx_recv rx k"
        using del H by (auto simp: rx_delivered_inv_def)
      have n0: "n0 \<le> ?N" using del by (simp add: rx_delivered_inv_def)
      consider "k < ?N" | "?N \<le> k" "k < N'" | "N' \<le> k" by linarith
      then show "k \<in> set ?D \<longleftrightarrow> k \<in> {n0..<N'} \<union> {k. N' \<le> k \<and> k < ?H \<and> rx_recv rx' k}"
      proof cases
        case 1
        then show ?thesis using D le i(1) by auto
      next
        case 2
        then show ?thesis using D gone [OF 2] n0 le i by (auto split: if_splits)
      next
        case 3
        then show ?thesis using D recv [of k] le i by (auto split: if_splits)
      qed
    qed
    moreover have "set (vD v) \<subseteq> fst ` vP v" using del unfolding rx_delivered_inv_def by blast
    then have "set ?D \<subseteq> fst ` P" using P(2) image_mono [OF P(1), of fst] by (cases "fully_received s") auto
    ultimately show ?thesis
      using del le \<open>i \<notin> set (vD v)\<close> recv_eq by (simp add: rx_delivered_inv_def)
  qed
  have arrived: "rx_arrived_inv f ?v ?rx"
    unfolding rx_arrived_inv_def
  proof (clarify)
    fix j so len
    assume j: "(j, so, len) \<in> vP ?v" "\<not> (vN ?v \<le> j \<and> j < vH ?v \<and> len \<noteq> length (f j) \<and>
      (\<exists>s. rx_entry ?rx j = Some s \<and> (\<exists>t \<in> set (am_segments s). meets so len t)))"
    show "j \<in> set (vD ?v)"
    proof (cases "j \<in> set (vD v) \<or> j = i \<and> fully_received s")
      case False
      have "j < ?H \<and> ?N \<le> j \<and> len \<noteq> length (f j) \<and> (\<exists>s'. (if j = i then Some s else rx_entry rx j) = Some s' \<and>
          (\<exists>t \<in> set (am_segments s'). meets so len t)) \<and> (j = i \<or> \<not> rx_recv rx j)"
      proof (cases "(j, so, len) \<in> vP v")
        case True
        then have a: "?N \<le> j" "j < vH v" "len \<noteq> length (f j)"
          "\<exists>s. rx_entry rx j = Some s \<and> (\<exists>t \<in> set (am_segments s). meets so len t)"
          using arr False unfolding rx_arrived_inv_def by fastforce+
        moreover have "\<not> rx_recv rx j" using False a(1,2) del by (auto simp: rx_delivered_inv_def)
        ultimately show ?thesis using P(5) False by (auto; blast)
      next
        case f: False
        then have "(j, so, len) \<in> P - vP v" using j(1) by simp
        from bspec [OF P(3) this] have "j = i" "len \<noteq> length (f i)" "\<exists>t \<in> set (am_segments s). meets so len t"
          using False by auto
        then show ?thesis using i by simp
      qed
      then obtain s' where s': "?N \<le> j" "j < ?H" "len \<noteq> length (f j)" "(if j = i then Some s else rx_entry rx j) = Some s'"
        "\<exists>t \<in> set (am_segments s'). meets so len t" "j = i \<or> \<not> rx_recv rx j" by blast
      have "N' \<le> j" using gone [of j] s'(1,6) False by (cases "N' \<le> j") (auto split: if_splits)
      moreover have "rx_entry ?rx j = Some s'" using entry [of j] \<open>N' \<le> j\<close> s'(2,4) False mod by (auto split: if_splits)
      ultimately show ?thesis using j(2) s' by auto
    qed auto
  qed
  have "rx_pdu_placed (rx_sn rx i) (rx\<lparr>am_rx_window := cm_overwrite (rx_sn rx i) s (am_rx_window rx)\<rparr>) = Ret ?rx"
    using p(1) u(1) by simp
  moreover have "am_rx_inv f n0 ?v ?rx" using window stored delivered arrived by (simp add: am_rx_inv_def)
  moreover have "vP ?v = P" "vH ?v \<le> ?H" "am_rx_cfg ?rx = am_rx_cfg rx" "rx_mod_nr ?rx = rx_mod_nr rx"
    "timer_set (reassembly_timer ?rx) = timer_set (reassembly_timer rx)"
    using p2 u(3) by simp_all
  ultimately show ?thesis by blast
qed

text \<open>
  A PDU of the stream: SDU \<open>i\<close> within a window's distance of the lower edge, \<open>len\<close> bytes from
  offset \<open>so\<close>.  A segment must not contain a piece that arrived before strictly inside: the check
  for duplicate bytes looks at the ends of the new segment only.
\<close>

definition am_rx_admissible :: "(nat \<Rightarrow> bytes) \<Rightarrow> am_view \<Rightarrow> nat \<Rightarrow> nat \<Rightarrow> nat \<Rightarrow> nat \<Rightarrow> bool" where
  "am_rx_admissible f v W i so len \<longleftrightarrow> i < vN v + W \<and> vN v \<le> i + W \<and> piece_ok (f i) so len \<and>
     (len \<noteq> length (f i) \<longrightarrow> (\<forall>(j, so', len') \<in> vP v. j = i \<longrightarrow> \<not> (so < so' \<and> so' + len' < so + len)))"

definition rx_piece_pdu :: "rlc_am_nr_rx \<Rightarrow> (nat \<Rightarrow> bytes) \<Rightarrow> u8 \<Rightarrow> nat \<Rightarrow> nat \<Rightarrow> nat \<Rightarrow> bytes" where
  "rx_piece_pdu rx f p i so len =
     am_piece_pdu (am_rx_sn_field_length (am_rx_cfg rx)) (rx_sn rx i) p (f i) so len"

lemma rx_sn_bits:
  assumes "rx_cfg_sizes rx"
  shows "unat (rx_sn rx i) < (if am_rx_sn_field_length (am_rx_cfg rx) = am_size12bits then 2 ^ 12 else 2 ^ 18)"
  using assms unat_am_sn_of [OF rx_cfg_sizesD(1) [OF assms]]
  by (auto simp: rx_cfg_sizes_def)

text \<open>A PDU that changes nothing: what it carries has arrived before.\<close>

lemma am_rx_inv_seen:
  assumes "am_rx_inv f n0 v rx"
    and "i \<in> set (vD v) \<or> vN v \<le> i \<and> i < vH v \<and> len \<noteq> length (f i) \<and>
        (\<exists>s. rx_entry rx i = Some s \<and> (\<exists>t \<in> set (am_segments s). meets so len t))"
  shows "am_rx_inv f n0 (v\<lparr>vP := insert (i, so, len) (vP v)\<rparr>) rx"
proof -
  have "rx_stored_inv f v rx" using assms(1) by (simp add: am_rx_inv_def)
  then have "rx_stored_inv f (v\<lparr>vP := insert (i, so, len) (vP v)\<rparr>) rx"
    unfolding rx_stored_inv_def by simp
  moreover have "rx_arrived_inv f (v\<lparr>vP := insert (i, so, len) (vP v)\<rparr>) rx"
    using assms by (simp add: am_rx_inv_def rx_arrived_inv_def)
  moreover have "rx_delivered_inv f n0 (v\<lparr>vP := insert (i, so, len) (vP v)\<rparr>) rx"
    using assms(1) by (auto simp: am_rx_inv_def rx_delivered_inv_def)
  ultimately show ?thesis using assms(1) by (simp add: am_rx_inv_def rx_window_inv_def)
qed

lemma stored_meets:
  assumes "am_sdu_ok d" "piece_ok d so len" "segs_of d ss" "t \<in> set ss"
    "overlaps_segment (am_piece_header sz sn p d so len) (of_nat (n + len)) (of_nat n) t" "n \<le> 5"
  shows "meets so len t"
proof -
  have t: "0 < seg_len t" "seg_end t \<le> length d" using assms(3,4) by (auto simp: segs_of_def seg_of_def)
  have "unat (am_so (am_piece_header sz sn p d so len)) = so" using unat_so [OF assms(1,2)] by simp
  then show ?thesis
    using overlaps_iff [of len t "am_piece_header sz sn p d so len" n] assms(2,5,6) t am_sdu_len [OF assms(1)]
    by (auto simp: piece_ok_def meets_def)
qed

lemma stored_apart:
  assumes "am_sdu_ok d" "piece_ok d so len" "segs_of d ss" "t \<in> set ss"
    "\<not> overlaps_segment (am_piece_header sz sn p d so len) (of_nat (n + len)) (of_nat n) t" "n \<le> 5"
    "\<not> (so < seg_start t \<and> seg_end t < so + len)"
  shows "so + len \<le> seg_start t \<or> seg_end t \<le> so"
proof -
  have t: "0 < seg_len t" "seg_end t \<le> length d" using assms(3,4) by (auto simp: segs_of_def seg_of_def)
  have so: "unat (am_so (am_piece_header sz sn p d so len)) = so" using unat_so [OF assms(1,2)] by simp
  show ?thesis
    using not_overlaps [of len t "am_piece_header sz sn p d so len" n] assms(2,5,6,7) t am_sdu_len [OF assms(1)]
    unfolding so by (simp add: piece_ok_def)
qed

lemma am_rx_data_step:
  assumes inv: "am_rx_inv f n0 v rx" and f: "\<And>i. am_sdu_ok (f i)" and p: "unat p < 2" and n0: "n0 \<le> i"
    and adm: "am_rx_admissible f v (rx_W rx) i so len"
  shows "\<exists>v' rx'. am_nr_rx_handle_data_pdu True True (rx_piece_pdu rx f p i so len) rx = Ret rx' \<and>
    am_rx_inv f n0 v' rx' \<and> vP v' = insert (i, so, len) (vP v) \<and> vH v' \<le> max (vH v) (Suc i) \<and>
    am_rx_cfg rx' = am_rx_cfg rx \<and> rx_mod_nr rx' = rx_mod_nr rx \<and>
    timer_set (reassembly_timer rx') = timer_set (reassembly_timer rx)"
proof -
  let ?sz = "am_rx_sn_field_length (am_rx_cfg rx)" and ?sn = "rx_sn rx i"
  let ?h = "am_piece_header ?sz ?sn p (f i) so len" and ?pdu = "rx_piece_pdu rx f p i so len"
  let ?n = "rlc_am_nr_packed_length ?h" and ?P = "insert (i, so, len) (vP v)"
  define r where "r = (if p \<noteq> 0 then rx\<lparr>do_status := True\<rparr> else rx)"
  have inv_r: "am_rx_inv f n0 v r" using inv am_rx_inv_poll [OF inv, of True] by (simp add: r_def)
  have r: "am_rx_cfg r = am_rx_cfg rx" "rx_mod_nr r = rx_mod_nr rx" "am_rx_window r = am_rx_window rx"
    "reassembly_timer r = reassembly_timer rx"
    by (simp_all add: r_def)
  note w = rx_window_invD [OF inv_r [unfolded am_rx_inv_def, THEN conjunct1]]
  have st: "rx_stored_inv f v r" and del: "rx_delivered_inv f n0 v r" using inv_r by (simp_all add: am_rx_inv_def)
  note cfg = am_winD(1) [OF w(1)]
  have po: "piece_ok (f i) so len" and iW: "i < vN v + rx_W r" "vN v \<le> i + rx_W r"
    and eng: "len \<noteq> length (f i) \<Longrightarrow> \<forall>(j, so', len') \<in> vP v. j = i \<longrightarrow> \<not> (so < so' \<and> so' + len' < so + len)"
    using adm r(3) by (simp_all add: am_rx_admissible_def)
  have sz: "?sz \<noteq> am_nulltype" using rx_cfg_sizesD(5) [OF cfg] r by simp
  have sn: "unat ?sn < (if ?sz = am_size12bits then 2 ^ 12 else 2 ^ 18)" using rx_sn_bits [OF cfg, of i] r by simp
  note rd = am_piece_read [OF f po sz p sn, folded rx_piece_pdu_def]
  have same: "\<exists>v' rx'. Ret r = Ret rx' \<and> am_rx_inv f n0 v' rx' \<and> vP v' = ?P \<and> vH v' \<le> max (vH v) (Suc i) \<and> am_rx_cfg rx' = am_rx_cfg rx \<and>
      rx_mod_nr rx' = rx_mod_nr rx \<and> timer_set (reassembly_timer rx') = timer_set (reassembly_timer rx)"
    if "i \<in> set (vD v) \<or> vN v \<le> i \<and> i < vH v \<and> len \<noteq> length (f i) \<and>
        (\<exists>s. rx_entry r i = Some s \<and> (\<exists>t \<in> set (am_segments s). meets so len t))"
    using am_rx_inv_seen [OF inv_r that] r by (intro exI conjI) (assumption | simp)+
  have inside: "inside_rx_window r ?sn \<longleftrightarrow> vN v \<le> i"
    using rx_inside [OF w(1) iW(2)] iW(1) r by simp
  let ?dup = "am_si ?h \<noteq> full_sdu \<and> (case cm_at (am_rx_window r) ?sn of None \<Rightarrow> False
       | Some s \<Rightarrow> list_ex (overlaps_segment ?h (of_nat (length ?pdu)) (of_nat ?n)) (am_segments s))"
  let ?store = "if am_si ?h = full_sdu then handle_full_data_sdu True ?h ?pdu r
      else handle_segment_data_sdu True True ?h ?pdu r"
  have run: "am_nr_rx_handle_data_pdu True True ?pdu rx =
      (if \<not> inside_rx_window r ?sn then Ret r else if rx_received r ?sn then Ret r else if ?dup then Ret r
       else bind_outcome ?store (\<lambda>(ok, rx). if \<not> ok then Ret rx else rx_pdu_placed ?sn rx))"
    unfolding am_nr_rx_handle_data_pdu_def rd(1) option.case prod.case Let_def r_def am_piece_header_simps
    by (rule refl)
  show ?thesis
  proof (cases "vN v \<le> i \<and> \<not> rx_received r ?sn")
    case False
    have "i \<in> set (vD v)"
    proof (cases "vN v \<le> i")
      case True
      then have "rx_recv r i" using False r by simp
      moreover have "i < vH v" using rx_recv_range [OF w(1) \<open>rx_recv r i\<close> True] iW by simp
      ultimately show ?thesis using del True by (simp add: rx_delivered_inv_def)
    next
      case False
      then show ?thesis using del n0 by (simp add: rx_delivered_inv_def)
    qed
    then show ?thesis using same run inside False by auto
  next
    case True
    then have i: "vN v \<le> i" "\<not> rx_recv r i" using r by simp_all
    have range: "rx_entry r i = Some s \<Longrightarrow> i < vH v" for s
      using rx_entry_none [OF w(1), of i] iW by (cases "vH v \<le> i") simp_all
    have segs: "segs_of (f i) (am_segments s)" "\<not> fully_received s"
      "\<forall>t \<in> set (am_segments s). (i, seg_start t, seg_len t) \<in> vP v" if "rx_entry r i = Some s" for s
      using st i range [OF that] that by (auto simp: rx_stored_inv_def stored_ok_def rx_received_def)
    have len: "length ?pdu = ?n + len" "?n \<le> 5" using rd(2,4) .
    have placed: "\<exists>v' rx'. bind_outcome ?store (\<lambda>(ok, rx). if \<not> ok then Ret rx else rx_pdu_placed ?sn rx) = Ret rx' \<and>
        am_rx_inv f n0 v' rx' \<and> vP v' = ?P \<and> vH v' \<le> max (vH v) (Suc i) \<and> am_rx_cfg rx' = am_rx_cfg rx \<and> rx_mod_nr rx' = rx_mod_nr rx \<and>
        timer_set (reassembly_timer rx') = timer_set (reassembly_timer rx)"
      if s: "?store = Ret (True, r\<lparr>am_rx_window := cm_overwrite ?sn s (am_rx_window r)\<rparr>)"
        "stored_ok (f i) s" "fully_received s \<longrightarrow> (\<exists>b. rx_sdu_buf s = Some b \<and> data b = f i)"
        "\<not> fully_received s \<longrightarrow> len \<noteq> length (f i) \<and> set (am_segments s) = insert (piece_seg ?sz ?sn p (f i) so len)
           (case rx_entry r i of Some s0 \<Rightarrow> set (am_segments s0) | None \<Rightarrow> {})" for s
    proof -
      note ps = piece_seg_simps [OF f po, of ?sz ?sn p]
      have "meets so len (piece_seg ?sz ?sn p (f i) so len)" unfolding meets_def ps using po by (simp add: piece_ok_def)
      then have "\<forall>(j, so', len') \<in> ?P - vP v. j = i \<and> (fully_received s \<or> len' \<noteq> length (f i) \<and>
          (\<exists>t \<in> set (am_segments s). meets so' len' t))" using s(4) by auto
      moreover have "\<not> fully_received s \<longrightarrow> (\<forall>t \<in> set (am_segments s). (i, seg_start t, seg_len t) \<in> ?P)"
        using s(4) segs(3) ps by (auto split: option.splits)
      moreover have "\<forall>s0. rx_entry r i = Some s0 \<and> \<not> fully_received s \<longrightarrow> set (am_segments s0) \<subseteq> set (am_segments s)"
        using s(4) by auto
      ultimately show ?thesis
        using placed_step [OF inv_r i(1) iW(1) i(2) s(2,3), of ?P] s(1) r by auto
    qed
    show ?thesis
    proof (cases "len = length (f i)")
      case full: True
      then have si: "am_si ?h = full_sdu" using am_piece_si(1) [OF po] by simp
      obtain b where "data b = f i" "?store = Ret (True, r\<lparr>am_rx_window := cm_overwrite ?sn
          \<lparr>fully_received = True, has_gap = False, rx_sdu_buf = Some b, am_segments = []\<rparr> (am_rx_window r)\<rparr>)"
        using handle_full_spec [OF f po full sz p sn, of r] si by (auto simp: rx_piece_pdu_def)
      then show ?thesis using placed run inside True si by (simp add: stored_ok_def)
    next
      case seg: False
      then have si: "am_si ?h \<noteq> full_sdu" using am_piece_si(1) [OF po] by simp
      show ?thesis
      proof (cases ?dup)
        case dup: True
        then obtain s t where s: "rx_entry r i = Some s" "t \<in> set (am_segments s)"
          "overlaps_segment ?h (of_nat (?n + len)) (of_nat ?n) t"
          using r len by (auto simp: list_ex_iff split: option.splits)
        then have "meets so len t" using stored_meets [OF f po segs(1) s(2,3) len(2)] by blast
        then show ?thesis using same run inside True dup s i range [OF s(1)] seg by auto
      next
        case dup: False
        define s0 where "s0 = (case cm_at (am_rx_window r) ?sn of Some s \<Rightarrow> s | None \<Rightarrow> rx_sdu_0)"
        have s0: "segs_of (f i) (am_segments s0)"
          using segs(1) r by (auto simp: s0_def rx_sdu_0_def split: option.splits)
        have "\<forall>t \<in> set (am_segments s0). so + len \<le> seg_start t \<or> seg_end t \<le> so"
        proof
          fix t assume t: "t \<in> set (am_segments s0)"
          then obtain s where s: "rx_entry r i = Some s" "t \<in> set (am_segments s)"
            using r by (auto simp: s0_def rx_sdu_0_def split: option.splits)
          have "\<not> overlaps_segment ?h (of_nat (?n + len)) (of_nat ?n) t"
            using dup si s len r by (auto simp: list_ex_iff)
          moreover have "\<not> (so < seg_start t \<and> seg_end t < so + len)" using eng [OF seg] segs(3) [OF s(1)] s(2) by fastforce
          ultimately show "so + len \<le> seg_start t \<or> seg_end t \<le> so"
            using stored_apart [OF f po segs(1) [OF s(1)] s(2) _ len(2)] by blast
        qed
        from handle_segment_spec [OF f po seg sz p sn s0_def s0 this] obtain s where
          "?store = Ret (True, r\<lparr>am_rx_window := cm_overwrite ?sn s (am_rx_window r)\<rparr>)" "stored_ok (f i) s"
          "fully_received s \<longrightarrow> (\<exists>b. rx_sdu_buf s = Some b \<and> data b = f i)"
          "set (am_segments s) = insert (piece_seg ?sz ?sn p (f i) so len) (set (am_segments s0))"
          using si by (auto simp: rx_piece_pdu_def)
        then show ?thesis using placed [of s] run inside True dup seg r
          by (auto simp: s0_def rx_sdu_0_def split: option.splits)
      qed
    qed
  qed
qed

section \<open>Expiry of the reassembly timer\<close>

lemma am_rx_expire_step:
  assumes inv: "am_rx_inv f n0 v rx" and run: "is_running (reassembly_timer rx)"
  shows "\<exists>S' rx'. am_nr_rx_expire Reassembly rx = Ret rx' \<and> am_rx_inv f n0 (v\<lparr>vS := S'\<rparr>) rx' \<and>
    am_rx_cfg rx' = am_rx_cfg rx \<and> rx_mod_nr rx' = rx_mod_nr rx \<and> rx_W rx' = rx_W rx \<and>
    timer_set (reassembly_timer rx') = timer_set (reassembly_timer rx) \<and>
    (timer_set (reassembly_timer rx) \<longrightarrow> vN v < S' \<and> do_status rx')"
proof -
  let ?r = "rx\<lparr>reassembly_timer := (reassembly_timer rx)\<lparr>is_running := False\<rparr>\<rparr>"
  note w = rx_window_invD [OF inv [unfolded am_rx_inv_def, THEN conjunct1]]
  have others: "am_rx_inv f n0 (v\<lparr>vS := S'\<rparr>) rx'" if "rx_window_inv (v\<lparr>vS := S'\<rparr>) rx'"
    "am_rx_window rx' = am_rx_window rx" "rx_mod_nr rx' = rx_mod_nr rx" "am_to_pdcp rx' = am_to_pdcp rx" for S' rx'
  proof -
    have "rx_received rx' = rx_received rx" by (rule rx_received_cong) (rule that(2))
    then have "rx_stored_inv f (v\<lparr>vS := S'\<rparr>) rx' = rx_stored_inv f v rx"
      "rx_delivered_inv f n0 (v\<lparr>vS := S'\<rparr>) rx' = rx_delivered_inv f n0 v rx"
      "rx_arrived_inv f (v\<lparr>vS := S'\<rparr>) rx' = rx_arrived_inv f v rx"
      using that by (simp_all add: rx_stored_inv_def rx_delivered_inv_def rx_arrived_inv_def)
    then show ?thesis using inv that(1) by (simp add: am_rx_inv_def)
  qed
  obtain T where T: "rx_next_status_trigger rx = rx_sn rx T" "vN v < T" "T \<le> vH v"
    using w(8) run by (auto simp: timer_inv_def)
  have wr: "am_win ?r (vN v) (vH v)" using w(1) am_win_cong [of ?r rx] by simp
  have recv: "rx_received ?r = rx_received rx" by (rule rx_received_cong) simp
  show ?thesis
  proof (cases "timer_set (reassembly_timer rx)")
    case False
    have "rx_window_inv (v\<lparr>vS := vS v\<rparr>) ?r"
      using w wr recv by (simp add: rx_window_inv_def timer_inv_def)
    from others [OF this] show ?thesis using False
      by (intro exI [of _ "vS v"] exI [of _ ?r]) (simp add: am_nr_rx_expire_def Let_def)
  next
    case True
    have fuel: "vN v \<le> T" "vH v - T \<le> rx_fuel ?r"
      using T rx_fuel_eq [OF wr] am_winD(6) [OF w(1)] am_win_cfg(3) [OF w(1)] by simp_all
    from skip_received_spec [OF wr fuel(1) T(3) fuel(2)] obtain j where
      j: "skip_received (rx_fuel ?r) ?r (rx_sn ?r T) = Ret (rx_sn ?r j)" "T \<le> j" "j \<le> vH v" "\<not> rx_received ?r (rx_sn ?r j)"
      by blast
    let ?r2 = "?r\<lparr>rx_highest_status := rx_sn rx j\<rparr>"
    have w2: "am_win ?r2 (vN v) (vH v)" using w(1) am_win_cong [of ?r2 rx] by simp
    have jr: "vN v \<le> j" "j < vN v + 2 * rx_W ?r2" "j - vN v \<le> rx_W ?r2" "0 < j - vN v"
      using j(2,3) T am_winD(6) [OF w(1)] am_win_cfg(3) [OF w(1)] by simp_all
    have "rx_valid_ack_sn ?r2 (rx_highest_status ?r2)"
      using rx_base [OF w2 jr(1,2)] jr(3,4) am_win_cfg(4) [OF w2]
      by (simp add: rx_valid_ack_sn_def word_less_nat_alt word_le_nat_alt)
    moreover have e: "vN v < vH v \<Longrightarrow> rx_entry ?r2 (vH v - 1) \<noteq> None" "\<not> is_running (reassembly_timer ?r2)"
      using w(7) by simp_all
    then obtain r t where u: "run_reassembly (rx_sn ?r2 j) ?r2 = ?r2\<lparr>reassembly_timer := r, rx_next_status_trigger := t\<rparr>"
      "timer_inv (vN v) (vH v) (?r2\<lparr>reassembly_timer := r, rx_next_status_trigger := t\<rparr>)"
      "timer_set r = timer_set (reassembly_timer ?r2)"
      by (rule run_reassembly_spec [OF w2 jr(1) j(3)])
    ultimately have e: "am_nr_rx_expire Reassembly rx =
        Ret (?r2\<lparr>reassembly_timer := r, rx_next_status_trigger := t, do_status := True\<rparr>)"
      using True T(1) j(1) by (simp add: am_nr_rx_expire_def am_nr_rx_timer_expired_def Let_def)
    let ?rx = "?r2\<lparr>reassembly_timer := r, rx_next_status_trigger := t, do_status := True\<rparr>"
    have recv': "rx_received ?rx = rx_received rx" by (rule rx_received_cong) simp
    have wx: "am_win ?rx (vN v) (vH v)" using w(1) am_win_cong [of ?rx rx] by simp
    have "timer_inv (vN v) (vH v) ?rx" using u(2) by (simp add: timer_inv_def)
    moreover have "\<not> rx_recv rx j" using j(4) recv by simp
    moreover have "j \<le> vH v" "vN v \<le> j" using j(3) jr(1) .
    ultimately have "rx_window_inv (v\<lparr>vS := j\<rparr>) ?rx"
      using w wx recv' by (simp add: rx_window_inv_def)
    from others [OF this] have "am_rx_inv f n0 (v\<lparr>vS := j\<rparr>) ?rx" by simp
    then show ?thesis using e u(3) j(2) T(2) by (intro exI [of _ j] exI [of _ ?rx]) simp
  qed
qed

section \<open>Status report\<close>

text \<open>What is missing of an SDU of which the disjoint segments \<open>ss\<close> are there.\<close>

fun seg_gaps :: "nat \<Rightarrow> rlc_amd_rx_pdu_nr list \<Rightarrow> (nat \<times> nat) list" where
  "seg_gaps p [] = []"
| "seg_gaps p (s # ss) = (if seg_start s \<noteq> p then [(p, seg_start s - 1)] else []) @ seg_gaps (seg_end s) ss"

definition rx_missing :: "rlc_am_nr_rx \<Rightarrow> u32 \<Rightarrow> (u16 \<times> u16) list" where
  "rx_missing rx sn =
     (case cm_at (am_rx_window rx) sn of
        None \<Rightarrow> [(0, so_end_of_sdu)]
      | Some s \<Rightarrow>
          if fully_received s then []
          else map (\<lambda>g. (of_nat (fst g), of_nat (snd g))) (seg_gaps 0 (am_segments s)) @
               (if \<exists>t \<in> set (am_segments s). am_si (seg_header t) = last_segment then []
                else [(if am_segments s = [] then 0 else of_nat (seg_end (last (am_segments s))), so_end_of_sdu)]))"

definition nack_of :: "u32 \<Rightarrow> u16 \<times> u16 \<Rightarrow> rlc_status_nack" where
  "nack_of sn r = rlc_status_nack\<lparr>nack_sn := sn, has_so := True, so_start := fst r, so_end := snd r\<rparr>"

abbreviation push_all :: "rlc_status_nack list \<Rightarrow> rlc_am_nr_status_pdu \<Rightarrow> rlc_am_nr_status_pdu" where
  "push_all ns st \<equiv> foldl (\<lambda>s n. push_nack n s) st ns"

lemma u16_of_nat: "(ucast (of_nat n :: u32) :: u16) = of_nat n"
  by (simp add: unsigned_of_nat word_of_nat_eq_iff)

lemma nack_segments_spec:
  assumes "segs_of d ss" "\<forall>s \<in> set ss. p \<le> seg_start s" "length d < 2 ^ 16" "p \<le> length d"
  shows "nack_segments sn (of_nat p) lr ss st =
    Ret (push_all (map (\<lambda>g. nack_of sn (of_nat (fst g), of_nat (snd g))) (seg_gaps p ss)) st,
         of_nat (if ss = [] then p else seg_end (last ss)),
         lr \<or> (\<exists>t \<in> set ss. am_si (seg_header t) = last_segment))"
  using assms
proof (induction ss arbitrary: p lr st)
  case Nil
  then show ?case by simp
next
  case (Cons s ss)
  note s = Cons.prems(1) [unfolded segs_of_Cons]
  have sd: "0 < seg_len s" "seg_end s \<le> length d" using s by (auto simp: seg_of_def)
  have p: "unat (of_nat p :: u32) = p" using Cons.prems(3,4) by (intro unat_u32) simp
  have eq: "(ucast (am_so (seg_header s)) :: u32) = of_nat p \<longleftrightarrow> seg_start s = p"
    using p by (metis unat_offset ucast_offset)
  have last_so: "ucast (am_so (seg_header s)) + of_nat (seg_len s) = (of_nat (seg_end s) :: u32)"
    by (simp only: ucast_offset of_nat_add)
  have IH: "nack_segments sn (of_nat (seg_end s)) lr' ss st' =
      Ret (push_all (map (\<lambda>g. nack_of sn (of_nat (fst g), of_nat (snd g))) (seg_gaps (seg_end s) ss)) st',
         of_nat (if ss = [] then seg_end s else seg_end (last ss)),
         lr' \<or> (\<exists>t \<in> set ss. am_si (seg_header t) = last_segment))" for lr' st'
    using Cons.IH [OF _ _ Cons.prems(3) sd(2), of lr' st'] s by simp
  show ?case
  proof (cases "seg_start s = p")
    case True
    then show ?thesis using eq last_so IH by (auto simp: Let_def)
  next
    case False
    then have less: "p < seg_start s" using Cons.prems(2) by auto
    have so_end: "(ucast (ucast (am_so (seg_header s)) - 1 :: u32) :: u16) = of_nat (seg_start s - 1)"
    proof -
      have "(ucast (am_so (seg_header s)) - 1 :: u32) = of_nat (seg_start s - 1)"
        using less by (simp only: ucast_offset) (cases "seg_start s"; simp)
      then show ?thesis by (simp only: u16_of_nat)
    qed
    have so_start: "(ucast (of_nat p :: u32) :: u16) = of_nat p" by (rule u16_of_nat)
    have "seg_start s - 1 < 2 ^ 16" "p < 2 ^ 16" using sd(2) Cons.prems(3,4) by linarith+
    then have "unat (of_nat (seg_start s - 1) :: u16) = seg_start s - 1" "unat (of_nat p :: u16) = p"
      by (simp_all add: unsigned_of_nat take_bit_nat_eq_self)
    then have ok: "\<not> (of_nat (seg_start s - 1) :: u16) < of_nat p" using less by (simp add: word_less_nat_alt)
    have nack: "rlc_status_nack\<lparr>nack_sn := sn, has_so := True, so_start := of_nat p, so_end := of_nat (seg_start s - 1)\<rparr>
        = nack_of sn (of_nat p, of_nat (seg_start s - 1))" by (simp add: nack_of_def)
    show ?thesis
      unfolding nack_segments.simps Let_def so_start so_end nack last_so IH
      using eq False ok by (simp add: nack_of_def) blast
  qed
qed

definition missing_nacks :: "rlc_am_nr_rx \<Rightarrow> u32 \<Rightarrow> rlc_status_nack list" where
  "missing_nacks rx sn =
     (case cm_at (am_rx_window rx) sn of
        None \<Rightarrow> [rlc_status_nack\<lparr>nack_sn := sn, has_so := False\<rparr>]
      | Some s \<Rightarrow> map (nack_of sn) (rx_missing rx sn))"

lemma push_all_append: "push_all (xs @ ys) st = push_all ys (push_all xs st)"
  by simp

lemma nack_sdu_spec:
  assumes "case cm_at (am_rx_window rx) sn of None \<Rightarrow> True | Some s \<Rightarrow> stored_ok d s" "length d < 2 ^ 16"
  shows "nack_sdu rx sn st = Ret (push_all (missing_nacks rx sn) st)"
proof (cases "cm_at (am_rx_window rx) sn")
  case None
  then show ?thesis by (simp add: nack_sdu_def missing_nacks_def)
next
  case (Some s)
  show ?thesis
  proof (cases "fully_received s")
    case True
    then show ?thesis using Some by (simp add: nack_sdu_def missing_nacks_def rx_missing_def)
  next
    case False
    then have "segs_of d (am_segments s)" using assms(1) Some by (simp add: stored_ok_def)
    note n = nack_segments_spec [OF this _ assms(2), of 0 sn False st, simplified]
    have r: "rlc_status_nack\<lparr>nack_sn := sn, has_so := True, so_start := ucast (of_nat k :: u32), so_end := so_end_of_sdu\<rparr>
        = nack_of sn (of_nat k, so_end_of_sdu)" for k by (simp only: nack_of_def u16_of_nat fst_conv snd_conv)
    show ?thesis
    proof (cases "\<exists>t \<in> set (am_segments s). am_si (seg_header t) = last_segment")
      case True
      then show ?thesis using Some False n by (simp add: nack_sdu_def missing_nacks_def rx_missing_def comp_def)
    next
      case nl: False
      have e: "am_segments s = [] \<Longrightarrow> (of_nat 0 :: u16) = 0" by simp
      show ?thesis unfolding nack_sdu_def Some option.case if_not_P [OF False] n bind_outcome.simps prod.case
          if_not_P [OF nl] r
        using Some False nl by (simp add: missing_nacks_def rx_missing_def comp_def)
    qed
  qed
qed

text \<open>Of every SDU that is not complete the window holds a well-formed object or none.\<close>

lemma am_rx_inv_entry:
  assumes "am_rx_inv f n0 v rx" "vN v \<le> i" "i < vH v"
  shows "case rx_entry rx i of None \<Rightarrow> True | Some s \<Rightarrow> stored_ok (f i) s"
  using assms by (auto simp: am_rx_inv_def rx_stored_inv_def split: option.split)

lemma nack_loop_spec:
  assumes inv: "am_rx_inv f n0 v rx" and f: "\<And>i. am_sdu_ok (f i)"
    and i: "vN v \<le> i" "i \<le> vS v" "vS v - i \<le> n"
  shows "nack_loop n rx (rx_sn rx i) st =
    Ret (push_all (concat (map (\<lambda>k. missing_nacks rx (rx_sn rx k)) [i..<vS v])) st)"
  using i
proof (induction n arbitrary: i st)
  case (0 i)
  then show ?case by (simp add: nack_loop.simps rx_window_invD(2) [OF inv [unfolded am_rx_inv_def, THEN conjunct1]])
next
  case (Suc n i)
  note w = rx_window_invD [OF inv [unfolded am_rx_inv_def, THEN conjunct1]]
  have lim: "i < vN v + 2 * rx_W rx" "vS v < vN v + 2 * rx_W rx"
    using Suc.prems w(4) am_winD(6) [OF w(1)] am_win_cfg(3) [OF w(1)] by simp_all
  show ?case
  proof (cases "i < vS v")
    case False
    then show ?thesis using rx_base_less(1) [OF w(1) Suc.prems(1) lim(1) w(3) lim(2)] Suc.prems(2)
      by (simp add: nack_loop.simps [of "Suc n"] w(2))
  next
    case True
    have "length (f i) < 2 ^ 16" using am_sdu_len [OF f, of i] by simp
    note sdu = nack_sdu_spec [OF am_rx_inv_entry [OF inv Suc.prems(1)] this]
    have "i < vH v" using True w(4) by simp
    moreover have "[i..<vS v] = i # [Suc i..<vS v]" using True by (rule upt_conv_Cons)
    ultimately show ?thesis
      using rx_base_less(1) [OF w(1) Suc.prems(1) lim(1) w(3) lim(2)] True sdu Suc.IH [of "Suc i"] Suc.prems
      by (simp add: nack_loop.simps [of "Suc n"] w(2) am_sn_of_Suc [OF am_win_cfg(1) [OF w(1)]])
  qed
qed

lemma get_status_pdu_spec:
  fixes st :: rlc_am_nr_status_pdu and max_len :: u32
  assumes inv: "am_rx_inv f n0 v rx" and f: "\<And>i. am_sdu_ok (f i)"
  defines "full \<equiv> (push_all (concat (map (\<lambda>k. missing_nacks rx (rx_sn rx k)) [vN v..<vS v])) (status_reset st))
                  \<lparr>ack_sn := rx_sn rx (vS v)\<rparr>"
  defines "st' \<equiv> (if unat max_len < packed_size full then snd (trim (unat max_len) full) else full)"
  shows "get_status_pdu True max_len st rx = Ret (of_nat (packed_size st'), st',
      if max_len \<noteq> - 1 then rx\<lparr>status_prohibit_timer := (status_prohibit_timer rx)\<lparr>is_running := True\<rparr>, do_status := False\<rparr>
      else rx)"
proof -
  note w = rx_window_invD [OF inv [unfolded am_rx_inv_def, THEN conjunct1]]
  have fuel: "vS v - vN v \<le> rx_fuel rx" using rx_fuel_eq [OF w(1)] w(4) am_winD(6) [OF w(1)] by simp
  note n = nack_loop_spec [OF inv f order_refl w(3) fuel, of "status_reset st"]
  show ?thesis
    unfolding get_status_pdu_def am_winD(3) [OF w(1)] n st'_def full_def w(2)
    by (simp only: not_True_eq_False if_False bind_outcome.simps Let_def)
qed

section \<open>Runs\<close>

text \<open>
  What happens to the receiver: a PDU of the stream arrives, with its poll bit; a running timer
  expires; the transmitter asks for a status report of at most so many bytes.
\<close>

datatype am_rx_event = Rx_pdu u8 nat nat nat | Rx_expire am_rx_timer | Rx_status u32

definition am_rx_timer_of :: "am_rx_timer \<Rightarrow> rlc_am_nr_rx \<Rightarrow> am_timer" where
  "am_rx_timer_of t rx = (case t of Status_prohibit \<Rightarrow> status_prohibit_timer rx | Reassembly \<Rightarrow> reassembly_timer rx)"

definition am_rx_step :: "(nat \<Rightarrow> bytes) \<Rightarrow> am_rx_event \<Rightarrow> rlc_am_nr_rx \<Rightarrow> rlc_am_nr_rx outcome" where
  "am_rx_step f e rx =
     (case e of
        Rx_pdu p i so len \<Rightarrow> am_nr_rx_handle_data_pdu True True (rx_piece_pdu rx f p i so len) rx
      | Rx_expire t \<Rightarrow> if is_running (am_rx_timer_of t rx) then am_nr_rx_expire t rx else Ret rx
      | Rx_status max_len \<Rightarrow>
          bind_outcome (outcome_of (rlc_am_nr_status_pdu (am_rx_sn_field_length (am_rx_cfg rx)))) (\<lambda>st.
          bind_outcome (get_status_pdu True max_len st rx) (\<lambda>(_, _, rx). Ret rx)))"

fun am_rx_run :: "(nat \<Rightarrow> bytes) \<Rightarrow> am_rx_event list \<Rightarrow> rlc_am_nr_rx \<Rightarrow> rlc_am_nr_rx outcome" where
  "am_rx_run f [] rx = Ret rx"
| "am_rx_run f (e # es) rx = bind_outcome (am_rx_step f e rx) (am_rx_run f es)"

fun am_piece :: "am_rx_event \<Rightarrow> (nat \<times> nat \<times> nat) list" where
  "am_piece (Rx_pdu p i so len) = [(i, so, len)]"
| "am_piece (Rx_expire t) = []"
| "am_piece (Rx_status n) = []"

abbreviation am_pieces :: "am_rx_event list \<Rightarrow> (nat \<times> nat \<times> nat) list" where
  "am_pieces evs \<equiv> concat (map am_piece evs)"

text \<open>The later piece, a segment, contains the earlier one strictly inside.\<close>

definition engulfs :: "(nat \<Rightarrow> bytes) \<Rightarrow> nat \<times> nat \<times> nat \<Rightarrow> nat \<times> nat \<times> nat \<Rightarrow> bool" where
  "engulfs f late early =
     (case (late, early) of ((i, so, len), (j, so', len')) \<Rightarrow>
        i = j \<and> len \<noteq> length (f i) \<and> so < so' \<and> so' + len' < so + len)"

definition am_poll_ok :: "am_rx_event \<Rightarrow> bool" where
  "am_poll_ok e \<longleftrightarrow> (case e of Rx_pdu p _ _ _ \<Rightarrow> unat p < 2 | _ \<Rightarrow> True)"

text \<open>PDUs of the first \<open>n\<close> SDUs in any order, duplicated and with losses.\<close>

definition am_events_ok :: "(nat \<Rightarrow> bytes) \<Rightarrow> nat \<Rightarrow> am_rx_event list \<Rightarrow> bool" where
  "am_events_ok f n evs \<longleftrightarrow>
     (\<forall>e \<in> set evs. am_poll_ok e) \<and> (\<forall>(i, so, len) \<in> set (am_pieces evs). i < n \<and> piece_ok (f i) so len) \<and>
     sorted_wrt (\<lambda>early late. \<not> engulfs f late early) (am_pieces evs)"

lemma am_rx_inv_status:
  assumes "am_rx_inv f n0 v rx"
  shows "am_rx_inv f n0 v (rx\<lparr>status_prohibit_timer := t, do_status := b\<rparr>)"
proof -
  let ?r = "rx\<lparr>status_prohibit_timer := t, do_status := b\<rparr>"
  have "am_win ?r = am_win rx" by (rule am_win_cong) simp_all
  moreover have "rx_received ?r = rx_received rx" by (rule rx_received_cong) simp
  ultimately have "rx_window_inv v ?r = rx_window_inv v rx" "rx_delivered_inv f n0 v ?r = rx_delivered_inv f n0 v rx"
    by (simp_all add: rx_window_inv_def timer_inv_def rx_delivered_inv_def)
  moreover have "rx_stored_inv f v ?r = rx_stored_inv f v rx" "rx_arrived_inv f v ?r = rx_arrived_inv f v rx"
    by (simp_all add: rx_stored_inv_def rx_arrived_inv_def)
  ultimately show ?thesis using assms by (simp add: am_rx_inv_def)
qed

lemma am_rx_step_spec:
  assumes inv: "am_rx_inv f 0 v rx" and f: "\<And>i. am_sdu_ok (f i)" and n: "n \<le> rx_W rx" "vH v \<le> n"
    and e: "am_poll_ok e" "\<forall>(i, so, len) \<in> set (am_piece e). i < n \<and> piece_ok (f i) so len \<and>
       (\<forall>x \<in> vP v. \<not> engulfs f (i, so, len) x)"
  shows "\<exists>v' rx'. am_rx_step f e rx = Ret rx' \<and> am_rx_inv f 0 v' rx' \<and> vP v' = vP v \<union> set (am_piece e) \<and>
    vH v' \<le> n \<and> am_rx_cfg rx' = am_rx_cfg rx \<and> rx_W rx' = rx_W rx"
proof -
  note w = rx_window_invD [OF inv [unfolded am_rx_inv_def, THEN conjunct1]]
  have W: "rx_W rx' = rx_W rx" if "am_rx_inv f 0 v' rx'" "am_rx_cfg rx' = am_rx_cfg rx" for v' rx'
    using am_winD(1) [OF w(1)] that am_winD(1) [OF rx_window_invD(1) [OF that(1) [unfolded am_rx_inv_def, THEN conjunct1]]]
    by (auto simp: rx_cfg_sizes_def)
  show ?thesis
  proof (cases e)
    case (Rx_pdu p i so len)
    have "am_rx_admissible f v (rx_W rx) i so len"
      using e(2) n w(3,4) unfolding Rx_pdu am_rx_admissible_def engulfs_def by fastforce
    moreover have "unat p < 2" using e(1) Rx_pdu by (simp add: am_poll_ok_def)
    ultimately obtain v' rx' where
      "am_nr_rx_handle_data_pdu True True (rx_piece_pdu rx f p i so len) rx = Ret rx'" "am_rx_inv f 0 v' rx'"
      "vP v' = insert (i, so, len) (vP v)" "vH v' \<le> max (vH v) (Suc i)" "am_rx_cfg rx' = am_rx_cfg rx"
      using am_rx_data_step [OF inv f] by blast
    moreover have "max (vH v) (Suc i) \<le> n" using e(2) n(2) Rx_pdu by simp
    ultimately show ?thesis using W [of v' rx'] Rx_pdu e(2) n
      by (intro exI [of _ v'] exI [of _ rx']) (auto simp: am_rx_step_def)
  next
    case (Rx_expire t)
    show ?thesis
    proof (cases "t = Reassembly \<and> is_running (reassembly_timer rx)")
      case True
      then obtain S' rx' where "am_nr_rx_expire Reassembly rx = Ret rx'" "am_rx_inv f 0 (v\<lparr>vS := S'\<rparr>) rx'"
        "am_rx_cfg rx' = am_rx_cfg rx" "rx_W rx' = rx_W rx"
        using am_rx_expire_step [OF inv] by blast
      then show ?thesis using Rx_expire True n
        by (intro exI [of _ "v\<lparr>vS := S'\<rparr>"] exI [of _ rx']) (simp add: am_rx_step_def am_rx_timer_of_def)
    next
      case False
      have "rx\<lparr>status_prohibit_timer := t, do_status := do_status rx\<rparr> = rx\<lparr>status_prohibit_timer := t\<rparr>" for t
        by (cases rx) simp
      then have "am_rx_inv f 0 v (rx\<lparr>status_prohibit_timer := t\<rparr>)" for t
        using am_rx_inv_status [OF inv, of "do_status rx" t] by simp
      then show ?thesis using Rx_expire False n inv
        by (cases t) (auto simp: am_rx_step_def am_rx_timer_of_def am_nr_rx_expire_def am_nr_rx_timer_expired_def Let_def)
    qed
  next
    case (Rx_status m)
    have "am_rx_sn_field_length (am_rx_cfg rx) \<noteq> am_nulltype" using rx_cfg_sizesD(5) [OF am_winD(1) [OF w(1)]] .
    then obtain st where "rlc_am_nr_status_pdu (am_rx_sn_field_length (am_rx_cfg rx)) = Some st"
      by (cases "am_rx_sn_field_length (am_rx_cfg rx)") (auto simp: rlc_am_nr_status_pdu_def)
    then show ?thesis using Rx_status n inv get_status_pdu_spec [OF inv f, of m st] am_rx_inv_status [OF inv]
      by (auto simp: am_rx_step_def Let_def)
  qed
qed

lemma am_rx_run_spec:
  assumes "am_rx_inv f 0 v rx" and f: "\<And>i. am_sdu_ok (f i)" and "n \<le> rx_W rx" "vH v \<le> n"
    and "am_events_ok f n evs" "\<forall>x \<in> set (am_pieces evs). \<forall>y \<in> vP v. \<not> engulfs f x y"
  shows "\<exists>v' rx'. am_rx_run f evs rx = Ret rx' \<and> am_rx_inv f 0 v' rx' \<and> vP v' = vP v \<union> set (am_pieces evs) \<and>
    vH v' \<le> n \<and> am_rx_cfg rx' = am_rx_cfg rx"
  using assms(1,3-)
proof (induction evs arbitrary: v rx)
  case Nil
  then show ?case by auto
next
  case (Cons e evs)
  have ok: "am_poll_ok e" "am_events_ok f n evs" "\<forall>(i, so, len) \<in> set (am_piece e). i < n \<and> piece_ok (f i) so len"
    "\<forall>x \<in> set (am_piece e). \<forall>y \<in> set (am_pieces evs). \<not> engulfs f y x"
    using Cons.prems(4) by (auto simp: am_events_ok_def sorted_wrt_append)
  then have "\<forall>(i, so, len) \<in> set (am_piece e). i < n \<and> piece_ok (f i) so len \<and> (\<forall>x \<in> vP v. \<not> engulfs f (i, so, len) x)"
    using Cons.prems(5) by auto
  from am_rx_step_spec [OF Cons.prems(1) f Cons.prems(2,3) ok(1) this] obtain v' rx' where
    s: "am_rx_step f e rx = Ret rx'" "am_rx_inv f 0 v' rx'" "vP v' = vP v \<union> set (am_piece e)" "vH v' \<le> n"
    "am_rx_cfg rx' = am_rx_cfg rx" "rx_W rx' = rx_W rx" by blast
  have "\<forall>x \<in> set (am_pieces evs). \<forall>y \<in> vP v'. \<not> engulfs f x y"
    using Cons.prems(5) ok(4) s(3) by auto
  then obtain v'' rx'' where "am_rx_run f evs rx' = Ret rx''" "am_rx_inv f 0 v'' rx''"
    "vP v'' = vP v' \<union> set (am_pieces evs)" "vH v'' \<le> n" "am_rx_cfg rx'' = am_rx_cfg rx'"
    using Cons.IH [OF s(2) _ s(4) ok(2)] Cons.prems(2) s(6) by auto
  then show ?case using s by auto
qed

text \<open>The configured receiver.\<close>

lemma am_rx_inv_configure:
  assumes "am_nr_rx_configure cfg = Ret rx"
  shows "am_rx_inv f 0 \<lparr>vN = 0, vH = 0, vS = 0, vD = [], vP = {}\<rparr> rx" "am_rx_cfg rx = cfg" "2048 \<le> rx_W rx"
proof -
  have sz: "am_rx_sn_field_length cfg = am_size12bits \<or> am_rx_sn_field_length cfg = am_size18bits"
    using assms by (cases "am_rx_sn_field_length cfg") (auto simp: am_nr_rx_configure_def)
  then have r: "am_rx_cfg rx = cfg" "am_rx_window rx = static_circular_map (if am_rx_sn_field_length cfg = am_size12bits then 2048 else 131072)"
    "rx_mod_nr rx = (if am_rx_sn_field_length cfg = am_size12bits then 4096 else 262144)"
    "am_rx_next rx = 0" "rx_next_highest rx = 0" "rx_highest_status rx = 0" "am_to_pdcp rx = []"
    "\<not> is_running (reassembly_timer rx)"
    using assms by (auto simp: am_nr_rx_configure_def am_timer_0_def)
  have sn0: "am_sn_of m 0 = 0" for m by (simp add: am_sn_of_def)
  have "am_win rx 0 0"
    using r sz by (auto simp: am_win_def rx_cfg_sizes_def sn0 static_circular_map_def) (simp_all add: static_circular_map_def [symmetric])
  then show "am_rx_inv f 0 \<lparr>vN = 0, vH = 0, vS = 0, vD = [], vP = {}\<rparr> rx"
    using r sn0 by (simp add: am_rx_inv_def rx_window_inv_def timer_inv_def rx_stored_inv_def rx_delivered_inv_def
        rx_arrived_inv_def rx_received_def)
  show "am_rx_cfg rx = cfg" "2048 \<le> rx_W rx" using r(1,2) by (auto simp: static_circular_map_def)
qed

lemma am_rx_run_configured:
  assumes "am_nr_rx_configure cfg = Ret rx" "\<And>i. am_sdu_ok (f i)" "n \<le> rx_W rx" "am_events_ok f n evs"
  obtains v rx' where "am_rx_run f evs rx = Ret rx'" "am_rx_inv f 0 v rx'" "vP v = set (am_pieces evs)" "vH v \<le> n"
    "am_rx_cfg rx' = cfg"
  using am_rx_run_spec [OF am_rx_inv_configure(1) [OF assms(1)] assms(2,3) _ assms(4)] am_rx_inv_configure(2) [OF assms(1)]
  by auto

section \<open>Properties\<close>

text \<open>The stream that begins with the given SDUs.\<close>

definition am_stream :: "bytes list \<Rightarrow> nat \<Rightarrow> bytes" where
  "am_stream ds i = (if i < length ds then ds ! i else [0])"

lemma am_stream_ok: "\<forall>d \<in> set ds. am_sdu_ok d \<Longrightarrow> am_sdu_ok (am_stream ds i)"
  by (simp add: am_stream_def) (simp add: am_sdu_ok_def get_tailroom_def fresh_buffer_def buffer_sizes)

text \<open>
  The pieces of SDU \<open>i\<close> tell its bytes: they are pairwise equal or disjoint and every byte is in
  one, or one of them is the whole SDU.
\<close>

definition pieces_apart :: "(nat \<times> nat \<times> nat) list \<Rightarrow> nat \<Rightarrow> bool" where
  "pieces_apart ps i \<longleftrightarrow> (\<forall>(j, so, len) \<in> set ps. \<forall>(j', so', len') \<in> set ps. j = i \<and> j' = i \<longrightarrow>
     (so, len) = (so', len') \<or> so + len \<le> so' \<or> so' + len' \<le> so)"

definition pieces_cover :: "bytes \<Rightarrow> (nat \<times> nat \<times> nat) list \<Rightarrow> nat \<Rightarrow> bool" where
  "pieces_cover d ps i \<longleftrightarrow>
     (\<forall>b < length d. \<exists>(j, so, len) \<in> set ps. j = i \<and> so \<le> b \<and> b < so + len)"

lemma arrived_stored:
  assumes "am_rx_inv f n0 v rx" "(i, so, len) \<in> set ps" "vP v = set ps" "i \<notin> set (vD v)" "pieces_apart ps i"
  obtains s t where "vN v \<le> i" "i < vH v" "rx_entry rx i = Some s" "\<not> fully_received s" "t \<in> set (am_segments s)"
    "seg_start t = so" "seg_len t = len"
proof -
  have a: "rx_arrived_inv f v rx" "rx_stored_inv f v rx" "rx_delivered_inv f n0 v rx"
    using assms(1) by (simp_all add: am_rx_inv_def)
  from bspec [OF a(1) [unfolded rx_arrived_inv_def], of "(i, so, len)"] obtain s t where
    s: "vN v \<le> i" "i < vH v" "rx_entry rx i = Some s" "t \<in> set (am_segments s)" "meets so len t"
    using assms(2-4) by auto
  have nf: "\<not> fully_received s" using a(3) s(1-3) assms(4) by (auto simp: rx_delivered_inv_def rx_received_def)
  then have "(i, seg_start t, seg_len t) \<in> set ps" using a(2) s assms(3) by (auto simp: rx_stored_inv_def)
  then have "seg_start t = so \<and> seg_len t = len"
    using assms(2,5) s(5) by (fastforce simp: pieces_apart_def meets_def)
  then show thesis using that s nf by blast
qed

lemma complete_delivered:
  assumes inv: "am_rx_inv f n0 v rx" and f: "\<And>i. am_sdu_ok (f i)" and P: "vP v = set ps" "\<forall>(i, so, len) \<in> set ps. piece_ok (f i) so len"
    and c: "(\<exists>so. (i, so, length (f i)) \<in> set ps) \<or> pieces_apart ps i \<and> pieces_cover (f i) ps i"
  shows "i \<in> set (vD v)"
proof (rule ccontr)
  assume nd: "i \<notin> set (vD v)"
  show False
  proof (cases "\<exists>so. (i, so, length (f i)) \<in> set ps")
    case True
    then show False using inv nd P(1) by (fastforce simp: am_rx_inv_def rx_arrived_inv_def)
  next
    case False
    then have pa: "pieces_apart ps i" and pc: "pieces_cover (f i) ps i" using c by auto
    note d = am_sdu_len [OF f, of i]
    then obtain so len where "(i, so, len) \<in> set ps" using pc unfolding pieces_cover_def by fastforce
    from arrived_stored [OF inv this P(1) nd pa] obtain s where s: "vN v \<le> i" "i < vH v" "rx_entry rx i = Some s" "\<not> fully_received s"
      by blast
    have "stored_ok (f i) s" using inv s by (simp add: am_rx_inv_def rx_stored_inv_def)
    then have "segs_of (f i) (am_segments s)" "\<not> snd (segment_inventory 0 (am_segments s))" using s(4) by (auto simp: stored_ok_def)
    from segment_inventory_full(2) [OF this(1) _ _ this(2)] d obtain b where b: "b < length (f i)" "\<not> covers (am_segments s) b"
      by auto
    then obtain so len where p: "(i, so, len) \<in> set ps" "so \<le> b" "b < so + len" using pc unfolding pieces_cover_def by fastforce
    from arrived_stored [OF inv p(1) P(1) nd pa] obtain s' t where "rx_entry rx i = Some s'" "t \<in> set (am_segments s')"
      "seg_start t = so" "seg_len t = len" by blast
    then show False using b(2) p(2,3) s(3) by (auto simp: covers_def)
  qed
qed

text \<open>
  C1. Reassembly.  Starting from a configured receiver, PDUs of up to a window of SDUs arrive in
  any order, repeated or not, whole or in segments, interleaved with expiries of the timers and
  with status reports, where no segment contains an earlier piece strictly inside.  Then no
  assertion fails and nothing undefined happens; the SDUs handed to the PDCP are SDUs of which
  something arrived, unchanged, each at most once; and every SDU that arrived in one PDU, or in
  pieces that are pairwise equal or disjoint and cover it, has been handed over.
\<close>

theorem am_nr_rx_reassembles:
  assumes "am_nr_rx_configure cfg = Ret rx" "\<forall>d \<in> set ds. am_sdu_ok d" "length ds \<le> 2048"
    and "am_events_ok (am_stream ds) (length ds) evs"
  shows "\<exists>rx' D. am_rx_run (am_stream ds) evs rx = Ret rx' \<and> distinct D \<and>
    (\<forall>i \<in> set D. i < length ds \<and> i \<in> fst ` set (am_pieces evs)) \<and>
    map data (am_to_pdcp rx') = map (\<lambda>i. ds ! i) D \<and>
    (\<forall>i < length ds. (\<exists>so. (i, so, length (ds ! i)) \<in> set (am_pieces evs)) \<or>
       pieces_apart (am_pieces evs) i \<and> pieces_cover (ds ! i) (am_pieces evs) i \<longrightarrow> i \<in> set D)"
proof -
  have f: "am_sdu_ok (am_stream ds i)" for i using am_stream_ok [OF assms(2)] .
  have W: "length ds \<le> rx_W rx" using assms(3) am_rx_inv_configure(3) [OF assms(1)] by simp
  obtain v rx' where r: "am_rx_run (am_stream ds) evs rx = Ret rx'" "am_rx_inv (am_stream ds) 0 v rx'"
    "vP v = set (am_pieces evs)"
    using am_rx_run_configured [OF assms(1) f W assms(4)] by blast
  have pieces: "\<forall>(i, so, len) \<in> set (am_pieces evs). i < length ds \<and> piece_ok (am_stream ds i) so len"
    using assms(4) by (simp add: am_events_ok_def)
  have "rx_delivered_inv (am_stream ds) 0 v rx'" using r(2) by (simp add: am_rx_inv_def)
  then have del: "map data (am_to_pdcp rx') = map (am_stream ds) (vD v)" "distinct (vD v)" "set (vD v) \<subseteq> fst ` set (am_pieces evs)"
    unfolding rx_delivered_inv_def r(3) by blast+
  have len: "\<forall>i \<in> set (vD v). i < length ds \<and> i \<in> fst ` set (am_pieces evs)" using del(3) pieces by fastforce
  moreover have "map data (am_to_pdcp rx') = map (\<lambda>i. ds ! i) (vD v)" unfolding del(1) using len by (simp add: am_stream_def)
  moreover have "i \<in> set (vD v)" if "i < length ds" "(\<exists>so. (i, so, length (ds ! i)) \<in> set (am_pieces evs)) \<or>
       pieces_apart (am_pieces evs) i \<and> pieces_cover (ds ! i) (am_pieces evs) i" for i
  proof -
    have "\<forall>(i, so, len) \<in> set (am_pieces evs). piece_ok (am_stream ds i) so len" using pieces by blast
    moreover have "am_stream ds i = ds ! i" using that(1) by (simp add: am_stream_def)
    ultimately show ?thesis using complete_delivered [OF r(2) f r(3), of i] that(2) by simp
  qed
  ultimately show ?thesis using r(1) del(2) by blast
qed

definition demo_am_cfg :: rlc_am_nr_config where
  "demo_am_cfg = \<lparr>am_tx_sn_field_length = am_size12bits, am_rx_sn_field_length = am_size12bits,
     t_poll_retx = 65, t_reassembly = 40, t_status_prohibit = 20, max_retx_thresh = 4, poll_pdu = 4, poll_byte = 3000\<rparr>"

definition demo_am_rx :: rlc_am_nr_rx where
  "demo_am_rx = (case am_nr_rx_configure demo_am_cfg of Ret rx \<Rightarrow> rx)"

lemma demo_am_rx: "am_nr_rx_configure demo_am_cfg = Ret demo_am_rx"
  by (simp add: demo_am_rx_def am_nr_rx_configure_def demo_am_cfg_def)

text \<open>SDU 1 arrives before SDU 0, in two segments that are repeated; the timer expires in between.\<close>

definition demo_am_sdus :: "bytes list" where
  "demo_am_sdus = [[10, 11, 12], [20, 21, 22, 23]]"

definition demo_am_events :: "am_rx_event list" where
  "demo_am_events = [Rx_pdu 0 1 2 2, Rx_pdu 0 1 2 2, Rx_expire Reassembly, Rx_status 100, Rx_pdu 1 1 0 2, Rx_pdu 0 0 0 3]"

text \<open>Only the second half of SDU 1 arrives.\<close>

definition demo_am_lossy :: "am_rx_event list" where
  "demo_am_lossy = [Rx_pdu 0 1 2 2, Rx_expire Reassembly]"

lemma demo_am_events:
  "\<forall>d \<in> set demo_am_sdus. am_sdu_ok d" "am_events_ok (am_stream demo_am_sdus) (length demo_am_sdus) demo_am_events"
  by (simp_all add: demo_am_sdus_def demo_am_events_def am_sdu_ok_def get_tailroom_def fresh_buffer_def buffer_sizes
      am_events_ok_def am_poll_ok_def piece_ok_def am_stream_def engulfs_def)

theorem am_nr_rx_reassembles_witness:
  "\<exists>rx' D. am_rx_run (am_stream demo_am_sdus) demo_am_events demo_am_rx = Ret rx' \<and> distinct D \<and> set D = {0, 1} \<and>
     map data (am_to_pdcp rx') = map (\<lambda>i. demo_am_sdus ! i) D"
proof -
  have l: "length demo_am_sdus \<le> 2048" by (simp add: demo_am_sdus_def)
  from am_nr_rx_reassembles [OF demo_am_rx demo_am_events(1) l demo_am_events(2)] obtain rx' D where
    r: "am_rx_run (am_stream demo_am_sdus) demo_am_events demo_am_rx = Ret rx'" "distinct D" "\<forall>i \<in> set D. i < length demo_am_sdus"
    "map data (am_to_pdcp rx') = map (\<lambda>i. demo_am_sdus ! i) D"
    "\<forall>i < length demo_am_sdus. (\<exists>so. (i, so, length (demo_am_sdus ! i)) \<in> set (am_pieces demo_am_events)) \<or>
       pieces_apart (am_pieces demo_am_events) i \<and> pieces_cover (demo_am_sdus ! i) (am_pieces demo_am_events) i \<longrightarrow> i \<in> set D"
    by blast
  have "pieces_apart (am_pieces demo_am_events) 1 \<and> pieces_cover (demo_am_sdus ! 1) (am_pieces demo_am_events) 1"
    by (auto simp: pieces_apart_def pieces_cover_def demo_am_events_def demo_am_sdus_def)
  moreover have "(0, 0, length (demo_am_sdus ! 0)) \<in> set (am_pieces demo_am_events)"
    by (simp add: demo_am_events_def demo_am_sdus_def)
  ultimately have "0 \<in> set D" "1 \<in> set D" using r(5) by (auto simp: demo_am_sdus_def)
  moreover have "set D \<subseteq> {0, 1}" using r(3) by (auto simp: demo_am_sdus_def)
  ultimately show ?thesis using r by blast
qed

section \<open>What a status report tells\<close>

lemma seg_gaps_cover:
  assumes "segs_of d ss" "\<forall>s \<in> set ss. p \<le> seg_start s" "p \<le> b"
  shows "(\<exists>g \<in> set (seg_gaps p ss). fst g \<le> b \<and> b \<le> snd g) \<longleftrightarrow>
    \<not> covers ss b \<and> ss \<noteq> [] \<and> b < seg_end (last ss)"
  using assms
proof (induction ss arbitrary: p)
  case Nil
  then show ?case by simp
next
  case (Cons s ss)
  note s = Cons.prems(1) [unfolded segs_of_Cons]
  have len: "0 < seg_len s" using s by (auto simp: seg_of_def)
  have last: "ss \<noteq> [] \<Longrightarrow> seg_end s \<le> seg_start (last ss)" using s by simp
  have cov: "b < seg_end s \<Longrightarrow> \<not> covers ss b" using s by (fastforce simp: covers_def)
  have cons: "covers (s # ss) b \<longleftrightarrow> seg_start s \<le> b \<and> b < seg_end s \<or> covers ss b" by (auto simp: covers_def)
  have lo: "g \<in> set (seg_gaps (seg_end s) ss) \<Longrightarrow> seg_end s \<le> fst g" for g
  proof -
    have "\<forall>t \<in> set ts. q \<le> seg_start t \<Longrightarrow> segs_of d ts \<Longrightarrow> g \<in> set (seg_gaps q ts) \<Longrightarrow> q \<le> fst g" for q ts
    proof (induction ts arbitrary: q)
      case (Cons t ts)
      show ?case using Cons.prems Cons.IH [of "seg_end t"] by (fastforce simp: segs_of_Cons split: if_splits)
    qed simp
    then show "g \<in> set (seg_gaps (seg_end s) ss) \<Longrightarrow> seg_end s \<le> fst g" using s by blast
  qed
  show ?case
  proof (cases "b < seg_end s")
    case True
    then have "\<not> (\<exists>g \<in> set (seg_gaps (seg_end s) ss). fst g \<le> b \<and> b \<le> snd g)" using lo by fastforce
    moreover have "b < seg_end (last (s # ss))" using True last by (cases "ss = []") auto
    ultimately show ?thesis using True cov cons Cons.prems(2,3) by auto
  next
    case False
    then have "(\<exists>g \<in> set (seg_gaps (seg_end s) ss). fst g \<le> b \<and> b \<le> snd g) \<longleftrightarrow>
        \<not> covers ss b \<and> ss \<noteq> [] \<and> b < seg_end (last ss)" using Cons.IH [of "seg_end s"] s by auto
    then show ?thesis using False cons len by auto
  qed
qed

lemma seg_gaps_bound:
  assumes "segs_of d ss" "\<forall>s \<in> set ss. p \<le> seg_start s" "g \<in> set (seg_gaps p ss)"
  shows "fst g < length d \<and> snd g < length d"
  using assms
proof (induction ss arbitrary: p)
  case (Cons s ss)
  have "seg_start s < length d" "p \<le> seg_start s" using Cons.prems by (auto simp: segs_of_Cons seg_of_def)
  then show ?case using Cons.IH [of "seg_end s"] Cons.prems by (auto simp: segs_of_Cons split: if_splits)
qed simp

lemma segs_of_last:
  assumes "segs_of d ss" "t \<in> set ss"
  shows "seg_end t \<le> seg_end (last ss)" "seg_end (last ss) \<le> length d"
proof -
  obtain ys y where y: "ss = ys @ [y]" using assms(2) by (cases ss rule: rev_cases) auto
  have "t \<in> set ys \<Longrightarrow> seg_end t \<le> seg_start y" using assms(1) y by (simp add: segs_of_def sorted_wrt_append)
  then show "seg_end t \<le> seg_end (last ss)" using assms(2) y by auto
  show "seg_end (last ss) \<le> length d" using assms(1) y by (simp add: segs_of_def seg_of_def)
qed

lemma length_seg_gaps: "length (seg_gaps p ss) \<le> length ss"
  by (induction ss arbitrary: p) (auto simp: le_SucI)

text \<open>The bytes of an SDU that the ranges of \<open>rx_missing\<close> contain are those not stored.\<close>

definition in_ranges :: "nat \<Rightarrow> (u16 \<times> u16) list \<Rightarrow> bool" where
  "in_ranges b rs \<longleftrightarrow> (\<exists>(a, e) \<in> set rs. unat a \<le> b \<and> b \<le> unat e)"

lemma rx_missing_bytes:
  assumes "case cm_at (am_rx_window rx) sn of None \<Rightarrow> True | Some s \<Rightarrow> stored_ok d s" "length d < 2 ^ 16" "b < length d"
  shows "in_ranges b (rx_missing rx sn) \<longleftrightarrow>
    (case cm_at (am_rx_window rx) sn of None \<Rightarrow> True | Some s \<Rightarrow> \<not> fully_received s \<and> \<not> covers (am_segments s) b)"
proof -
  have w: "unat (of_nat k :: u16) = k" if "k < 2 ^ 16" for k
    using that by (simp add: unsigned_of_nat take_bit_nat_eq_self)
  have full: "b \<le> unat so_end_of_sdu" using assms(2,3) by (simp add: so_end_of_sdu_def)
  show ?thesis
  proof (cases "cm_at (am_rx_window rx) sn")
    case None
    then show ?thesis using full by (simp add: rx_missing_def in_ranges_def)
  next
    case (Some s)
    let ?ss = "am_segments s"
    show ?thesis
    proof (cases "fully_received s")
      case True
      then show ?thesis using Some by (simp add: rx_missing_def in_ranges_def)
    next
      case False
      then have so: "segs_of d ?ss" using assms(1) Some by (simp add: stored_ok_def)
      have gaps: "in_ranges b (map (\<lambda>g. (of_nat (fst g), of_nat (snd g))) (seg_gaps 0 ?ss)) \<longleftrightarrow>
          \<not> covers ?ss b \<and> ?ss \<noteq> [] \<and> b < seg_end (last ?ss)"
      proof -
        have "unat (of_nat (fst g) :: u16) = fst g \<and> unat (of_nat (snd g) :: u16) = snd g"
          if "g \<in> set (seg_gaps 0 ?ss)" for g
          using seg_gaps_bound [OF so _ that] assms(2) by (auto intro!: w)
        then show ?thesis using seg_gaps_cover [OF so, of 0 b] by (auto simp: in_ranges_def)
      qed
      have app: "in_ranges b (xs @ ys) \<longleftrightarrow> in_ranges b xs \<or> in_ranges b ys" for xs ys by (auto simp: in_ranges_def)
      have less: "covers ?ss b \<Longrightarrow> b < seg_end (last ?ss)" using segs_of_last [OF so] by (fastforce simp: covers_def)
      show ?thesis
      proof (cases "\<exists>t \<in> set ?ss. am_si (seg_header t) = last_segment")
        case True
        then obtain t where t: "t \<in> set ?ss" "am_si (seg_header t) = last_segment" by blast
        then have "seg_end t = length d" using so by (simp add: segs_of_def seg_of_def)
        then have "b < seg_end (last ?ss)" "?ss \<noteq> []" using segs_of_last [OF so t(1)] t(1) assms(3) by auto
        then show ?thesis using Some False True gaps by (simp add: rx_missing_def)
      next
        case nl: False
        have tail: "in_ranges b [(if ?ss = [] then 0 else of_nat (seg_end (last ?ss)), so_end_of_sdu)] \<longleftrightarrow>
            ?ss = [] \<or> seg_end (last ?ss) \<le> b"
        proof (cases "?ss = []")
          case f: False
          then have "seg_end (last ?ss) < 2 ^ 16" using segs_of_last(2) [OF so last_in_set] assms(2) by simp
          from w [OF this] show ?thesis using f full by (simp del: of_nat_add add: in_ranges_def)
        qed (use full in \<open>simp add: in_ranges_def\<close>)
        have eq: "rx_missing rx sn = map (\<lambda>g. (of_nat (fst g), of_nat (snd g))) (seg_gaps 0 ?ss)
            @ [(if ?ss = [] then 0 else of_nat (seg_end (last ?ss)), so_end_of_sdu)]"
          using Some False nl by (simp add: rx_missing_def)
        have "?ss = [] \<Longrightarrow> \<not> covers ?ss b" by (simp add: covers_def)
        then have "in_ranges b (rx_missing rx sn) \<longleftrightarrow> \<not> covers ?ss b"
          unfolding eq app tail gaps using less by linarith
        then show ?thesis using Some False by simp
      qed
    qed
  qed
qed

text \<open>The reports of a status PDU by SDU.\<close>

definition reported :: "rlc_am_nr_status_pdu \<Rightarrow> u32 \<Rightarrow> nat \<Rightarrow> bool" where
  "reported st sn b \<longleftrightarrow> (\<exists>(n, a, e) \<in> set (st_missing st). n = sn \<and> unat a \<le> b \<and> b \<le> unat e)"

lemma missing_nacks_missing:
  assumes "sn mod m = sn"
  shows "concat (map (missing m) (missing_nacks rx sn)) = map (\<lambda>r. (sn, r)) (rx_missing rx sn)"
    "n \<in> set (missing_nacks rx sn) \<Longrightarrow> nack_count n = 1"
    "length (missing_nacks rx sn) = length (rx_missing rx sn)"
proof -
  have "missing m (nack_of sn r) = [(sn, r)]" for r
    using assms by (simp add: missing_def missing_sdu_def nack_of_def nack_count_def first_byte_def last_byte_def
        rlc_status_nack_def)
  moreover have "missing m (rlc_status_nack\<lparr>nack_sn := sn, has_so := False\<rparr>) = [(sn, 0, so_end_of_sdu)]"
    using assms by (simp add: missing_def missing_sdu_def nack_count_def first_byte_def last_byte_def rlc_status_nack_def)
  moreover have "concat (map (\<lambda>r. [(sn, r)]) rs) = map (\<lambda>r. (sn, r)) rs" for rs :: "(u16 \<times> u16) list"
    by (induction rs) simp_all
  ultimately show "concat (map (missing m) (missing_nacks rx sn)) = map (\<lambda>r. (sn, r)) (rx_missing rx sn)"
    by (simp add: missing_nacks_def rx_missing_def comp_def split: option.split)
  show "n \<in> set (missing_nacks rx sn) \<Longrightarrow> nack_count n = 1"
    by (auto simp: missing_nacks_def nack_of_def nack_count_def rlc_status_nack_def split: option.splits)
  show "length (missing_nacks rx sn) = length (rx_missing rx sn)"
    by (simp add: missing_nacks_def rx_missing_def split: option.split)
qed

lemma packed_size_push_all:
  assumes "sized st"
  shows "packed_size (push_all ns st) \<le> 3 + 8 * (length (nacks st) + length ns)"
proof -
  have sz: "sized (push_all ns st)" using assms by (induction ns arbitrary: st) (simp_all add: sized_push)
  have len: "length (nacks (push_all ns st)) \<le> length (nacks st) + length ns"
  proof (induction ns arbitrary: st)
    case (Cons n ns)
    have "length (nacks (push_nack n st)) \<le> length (nacks st) + 1" by (auto simp: push_nack_def Let_def)
    then show ?case using Cons [of "push_nack n st"] by simp
  qed simp
  have "nack_size s n \<le> 8" for s n by (simp add: nack_size_def sizeof_defs)
  then have "sum_list (map (nack_size s) xs) \<le> 8 * length xs" for s xs
    by (induction xs) (simp_all add: add_mono)
  then have "nacks_size (push_all ns st) \<le> 8 * length (nacks (push_all ns st))" by (simp add: nacks_size_def)
  then show ?thesis using sz len by (simp add: sized_def sizeof_header_ack_sn_def)
qed

lemma concat_map_concat: "concat (map g (concat (map f xs))) = concat (map (\<lambda>x. concat (map g (f x))) xs)"
  by (induction xs) simp_all

lemma get_status_pdu_missing:
  assumes inv: "am_rx_inv f n0 v rx" and f: "\<And>i. am_sdu_ok (f i)"
    and st: "rlc_am_nr_status_pdu (am_rx_sn_field_length (am_rx_cfg rx)) = Some st0"
    and cnt: "sum_list (map (\<lambda>k. length (rx_missing rx (rx_sn rx k))) [vN v..<vS v]) < 256" and len: "2048 \<le> unat max_len"
  obtains n st rx' where "get_status_pdu True max_len st0 rx = Ret (n, st, rx')" "ack_sn st = rx_sn rx (vS v)"
    "st_missing st = concat (map (\<lambda>k. map (\<lambda>r. (rx_sn rx k, r)) (rx_missing rx (rx_sn rx k))) [vN v..<vS v])"
proof -
  note w = rx_window_invD [OF inv [unfolded am_rx_inv_def, THEN conjunct1]]
  let ?ns = "concat (map (\<lambda>k. missing_nacks rx (rx_sn rx k)) [vN v..<vS v])"
  let ?full = "(push_all ?ns (status_reset st0))\<lparr>ack_sn := rx_sn rx (vS v)\<rparr>"
  have m: "mod_nr st0 = rx_mod_nr rx" "am_modulus (rx_mod_nr rx)"
    using st am_winD(1) [OF w(1)] am_win_cfg(1) [OF w(1)] by (auto simp: rlc_am_nr_status_pdu_def rx_cfg_sizes_def)
  note mn = missing_nacks_missing [OF am_sn_of_mod [OF m(2)], where rx = rx]
  have one: "\<forall>n \<in> set ?ns. nack_count n = 1" using mn(2) by auto
  have ns: "length ?ns < 256" using cnt by (simp add: length_concat comp_def mn(3))
  have "sum_list (map nack_count ns) = length ns" if "\<forall>n \<in> set ns. nack_count n = 1" for ns
    using that by (induction ns) simp_all
  then have "st_missing (push_all ?ns (status_reset st0)) = concat (map (missing (rx_mod_nr rx)) ?ns)"
    using foldl_push_missing [of "status_reset st0" ?ns] m one ns
    by (simp add: status_reset_def st_missing_def)
  also have "\<dots> = concat (map (\<lambda>k. map (\<lambda>r. (rx_sn rx k, r)) (rx_missing rx (rx_sn rx k))) [vN v..<vS v])"
    by (simp add: concat_map_concat mn(1))
  finally have mis: "st_missing ?full = \<dots>" by (simp add: st_missing_def)
  have "packed_size ?full \<le> 3 + 8 * length ?ns"
    using packed_size_push_all [OF sized_reset, of st0 ?ns] by (simp add: status_reset_def)
  then have "\<not> unat max_len < packed_size ?full" using ns len by simp
  then show thesis using get_status_pdu_spec [OF inv f, of max_len st0] mis that by simp
qed

lemma segs_of_distinct: "segs_of d ss \<Longrightarrow> distinct (map (\<lambda>t. (k :: nat, seg_start t, seg_len t)) ss)"
proof (induction ss)
  case (Cons s ss)
  have "0 < seg_len s" "\<forall>t \<in> set ss. seg_end s \<le> seg_start t" "segs_of d ss"
    using Cons.prems by (auto simp: segs_of_Cons seg_of_def)
  then show ?case using Cons.IH by fastforce
qed simp

lemma rx_missing_count:
  assumes inv: "am_rx_inv f n0 v rx" and P: "finite (vP v)"
  shows "sum_list (map (\<lambda>k. length (rx_missing rx (rx_sn rx k))) [vN v..<vS v]) \<le> (vS v - vN v) + card (vP v)"
proof -
  have st: "rx_stored_inv f v rx" and le: "vS v \<le> vH v" using inv by (simp_all add: am_rx_inv_def rx_window_inv_def)
  define g where "g k = (case rx_entry rx k of None \<Rightarrow> {} | Some s \<Rightarrow> if fully_received s then {}
      else set (map (\<lambda>t. (k, seg_start t, seg_len t)) (am_segments s)))" for k
  have g: "length (rx_missing rx (rx_sn rx k)) \<le> 1 + card (g k)" "g k \<subseteq> vP v" if "k \<in> {vN v..<vS v}" for k
  proof -
    have k: "vN v \<le> k" "k < vH v" using that le by auto
    show "g k \<subseteq> vP v" using st k by (auto simp: g_def rx_stored_inv_def split: option.split)
    show "length (rx_missing rx (rx_sn rx k)) \<le> 1 + card (g k)"
    proof (cases "rx_entry rx k")
      case (Some s)
      have "\<not> fully_received s \<Longrightarrow> segs_of (f k) (am_segments s)" using st k Some by (auto simp: rx_stored_inv_def stored_ok_def)
      then have "\<not> fully_received s \<Longrightarrow> card (g k) = length (am_segments s)"
        using Some distinct_card [OF segs_of_distinct] by (simp add: g_def)
      then show ?thesis using Some length_seg_gaps [of 0 "am_segments s"] by (simp add: rx_missing_def)
    qed (simp add: rx_missing_def)
  qed
  have fin: "finite (g k)" for k by (simp add: g_def split: option.split)
  have "sum_list (map (\<lambda>k. length (rx_missing rx (rx_sn rx k))) [vN v..<vS v]) =
      (\<Sum>k \<in> {vN v..<vS v}. length (rx_missing rx (rx_sn rx k)))"
    by (simp add: sum_list_distinct_conv_sum_set)
  also have "\<dots> \<le> (\<Sum>k \<in> {vN v..<vS v}. 1 + card (g k))" by (rule sum_mono) (rule g(1))
  also have "\<dots> = (vS v - vN v) + (\<Sum>k \<in> {vN v..<vS v}. card (g k))" by (simp only: sum.distrib) simp
  also have "(\<Sum>k \<in> {vN v..<vS v}. card (g k)) = card (\<Union>k \<in> {vN v..<vS v}. g k)"
    using fin by (intro card_UN_disjoint [symmetric]) (auto simp: g_def split: option.splits if_splits)
  also have "card (\<Union>k \<in> {vN v..<vS v}. g k) \<le> card (vP v)" by (rule card_mono [OF P]) (use g(2) in blast)
  finally show ?thesis by simp
qed

definition arrived :: "(nat \<times> nat \<times> nat) list \<Rightarrow> nat \<Rightarrow> nat \<Rightarrow> bool" where
  "arrived ps i b \<longleftrightarrow> (\<exists>(j, so, len) \<in> set ps. j = i \<and> so \<le> b \<and> b < so + len)"

lemma reported_iff:
  assumes inv: "am_rx_inv f 0 v rx" and n: "vH v \<le> n" "n \<le> rx_W rx"
    and st: "st_missing st = concat (map (\<lambda>k. map (\<lambda>r. (rx_sn rx k, r)) (rx_missing rx (rx_sn rx k))) [vN v..<vS v])"
    and i: "i < n"
  shows "reported st (rx_sn rx i) b \<longleftrightarrow> vN v \<le> i \<and> i < vS v \<and> in_ranges b (rx_missing rx (rx_sn rx i))"
proof -
  note w = rx_window_invD [OF inv [unfolded am_rx_inv_def, THEN conjunct1]]
  have W: "am_modulus (rx_mod_nr rx)" "unat (rx_mod_nr rx) = 2 * rx_W rx" using am_win_cfg(1,2) [OF w(1)] .
  have "rx_sn rx k = rx_sn rx i \<longleftrightarrow> k = i" if "k < vS v" for k
    using am_sn_of_inj [OF W(1), of k i 0] that w(4) n i W(2) by auto
  then show ?thesis unfolding reported_def st by (fastforce simp: in_ranges_def)
qed

text \<open>
  C5. A status report tells the truth.  After any run as in the reassembly property that involves
  few enough SDUs and PDUs for the report to be neither trimmed nor merged beyond a range's eight
  bits, the acknowledged number \<open>S\<close> is at most the number of SDUs; of an SDU below \<open>S\<close> that was
  handed to the PDCP nothing is reported, of one that was not every byte that never arrived is,
  and no byte of it that did, when its pieces are pairwise equal or disjoint; above \<open>S\<close> nothing
  is reported.
\<close>

theorem am_nr_status_truth:
  assumes "am_nr_rx_configure cfg = Ret rx" "\<forall>d \<in> set ds. am_sdu_ok d" "length ds + length (am_pieces evs) < 256"
    and "am_events_ok (am_stream ds) (length ds) evs"
    and "rlc_am_nr_status_pdu (am_rx_sn_field_length cfg) = Some st0" "2048 \<le> unat max_len"
  shows "\<exists>rx' n st rx'' S D. am_rx_run (am_stream ds) evs rx = Ret rx' \<and>
    get_status_pdu True max_len st0 rx' = Ret (n, st, rx'') \<and>
    map data (am_to_pdcp rx') = map (\<lambda>i. ds ! i) D \<and> ack_sn st = of_nat S \<and> S \<le> length ds \<and>
    (\<forall>i < length ds. \<forall>b < length (ds ! i).
       (i \<in> set D \<or> S \<le> i \<longrightarrow> \<not> reported st (of_nat i) b) \<and>
       (i \<notin> set D \<and> i < S \<and> \<not> arrived (am_pieces evs) i b \<longrightarrow> reported st (of_nat i) b) \<and>
       (i \<notin> set D \<and> arrived (am_pieces evs) i b \<and> pieces_apart (am_pieces evs) i \<longrightarrow> \<not> reported st (of_nat i) b))"
proof -
  have f: "am_sdu_ok (am_stream ds i)" for i using am_stream_ok [OF assms(2)] .
  have W: "length ds \<le> rx_W rx" using assms(3) am_rx_inv_configure(3) [OF assms(1)] by simp
  obtain v rx' where r: "am_rx_run (am_stream ds) evs rx = Ret rx'" "am_rx_inv (am_stream ds) 0 v rx'"
    "vP v = set (am_pieces evs)" "vH v \<le> length ds" "am_rx_cfg rx' = cfg"
    using am_rx_run_configured [OF assms(1) f W assms(4)] by blast
  note w = rx_window_invD [OF r(2) [unfolded am_rx_inv_def, THEN conjunct1]]
  have W': "length ds \<le> rx_W rx'" using assms(3) am_win_cfg(3) [OF w(1)] by simp
  have del: "rx_delivered_inv (am_stream ds) 0 v rx'" using r(2) by (simp add: am_rx_inv_def)
  have sn: "rx_sn rx' i = of_nat i" if "i \<le> length ds" for i
    using that W' am_win_cfg(2,3) [OF w(1)] by (simp add: am_sn_of_def)
  have "sum_list (map (\<lambda>k. length (rx_missing rx' (rx_sn rx' k))) [vN v..<vS v]) \<le> (vS v - vN v) + card (vP v)"
    by (rule rx_missing_count [OF r(2)]) (simp add: r(3))
  also have "\<dots> < 256" using assms(3) w(4) r(4) card_length [of "am_pieces evs"] unfolding r(3) by linarith
  finally have cnt: "sum_list (map (\<lambda>k. length (rx_missing rx' (rx_sn rx' k))) [vN v..<vS v]) < 256" .
  obtain n st rx'' where g: "get_status_pdu True max_len st0 rx' = Ret (n, st, rx'')" "ack_sn st = rx_sn rx' (vS v)"
    "st_missing st = concat (map (\<lambda>k. map (\<lambda>r. (rx_sn rx' k, r)) (rx_missing rx' (rx_sn rx' k))) [vN v..<vS v])"
    using get_status_pdu_missing [OF r(2) f _ cnt assms(6), of st0] assms(5) r(5) by auto
  have rep: "reported st (of_nat i) b \<longleftrightarrow> i \<notin> set (vD v) \<and> i < vS v \<and>
      (case rx_entry rx' i of None \<Rightarrow> True | Some s \<Rightarrow> \<not> covers (am_segments s) b)"
    if i: "i < length ds" "b < length (ds ! i)" for i b
  proof -
    have s: "am_stream ds i = ds ! i" "length (ds ! i) < 2 ^ 16" using i(1) am_sdu_len [OF f, of i] by (auto simp: am_stream_def)
    have "reported st (of_nat i) b \<longleftrightarrow> vN v \<le> i \<and> i < vS v \<and> in_ranges b (rx_missing rx' (rx_sn rx' i))"
      using reported_iff [OF r(2,4) W' g(3) i(1)] sn [of i] i(1) by simp
    also have "\<dots> \<longleftrightarrow> vN v \<le> i \<and> i < vS v \<and> (case rx_entry rx' i of None \<Rightarrow> True | Some s \<Rightarrow> \<not> fully_received s \<and> \<not> covers (am_segments s) b)"
      using rx_missing_bytes [OF am_rx_inv_entry [OF r(2)], of i b] s i w(4) by auto
    also have "\<dots> \<longleftrightarrow> i \<notin> set (vD v) \<and> i < vS v \<and> (case rx_entry rx' i of None \<Rightarrow> True | Some s \<Rightarrow> \<not> covers (am_segments s) b)"
      using del w(4) by (auto simp: rx_delivered_inv_def rx_received_def split: option.splits)
    finally show ?thesis .
  qed
  have "set (vD v) \<subseteq> fst ` set (am_pieces evs)" "map data (am_to_pdcp rx') = map (am_stream ds) (vD v)"
    using del unfolding rx_delivered_inv_def r(3) by blast+
  moreover have "\<forall>i \<in> fst ` set (am_pieces evs). i < length ds" using assms(4) by (force simp: am_events_ok_def)
  ultimately have out: "map data (am_to_pdcp rx') = map (\<lambda>i. ds ! i) (vD v)" by (auto simp: am_stream_def)
  have "(i \<in> set (vD v) \<or> vS v \<le> i \<longrightarrow> \<not> reported st (of_nat i) b) \<and>
       (i \<notin> set (vD v) \<and> i < vS v \<and> \<not> arrived (am_pieces evs) i b \<longrightarrow> reported st (of_nat i) b) \<and>
       (i \<notin> set (vD v) \<and> arrived (am_pieces evs) i b \<and> pieces_apart (am_pieces evs) i \<longrightarrow> \<not> reported st (of_nat i) b)"
    if i: "i < length ds" "b < length (ds ! i)" for i b
  proof (intro conjI impI)
    show "i \<in> set (vD v) \<or> vS v \<le> i \<Longrightarrow> \<not> reported st (of_nat i) b" using rep [OF i] by auto
  next
    assume a: "i \<notin> set (vD v) \<and> i < vS v \<and> \<not> arrived (am_pieces evs) i b"
    have "\<not> covers (am_segments s) b" if "rx_entry rx' i = Some s" for s
    proof
      assume "covers (am_segments s) b"
      then obtain t where t: "t \<in> set (am_segments s)" "seg_start t \<le> b" "b < seg_end t" by (auto simp: covers_def)
      have "vN v \<le> i" "\<not> fully_received s" using del a w(4) that by (auto simp: rx_delivered_inv_def rx_received_def)
      then have "(i, seg_start t, seg_len t) \<in> set (am_pieces evs)"
        using r(2,3) a w(4) that t(1) by (auto simp: am_rx_inv_def rx_stored_inv_def)
      then show False using a t by (auto simp: arrived_def)
    qed
    then show "reported st (of_nat i) b" using rep [OF i] a by (auto split: option.split)
  next
    assume a: "i \<notin> set (vD v) \<and> arrived (am_pieces evs) i b \<and> pieces_apart (am_pieces evs) i"
    then obtain so len where p: "(i, so, len) \<in> set (am_pieces evs)" "so \<le> b" "b < so + len" by (auto simp: arrived_def)
    from arrived_stored [OF r(2) p(1) r(3)] a obtain s t where "rx_entry rx' i = Some s" "t \<in> set (am_segments s)"
      "seg_start t = so" "seg_len t = len" by blast
    then show "\<not> reported st (of_nat i) b" using rep [OF i] p by (auto simp: covers_def)
  qed
  moreover have "vS v \<le> length ds" using w(4) r(4) by simp
  ultimately show ?thesis using r(1) g(1,2) out sn [of "vS v"] by auto
qed

theorem am_nr_status_truth_witness:
  "\<exists>rx' n st rx'' S D. am_rx_run (am_stream demo_am_sdus) demo_am_lossy demo_am_rx = Ret rx' \<and>
     get_status_pdu True 2048 example_status rx' = Ret (n, st, rx'') \<and>
     map data (am_to_pdcp rx') = map (\<lambda>i. demo_am_sdus ! i) D \<and> ack_sn st = of_nat S \<and> S \<in> {0, 1, 2} \<and>
     (1 \<in> set D \<or> S \<in> {0, 1} \<or> {b \<in> {..<4}. reported st 1 b} = {0, 1})"
proof -
  let ?f = "am_stream demo_am_sdus" and ?ps = "am_pieces demo_am_lossy"
  have ok: "am_events_ok ?f (length demo_am_sdus) demo_am_lossy" "length demo_am_sdus + length ?ps < 256"
    by (simp_all add: demo_am_sdus_def demo_am_lossy_def am_events_ok_def am_poll_ok_def piece_ok_def am_stream_def engulfs_def)
  have sz: "rlc_am_nr_status_pdu (am_rx_sn_field_length demo_am_cfg) = Some example_status" "2048 \<le> unat (2048 :: u32)"
    using example_status by (simp_all add: demo_am_cfg_def)
  from am_nr_status_truth [OF demo_am_rx demo_am_events(1) ok(2,1) sz] obtain rx' n st rx'' S D where
    r: "am_rx_run ?f demo_am_lossy demo_am_rx = Ret rx'" "get_status_pdu True 2048 example_status rx' = Ret (n, st, rx'')"
    "map data (am_to_pdcp rx') = map (\<lambda>i. demo_am_sdus ! i) D" "ack_sn st = of_nat S" "S \<le> length demo_am_sdus"
    "\<forall>i < length demo_am_sdus. \<forall>b < length (demo_am_sdus ! i).
       (i \<in> set D \<or> S \<le> i \<longrightarrow> \<not> reported st (of_nat i) b) \<and>
       (i \<notin> set D \<and> i < S \<and> \<not> arrived ?ps i b \<longrightarrow> reported st (of_nat i) b) \<and>
       (i \<notin> set D \<and> arrived ?ps i b \<and> pieces_apart ?ps i \<longrightarrow> \<not> reported st (of_nat i) b)"
    by (elim exE conjE) (rule that)
  have one: "1 < length demo_am_sdus" "length (demo_am_sdus ! 1) = 4" by (simp_all add: demo_am_sdus_def)
  have a: "arrived ?ps 1 b \<longleftrightarrow> 2 \<le> b \<and> b < 4" for b by (auto simp: arrived_def demo_am_lossy_def)
  have "pieces_apart ?ps 1" by (simp add: pieces_apart_def demo_am_lossy_def)
  then have e: "{b \<in> {..<4}. reported st 1 b} = {0, 1}" if "1 \<notin> set D" "1 < S"
    using r(6) [rule_format, OF one(1)] that unfolding a one(2) by fastforce
  have s: "S \<in> {0, 1, 2}" using r(5) by (auto simp: demo_am_sdus_def)
  then have d: "1 \<in> set D \<or> S \<in> {0, 1} \<or> {b \<in> {..<4}. reported st 1 b} = {0, 1}"
    by (cases "1 \<in> set D"; cases "1 < S") (simp_all only: e simp_thms, auto)
  show ?thesis by (intro exI conjI) (rule r(1-4) s d)+
qed

text \<open>
  C11. The invariant of the receiver, for streams of any length.  A PDU of SDU \<open>i\<close> arrives, where
  \<open>i\<close> is at most a window ahead of or behind the first SDU that is missing and the segment does
  not contain an earlier piece strictly inside.  Then the handler returns and the invariant holds
  for what has arrived now: the state variables are in order and within the window, what is
  stored are pieces of the SDUs that arrived, an SDU is marked as received exactly when it was
  handed over, and everything that arrived is handed over or stored.
\<close>

theorem am_nr_rx_keeps_invariant:
  assumes "am_rx_inv f n0 v rx" "\<And>i. am_sdu_ok (f i)" "unat p < 2" "n0 \<le> i"
    and "am_rx_admissible f v (rx_W rx) i so len"
  shows "\<exists>v' rx'. am_nr_rx_handle_data_pdu True True (rx_piece_pdu rx f p i so len) rx = Ret rx' \<and>
    am_rx_inv f n0 v' rx' \<and> vP v' = insert (i, so, len) (vP v) \<and> vH v' \<le> max (vH v) (Suc i)"
  using am_rx_data_step [OF assms] by blast

theorem am_nr_rx_keeps_invariant_witness:
  "\<exists>v' rx'. am_nr_rx_handle_data_pdu True True (rx_piece_pdu demo_am_rx (am_stream demo_am_sdus) 0 1 2 2) demo_am_rx = Ret rx' \<and>
    am_rx_inv (am_stream demo_am_sdus) 0 v' rx' \<and> vP v' = {(1, 2, 2)} \<and> vH v' \<le> 2"
proof -
  let ?f = "am_stream demo_am_sdus"
  have f: "am_sdu_ok (?f i)" for i using am_stream_ok [OF demo_am_events(1)] .
  have d: "?f 1 = [20, 21, 22, 23]" by (simp add: am_stream_def demo_am_sdus_def)
  have adm: "am_rx_admissible ?f \<lparr>vN = 0, vH = 0, vS = 0, vD = [], vP = {}\<rparr> (rx_W demo_am_rx) 1 2 2"
    using am_rx_inv_configure(3) [OF demo_am_rx] d by (simp add: am_rx_admissible_def piece_ok_def)
  have p: "unat (0 :: u8) < 2" "(0 :: nat) \<le> 1" by simp_all
  show ?thesis
    using am_nr_rx_keeps_invariant [OF am_rx_inv_configure(1) [OF demo_am_rx] f p adm] by (auto simp: numeral_2_eq_2)
qed

end
