(* ===== verification/AmNrTxRun.thy ===== *)
theory AmNrTxRun
  imports AmNrTxStatus AmNrReassembly
begin

text \<open>
  The transmitter from its configuration on: SDUs are written and discarded by PDCP, the MAC asks
  for PDUs and for the buffer state, status reports arrive and t-PollRetransmit expires, in any
  order.  Every state has the invariant.
\<close>

section \<open>PDCP\<close>

lemma tx_inv_queue: "am_tx_inv A X tx \<Longrightarrow> tx_queue_ok q \<Longrightarrow> am_tx_inv A X (tx\<lparr>am_tx_queue := q\<rparr>)"
  by (simp add: am_tx_inv_def tx_win_def tx_pdus_ok_def)

lemma am_tx_write_room:
  assumes q: "tx_queue_ok (am_tx_queue tx)" and on: "am_tx_enabled tx"
    and b: "wf_buffer b \<and> am_sdu_ok (data b) \<and> 3 \<le> headroom b" and room: "length (queued (am_tx_queue tx)) < bbq_capacity (am_tx_queue tx)"
  shows "\<exists>q. am_tx_write_sdu (Some b) tx = Ret (True, tx\<lparr>am_tx_queue := q\<rparr>) \<and> tx_queue_ok q \<and> queued q = queued (am_tx_queue tx) @ [Some b]"
proof -
  have ok: "bbq_ok (am_tx_queue tx)" using q by (simp add: tx_queue_ok_def)
  obtain q' where "bbq_try_write (Some b) (am_tx_queue tx) = Some (Done True, q')" "bbq_ok q'" "queued q' = queued (am_tx_queue tx) @ [Some b]"
    using bbq.push_room [OF bbq_okD [OF ok] _ room, of "Some b" False] b by (auto simp: bbq_try_write_def bbq_ok_def)
  then show ?thesis using on q b by (intro exI [of _ q']) (auto simp: am_tx_write_sdu_def tx_queue_ok_def)
qed

lemma am_tx_write_ok:
  assumes q: "tx_queue_ok (am_tx_queue tx)" and on: "am_tx_enabled tx" and b: "wf_buffer b \<and> am_sdu_ok (data b) \<and> 3 \<le> headroom b"
  shows "\<exists>ok q. am_tx_write_sdu (Some b) tx = Ret (ok, tx\<lparr>am_tx_queue := q\<rparr>) \<and> tx_queue_ok q"
proof (cases "length (queued (am_tx_queue tx)) < bbq_capacity (am_tx_queue tx)")
  case True
  then show ?thesis using am_tx_write_room [OF assms] by blast
next
  case False
  have ok: "bbq_ok (am_tx_queue tx)" using q by (simp add: tx_queue_ok_def)
  then have "length (queued (am_tx_queue tx)) = bbq_capacity (am_tx_queue tx)"
    using False bbq_okD(2) [OF ok] by (auto dest: cb_wfD simp: cb.length_abs)
  then have "bbq_try_write (Some b) (am_tx_queue tx) = Some (Done False, am_tx_queue tx)"
    using bbq.push_no_room [OF bbq_okD(1,2) [OF ok], of "Some b"] by (simp add: bbq_try_write_def)
  then show ?thesis using on q by (intro exI [of _ False] exI [of _ "am_tx_queue tx"]) (simp add: am_tx_write_sdu_def)
qed

fun discard_first :: "u32 \<Rightarrow> byte_buffer option list \<Rightarrow> bool \<times> byte_buffer option list" where
  "discard_first sn [] = (False, [])"
| "discard_first sn (x # xs) =
     (if pred_option (\<lambda>b. pdcp_sn b = sn) x \<and> x \<noteq> None then (True, None # xs)
      else (fst (discard_first sn xs), x # snd (discard_first sn xs)))"

lemma discard_first_set: "set (snd (discard_first sn xs)) \<subseteq> insert None (set xs)"
  by (induction xs) auto

lemma am_discard_list:
  assumes "counters_ok (ys @ xs) s" "length (ys @ xs) \<le> bbq_lim"
  shows "\<exists>s'. apply_first_list (am_discard_fn sn) xs s = (fst (discard_first sn xs), snd (discard_first sn xs), s') \<and>
    counters_ok (ys @ snd (discard_first sn xs)) s'"
  using assms
proof (induction xs arbitrary: ys)
  case (Cons x xs)
  show ?case
  proof (cases "pred_option (\<lambda>b. pdcp_sn b = sn) x \<and> x \<noteq> None")
    case True
    then obtain b where x: "x = Some b" "pdcp_sn b = sn" by auto
    have "counters_ok (ys @ xs) (pop_callback x s)"
      using pop_callback_ok [of x "ys @ xs" s] Cons.prems counters_rotate by auto
    then show ?thesis using x by (simp add: am_discard_fn_def counters_ok_def)
  next
    case False
    then have "am_discard_fn sn x s = (False, x, s)" by (cases x) (auto simp: am_discard_fn_def)
    then show ?thesis using Cons.IH [of "ys @ [x]"] Cons.prems False by auto
  qed
qed simp

lemma am_tx_discard_ok:
  assumes q: "tx_queue_ok (am_tx_queue tx)" and on: "am_tx_enabled tx"
  shows "\<exists>ok q. am_tx_discard_sdu sn tx = Ret (ok, tx\<lparr>am_tx_queue := q\<rparr>) \<and> tx_queue_ok q"
proof (cases "bbq_is_full (am_tx_queue tx)")
  case True
  have ok: "bbq_ok (am_tx_queue tx)" using q by (simp add: tx_queue_ok_def)
  have "am_tx_discard_sdu sn tx = Ret (False, tx)"
    using apply_first_full [of "circ_buffer (am_tx_queue tx)" "am_discard_fn sn"] bbq_okD(2) [OF ok] True on
    by (simp add: am_tx_discard_sdu_def bbq_apply_first_def bbq_is_full_def)
  then show ?thesis using q by (intro exI [of _ False] exI [of _ "am_tx_queue tx"]) simp
next
  case False
  let ?q = "am_tx_queue tx"
  have ok: "bbq_ok ?q" using q by (simp add: tx_queue_ok_def)
  have wf: "cb_wf (circ_buffer ?q)" "\<not> cb_full (circ_buffer ?q)" "bbq_capacity ?q \<le> bbq_lim"
    using bbq_okD(2) [OF ok] False by (auto simp: bbq_is_full_def)
  have c: "counters_ok ([] @ queued ?q) (captured ?q)" "length ([] @ queued ?q) \<le> bbq_lim"
    using bbq_okD(3) [OF ok] wf cb_wfD(2) [OF wf(1)] by auto
  obtain q' where "bbq_apply_first (am_discard_fn sn) ?q = Some (fst (discard_first sn (queued ?q)), q')" "bbq_ok q'"
    "queued q' = snd (discard_first sn (queued ?q))"
    using am_discard_list [OF c, of sn] apply_first_not_full [OF wf(1,2), of "am_discard_fn sn" "captured ?q"] bbq_okD(1) [OF ok] wf(3)
    by (auto simp: bbq_apply_first_def bbq_ok_def)
  then show ?thesis using discard_first_set [of sn "queued ?q"] q on
    by (intro exI [of _ "fst (discard_first sn (queued ?q))"] exI [of _ q']) (auto simp: am_tx_discard_sdu_def tx_queue_ok_def)
qed

section \<open>Configuration\<close>

lemma cm_N_static: "cm_N (static_circular_map N) = N"
  by (simp add: static_circular_map_def)

lemma am_nr_tx_configure_ok:
  assumes "am_tx_sn_field_length cfg \<noteq> am_nulltype" "n \<le> max_tx_queue_size" "128 < n \<longrightarrow> n \<le> grow 128 n" "bbq_configured grow n \<le> bbq_lim"
  shows "\<exists>tx. am_nr_tx_configure grow cfg n am_nr_tx = Ret (True, tx) \<and> am_tx_inv 0 0 tx \<and> am_tx_enabled tx \<and> am_tx_cfg tx = cfg \<and>
    cm_size (am_tx_window tx) = 0 \<and> retx_queue tx = [] \<and> queued (am_tx_queue tx) = [] \<and> bbq_capacity (am_tx_queue tx) = bbq_configured grow n"
proof -
  have "0 < bbq_configured grow n" using assms(3) by (auto simp: bbq_configured_def)
  then have ok: "bbq_ok (byte_buffer_queue (bbq_configured grow n))" using assms(4) by (rule bbq_ok_new)
  have q0: "bbq_is_empty (byte_buffer_queue 128)" by (simp add: bbq_is_empty_iff byte_buffer_queue_def cb_contents_static)
  have e: "am_tx_empty_queue tx = Ret tx" if "am_tx_queue tx = byte_buffer_queue 128" for tx
    using that q0 by (simp add: am_tx_empty_queue_def um_drain.simps)
  have ctor: "queued (byte_buffer_queue k) = []" "bbq_capacity (byte_buffer_queue k) = k" for k
    by (simp_all add: byte_buffer_queue_def cb_contents_static max_size_static)
  show ?thesis
    using assms(1,2) bbq_resize_new [of n grow, OF assms(3)] ok
    by (cases "am_tx_sn_field_length cfg")
       (simp_all add: am_nr_tx_configure_def Let_def e am_nr_tx_def am_tx_inv_def tx_win_def tx_cfg_sizes_def tx_pdus_ok_def tx_queue_ok_def
         so_size_def am_tx_state_0_def am_sn_of_def tx_end_def retx_apart_def ctor cm_N_static static_circular_map_def [THEN arg_cong [of _ _ cm_size]])
qed

section \<open>MAC\<close>

text \<open>There is something to send, and the window has room for it.\<close>

definition tx_pending :: "rlc_am_nr_tx \<Rightarrow> bool" where
  "tx_pending tx \<longleftrightarrow> retx_queue tx \<noteq> [] \<or> sdu_under_segmentation_sn tx \<noteq> INVALID_RLC_SN \<or>
     \<not> cm_full (am_tx_window tx) \<and> (\<exists>b. Some b \<in> set (queued (am_tx_queue tx)))"

lemma am_read_sends:
  assumes inv: "am_tx_inv A X tx" and on: "am_tx_enabled tx" and rx: "\<not> am_tx_do_status rx"
  shows "\<exists>r. am_nr_tx_read_pdu owns mem True n rx tx = bind_outcome r (\<lambda>(pdu, tx). Ret (pdu, rx, tx)) \<and> tx_sends A X tx n (tx_pending tx) r"
proof -
  have win: "tx_win tx A X" using inv by (simp add: am_tx_inv_def)
  note w = tx_winD [OF win]
  have seg: "tx_pdu_at tx (sdu_under_segmentation_sn tx) \<noteq> None" if "sdu_under_segmentation_sn tx \<noteq> INVALID_RLC_SN"
    using w(5,7) w(8) [of "tx_sn tx X"] that by (auto simp: tx_end_def)
  let ?r = "if retx_queue tx \<noteq> [] then build_retx_pdu n tx
     else if sdu_under_segmentation_sn tx \<noteq> INVALID_RLC_SN then
       (case tx_pdu_at tx (sdu_under_segmentation_sn tx) of
          None \<Rightarrow> Ret ([], tx\<lparr>sdu_under_segmentation_sn := INVALID_RLC_SN\<rparr>)
        | Some tx_pdu \<Rightarrow> build_continuation_sdu_segment tx_pdu n tx)
     else if bbq_is_empty (am_tx_queue tx) then Ret ([], tx) else build_new_pdu True n tx"
  have "tx_sends A X tx n (tx_pending tx) ?r"
  proof (cases "retx_queue tx = [] \<and> sdu_under_segmentation_sn tx = INVALID_RLC_SN")
    case True
    then show ?thesis using send_new [OF inv, of n] tx_sends_nothing [OF tx_keeps_refl [OF inv]]
      by (auto simp: tx_pending_def bbq_is_empty_iff)
  next
    case False
    then have p: "tx_pending tx" by (auto simp: tx_pending_def)
    then show ?thesis using send_retx [OF inv, of n] send_continuation [OF inv, of _ n] seg False by (auto split: option.splits)
  qed
  then show ?thesis using on rx by (intro exI [of _ ?r]) (simp add: am_nr_tx_read_pdu_def)
qed

lemma am_read_status_same:
  "am_tx_do_status rx \<Longrightarrow> am_nr_tx_read_pdu owns mem mem' n rx tx = Ret (pdu, rx', tx') \<Longrightarrow> tx' = tx"
  by (cases "build_status_pdu owns n rx tx") (auto simp: am_nr_tx_read_pdu_def split: if_splits)

lemma tx_inv_events: "am_tx_inv A X (tx\<lparr>tx_events := ev\<rparr>) = am_tx_inv A X tx"
  by (simp add: am_tx_inv_def tx_win_def tx_pdus_ok_def tx_end_def tx_cfg_sizes_def)

lemma am_buffer_state_same:
  assumes inv: "am_tx_inv A X tx" and res: "am_nr_tx_get_buffer_state owns m0 m1 rx tx = Ret (k0, k1, rx', tx')"
  shows "tx' = tx \<or> tx' = tx\<lparr>tx_events := tx_events tx @ [Bsr k0 k1]\<rparr>"
proof -
  have win: "tx_win tx A X" using inv by (simp add: am_tx_inv_def)
  note w = tx_winD [OF win]
  have seg: "tx_pdu_at tx (sdu_under_segmentation_sn tx) \<noteq> None" if "sdu_under_segmentation_sn tx \<noteq> INVALID_RLC_SN"
    using w(5,7) w(8) [of "tx_sn tx X"] that by (auto simp: tx_end_def)
  show ?thesis
    using res seg unfolding am_nr_tx_get_buffer_state_def
    by (auto simp: bind_outcome_Ret_iff Let_def split: if_splits option.splits prod.splits)
qed

text \<open>
  The receiver gives a status PDU, if it is in a state of its own invariant: trimmed to the grant.
\<close>

definition rx_well_formed :: "rlc_am_nr_rx \<Rightarrow> bool" where
  "rx_well_formed rx \<longleftrightarrow> (\<exists>f n0 v. am_rx_inv f n0 v rx \<and> (\<forall>i. am_sdu_ok (f i)))"

lemma sized_push_all: "sized st \<Longrightarrow> sized (push_all ns st) \<and> st_sn_size (push_all ns st) = st_sn_size st"
  by (induction ns arbitrary: st) (simp_all add: sized_push)

lemma rx_status_pdu:
  assumes "rx_well_formed rx"
  obtains k st' rx' where "get_status_pdu owns n st rx = Ret (k, st', rx')"
    "owns \<longrightarrow> 3 \<le> unat n \<longrightarrow> sized st' \<and> st_sn_size st' = st_sn_size st \<and> packed_size st' \<le> unat n"
proof (cases owns)
  case False
  then show ?thesis using that by (simp add: get_status_pdu_def)
next
  case True
  obtain f n0 v where inv: "am_rx_inv f n0 v rx" "\<And>i. am_sdu_ok (f i)" using assms by (auto simp: rx_well_formed_def)
  let ?full = "(push_all (concat (map (\<lambda>k. missing_nacks rx (rx_sn rx k)) [vN v..<vS v])) (status_reset st))\<lparr>ack_sn := rx_sn rx (vS v)\<rparr>"
  let ?st = "if unat n < packed_size ?full then snd (trim (unat n) ?full) else ?full"
  have f: "sized ?full" "st_sn_size ?full = st_sn_size st"
    using sized_push_all [OF sized_reset, of st] by (simp_all add: sized_def nacks_size_def status_reset_def)
  have t: "sized ?st \<and> st_sn_size ?st = st_sn_size st \<and> packed_size ?st \<le> unat n" if "3 \<le> unat n"
    using trim_loop_spec [OF f(1), of "unat n"] f that by (simp add: trim_def sizeof_header_ack_sn_def)
  have o: "owns = True" using True by simp
  obtain k rx' where g: "get_status_pdu owns n st rx = Ret (k, ?st, rx')"
    using get_status_pdu_spec [OF inv, of n st] unfolding o by blast
  show ?thesis by (rule that [OF g]) (use t in blast)
qed

lemma am_read_status_returns:
  assumes rx: "rx_well_formed rx" and sz: "am_rx_sn_field_length (am_tx_cfg tx) = am_tx_sn_field_length (am_tx_cfg tx)"
    "am_tx_sn_field_length (am_tx_cfg tx) \<noteq> am_nulltype" and n: "3 \<le> unat n" "unat n \<le> get_tailroom fresh_buffer"
    and st: "am_tx_do_status rx"
  shows "\<exists>pdu rx'. am_nr_tx_read_pdu owns mem mem' n rx tx = Ret (pdu, rx', tx)"
proof -
  obtain st0 where st0: "rlc_am_nr_status_pdu (am_tx_sn_field_length (am_tx_cfg tx)) = Some st0" "st_sn_size st0 = am_tx_sn_field_length (am_tx_cfg tx)"
    using sz(2) by (cases "am_tx_sn_field_length (am_tx_cfg tx)") (auto simp: rlc_am_nr_status_pdu_def)
  obtain k st' rx' where g: "get_status_pdu owns n st0 rx = Ret (k, st', rx')"
    "owns \<longrightarrow> 3 \<le> unat n \<longrightarrow> sized st' \<and> st_sn_size st' = st_sn_size st0 \<and> packed_size st' \<le> unat n"
    by (rule rx_status_pdu [OF rx])
  have k: "\<not> owns \<Longrightarrow> k = - 1" using g(1) by (simp add: get_status_pdu_def)
  have "length (rlc_am_nr_write_status_pdu st' (am_tx_sn_field_length (am_tx_cfg tx))) \<le> get_tailroom fresh_buffer" if owns
    using g(2) that n length_write_status_pdu [of st'] st0(2) by auto
  then have "\<exists>pdu rx'. build_status_pdu owns n rx tx = Ret (pdu, rx')"
    using g(1) st0(1) sz(1) k by (cases owns) (auto simp: build_status_pdu_def Let_def)
  then show ?thesis using st by (auto simp: am_nr_tx_read_pdu_def)
qed

lemma tx_buf_there:
  assumes "am_tx_inv A X tx" "tx_pdu_at tx sn = Some pdu"
  shows "\<exists>b. tx_sdu_buf pdu = Some b"
  by (rule tx_pdu_okD [OF assms]) simp

lemma am_buffer_state_returns:
  assumes inv: "am_tx_inv A X tx" and rx: "am_tx_do_status rx \<longrightarrow> rx_well_formed rx"
  shows "\<exists>k0 k1 rx' tx'. am_nr_tx_get_buffer_state owns m0 m1 rx tx = Ret (k0, k1, rx', tx')"
proof -
  have len: "\<exists>k rx'. get_status_pdu_length owns rx = Ret (k, rx')" if st: "am_tx_do_status rx"
  proof -
    have wf: "rx_well_formed rx" using rx st by simp
    then obtain f n0 v where "am_rx_inv f n0 v rx" by (auto simp: rx_well_formed_def)
    then have w: "am_win rx (vN v) (vH v)" using rx_window_invD(1) by (simp add: am_rx_inv_def)
    obtain st where "rlc_am_nr_status_pdu (am_rx_sn_field_length (am_rx_cfg rx)) = Some st"
      using rx_cfg_sizesD(5) [OF am_winD(1) [OF w]]
      by (cases "am_rx_sn_field_length (am_rx_cfg rx)") (auto simp: rlc_am_nr_status_pdu_def)
    moreover obtain k st' rx' where "get_status_pdu owns (- 1) st rx = Ret (k, st', rx')" by (rule rx_status_pdu [OF wf])
    ultimately show ?thesis by (simp add: get_status_pdu_length_def)
  qed
  note buf = tx_buf_there [OF inv]
  obtain n1 rx1 where 1: "(if am_tx_do_status rx
           then bind_outcome (get_status_pdu_length owns rx) (\<lambda>(n, rx). Ret (m1 + n, rx))
           else Ret (m1, rx)) = Ret (n1, rx1)"
    using len by (cases "am_tx_do_status rx") auto
  have "\<exists>n tx'. (if sdu_under_segmentation_sn tx = INVALID_RLC_SN then Ret (m0, tx)
              else case tx_pdu_at tx (sdu_under_segmentation_sn tx) of
                None \<Rightarrow> Ret (m0, tx\<lparr>sdu_under_segmentation_sn := INVALID_RLC_SN\<rparr>)
              | Some seg_pdu \<Rightarrow>
                  if segment_list seg_pdu = [] then Ret (m0, tx)
                  else bind_outcome (outcome_of (tx_sdu_buf seg_pdu)) (\<lambda>sdu_buf.
                    let seg = last (segment_list seg_pdu);
                        last_byte = seg_so seg + payload_len seg;
                        sdu_len = of_nat (N_bytes sdu_buf) :: u32
                    in Ret (if last_byte \<le> sdu_len then m0 + (sdu_len - last_byte + max_hdr_size tx)
                            else m0, tx))) = Ret (n, tx')"
    by (auto simp: Let_def dest!: buf split: option.split)
  then obtain n0 tx0 where 2: "(if sdu_under_segmentation_sn tx = INVALID_RLC_SN then Ret (m0, tx)
              else case tx_pdu_at tx (sdu_under_segmentation_sn tx) of
                None \<Rightarrow> Ret (m0, tx\<lparr>sdu_under_segmentation_sn := INVALID_RLC_SN\<rparr>)
              | Some seg_pdu \<Rightarrow>
                  if segment_list seg_pdu = [] then Ret (m0, tx)
                  else bind_outcome (outcome_of (tx_sdu_buf seg_pdu)) (\<lambda>sdu_buf.
                    let seg = last (segment_list seg_pdu);
                        last_byte = seg_so seg + payload_len seg;
                        sdu_len = of_nat (N_bytes sdu_buf) :: u32
                    in Ret (if last_byte \<le> sdu_len then m0 + (sdu_len - last_byte + max_hdr_size tx)
                            else m0, tx))) = Ret (n0, tx0)" by blast
  show ?thesis
    unfolding am_nr_tx_get_buffer_state_def
    by (cases "am_tx_enabled tx") (simp_all only: 1 2 [unfolded Let_def] Let_def if_True if_False not_True_eq_False not_False_eq_True
      bind_outcome.simps prod.case outcome.inject prod.inject, blast+)
qed

section \<open>Timer\<close>

lemma am_expire_ok:
  assumes inv: "am_tx_inv A X tx" and q: "retx_queue tx = [] \<or> \<not> cm_full (am_tx_window tx)"
  shows "\<exists>tx'. am_nr_tx_expire tx = Ret tx' \<and> am_tx_inv A X tx' \<and> am_tx_enabled tx' = am_tx_enabled tx \<and> am_tx_cfg tx' = am_tx_cfg tx"
proof -
  define tx0 where "tx0 = tx\<lparr>poll_retransmit_timer := (poll_retransmit_timer tx)\<lparr>is_running := False\<rparr>\<rparr>"
  have inv0: "am_tx_inv A X tx0"
    using tx_inv_poll [of "am_st tx" tx A X "(poll_retransmit_timer tx)\<lparr>is_running := False\<rparr>"] inv by (simp add: tx0_def)
  have f: "am_tx_window tx0 = am_tx_window tx" "retx_queue tx0 = retx_queue tx" "am_tx_enabled tx0 = am_tx_enabled tx" "am_tx_cfg tx0 = am_tx_cfg tx"
    by (simp_all add: tx0_def)
  let ?sn = "am_tx_next_ack (am_st tx0)"
  show ?thesis
  proof (cases "timer_set (poll_retransmit_timer tx) \<and> (bbq_is_empty (am_tx_queue tx0) \<and> retx_queue tx0 = [] \<or> cm_full (am_tx_window tx0)) \<and>
       \<not> cm_empty (am_tx_window tx0) \<and> tx_pdu_at tx0 ?sn \<noteq> None")
    case False
    then have "am_nr_tx_expire tx = Ret tx0" by (auto simp: am_nr_tx_expire_def am_nr_tx_timer_expired_def tx0_def [symmetric])
    then show ?thesis using inv0 f by simp
  next
    case True
    then obtain pdu where pdu: "tx_pdu_at tx0 ?sn = Some pdu" by blast
    obtain e b where b: "tx_sdu_buf pdu = Some b" "segment_list pdu \<noteq> [] \<longrightarrow> tiled 0 (segment_list pdu) e" by (rule pdu_tiled [OF inv0 pdu])
    define r where "r = (case segment_list pdu of
        [] \<Rightarrow> \<lparr>retx_sn = ?sn, is_segment = False, retx_so_start = 0, current_so = 0, segment_length = of_nat (N_bytes b)\<rparr>
      | s # _ \<Rightarrow> \<lparr>retx_sn = ?sn, is_segment = True, retx_so_start = 0, current_so = 0, segment_length = payload_len s\<rparr>)"
    have e: "retx_queue tx0 = []" using True q by (auto simp: f)
    have "am_nr_tx_expire tx = Ret (tx0\<lparr>retx_queue := [r]\<rparr>)"
      using True pdu b(1) e by (auto simp: am_nr_tx_expire_def am_nr_tx_timer_expired_def tx0_def [symmetric] r_def split: list.splits)
    moreover have "retx_ok (am_tx_window tx0) r"
      using pdu b by (cases "segment_list pdu") (auto simp: r_def retx_ok_def unat_eq_0)
    ultimately show ?thesis using tx_inv_retx [OF inv0, of "[r]"] f by (simp add: retx_apart_def)
  qed
qed

lemma am_expire_returns:
  assumes inv: "am_tx_inv A X tx"
  shows "\<exists>tx'. am_nr_tx_expire tx = Ret tx'"
  using tx_buf_there [OF inv]
  by (auto simp: am_nr_tx_expire_def am_nr_tx_timer_expired_def Let_def dest!: tx_buf_there [OF inv] split: option.split list.split)

section \<open>Every state\<close>

text \<open>
  A report that does not acknowledge what was not sent, on a transmitter with at most one
  retransmission for each SDU that is acknowledged.
\<close>

definition report_fits :: "rlc_am_nr_status_pdu \<Rightarrow> rlc_am_nr_tx \<Rightarrow> bool" where
  "report_fits status tx \<longleftrightarrow> report_stop status < tx_mod_nr tx \<and>
     tx_mod_base_nr tx (report_stop status) \<le> tx_mod_base_nr tx (am_tx_next (am_st tx)) \<and>
     (\<forall>r \<in> set (retx_queue tx). tx_mod_base_nr tx (retx_sn r) < tx_mod_base_nr tx (report_stop status) \<longrightarrow>
        retx_once (retx_queue tx) (retx_sn r))"

inductive am_tx_reach :: "rlc_am_nr_config \<Rightarrow> rlc_am_nr_tx \<Rightarrow> bool" for cfg where
  configured: "am_nr_tx_configure grow cfg n am_nr_tx = Ret (True, tx) \<Longrightarrow> am_tx_sn_field_length cfg \<noteq> am_nulltype \<Longrightarrow>
    (128 < n \<longrightarrow> n \<le> grow 128 n) \<and> bbq_configured grow n \<le> bbq_lim \<Longrightarrow> am_tx_reach cfg tx"
| written: "am_tx_reach cfg tx \<Longrightarrow> wf_buffer b \<and> am_sdu_ok (data b) \<and> 3 \<le> headroom b \<Longrightarrow>
    am_tx_write_sdu (Some b) tx = Ret (ok, tx') \<Longrightarrow> am_tx_reach cfg tx'"
| discarded: "am_tx_reach cfg tx \<Longrightarrow> am_tx_discard_sdu sn tx = Ret (ok, tx') \<Longrightarrow> am_tx_reach cfg tx'"
| sent: "am_tx_reach cfg tx \<Longrightarrow> am_nr_tx_read_pdu owns mem True nof_bytes rx tx = Ret (pdu, rx', tx') \<Longrightarrow> am_tx_reach cfg tx'"
| buffer_state: "am_tx_reach cfg tx \<Longrightarrow> am_nr_tx_get_buffer_state owns m0 m1 rx tx = Ret (k0, k1, rx', tx') \<Longrightarrow> am_tx_reach cfg tx'"
| reported: "am_tx_reach cfg tx \<Longrightarrow> report_fits status tx \<Longrightarrow> handle_status status tx = Ret tx' \<Longrightarrow> am_tx_reach cfg tx'"
| expired: "am_tx_reach cfg tx \<Longrightarrow> retx_queue tx = [] \<or> \<not> cm_full (am_tx_window tx) \<Longrightarrow>
    am_nr_tx_expire tx = Ret tx' \<Longrightarrow> am_tx_reach cfg tx'"

lemma tx_sn_of_base:
  assumes win: "tx_win tx A X" and sn: "sn < tx_mod_nr tx"
  shows "tx_sn tx (A + unat (tx_mod_base_nr tx sn)) = sn"
proof -
  note m = tx_cfg_sizesD(1) [OF tx_winD(1) [OF win]]
  let ?u = "unat (tx_mod_nr tx)" and ?k = "unat (tx_mod_base_nr tx sn)"
  have k: "int ?k = (uint sn - int A mod uint (tx_mod_nr tx)) mod uint (tx_mod_nr tx)"
    by (simp add: tx_mod_base_nr_def tx_winD(3) [OF win] uint_sn_base [OF m] uint_am_sn_of [OF m])
  have "int (A + ?k) mod uint (tx_mod_nr tx) = uint sn mod uint (tx_mod_nr tx)"
    unfolding of_nat_add k by (simp add: mod_simps)
  also have "\<dots> = uint sn" using sn by (simp add: word_less_def)
  finally have "uint (tx_sn tx (A + ?k)) = uint sn" by (simp add: uint_am_sn_of [OF m])
  then show ?thesis by (simp add: word_uint_eq_iff)
qed

lemma report_fits_stop:
  assumes inv: "am_tx_inv A X tx" and fits: "report_fits status tx"
  obtains S where "report_stop status = tx_sn tx S" "A \<le> S" "S \<le> X" "\<forall>i \<in> {A..<S}. retx_once (retx_queue tx) (tx_sn tx i)"
proof -
  have win: "tx_win tx A X" using inv by (simp add: am_tx_inv_def)
  note w = tx_winD [OF win]
  define S where "S = A + unat (tx_mod_base_nr tx (report_stop status))"
  have X: "X < A + 2 * tx_W tx" using w(6) tx_cfg_sizesD(3) [OF w(1)] by (auto simp: tx_end_def split: if_splits)
  have stop: "tx_sn tx S = report_stop status" unfolding S_def by (rule tx_sn_of_base [OF win]) (use fits in \<open>simp add: report_fits_def\<close>)
  have S: "A \<le> S" "S \<le> X"
    using fits tx_base [OF win w(5) X] w(4,5) by (auto simp: S_def report_fits_def word_le_nat_alt)
  have "retx_once (retx_queue tx) (tx_sn tx i)" if "i \<in> {A..<S}" for i
  proof (cases "\<exists>r \<in> set (retx_queue tx). retx_sn r = tx_sn tx i")
    case True
    have "unat (tx_mod_base_nr tx (tx_sn tx i)) = i - A" by (rule tx_base [OF win]) (use that S X in auto)
    moreover have "i - A < unat (tx_mod_base_nr tx (report_stop status))" using that by (auto simp: S_def)
    ultimately have "tx_mod_base_nr tx (tx_sn tx i) < tx_mod_base_nr tx (report_stop status)" by (simp add: word_less_nat_alt)
    then show ?thesis using True fits by (auto simp: report_fits_def)
  next
    case False
    then have "filter (\<lambda>r. retx_sn r = tx_sn tx i) (retx_queue tx) = []" by (auto simp: filter_empty_conv)
    then show ?thesis by (simp add: retx_once_def)
  qed
  then show ?thesis using that [OF stop [symmetric] S] by blast
qed

lemma tx_sends_keeps: "tx_sends A X tx n w (Ret (pdu, tx')) \<Longrightarrow> \<exists>X'. tx_keeps A X tx X' tx'"
  unfolding tx_sends_def by blast

lemma am_tx_reach_inv: "am_tx_reach cfg tx \<Longrightarrow> am_tx_enabled tx \<and> am_tx_cfg tx = cfg \<and> (\<exists>A X. am_tx_inv A X tx)"
proof (induction rule: am_tx_reach.induct)
  case (configured grow n tx)
  have "n \<le> max_tx_queue_size" using configured(1) by (auto simp: am_nr_tx_configure_def Let_def split: if_splits)
  then show ?case using am_nr_tx_configure_ok [of cfg n grow] configured by auto
next
  case (written tx b ok tx')
  then obtain A X where "am_tx_inv A X tx" by blast
  then show ?case using am_tx_write_ok [of tx b] tx_inv_queue written by (fastforce simp: am_tx_inv_def [of A X tx])
next
  case (discarded tx sn ok tx')
  then obtain A X where "am_tx_inv A X tx" by blast
  then show ?case using am_tx_discard_ok [of tx sn] tx_inv_queue discarded by (fastforce simp: am_tx_inv_def [of A X tx])
next
  case (sent tx owns mem nof_bytes rx pdu rx' tx')
  then obtain A X where inv: "am_tx_inv A X tx" by blast
  show ?case
  proof (cases "am_tx_do_status rx")
    case True
    then show ?thesis using am_read_status_same sent by blast
  next
    case False
    then obtain r where r: "am_nr_tx_read_pdu owns mem True nof_bytes rx tx = bind_outcome r (\<lambda>(pdu, tx). Ret (pdu, rx, tx))"
      "tx_sends A X tx nof_bytes (tx_pending tx) r"
      using am_read_sends [OF inv, of rx owns mem nof_bytes] sent by blast
    then have "r = Ret (pdu, tx')" using sent(2) by (cases r) (auto split: prod.splits)
    then obtain X' where "tx_keeps A X tx X' tx'" using tx_sends_keeps r(2) by blast
    then show ?thesis using sent by (auto simp: tx_keeps_def)
  qed
next
  case (buffer_state tx owns m0 m1 rx k0 k1 rx' tx')
  then obtain A X where "am_tx_inv A X tx" by blast
  then show ?case using am_buffer_state_same [OF _ buffer_state(2), of A X] buffer_state(3) tx_inv_events [where A = A and X = X and tx = tx] by auto
next
  case (reported tx status tx')
  then obtain A X where inv: "am_tx_inv A X tx" by blast
  obtain S where "report_stop status = tx_sn tx S" "A \<le> S" "S \<le> X" "\<forall>i \<in> {A..<S}. retx_once (retx_queue tx) (tx_sn tx i)"
    by (rule report_fits_stop [OF inv reported(2)])
  then show ?case using handle_status_ok [OF inv, of status S] reported by (auto simp: report_done_def)
next
  case (expired tx tx')
  then obtain A X where inv: "am_tx_inv A X tx" by blast
  then show ?case using am_expire_ok [OF inv expired(2)] expired by auto
qed

section \<open>Properties\<close>

definition am_tx_holds :: "rlc_am_nr_tx \<Rightarrow> u32 \<Rightarrow> bytes \<Rightarrow> bool" where
  "am_tx_holds tx sn d \<longleftrightarrow> (\<exists>pdu b. tx_pdu_at tx sn = Some pdu \<and> tx_sdu_buf pdu = Some b \<and> data b = d)"

lemma am_tx_holds_data: "am_tx_holds tx (tx_sn tx i) d \<longleftrightarrow> tx_data tx i = Some d"
  by (auto simp: am_tx_holds_def tx_data_def bind_eq_Some_conv)

lemma am_tx_holds_sn:
  assumes "am_tx_inv A X tx" "am_tx_holds tx sn d"
  obtains i where "A \<le> i" "i < tx_end tx X" "sn = tx_sn tx i"
  using assms tx_winD(8) [of tx A X sn] by (auto simp: am_tx_holds_def am_tx_inv_def)

text \<open>
  C6. A MAC opportunity of the AM NR transmitter while no status report is due, in every state of
  \<open>am_tx_reach\<close> (which leaves out reports that acknowledge an SDU of which several retransmissions wait,
  see C35, and expiries of t-PollRetransmit on a full window while a retransmission waits).  The
  entity returns a PDU that fits the grant; it is empty or a whole SDU or a piece of one that the window
  holds, with the header and sequence number of this SDU, so that the receiver reads back exactly that
  piece; it is not empty if anything is pending and the grant exceeds the largest header.  Nothing is lost:
  the window keeps every SDU it held; the queue of SDUs stays, unless nothing else is to be sent and the
  PDU is not empty, and then exactly its first SDU leaves it and is in the window under the next
  sequence number with its bytes and its PDCP sequence number.  The queue of retransmissions stays if the
  PDU is empty; otherwise the PDU is what is left of its first entry, which is removed, or
  the beginning of that, and the rest stays at the front.  A new SDU is sent from the first byte not sent yet, to its end or to where the
  state says that it stopped.
\<close>

theorem am_nr_tx_sends:
  assumes "am_tx_reach cfg tx" "\<not> am_tx_do_status rx"
  shows "\<exists>pdu tx'. am_nr_tx_read_pdu owns mem True nof_bytes rx tx = Ret (pdu, rx, tx') \<and> length pdu \<le> unat nof_bytes \<and>
    (pdu = [] \<or> (\<exists>sn p d so len. am_tx_holds tx' sn d \<and> piece_ok d so len \<and> unat p < 2 \<and>
       pdu = am_piece_pdu (am_tx_sn_field_length cfg) sn p d so len)) \<and>
    (tx_pending tx \<and> unat (max_hdr_size tx) < unat nof_bytes \<longrightarrow> pdu \<noteq> []) \<and>
    (\<forall>sn d. am_tx_holds tx sn d \<longrightarrow> am_tx_holds tx' sn d) \<and>
    tx_takes tx pdu tx' \<and> (if retx_queue tx \<noteq> [] then tx_resends tx pdu tx' else tx_goes_on tx pdu tx')"
proof -
  obtain A X where inv: "am_tx_inv A X tx" and on: "am_tx_enabled tx" "am_tx_cfg tx = cfg" using am_tx_reach_inv [OF assms(1)] by blast
  obtain r where r: "am_nr_tx_read_pdu owns mem True nof_bytes rx tx = bind_outcome r (\<lambda>(pdu, tx). Ret (pdu, rx, tx))"
    "tx_sends A X tx nof_bytes (tx_pending tx) r" using am_read_sends [OF inv on(1) assms(2)] by blast
  then obtain pdu tx' X' where k: "r = Ret (pdu, tx')" "tx_keeps A X tx X' tx'" "length pdu \<le> unat nof_bytes"
    "pdu = [] \<or> tx_piece A X' tx' pdu" "tx_pending tx \<and> unat (max_hdr_size tx) < unat nof_bytes \<longrightarrow> pdu \<noteq> []"
    and left: "tx_takes tx pdu tx'" "if retx_queue tx \<noteq> [] then tx_resends tx pdu tx' else tx_goes_on tx pdu tx'"
    unfolding tx_sends_def by blast
  have m: "tx_mod_nr tx' = tx_mod_nr tx" "am_tx_cfg tx' = cfg" using k(2) on(2) by (simp_all add: tx_keeps_def)
  have hold: "am_tx_holds tx' sn d" if h: "am_tx_holds tx sn d" for sn d
  proof -
    obtain i where i: "A \<le> i" "i < tx_end tx X" "sn = tx_sn tx i" by (rule am_tx_holds_sn [OF inv h])
    then have "tx_data tx' i = Some d" using h k(2) by (simp add: tx_keeps_def am_tx_holds_data)
    then show ?thesis using am_tx_holds_data [of tx' i d] i(3) m(1) by simp
  qed
  have "pdu = [] \<or> (\<exists>sn p d so len. am_tx_holds tx' sn d \<and> piece_ok d so len \<and> unat p < 2 \<and>
      pdu = am_piece_pdu (am_tx_sn_field_length cfg) sn p d so len)"
    using k(4) m(2) am_tx_holds_data [of tx'] by (fastforce simp: tx_piece_def)
  then show ?thesis using r(1) k(1,3,5) hold left by auto
qed

text \<open>
  C12. Well-formed states.  The states are those the AM NR transmitter reaches from its configuration by
  SDUs written and discarded, MAC opportunities for which memory is found, buffer-state requests, status
  reports and expiries of t-PollRetransmit, where a report acknowledges only what was sent and
  only SDUs of which at most one retransmission waits (C35 shows what other reports lead to), and
  t-PollRetransmit expires only while no retransmission waits or the window is not full (it adds a
  second retransmission of an SDU otherwise).  In each of them there are positions \<open>A\<close> and \<open>X\<close> of the
  stream such that the window holds exactly the SDUs from \<open>A\<close> to \<open>X\<close>, their segments are
  consecutive and the retransmissions are segments of them.  Every one of these operations returns: writing
  and discarding an SDU; such a report; an expiry, whatever waits; a MAC opportunity without a status
  report, whatever the grant, and one with
  a status report of a well-formed receiver if both directions use sequence numbers of the same size and the grant is at least the
  three bytes of an empty report and at most a buffer; a buffer-state request, if the receiver is
  well-formed or has no report to send.
\<close>

theorem am_nr_tx_wellformed:
  assumes "am_tx_reach cfg tx"
  shows "am_tx_enabled tx \<and> am_tx_cfg tx = cfg \<and> (\<exists>A X. am_tx_inv A X tx) \<and>
    (\<forall>b. wf_buffer b \<and> am_sdu_ok (data b) \<and> 3 \<le> headroom b \<longrightarrow> (\<exists>ok tx'. am_tx_write_sdu (Some b) tx = Ret (ok, tx'))) \<and>
    (\<forall>sn. \<exists>ok tx'. am_tx_discard_sdu sn tx = Ret (ok, tx')) \<and>
    (\<forall>status. report_fits status tx \<longrightarrow> (\<exists>tx'. handle_status status tx = Ret tx')) \<and>
    (\<exists>tx'. am_nr_tx_expire tx = Ret tx') \<and>
    (\<forall>owns mem n rx. \<not> am_tx_do_status rx \<or> rx_well_formed rx \<and> am_rx_sn_field_length cfg = am_tx_sn_field_length cfg \<and>
         3 \<le> unat n \<and> unat n \<le> get_tailroom fresh_buffer \<longrightarrow>
       (\<exists>pdu rx' tx'. am_nr_tx_read_pdu owns mem True n rx tx = Ret (pdu, rx', tx'))) \<and>
    (\<forall>owns m0 m1 rx. (am_tx_do_status rx \<longrightarrow> rx_well_formed rx) \<longrightarrow>
       (\<exists>k0 k1 rx' tx'. am_nr_tx_get_buffer_state owns m0 m1 rx tx = Ret (k0, k1, rx', tx')))"
proof -
  obtain A X where inv: "am_tx_inv A X tx" and on: "am_tx_enabled tx" "am_tx_cfg tx = cfg" using am_tx_reach_inv [OF assms] by blast
  have q: "tx_queue_ok (am_tx_queue tx)" using inv by (simp add: am_tx_inv_def)
  have "\<exists>tx'. handle_status status tx = Ret tx'" if fits: "report_fits status tx" for status
  proof -
    obtain S where "report_stop status = tx_sn tx S" "A \<le> S" "S \<le> X" "\<forall>i \<in> {A..<S}. retx_once (retx_queue tx) (tx_sn tx i)"
      by (rule report_fits_stop [OF inv fits])
    then show ?thesis using handle_status_ok [OF inv] by blast
  qed
  moreover have "\<exists>pdu rx' tx'. am_nr_tx_read_pdu owns mem True n rx tx = Ret (pdu, rx', tx')"
    if h: "\<not> am_tx_do_status rx \<or> rx_well_formed rx \<and> am_rx_sn_field_length cfg = am_tx_sn_field_length cfg \<and>
         3 \<le> unat n \<and> unat n \<le> get_tailroom fresh_buffer" for owns mem n rx
  proof (cases "am_tx_do_status rx")
    case True
    have "am_tx_sn_field_length cfg \<noteq> am_nulltype"
      using inv on(2) by (auto simp: am_tx_inv_def tx_win_def tx_cfg_sizes_def)
    then show ?thesis using am_read_status_returns [of rx tx n] h True on(2) by blast
  next
    case False
    then show ?thesis using am_read_sends [OF inv on(1), of rx owns mem n] by (auto simp: tx_sends_def)
  qed
  ultimately show ?thesis
    using on inv am_tx_write_ok [OF q on(1)] am_tx_discard_ok [OF q on(1)] am_expire_returns [OF inv] am_buffer_state_returns [OF inv] by blast
qed

text \<open>A transmitter to which one SDU was written.\<close>

definition demo_tx_sdu :: byte_buffer where "demo_tx_sdu = fresh_buffer\<lparr>data := [1, 2, 3, 4, 5, 6]\<rparr>"

lemma demo_tx_sdu: "wf_buffer demo_tx_sdu \<and> am_sdu_ok (data demo_tx_sdu) \<and> 3 \<le> headroom demo_tx_sdu"
  by (simp add: demo_tx_sdu_def wf_buffer_def am_sdu_ok_def get_tailroom_def fresh_buffer_def buffer_sizes)

lemma demo_written:
  "\<exists>c tx. am_nr_tx_configure (\<lambda>_ n. n) demo_am_cfg 128 am_nr_tx = Ret (True, c) \<and>
     am_tx_write_sdu (Some demo_tx_sdu) c = Ret (True, tx) \<and> am_tx_reach demo_am_cfg tx \<and> tx_pending tx \<and> max_hdr_size tx = 4"
proof -
  have s: "am_tx_sn_field_length demo_am_cfg \<noteq> am_nulltype" "(128 :: nat) \<le> max_tx_queue_size" "bbq_configured (\<lambda>_ n. n) 128 \<le> bbq_lim"
    "bbq_configured (\<lambda>_ n. n) 128 = 128"
    by (simp_all add: demo_am_cfg_def max_tx_queue_size_def bbq_configured_def bbq_lim_def)
  obtain c where c: "am_nr_tx_configure (\<lambda>_ n. n) demo_am_cfg 128 am_nr_tx = Ret (True, c)" "am_tx_inv 0 0 c" "am_tx_enabled c"
    "queued (am_tx_queue c) = []" "bbq_capacity (am_tx_queue c) = 128" "am_tx_cfg c = demo_am_cfg" "cm_size (am_tx_window c) = 0"
    using am_nr_tx_configure_ok [of demo_am_cfg 128 "\<lambda>_ n. n"] s by auto
  have reach: "am_tx_reach demo_am_cfg c" by (rule am_tx_reach.configured [OF c(1)]) (use s in auto)
  have cfg: "tx_cfg_sizes c" "tx_queue_ok (am_tx_queue c)" using c(2) by (simp_all add: am_tx_inv_def tx_win_def)
  have room: "length (queued (am_tx_queue c)) < bbq_capacity (am_tx_queue c)" using c(4,5) by simp
  obtain q where q: "am_tx_write_sdu (Some demo_tx_sdu) c = Ret (True, c\<lparr>am_tx_queue := q\<rparr>)" "queued q = [Some demo_tx_sdu]"
    using am_tx_write_room [OF cfg(2) c(3) _ room, of demo_tx_sdu] demo_tx_sdu c(4) by auto
  have "am_tx_reach demo_am_cfg (c\<lparr>am_tx_queue := q\<rparr>)" by (rule am_tx_reach.written [OF reach demo_tx_sdu q(1)])
  moreover have "tx_pending (c\<lparr>am_tx_queue := q\<rparr>)"
    using q(2) cfg(1) c(7) by (auto simp: tx_pending_def cm_full_def tx_cfg_sizes_def)
  moreover have "max_hdr_size c = 4" using cfg(1) c(6) by (auto simp: tx_cfg_sizes_def demo_am_cfg_def)
  ultimately show ?thesis using c(1) q(1) by auto
qed

text \<open>A grant of 5 bytes: a segment of at least one byte of the SDU is sent.\<close>

theorem am_nr_tx_sends_witness:
  "\<exists>c tx pdu tx'. am_nr_tx_configure (\<lambda>_ n. n) demo_am_cfg 128 am_nr_tx = Ret (True, c) \<and>
     am_tx_write_sdu (Some demo_tx_sdu) c = Ret (True, tx) \<and>
     am_nr_tx_read_pdu True True True 5 demo_am_rx tx = Ret (pdu, demo_am_rx, tx') \<and> pdu \<noteq> [] \<and> length pdu \<le> 5"
proof -
  obtain c tx where d: "am_nr_tx_configure (\<lambda>_ n. n) demo_am_cfg 128 am_nr_tx = Ret (True, c)"
    "am_tx_write_sdu (Some demo_tx_sdu) c = Ret (True, tx)" "am_tx_reach demo_am_cfg tx" "tx_pending tx" "max_hdr_size tx = 4"
    using demo_written by blast
  have "\<not> am_tx_do_status demo_am_rx"
    by (simp add: am_tx_do_status_def get_do_status_def demo_am_rx_def am_nr_rx_configure_def demo_am_cfg_def)
  from am_nr_tx_sends [OF d(3) this, of True True 5] d show ?thesis by auto
qed

theorem am_nr_tx_wellformed_witness:
  "\<exists>c tx A X ok tx' pdu rx' tx''. am_nr_tx_configure (\<lambda>_ n. n) demo_am_cfg 128 am_nr_tx = Ret (True, c) \<and>
     am_tx_write_sdu (Some demo_tx_sdu) c = Ret (True, tx) \<and> am_tx_inv A X tx \<and> am_tx_discard_sdu 0 tx = Ret (ok, tx') \<and>
     am_tx_do_status (demo_am_rx\<lparr>do_status := True\<rparr>) \<and>
     am_nr_tx_read_pdu True True True 5 (demo_am_rx\<lparr>do_status := True\<rparr>) tx = Ret (pdu, rx', tx'')"
proof -
  let ?rx = "demo_am_rx\<lparr>do_status := True\<rparr>"
  obtain c tx where d: "am_nr_tx_configure (\<lambda>_ n. n) demo_am_cfg 128 am_nr_tx = Ret (True, c)"
    "am_tx_write_sdu (Some demo_tx_sdu) c = Ret (True, tx)" "am_tx_reach demo_am_cfg tx"
    using demo_written by blast
  have "am_sdu_ok (am_stream [] i)" for i by (rule am_stream_ok) simp
  then have wf: "rx_well_formed ?rx"
    using am_rx_inv_poll [OF am_rx_inv_configure(1) [OF demo_am_rx, of "am_stream []"]] unfolding rx_well_formed_def by blast
  have n: "am_rx_sn_field_length demo_am_cfg = am_tx_sn_field_length demo_am_cfg \<and> 3 \<le> unat (5 :: u32) \<and> unat (5 :: u32) \<le> get_tailroom fresh_buffer"
    by (simp add: demo_am_cfg_def tailroom_fresh)
  have st: "am_tx_do_status ?rx"
    by (simp add: am_tx_do_status_def get_do_status_def demo_am_rx_def am_nr_rx_configure_def demo_am_cfg_def am_timer_0_def)
  note main = am_nr_tx_wellformed [OF d(3)]
  obtain A X where "am_tx_inv A X tx" using main by blast
  moreover obtain ok tx' where "am_tx_discard_sdu 0 tx = Ret (ok, tx')" using main by blast
  moreover obtain pdu rx' tx'' where "am_nr_tx_read_pdu True True True 5 ?rx tx = Ret (pdu, rx', tx'')"
    using main wf n by presburger
  ultimately show ?thesis using d(1,2) st by blast
qed

text \<open>
  C7. A status report arrives that acknowledges only what was sent, while at most one part of each
  SDU it acknowledges waits for its retransmission: the SDUs below the first missing one (or below ACK_SN) leave
  the window and PDCP is told their sequence numbers in order; all other SDUs stay with their data; and the state stays
  well-formed.  What is reported missing and is in the window is in the queue of retransmissions: an entry for the SDU,
  and for each of its segments that starts in a reported range.  If nothing of the SDU was waiting before the report,
  all that is missing is queued in full, byte for byte: such a segment from its first to its last byte, and, of an
  SDU reported as a whole (and not in another part of the report by ranges of bytes), every byte that was sent.
  If something of it was waiting, the code adds no entry for the SDU as a whole.
\<close>

theorem am_nr_tx_report:
  assumes inv: "am_tx_inv A X tx" and on: "am_tx_enabled tx"
    and read: "rlc_am_nr_status_pdu (tx_sz tx) = Some st0" "rlc_am_nr_read_status_pdu payload (tx_sz tx) st0 = Some (e, status)"
    and checks: "valid_ack_sn tx (ack_sn status)"
      "\<not> tx_mod_base_nr tx (am_tx_next (am_st tx) + 1) < tx_mod_base_nr tx (ack_sn status)"
    and fits: "report_fits status tx"
  shows "\<exists>S tx'. A \<le> S \<and> S \<le> X \<and> report_stop status = tx_sn tx S \<and>
    handle_control_pdu payload tx = Ret tx' \<and> report_done A S X status tx tx'"
proof -
  obtain S where S: "report_stop status = tx_sn tx S" "A \<le> S" "S \<le> X" "\<forall>i \<in> {A..<S}. retx_once (retx_queue tx) (tx_sn tx i)"
    by (rule report_fits_stop [OF inv fits])
  have "handle_control_pdu payload tx = handle_status status tx"
    using on read checks by (simp add: handle_control_pdu_def)
  then show ?thesis using handle_status_ok [OF inv S] S(1-3) by auto
qed

text \<open>An SDU was sent and waits for its retransmission; the report acknowledges it.\<close>

definition demo_sent_pdu :: rlc_amd_tx_pdu_nr where
  "demo_sent_pdu = amd_tx_pdu_0\<lparr>tx_pdcp_sn := 7, tx_header := am_piece_header am_size12bits 0 0 (data demo_tx_sdu) 0 6,
     tx_sdu_buf := Some demo_tx_sdu\<rparr>"

definition demo_sent_tx :: rlc_am_nr_tx where
  "demo_sent_tx = am_nr_tx\<lparr>am_tx_cfg := demo_am_cfg, am_tx_enabled := True,
     am_tx_window := cm_overwrite 0 demo_sent_pdu (static_circular_map 2048), am_st := am_tx_state_0\<lparr>am_tx_next := 1\<rparr>,
     retx_queue := [\<lparr>retx_sn = 0, is_segment = False, retx_so_start = 0, current_so = 0, segment_length = 6\<rparr>]\<rparr>"

lemma demo_sent_at: "tx_pdu_at demo_sent_tx k = (if k = 0 then Some demo_sent_pdu else None)"
  using cm.at_add [of "static_circular_map 2048" 0 demo_sent_pdu k] by (simp add: demo_sent_tx_def)

lemma demo_sent_inv: "am_tx_inv 0 1 demo_sent_tx"
proof -
  have f: "tx_mod_nr demo_sent_tx = 4096" "tx_W demo_sent_tx = 2048" "am_tx_queue demo_sent_tx = byte_buffer_queue 128"
    "sdu_under_segmentation_sn demo_sent_tx = INVALID_RLC_SN" "tx_sz demo_sent_tx = am_size12bits" "min_hdr_size demo_sent_tx = 2"
    "max_hdr_size demo_sent_tx = 4" "am_st demo_sent_tx = am_tx_state_0\<lparr>am_tx_next := 1\<rparr>"
    by (simp_all add: demo_sent_tx_def am_nr_tx_def demo_am_cfg_def cm_N_static)
  have e: "tx_end demo_sent_tx k = k" for k by (simp add: tx_end_def f)
  have one: "(\<exists>i<Suc 0. P i) \<longleftrightarrow> P 0" for P by auto
  have sdu: "am_sdu_ok (data demo_tx_sdu)" "N_bytes demo_tx_sdu = 6" using demo_tx_sdu by (simp_all add: demo_tx_sdu_def)
  have "cm_ok (am_tx_window demo_sent_tx)" using cm.ok_add [of "static_circular_map 2048"] by (simp add: demo_sent_tx_def)
  then have "tx_win demo_sent_tx 0 1"
    by (simp add: tx_win_def tx_cfg_sizes_def f e demo_sent_at am_tx_state_0_def am_sn_of_def one)
  moreover have "am_pdu_ok am_size12bits 0 False demo_sent_pdu"
    using sdu by (simp add: am_pdu_ok_def demo_sent_pdu_def amd_tx_pdu_0_def am_piece_header_def)
  then have "tx_pdus_ok demo_sent_tx 0 1"
    by (auto simp: tx_pdus_ok_def f e demo_sent_at am_sn_of_def)
  moreover have "retx_queue demo_sent_tx = [\<lparr>retx_sn = 0, is_segment = False, retx_so_start = 0, current_so = 0, segment_length = 6\<rparr>]"
    by (simp add: demo_sent_tx_def)
  moreover have "tx_queue_ok (byte_buffer_queue 128)"
    using bbq_ok_new [of 128] by (simp add: tx_queue_ok_def bbq_lim_def byte_buffer_queue_def cb_contents_static)
  ultimately show ?thesis
    using sdu by (simp add: am_tx_inv_def f retx_apart_def retx_ok_def demo_sent_at demo_sent_pdu_def amd_tx_pdu_0_def)
qed

theorem am_nr_tx_report_witness:
  "\<exists>tx' ev. handle_control_pdu [0, 1, 0] demo_sent_tx = Ret tx' \<and> am_tx_inv 1 1 tx' \<and>
     tx_events tx' = ev @ [Notify_delivery [7]]"
proof -
  let ?tx = demo_sent_tx
  have sz: "tx_sz ?tx = am_size12bits" "tx_mod_nr ?tx = 4096" "am_tx_next_ack (am_st ?tx) = 0" "am_tx_next (am_st ?tx) = 1"
    "am_tx_enabled ?tx"
    by (simp_all add: demo_sent_tx_def am_nr_tx_def demo_am_cfg_def am_tx_state_0_def)
  define st where "st = (the (rlc_am_nr_status_pdu am_size12bits))\<lparr>ack_sn := 1\<rparr>"
  obtain e where read: "rlc_am_nr_read_status_pdu [0, 1, 0] am_size12bits (the (rlc_am_nr_status_pdu am_size12bits)) = Some (e, st)"
    by (simp add: rlc_am_nr_read_status_pdu_def rlc_am_nr_read_status_pdu_12bit_sn_def status_reset_def read_nacks.simps Let_def
        st_def rlc_am_nr_status_pdu_def)
  have stop: "report_stop st = 1" "ack_sn st = 1" by (simp_all add: report_stop_def st_def rlc_am_nr_status_pdu_def)
  have base: "tx_mod_base_nr ?tx x = x mod 4096" for x by (simp add: tx_mod_base_nr_def sz)
  have fits: "report_fits st ?tx" 
    by (simp add: report_fits_def stop base sz retx_once_def) (simp add: demo_sent_tx_def)
  obtain S tx' where r: "S \<le> 1" "report_stop st = tx_sn ?tx S" "handle_control_pdu [0, 1, 0] ?tx = Ret tx'" "report_done 0 S 1 st ?tx tx'"
    using am_nr_tx_report [OF demo_sent_inv sz(5), of "the (rlc_am_nr_status_pdu am_size12bits)" "[0, 1, 0]" e st] read fits stop
    unfolding sz(1) by (auto simp: base sz valid_ack_sn_def am_tx_window_size_def rlc_am_nr_status_pdu_def)
  have "S = 1" using r(1,2) stop(1) by (cases S) (auto simp: am_sn_of_def sz)
  moreover have "tx_pdcp ?tx 0 = 7" by (simp add: tx_pdcp_def demo_sent_at am_sn_of_def demo_sent_pdu_def amd_tx_pdu_0_def)
  moreover have "tx_events ?tx = []" by (simp add: demo_sent_tx_def am_nr_tx_def)
  ultimately show ?thesis using r(3,4) by (auto simp: report_done_def)
qed

end
