(* ===== verification/AmNrTxDefects.thy ===== *)
theory AmNrTxDefects
  imports AmNrTxRun
begin

text \<open>
  Where the transmitter of \<^verbatim>\<open>rlc/rlc_am_nr.cc\<close> goes wrong: re-establishment leaves it stopped, and
  of an SDU with several retransmissions waiting only one is removed when it is acknowledged.
\<close>

text \<open>
  C36. Re-establishment stops the AM NR entity and does not enable it again: from then on it drops
  every SDU it is given, counting none, and every MAC opportunity gives nothing.
\<close>

theorem am_reestablish_stays_stopped:
  assumes "bbq_ok (am_tx_queue (am_tx e))"
  shows "\<exists>e'. am_reestablish e = Ret e' \<and> (\<forall>b. am_write_sdu (Some b) e' = Ret e') \<and>
    (\<forall>owns mem mem' n. am_read_pdu owns mem mem' n e' = Ret ([], e'))"
proof -
  obtain q where q: "am_tx_empty_queue (am_tx e) = Ret ((am_tx e)\<lparr>am_tx_queue := q\<rparr>)"
    using um_drain_ok [OF assms, of "bbq_size (am_tx_queue (am_tx e))"] by (auto simp: am_tx_empty_queue_def bbq_size_eq)
  have e: "e'\<lparr>am_tx := am_tx e'\<rparr> = e'" "e'\<lparr>am_rx := am_rx e', am_tx := am_tx e', am_metrics := am_metrics e'\<rparr> = e'" for e' :: rlc_am
    by simp_all
  show ?thesis
    using q by (simp add: am_reestablish_def am_nr_tx_reestablish_def am_nr_tx_stop_def am_write_sdu_def am_tx_write_sdu_def
        am_read_pdu_def am_nr_tx_read_pdu_def)
qed

text \<open>
  C35. Two segments of the oldest SDU wait for their retransmission, with something behind them; the SDU is then
  acknowledged.  One of the two entries stays at the front of the queue, its SDU is not in the window
  any more, and the next MAC opportunity reads the element it has just removed.
\<close>

theorem am_nr_tx_stale_retx:
  assumes ok: "cm_ok (am_tx_window tx)" and m: "am_modulus (tx_mod_nr tx)" and on: "am_tx_enabled tx"
    and sn: "tx_pdu_at tx (am_tx_next_ack (am_st tx)) \<noteq> None"
    and q: "retx_queue tx = r # r' # r'' # rest" "retx_sn r = am_tx_next_ack (am_st tx)" "retx_sn r' = am_tx_next_ack (am_st tx)"
    and status: "nacks status = []" "ack_sn status = (am_tx_next_ack (am_st tx) + 1) mod tx_mod_nr tx"
    and rx: "\<not> am_tx_do_status rx"
  shows "\<exists>tx'. handle_status status tx = Ret tx' \<and> retx_queue tx' = r' # r'' # rest \<and> tx_pdu_at tx' (retx_sn r') = None \<and>
    am_nr_tx_read_pdu owns mem mem' n rx tx' = Undef"
proof -
  let ?sn = "am_tx_next_ack (am_st tx)"
  define tx0 where "tx0 = (if tx_mod_base_nr tx (poll_sn (am_st tx)) < tx_mod_base_nr tx (ack_sn status)
      then tx\<lparr>poll_retransmit_timer := (poll_retransmit_timer tx)\<lparr>is_running := False\<rparr>\<rparr> else tx)"
  have f: "tx_mod_nr tx0 = tx_mod_nr tx" "retx_queue tx0 = retx_queue tx" "am_tx_window tx0 = am_tx_window tx" "am_st tx0 = am_st tx"
    "am_tx_enabled tx0" using on by (simp_all add: tx0_def)
  let ?t1 = "acked ?sn tx0"
  have "(?sn + 1 - ?sn) mod tx_mod_nr tx = 1" using m by (auto simp: am_modulus_def)
  then have base: "tx_mod_base_nr tx0 ?sn < tx_mod_base_nr tx0 (ack_sn status)"
    using sn_base_mod [OF m, of "?sn + 1" ?sn] by (simp add: tx_mod_base_nr_def f status(2) word_less_nat_alt)
  obtain pdu where pdu: "tx_pdu_at tx0 ?sn = Some pdu" using sn by (auto simp: f)
  obtain k where k: "unat (tx_mod_nr tx) = Suc k" using am_modulus_pos [OF m] by (cases "unat (tx_mod_nr tx)") auto
  have stop: "process_acks k' s s t = Ret ([], t)" for k' s t by (simp add: process_acks.simps [of k'])
  have acks: "process_acks (Suc k) ?sn (ack_sn status) tx0 = Ret ([tx_pdcp_sn pdu], ?t1)"
    unfolding process_acks.simps [of "Suc k"] f(1) status(2) [symmetric]
    using base pdu stop [of k "ack_sn status" ?t1] by (simp add: acked_def f status(2))
  define t2 where "t2 = ?t1\<lparr>tx_events := tx_events ?t1 @ [Notify_delivery [tx_pdcp_sn pdu]]\<rparr>"
  have res: "handle_status status tx = Ret t2"
    using acks unfolding handle_status_def tx0_def [symmetric]
    by (simp add: status(1) k Let_def t2_def acked_def f)
  have w: "retx_queue t2 = r' # r'' # rest" "am_tx_window t2 = snd (cm_erase ?sn (am_tx_window tx))" "am_tx_enabled t2"
    using q by (simp_all add: t2_def acked_def f)
  have gone: "tx_pdu_at t2 (retx_sn r') = None" using cm.at_remove [OF ok] by (simp add: w(2) q(3))
  have "am_nr_tx_read_pdu owns mem mem' n rx t2 = Undef"
    using rx w(1,3) gone by (simp add: am_nr_tx_read_pdu_def build_retx_pdu_def)
  then show ?thesis using res w(1) gone by blast
qed

text \<open>The SDU with the sequence number 0, sent in two segments that wait with a third retransmission.\<close>

theorem am_nr_tx_stale_retx_witness:
  "let entry = (\<lambda>so. \<lparr>retx_sn = 0, is_segment = True, retx_so_start = so, current_so = so, segment_length = 2\<rparr>);
       tx = demo_sent_tx\<lparr>retx_queue := [entry 0, entry 2, entry 4]\<rparr>
   in \<exists>tx'. handle_status ((the (rlc_am_nr_status_pdu am_size12bits))\<lparr>ack_sn := 1\<rparr>) tx = Ret tx' \<and>
        am_nr_tx_read_pdu True True True 10 demo_am_rx tx' = Undef"
proof -
  let ?entry = "\<lambda>so. \<lparr>retx_sn = 0, is_segment = True, retx_so_start = so, current_so = so, segment_length = 2\<rparr>"
  let ?tx = "demo_sent_tx\<lparr>retx_queue := [?entry 0, ?entry 2, ?entry 4]\<rparr>"
  have w: "cm_ok (am_tx_window ?tx)" "tx_pdu_at ?tx 0 \<noteq> None"
    using demo_sent_inv demo_sent_at [of 0] by (simp_all add: am_tx_inv_def tx_win_def)
  have f: "am_tx_next_ack (am_st ?tx) = 0" "tx_mod_nr ?tx = 4096" "am_tx_enabled ?tx"
    by (simp_all add: demo_sent_tx_def am_nr_tx_def am_tx_state_0_def)
  have "\<not> am_tx_do_status demo_am_rx" by (simp add: am_tx_do_status_def get_do_status_def demo_am_rx_def am_nr_rx_configure_def demo_am_cfg_def)
  then show ?thesis
    using am_nr_tx_stale_retx [where tx = ?tx and r = "?entry 0" and r' = "?entry 2" and r'' = "?entry 4" and rest = "[]" and rx = demo_am_rx
        and status = "(the (rlc_am_nr_status_pdu am_size12bits))\<lparr>ack_sn := 1\<rparr>" and owns = True and mem = True and mem' = True and n = 10]
      w f by (auto simp: Let_def am_modulus_def rlc_am_nr_status_pdu_def)
qed

theorem am_reestablish_stays_stopped_witness:
  "\<exists>e'. am_reestablish \<lparr>am_tx = demo_sent_tx, am_rx = demo_am_rx, am_metrics = rlc_bearer_metrics_0\<rparr> = Ret e' \<and>
     am_read_pdu True True True 100 e' = Ret ([], e')"
proof -
  have "bbq_ok (am_tx_queue demo_sent_tx)" using demo_sent_inv by (simp add: am_tx_inv_def tx_queue_ok_def)
  then show ?thesis
    using am_reestablish_stays_stopped [of "\<lparr>am_tx = demo_sent_tx, am_rx = demo_am_rx, am_metrics = rlc_bearer_metrics_0\<rparr>"] by auto
qed

end
