(* ===== verification/AmNrDefects.thy ===== *)
theory AmNrDefects
  imports AmNrReassembly
begin

text \<open>
  Where the receiver of \<^verbatim>\<open>rlc/rlc_am_nr.cc\<close> goes wrong.  The check for bytes that were received
  before looks only at the ends of the new segment, so a segment that contains a stored one
  strictly inside is stored beside it.  The receiver is run on the concrete PDUs.
\<close>


definition demo_sdu :: bytes where "demo_sdu = [1, 2, 3, 4, 5, 6]"

lemma demo_sdu: "am_sdu_ok demo_sdu" "length demo_sdu = 6"
  by (simp_all add: demo_sdu_def am_sdu_ok_def get_tailroom_def fresh_buffer_def buffer_sizes)

definition demo_segment :: "nat \<Rightarrow> nat \<Rightarrow> rlc_amd_rx_pdu_nr" where
  "demo_segment so len = \<lparr>seg_header = am_piece_header am_size12bits 0 0 demo_sdu so len,
     seg_buf = fresh_buffer\<lparr>data := take len (drop so demo_sdu)\<rparr>\<rparr>"

definition demo_holding :: "rlc_amd_rx_pdu_nr list \<Rightarrow> rlc_am_nr_rx" where
  "demo_holding segs = demo_am_rx\<lparr>
     am_rx_window := cm_overwrite 0 (update_segment_inventory (rx_sdu_0\<lparr>am_segments := segs\<rparr>)) (am_rx_window demo_am_rx),
     rx_next_status_trigger := 1, rx_next_highest := 1,
     reassembly_timer := \<lparr>timer_set = True, is_running = True\<rparr>\<rparr>"

lemma demo_handle:
  assumes "piece_ok demo_sdu so len" and rx: "am_rx_sn_field_length (am_rx_cfg rx) = am_size12bits"
  defines "h \<equiv> am_piece_header am_size12bits 0 0 demo_sdu so len"
  shows "am_nr_rx_handle_data_pdu True True (am_piece_pdu am_size12bits 0 0 demo_sdu so len) rx =
    (if \<not> inside_rx_window rx 0 \<or> rx_received rx 0 then Ret rx
     else if len \<noteq> 6 \<and> (case cm_at (am_rx_window rx) 0 of None \<Rightarrow> False
                | Some s \<Rightarrow> list_ex (overlaps_segment h (of_nat (rlc_am_nr_packed_length h + len)) (of_nat (rlc_am_nr_packed_length h)))
                             (am_segments s)) then Ret rx
     else bind_outcome
       (if len = 6 then handle_full_data_sdu True h (am_piece_pdu am_size12bits 0 0 demo_sdu so len) rx
        else handle_segment_data_sdu True True h (am_piece_pdu am_size12bits 0 0 demo_sdu so len) rx)
       (\<lambda>(ok, rx). if \<not> ok then Ret rx else rx_pdu_placed 0 rx))"
proof -
  note r = am_piece_read [OF demo_sdu(1) assms(1), of am_size12bits 0 0, simplified]
  have si: "am_si h = full_sdu \<longleftrightarrow> len = 6" using am_piece_si(1) [OF assms(1)] by (simp add: h_def demo_sdu(2))
  show ?thesis
    unfolding am_nr_rx_handle_data_pdu_def rx r(1) r(2) h_def [symmetric] option.case prod.case Let_def si
    using rx by (simp add: h_def [THEN meta_eq_to_obj_eq] cong: if_cong)
qed

lemma demo_handle_segment:
  fixes rx :: rlc_am_nr_rx
  assumes "piece_ok demo_sdu so len" "len \<noteq> 6"
  defines "h \<equiv> am_piece_header am_size12bits 0 0 demo_sdu so len"
    and "rx_sdu \<equiv> case cm_at (am_rx_window rx) 0 of Some s \<Rightarrow> s | None \<Rightarrow> rx_sdu_0"
  shows "handle_segment_data_sdu True True h (am_piece_pdu am_size12bits 0 0 demo_sdu so len) rx =
    (let s = update_segment_inventory (rx_sdu\<lparr>am_segments := insert_received_segment (demo_segment so len) (am_segments rx_sdu)\<rparr>)
     in if fully_received s
        then bind_outcome (assemble_segments (am_segments s) fresh_buffer) (\<lambda>b.
               Ret (True, rx\<lparr>am_rx_window := cm_overwrite 0 (s\<lparr>rx_sdu_buf := Some b\<rparr>) (am_rx_window rx)\<rparr>))
        else Ret (True, rx\<lparr>am_rx_window := cm_overwrite 0 s (am_rx_window rx)\<rparr>))"
proof -
  note r = am_piece_read [OF demo_sdu(1) assms(1), of am_size12bits 0 0, simplified]
  have si: "am_si h = full_sdu \<longleftrightarrow> len = 6" using am_piece_si(1) [OF assms(1)] by (simp add: h_def demo_sdu(2))
  have room: "\<not> get_tailroom fresh_buffer < len" using assms(1) by (simp add: piece_ok_def demo_sdu(2) get_tailroom_def fresh_buffer_def buffer_sizes)
  show ?thesis
    unfolding handle_segment_data_sdu_def si
    using room by (simp add: assms(2) r(2,3) h_def demo_segment_def rx_sdu_def Let_def)
qed
lemma demo_am_rx_fields [simp]:
  "am_rx_cfg demo_am_rx = demo_am_cfg" "rx_mod_nr demo_am_rx = 4096" "am_rx_window demo_am_rx = static_circular_map 2048"
  "am_rx_next demo_am_rx = 0" "rx_next_highest demo_am_rx = 0" "rx_highest_status demo_am_rx = 0"
  "reassembly_timer demo_am_rx = \<lparr>timer_set = True, is_running = False\<rparr>" "am_to_pdcp demo_am_rx = []"
  "am_rx_sn_field_length demo_am_cfg = am_size12bits"
  by (simp_all add: demo_am_rx_def am_nr_rx_configure_def demo_am_cfg_def am_timer_0_def)

lemma demo_am_rx_eq:
  "demo_am_rx = \<lparr>am_rx_cfg = demo_am_cfg, rx_mod_nr = 4096, am_rx_window = static_circular_map 2048,
     am_rx_next = 0, rx_next_status_trigger = 0, rx_highest_status = 0, rx_next_highest = 0, do_status = False,
     status_prohibit_timer = \<lparr>timer_set = True, is_running = False\<rparr>, reassembly_timer = \<lparr>timer_set = True, is_running = False\<rparr>,
     am_to_pdcp = [], num_rx_sdus = 0, num_rx_sdu_bytes = 0\<rparr>"
  by (simp_all add: demo_am_rx_def am_nr_rx_configure_def demo_am_cfg_def am_timer_0_def)

lemma two_le_one: "\<not> (2 :: u32) \<le> 1" by (simp add: word_le_nat_alt)

lemmas rx_eval = two_le_one rx_pdu_placed_def rx_update_timer_def rx_sdu_complete_def write_to_upper_layers_def
  run_reassembly_def start_reassembly_def stop_reassembly_def rx_gap_def rx_received_def rx_mod_base_nr_def
  inside_rx_window_def am_rx_window_size_def cm_at_def cm_contains_def cm_idx_def cm_overwrite_def cm_insert_def
  cm_erase_def static_circular_map_def update_segment_inventory_def rx_sdu_0_def

lemmas demo_eval = demo_segment_def am_piece_header_def demo_sdu demo_holding_def demo_am_rx_eq has_so_field_def
  rlc_am_nr_packed_length_def overlaps_segment_def rx_eval

lemmas loop_eval = rx_fuel_def skip_received.simps remove_received.simps nack_loop.simps

text \<open>One segment, the event in which it arrives.\<close>

lemma demo_segment_step:
  assumes "piece_ok demo_sdu so len" "len \<noteq> 6" "am_rx_sn_field_length (am_rx_cfg rx) = am_size12bits"
  shows "am_rx_step (am_stream [demo_sdu]) (Rx_pdu 0 0 so len) rx =
    (let h = am_piece_header am_size12bits 0 0 demo_sdu so len;
         rx_sdu = (case cm_at (am_rx_window rx) 0 of Some s \<Rightarrow> s | None \<Rightarrow> rx_sdu_0);
         s = update_segment_inventory
               (rx_sdu\<lparr>am_segments := insert_received_segment (demo_segment so len) (am_segments rx_sdu)\<rparr>)
     in if \<not> inside_rx_window rx 0 \<or> rx_received rx 0 \<or>
           (case cm_at (am_rx_window rx) 0 of None \<Rightarrow> False
            | Some s \<Rightarrow> list_ex (overlaps_segment h (of_nat (rlc_am_nr_packed_length h + len))
                                (of_nat (rlc_am_nr_packed_length h))) (am_segments s)) then Ret rx
        else if fully_received s
        then bind_outcome (assemble_segments (am_segments s) fresh_buffer) (\<lambda>b.
               rx_pdu_placed 0 (rx\<lparr>am_rx_window := cm_overwrite 0 (s\<lparr>rx_sdu_buf := Some b\<rparr>) (am_rx_window rx)\<rparr>))
        else rx_pdu_placed 0 (rx\<lparr>am_rx_window := cm_overwrite 0 s (am_rx_window rx)\<rparr>))"
proof -
  have s: "rx_sn rx 0 = 0" "am_stream [demo_sdu] 0 = demo_sdu" by (simp_all add: am_sn_of_def am_stream_def)
  show ?thesis
    unfolding am_rx_step_def am_rx_event.case rx_piece_pdu_def assms(3) s demo_handle [OF assms(1,3)]
      demo_handle_segment [OF assms(1,2)]
    using assms(2)
    by (cases "assemble_segments (am_segments (update_segment_inventory
         ((case cm_at (am_rx_window rx) 0 of Some s \<Rightarrow> s | None \<Rightarrow> rx_sdu_0)\<lparr>am_segments := insert_received_segment
            (demo_segment so len) (am_segments (case cm_at (am_rx_window rx) 0 of Some s \<Rightarrow> s | None \<Rightarrow> rx_sdu_0))\<rparr>))) fresh_buffer")
       (simp_all add: Let_def)
qed

lemma demo_steps:
  "am_rx_step (am_stream [demo_sdu]) (Rx_pdu 0 0 2 1) demo_am_rx = Ret (demo_holding [demo_segment 2 1])"
  "am_rx_step (am_stream [demo_sdu]) (Rx_pdu 0 0 1 5) (demo_holding [demo_segment 2 1])
     = Ret (demo_holding [demo_segment 1 5, demo_segment 2 1])"
  "am_rx_step (am_stream [demo_sdu]) (Rx_pdu 0 0 1 4) (demo_holding [demo_segment 2 1])
     = Ret (demo_holding [demo_segment 1 4, demo_segment 2 1])"
proof -
  have p: "piece_ok demo_sdu 2 1" "piece_ok demo_sdu 1 5" "piece_ok demo_sdu 1 4" "(1 :: nat) \<noteq> 6" "(5 :: nat) \<noteq> 6" "(4 :: nat) \<noteq> 6"
    by (simp_all add: piece_ok_def demo_sdu)
  have c: "am_rx_sn_field_length (am_rx_cfg demo_am_rx) = am_size12bits"
    "am_rx_sn_field_length (am_rx_cfg (demo_holding ss)) = am_size12bits" for ss by (simp_all add: demo_holding_def)
  note step = demo_segment_step [OF p(1,4) c(1)] demo_segment_step [OF p(2,5) c(2)] demo_segment_step [OF p(3,6) c(2)]
  show "am_rx_step (am_stream [demo_sdu]) (Rx_pdu 0 0 2 1) demo_am_rx = Ret (demo_holding [demo_segment 2 1])"
    unfolding step(1) by (simp add: demo_eval)
  show "am_rx_step (am_stream [demo_sdu]) (Rx_pdu 0 0 1 5) (demo_holding [demo_segment 2 1])
     = Ret (demo_holding [demo_segment 1 5, demo_segment 2 1])"
    unfolding step(2) by (simp add: demo_eval)
  show "am_rx_step (am_stream [demo_sdu]) (Rx_pdu 0 0 1 4) (demo_holding [demo_segment 2 1])
     = Ret (demo_holding [demo_segment 1 4, demo_segment 2 1])"
    unfolding step(3) by (simp add: demo_eval)
qed

lemma demo_extra_byte:
  "\<exists>rx'. am_rx_step (am_stream [demo_sdu]) (Rx_pdu 0 0 0 1) (demo_holding [demo_segment 1 5, demo_segment 2 1]) = Ret rx' \<and>
     map data (am_to_pdcp rx') = [[1, 2, 3, 4, 5, 6, 3]]"
proof -
  have p: "piece_ok demo_sdu 0 1" "(1 :: nat) \<noteq> 6" by (simp_all add: piece_ok_def demo_sdu)
  have c: "am_rx_sn_field_length (am_rx_cfg (demo_holding ss)) = am_size12bits" for ss by (simp add: demo_holding_def)
  show ?thesis
    unfolding demo_segment_step [OF p c]
    by (simp add: demo_eval demo_sdu_def append_bytes_def get_tailroom_def fresh_buffer_def buffer_sizes loop_eval)
qed

lemma demo_status_undef:
  "bind_outcome (am_rx_step f (Rx_expire Reassembly) (demo_holding [demo_segment 1 4, demo_segment 2 1])) (am_rx_step f (Rx_status 100))
     = Undef"
  by (simp add: am_rx_step_def am_rx_timer_of_def am_nr_rx_expire_def am_nr_rx_timer_expired_def demo_eval loop_eval
      rx_valid_ack_sn_def example_status get_status_pdu_def nack_sdu_def rlc_status_nack_def)

lemma am_rx_run_last: "am_rx_run f [e] = am_rx_step f e"
proof
  show "am_rx_run f [e] rx = am_rx_step f e rx" for rx by (cases "am_rx_step f e rx") simp_all
qed

text \<open>
  C34. A segment that contains an earlier one strictly inside.  Of an SDU of six bytes byte 2
  arrives, then bytes 1 to 5, then byte 0: the receiver hands over seven bytes, byte 2 twice.
  When bytes 1 to 4 come second and a status report is due, building it fails an assertion.
\<close>

theorem am_nr_rx_engulfing_segment:
  "(\<exists>rx'. am_rx_run (am_stream [demo_sdu]) [Rx_pdu 0 0 2 1, Rx_pdu 0 0 1 5, Rx_pdu 0 0 0 1] demo_am_rx = Ret rx' \<and>
      map data (am_to_pdcp rx') = [[1, 2, 3, 4, 5, 6, 3]]) \<and>
   am_rx_run (am_stream [demo_sdu]) [Rx_pdu 0 0 2 1, Rx_pdu 0 0 1 4, Rx_expire Reassembly, Rx_status 100] demo_am_rx = Undef"
proof (rule conjI)
  show "\<exists>rx'. am_rx_run (am_stream [demo_sdu]) [Rx_pdu 0 0 2 1, Rx_pdu 0 0 1 5, Rx_pdu 0 0 0 1] demo_am_rx = Ret rx' \<and>
      map data (am_to_pdcp rx') = [[1, 2, 3, 4, 5, 6, 3]]"
    unfolding am_rx_run_last am_rx_run.simps(2) demo_steps bind_outcome.simps am_rx_run_last using demo_extra_byte .
  show "am_rx_run (am_stream [demo_sdu]) [Rx_pdu 0 0 2 1, Rx_pdu 0 0 1 4, Rx_expire Reassembly, Rx_status 100] demo_am_rx = Undef"
    unfolding am_rx_run_last am_rx_run.simps(2) demo_steps bind_outcome.simps am_rx_run_last using demo_status_undef .
qed

end
