(* ===== verification/Zuc.thy ===== *)
theory Zuc
  imports Prelude
begin

text \<open>
  The stream cipher of the algorithms EEA3 and EIA3, from
  \<^verbatim>\<open>AIRadio/lib/src/common/zuc.cc\<close> and its header: the shift register of 31-bit cells, the
  bit reorganization, the nonlinear function \<^verbatim>\<open>F\<close> and the loops that load a key and
  generate keystream words. \<^verbatim>\<open>zuc_state_t\<close> is the record, every function returns the state it
  leaves. The lemmas show that the 32-bit arithmetic of the code is arithmetic modulo
  2^31 - 1 on representatives that are never 0.
\<close>

section \<open>Macros and tables\<close>

definition MAKEU32 :: "u8 \<Rightarrow> u8 \<Rightarrow> u8 \<Rightarrow> u8 \<Rightarrow> u32" where
  "MAKEU32 a b c d = push_bit 24 (ucast a) OR push_bit 16 (ucast b) OR push_bit 8 (ucast c) OR ucast d"

definition MulByPow2 :: "u32 \<Rightarrow> nat \<Rightarrow> u32" where
  "MulByPow2 x k = (push_bit k x OR drop_bit (31 - k) x) AND 0x7FFFFFFF"

definition MAKEU31 :: "u8 \<Rightarrow> u32 \<Rightarrow> u8 \<Rightarrow> u32" where
  "MAKEU31 a b c = push_bit 23 (ucast a) OR push_bit 8 b OR ucast c"

definition ROT :: "u32 \<Rightarrow> nat \<Rightarrow> u32" where
  "ROT a k = push_bit k a OR drop_bit (32 - k) a"

definition ZUC_S0 :: "u8 list" where
  "ZUC_S0 = [
    0x3e, 0x72, 0x5b, 0x47, 0xca, 0xe0, 0x00, 0x33, 0x04, 0xd1, 0x54, 0x98, 0x09, 0xb9, 0x6d,
    0xcb, 0x7b, 0x1b, 0xf9, 0x32, 0xaf, 0x9d, 0x6a, 0xa5, 0xb8, 0x2d, 0xfc, 0x1d, 0x08, 0x53,
    0x03, 0x90, 0x4d, 0x4e, 0x84, 0x99, 0xe4, 0xce, 0xd9, 0x91, 0xdd, 0xb6, 0x85, 0x48, 0x8b,
    0x29, 0x6e, 0xac, 0xcd, 0xc1, 0xf8, 0x1e, 0x73, 0x43, 0x69, 0xc6, 0xb5, 0xbd, 0xfd, 0x39,
    0x63, 0x20, 0xd4, 0x38, 0x76, 0x7d, 0xb2, 0xa7, 0xcf, 0xed, 0x57, 0xc5, 0xf3, 0x2c, 0xbb,
    0x14, 0x21, 0x06, 0x55, 0x9b, 0xe3, 0xef, 0x5e, 0x31, 0x4f, 0x7f, 0x5a, 0xa4, 0x0d, 0x82,
    0x51, 0x49, 0x5f, 0xba, 0x58, 0x1c, 0x4a, 0x16, 0xd5, 0x17, 0xa8, 0x92, 0x24, 0x1f, 0x8c,
    0xff, 0xd8, 0xae, 0x2e, 0x01, 0xd3, 0xad, 0x3b, 0x4b, 0xda, 0x46, 0xeb, 0xc9, 0xde, 0x9a,
    0x8f, 0x87, 0xd7, 0x3a, 0x80, 0x6f, 0x2f, 0xc8, 0xb1, 0xb4, 0x37, 0xf7, 0x0a, 0x22, 0x13,
    0x28, 0x7c, 0xcc, 0x3c, 0x89, 0xc7, 0xc3, 0x96, 0x56, 0x07, 0xbf, 0x7e, 0xf0, 0x0b, 0x2b,
    0x97, 0x52, 0x35, 0x41, 0x79, 0x61, 0xa6, 0x4c, 0x10, 0xfe, 0xbc, 0x26, 0x95, 0x88, 0x8a,
    0xb0, 0xa3, 0xfb, 0xc0, 0x18, 0x94, 0xf2, 0xe1, 0xe5, 0xe9, 0x5d, 0xd0, 0xdc, 0x11, 0x66,
    0x64, 0x5c, 0xec, 0x59, 0x42, 0x75, 0x12, 0xf5, 0x74, 0x9c, 0xaa, 0x23, 0x0e, 0x86, 0xab,
    0xbe, 0x2a, 0x02, 0xe7, 0x67, 0xe6, 0x44, 0xa2, 0x6c, 0xc2, 0x93, 0x9f, 0xf1, 0xf6, 0xfa,
    0x36, 0xd2, 0x50, 0x68, 0x9e, 0x62, 0x71, 0x15, 0x3d, 0xd6, 0x40, 0xc4, 0xe2, 0x0f, 0x8e,
    0x83, 0x77, 0x6b, 0x25, 0x05, 0x3f, 0x0c, 0x30, 0xea, 0x70, 0xb7, 0xa1, 0xe8, 0xa9, 0x65,
    0x8d, 0x27, 0x1a, 0xdb, 0x81, 0xb3, 0xa0, 0xf4, 0x45, 0x7a, 0x19, 0xdf, 0xee, 0x78, 0x34, 0x60]"

definition ZUC_S1 :: "u8 list" where
  "ZUC_S1 = [
    0x55, 0xc2, 0x63, 0x71, 0x3b, 0xc8, 0x47, 0x86, 0x9f, 0x3c, 0xda, 0x5b, 0x29, 0xaa, 0xfd,
    0x77, 0x8c, 0xc5, 0x94, 0x0c, 0xa6, 0x1a, 0x13, 0x00, 0xe3, 0xa8, 0x16, 0x72, 0x40, 0xf9,
    0xf8, 0x42, 0x44, 0x26, 0x68, 0x96, 0x81, 0xd9, 0x45, 0x3e, 0x10, 0x76, 0xc6, 0xa7, 0x8b,
    0x39, 0x43, 0xe1, 0x3a, 0xb5, 0x56, 0x2a, 0xc0, 0x6d, 0xb3, 0x05, 0x22, 0x66, 0xbf, 0xdc,
    0x0b, 0xfa, 0x62, 0x48, 0xdd, 0x20, 0x11, 0x06, 0x36, 0xc9, 0xc1, 0xcf, 0xf6, 0x27, 0x52,
    0xbb, 0x69, 0xf5, 0xd4, 0x87, 0x7f, 0x84, 0x4c, 0xd2, 0x9c, 0x57, 0xa4, 0xbc, 0x4f, 0x9a,
    0xdf, 0xfe, 0xd6, 0x8d, 0x7a, 0xeb, 0x2b, 0x53, 0xd8, 0x5c, 0xa1, 0x14, 0x17, 0xfb, 0x23,
    0xd5, 0x7d, 0x30, 0x67, 0x73, 0x08, 0x09, 0xee, 0xb7, 0x70, 0x3f, 0x61, 0xb2, 0x19, 0x8e,
    0x4e, 0xe5, 0x4b, 0x93, 0x8f, 0x5d, 0xdb, 0xa9, 0xad, 0xf1, 0xae, 0x2e, 0xcb, 0x0d, 0xfc,
    0xf4, 0x2d, 0x46, 0x6e, 0x1d, 0x97, 0xe8, 0xd1, 0xe9, 0x4d, 0x37, 0xa5, 0x75, 0x5e, 0x83,
    0x9e, 0xab, 0x82, 0x9d, 0xb9, 0x1c, 0xe0, 0xcd, 0x49, 0x89, 0x01, 0xb6, 0xbd, 0x58, 0x24,
    0xa2, 0x5f, 0x38, 0x78, 0x99, 0x15, 0x90, 0x50, 0xb8, 0x95, 0xe4, 0xd0, 0x91, 0xc7, 0xce,
    0xed, 0x0f, 0xb4, 0x6f, 0xa0, 0xcc, 0xf0, 0x02, 0x4a, 0x79, 0xc3, 0xde, 0xa3, 0xef, 0xea,
    0x51, 0xe6, 0x6b, 0x18, 0xec, 0x1b, 0x2c, 0x80, 0xf7, 0x74, 0xe7, 0xff, 0x21, 0x5a, 0x6a,
    0x54, 0x1e, 0x41, 0x31, 0x92, 0x35, 0xc4, 0x33, 0x07, 0x0a, 0xba, 0x7e, 0x0e, 0x34, 0x88,
    0xb1, 0x98, 0x7c, 0xf3, 0x3d, 0x60, 0x6c, 0x7b, 0xca, 0xd3, 0x1f, 0x32, 0x65, 0x04, 0x28,
    0x64, 0xbe, 0x85, 0x9b, 0x2f, 0x59, 0x8a, 0xd7, 0xb0, 0x25, 0xac, 0xaf, 0x12, 0x03, 0xe2, 0xf2]"

definition EK_d :: "u32 list" where
  "EK_d = [
    0x44D7, 0x26BC, 0x626B, 0x135E, 0x5789, 0x35E2, 0x7135, 0x09AF, 0x4D78, 0x2F13, 0x6BC4,
    0x1AF1, 0x5E26, 0x3C4D, 0x789A, 0x47AC]"

section \<open>State and operations\<close>

record zuc_state =
  LFSR_S0 :: u32
  LFSR_S1 :: u32
  LFSR_S2 :: u32
  LFSR_S3 :: u32
  LFSR_S4 :: u32
  LFSR_S5 :: u32
  LFSR_S6 :: u32
  LFSR_S7 :: u32
  LFSR_S8 :: u32
  LFSR_S9 :: u32
  LFSR_S10 :: u32
  LFSR_S11 :: u32
  LFSR_S12 :: u32
  LFSR_S13 :: u32
  LFSR_S14 :: u32
  LFSR_S15 :: u32
  F_R1 :: u32
  F_R2 :: u32
  BRC_X0 :: u32
  BRC_X1 :: u32
  BRC_X2 :: u32
  BRC_X3 :: u32

text \<open>Addition modulo 2^31 - 1, as the code computes it.\<close>

definition AddM :: "u32 \<Rightarrow> u32 \<Rightarrow> u32" where
  "AddM a b = (let c = a + b in (c AND 0x7FFFFFFF) + drop_bit 31 c)"

definition LFSRWithInitialisationMode :: "zuc_state \<Rightarrow> u32 \<Rightarrow> zuc_state" where
  "LFSRWithInitialisationMode st u =
    (let f = LFSR_S0 st;
         f = AddM f (MulByPow2 (LFSR_S0 st) 8);
         f = AddM f (MulByPow2 (LFSR_S4 st) 20);
         f = AddM f (MulByPow2 (LFSR_S10 st) 21);
         f = AddM f (MulByPow2 (LFSR_S13 st) 17);
         f = AddM f (MulByPow2 (LFSR_S15 st) 15);
         f = AddM f u
     in st\<lparr>
       LFSR_S0 := LFSR_S1 st,
       LFSR_S1 := LFSR_S2 st,
       LFSR_S2 := LFSR_S3 st,
       LFSR_S3 := LFSR_S4 st,
       LFSR_S4 := LFSR_S5 st,
       LFSR_S5 := LFSR_S6 st,
       LFSR_S6 := LFSR_S7 st,
       LFSR_S7 := LFSR_S8 st,
       LFSR_S8 := LFSR_S9 st,
       LFSR_S9 := LFSR_S10 st,
       LFSR_S10 := LFSR_S11 st,
       LFSR_S11 := LFSR_S12 st,
       LFSR_S12 := LFSR_S13 st,
       LFSR_S13 := LFSR_S14 st,
       LFSR_S14 := LFSR_S15 st,
       LFSR_S15 := f\<rparr>)"

definition LFSRWithWorkMode :: "zuc_state \<Rightarrow> zuc_state" where
  "LFSRWithWorkMode st =
    (let f = LFSR_S0 st;
         f = AddM f (MulByPow2 (LFSR_S0 st) 8);
         f = AddM f (MulByPow2 (LFSR_S4 st) 20);
         f = AddM f (MulByPow2 (LFSR_S10 st) 21);
         f = AddM f (MulByPow2 (LFSR_S13 st) 17);
         f = AddM f (MulByPow2 (LFSR_S15 st) 15)
     in st\<lparr>
       LFSR_S0 := LFSR_S1 st,
       LFSR_S1 := LFSR_S2 st,
       LFSR_S2 := LFSR_S3 st,
       LFSR_S3 := LFSR_S4 st,
       LFSR_S4 := LFSR_S5 st,
       LFSR_S5 := LFSR_S6 st,
       LFSR_S6 := LFSR_S7 st,
       LFSR_S7 := LFSR_S8 st,
       LFSR_S8 := LFSR_S9 st,
       LFSR_S9 := LFSR_S10 st,
       LFSR_S10 := LFSR_S11 st,
       LFSR_S11 := LFSR_S12 st,
       LFSR_S12 := LFSR_S13 st,
       LFSR_S13 := LFSR_S14 st,
       LFSR_S14 := LFSR_S15 st,
       LFSR_S15 := f\<rparr>)"

definition BitReorganization :: "zuc_state \<Rightarrow> zuc_state" where
  "BitReorganization st = st\<lparr>
     BRC_X0 := push_bit 1 (LFSR_S15 st AND 0x7FFF8000) OR (LFSR_S14 st AND 0xFFFF),
     BRC_X1 := push_bit 16 (LFSR_S11 st AND 0xFFFF) OR drop_bit 15 (LFSR_S9 st),
     BRC_X2 := push_bit 16 (LFSR_S7 st AND 0xFFFF) OR drop_bit 15 (LFSR_S5 st),
     BRC_X3 := push_bit 16 (LFSR_S2 st AND 0xFFFF) OR drop_bit 15 (LFSR_S0 st)\<rparr>"

definition ZUC_L1 :: "u32 \<Rightarrow> u32" where
  "ZUC_L1 X = X XOR ROT X 2 XOR ROT X 10 XOR ROT X 18 XOR ROT X 24"

definition ZUC_L2 :: "u32 \<Rightarrow> u32" where
  "ZUC_L2 X = X XOR ROT X 8 XOR ROT X 14 XOR ROT X 22 XOR ROT X 30"

definition zuc_sboxes :: "u32 \<Rightarrow> u32" where
  "zuc_sboxes u = MAKEU32 (ZUC_S0 ! unat (drop_bit 24 u)) (ZUC_S1 ! unat (drop_bit 16 u AND 0xFF))
     (ZUC_S0 ! unat (drop_bit 8 u AND 0xFF)) (ZUC_S1 ! unat (u AND 0xFF))"

definition ZUC_F :: "zuc_state \<Rightarrow> u32 \<times> zuc_state" where
  "ZUC_F st =
    (let W = (BRC_X0 st XOR F_R1 st) + F_R2 st;
         W1 = F_R1 st + BRC_X1 st;
         W2 = F_R2 st XOR BRC_X2 st;
         u = ZUC_L1 (push_bit 16 W1 OR drop_bit 16 W2);
         v = ZUC_L2 (push_bit 16 W2 OR drop_bit 16 W1)
     in (W, st\<lparr>F_R1 := zuc_sboxes u, F_R2 := zuc_sboxes v\<rparr>))"

definition zuc_load :: "zuc_state \<Rightarrow> u8 list \<Rightarrow> u8 list \<Rightarrow> zuc_state" where
  "zuc_load st k iv = st\<lparr>
     LFSR_S0 := MAKEU31 (k ! 0) (EK_d ! 0) (iv ! 0),
     LFSR_S1 := MAKEU31 (k ! 1) (EK_d ! 1) (iv ! 1),
     LFSR_S2 := MAKEU31 (k ! 2) (EK_d ! 2) (iv ! 2),
     LFSR_S3 := MAKEU31 (k ! 3) (EK_d ! 3) (iv ! 3),
     LFSR_S4 := MAKEU31 (k ! 4) (EK_d ! 4) (iv ! 4),
     LFSR_S5 := MAKEU31 (k ! 5) (EK_d ! 5) (iv ! 5),
     LFSR_S6 := MAKEU31 (k ! 6) (EK_d ! 6) (iv ! 6),
     LFSR_S7 := MAKEU31 (k ! 7) (EK_d ! 7) (iv ! 7),
     LFSR_S8 := MAKEU31 (k ! 8) (EK_d ! 8) (iv ! 8),
     LFSR_S9 := MAKEU31 (k ! 9) (EK_d ! 9) (iv ! 9),
     LFSR_S10 := MAKEU31 (k ! 10) (EK_d ! 10) (iv ! 10),
     LFSR_S11 := MAKEU31 (k ! 11) (EK_d ! 11) (iv ! 11),
     LFSR_S12 := MAKEU31 (k ! 12) (EK_d ! 12) (iv ! 12),
     LFSR_S13 := MAKEU31 (k ! 13) (EK_d ! 13) (iv ! 13),
     LFSR_S14 := MAKEU31 (k ! 14) (EK_d ! 14) (iv ! 14),
     LFSR_S15 := MAKEU31 (k ! 15) (EK_d ! 15) (iv ! 15),
     F_R1 := 0, F_R2 := 0\<rparr>"

definition zuc_init_round :: "zuc_state \<Rightarrow> zuc_state" where
  "zuc_init_round st =
    (let (w, st) = ZUC_F (BitReorganization st) in LFSRWithInitialisationMode st (drop_bit 1 w))"

text \<open>\<^verbatim>\<open>k\<close> and \<^verbatim>\<open>iv\<close> are arrays of at least 16 bytes.\<close>

definition zuc_initialize :: "zuc_state \<Rightarrow> u8 list \<Rightarrow> u8 list \<Rightarrow> zuc_state" where
  "zuc_initialize st k iv = (zuc_init_round ^^ 32) (zuc_load st k iv)"

fun zuc_keystream_loop :: "nat \<Rightarrow> zuc_state \<Rightarrow> u32 list \<times> zuc_state" where
  "zuc_keystream_loop 0 st = ([], st)"
| "zuc_keystream_loop (Suc n) st =
    (let (w, st) = ZUC_F (BitReorganization st);
         z = w XOR BRC_X3 st;
         (zs, st) = zuc_keystream_loop n (LFSRWithWorkMode st)
     in (z # zs, st))"

definition zuc_generate_keystream :: "zuc_state \<Rightarrow> int \<Rightarrow> u32 list \<times> zuc_state" where
  "zuc_generate_keystream st key_stream_len =
    (let (w, st) = ZUC_F (BitReorganization st)
     in zuc_keystream_loop (nat key_stream_len) (LFSRWithWorkMode st))"

section \<open>Arithmetic modulo 2^31 - 1\<close>

lemma mersenne_fold:
  "(n mod 2147483648 + n div 2147483648) mod 2147483647 = n mod (2147483647 :: nat)"
proof -
  define q r where "q = n div 2147483648" and "r = n mod 2147483648"
  have "n = (r + q) + q * 2147483647"
    using div_mult_mod_eq [of n 2147483648] by (simp add: q_def r_def)
  then have "n mod 2147483647 = (r + q) mod 2147483647"
    by (metis mod_mult_self1)
  then show ?thesis by (simp add: q_def r_def)
qed

lemma and_low_31: "(x :: u32) AND 0x7FFFFFFF = take_bit 31 x"
  by (simp add: take_bit_eq_mask mask_eq_exp_minus_1)

lemma unat_AddM:
  assumes "unat a < 2147483648" "unat b < 2147483648"
  shows "unat (AddM a b) = (unat a + unat b) mod 2147483648 + (unat a + unat b) div 2147483648"
proof -
  have sum: "unat (a + b) = unat a + unat b"
    using assms by (subst unat_add_lem [symmetric]) simp
  have "unat (take_bit 31 (a + b)) = (unat a + unat b) mod 2 ^ 31"
    by (subst unsigned_take_bit_eq) (simp only: sum take_bit_eq_mod)
  moreover have "unat (drop_bit 31 (a + b)) = (unat a + unat b) div 2 ^ 31"
    using assms sum by (subst unsigned_drop_bit_eq) (simp add: drop_bit_eq_div take_bit_nat_eq_self)
  moreover have "(unat a + unat b) mod 2147483648 + (unat a + unat b) div 2147483648 < 2 ^ 32"
    using assms less_mult_imp_div_less [of "unat a + unat b" 2 2147483648]
      mod_less_divisor [of 2147483648 "unat a + unat b"] by simp
  ultimately show ?thesis
    unfolding AddM_def Let_def and_low_31 by (subst unat_add_lem [THEN iffD1]) simp_all
qed

text \<open>A cell of the shift register holds a value from 1 to 2^31 - 1.\<close>

definition zuc_cell :: "u32 \<Rightarrow> bool" where
  "zuc_cell x \<longleftrightarrow> 0 < unat x \<and> unat x < 2147483648"

lemma AddM_spec:
  assumes "zuc_cell a" "unat b < 2147483648"
  shows "zuc_cell (AddM a b)" "unat (AddM a b) mod 2147483647 = (unat a + unat b) mod 2147483647"
proof -
  let ?n = "unat a + unat b"
  have n: "0 < ?n" "?n \<le> 4294967294" using assms by (auto simp: zuc_cell_def)
  have u: "unat (AddM a b) = ?n mod 2147483648 + ?n div 2147483648"
    using assms by (simp add: unat_AddM zuc_cell_def)
  show "unat (AddM a b) mod 2147483647 = ?n mod 2147483647"
    by (simp only: u mersenne_fold)
  have "0 < ?n mod 2147483648 + ?n div 2147483648" "?n mod 2147483648 + ?n div 2147483648 < 2147483648"
    using n by (cases "?n < 2147483648"; simp add: div_nat_eqI le_mod_geq)+
  then show "zuc_cell (AddM a b)" by (simp add: zuc_cell_def u)
qed

lemma MulByPow2_spec:
  assumes "zuc_cell x" "k < 31"
  shows "zuc_cell (MulByPow2 x k)" "unat (MulByPow2 x k) mod 2147483647 = (2 ^ k * unat x) mod 2147483647"
proof -
  have x: "unat x < 2 ^ 31" "0 < unat x" using assms by (auto simp: zuc_cell_def)
  have bx: "bit x n \<Longrightarrow> n < 31" for n
    using bit_below [OF take_bit_self [OF x(1)]] .
  then have "MulByPow2 x k = take_bit 31 (push_bit k x) OR drop_bit (31 - k) x"
    unfolding MulByPow2_def and_low_31 using assms(2)
    by (intro bit_word_eqI) (auto simp: bit_simps dest: bx)
  moreover have "take_bit 31 (push_bit k x) AND drop_bit (31 - k) x = 0"
    using assms(2) by (intro bit_word_eqI) (auto simp: bit_simps dest: bx)
  ultimately have m: "MulByPow2 x k = take_bit 31 (push_bit k x) + drop_bit (31 - k) x"
    by (simp add: disjunctive_add_eq_or)
  have "take_bit 32 (push_bit k (unat x)) mod 2 ^ 31 = (2 ^ k * unat x) mod 2 ^ 31"
    by (simp add: take_bit_eq_mod push_bit_eq_mult mult.commute mod_mod_cancel)
  then have t: "unat (take_bit 31 (push_bit k x)) = (2 ^ k * unat x) mod 2 ^ 31"
    by (subst unsigned_take_bit_eq, subst unsigned_push_bit_eq) (simp only: take_bit_eq_mod len_bit0 len_num1, simp)
  have "unat (drop_bit (31 - k) x) = unat x div 2 ^ (31 - k)"
    using x by (subst unsigned_drop_bit_eq) (simp add: drop_bit_eq_div take_bit_nat_eq_self)
  also have "\<dots> = (2 ^ k * unat x) div 2 ^ 31"
    using assms(2) div_mult_mult1 [of "2 ^ k" "unat x" "2 ^ (31 - k)"]
    by (simp del: div_mult_mult1 flip: power_add)
  finally have d: "unat (drop_bit (31 - k) x) = (2 ^ k * unat x) div 2 ^ 31" .
  have "(2 ^ k * unat x) div 2 ^ 31 < (2::nat) ^ k"
    using x by (simp add: less_mult_imp_div_less)
  also have "(2::nat) ^ k \<le> 2 ^ 30" using assms(2) by (intro power_increasing) auto
  finally have "(2 ^ k * unat x) div 2 ^ 31 < 1073741824" by simp
  moreover have "(2 ^ k * unat x) mod 2147483648 < (2147483648 :: nat)" by simp
  ultimately have u: "unat (MulByPow2 x k)
      = (2 ^ k * unat x) mod 2147483648 + (2 ^ k * unat x) div 2147483648"
    unfolding m using t d by (subst unat_add_lem [THEN iffD1]) simp_all
  show "unat (MulByPow2 x k) mod 2147483647 = (2 ^ k * unat x) mod 2147483647"
    by (simp only: u mersenne_fold)
  have "unat (MulByPow2 x k) < 2 ^ 31"
    unfolding MulByPow2_def and_low_31 by (rule take_bit_selfD) simp
  moreover have "0 < unat (MulByPow2 x k)"
    using x(2) div_mult_mod_eq [of "2 ^ k * unat x" 2147483648] unfolding u
    by (metis add_is_0 gr0I mult_is_0 power_not_zero zero_neq_numeral)
  ultimately show "zuc_cell (MulByPow2 x k)" by (simp add: zuc_cell_def)
qed
text \<open>The recurrence of the ZUC specification, on natural numbers modulo 2^31 - 1.\<close>

definition zuc_cells :: "zuc_state \<Rightarrow> u32 list" where
  "zuc_cells st =
    [LFSR_S0 st, LFSR_S1 st, LFSR_S2 st, LFSR_S3 st, LFSR_S4 st, LFSR_S5 st, LFSR_S6 st, LFSR_S7 st,
     LFSR_S8 st, LFSR_S9 st, LFSR_S10 st, LFSR_S11 st, LFSR_S12 st, LFSR_S13 st, LFSR_S14 st, LFSR_S15 st]"

definition zuc_feedback :: "nat list \<Rightarrow> nat \<Rightarrow> nat" where
  "zuc_feedback s u =
    (2 ^ 15 * s ! 15 + 2 ^ 17 * s ! 13 + 2 ^ 21 * s ! 10 + 2 ^ 20 * s ! 4 + (1 + 2 ^ 8) * s ! 0 + u)
      mod (2 ^ 31 - 1)"

definition zuc_ok :: "zuc_state \<Rightarrow> bool" where
  "zuc_ok st \<longleftrightarrow> list_all zuc_cell (zuc_cells st)"

lemma AddM_MulByPow2:
  assumes "zuc_cell f" "zuc_cell x" "k < 31" "unat f mod 2147483647 = n mod 2147483647"
  shows "zuc_cell (AddM f (MulByPow2 x k))"
    "unat (AddM f (MulByPow2 x k)) mod 2147483647 = (n + 2 ^ k * unat x) mod 2147483647"
proof -
  have m: "unat (MulByPow2 x k) < 2147483648"
    using MulByPow2_spec(1) [OF assms(2,3)] by (simp add: zuc_cell_def)
  show "zuc_cell (AddM f (MulByPow2 x k))" by (rule AddM_spec(1) [OF assms(1) m])
  show "unat (AddM f (MulByPow2 x k)) mod 2147483647 = (n + 2 ^ k * unat x) mod 2147483647"
    unfolding AddM_spec(2) [OF assms(1) m] by (rule mod_add_cong [OF assms(4) MulByPow2_spec(2) [OF assms(2,3)]])
qed

definition zuc_sum :: "zuc_state \<Rightarrow> u32" where
  "zuc_sum st = AddM (AddM (AddM (AddM (AddM (LFSR_S0 st) (MulByPow2 (LFSR_S0 st) 8))
      (MulByPow2 (LFSR_S4 st) 20)) (MulByPow2 (LFSR_S10 st) 21)) (MulByPow2 (LFSR_S13 st) 17))
      (MulByPow2 (LFSR_S15 st) 15)"

lemma zuc_feedback_cell:
  assumes "zuc_ok st"
  shows "zuc_cell (zuc_sum st)" "unat (zuc_sum st) mod 2147483647 = zuc_feedback (map unat (zuc_cells st)) 0"
proof -
  have c: "zuc_cell (LFSR_S0 st)" "zuc_cell (LFSR_S4 st)" "zuc_cell (LFSR_S10 st)"
    "zuc_cell (LFSR_S13 st)" "zuc_cell (LFSR_S15 st)"
    using assms(1) by (simp_all add: zuc_ok_def zuc_cells_def)
  note s1 = AddM_MulByPow2 [OF c(1) c(1) _ refl, of 8, simplified]
  note s2 = AddM_MulByPow2 [OF s1(1) c(2) _ s1(2), of 20, simplified]
  note s3 = AddM_MulByPow2 [OF s2(1) c(3) _ s2(2), of 21, simplified]
  note s4 = AddM_MulByPow2 [OF s3(1) c(4) _ s3(2), of 17, simplified]
  note s5 = AddM_MulByPow2 [OF s4(1) c(5) _ s4(2), of 15, simplified]
  show "zuc_cell (zuc_sum st)" unfolding zuc_sum_def by (rule s5(1))
  show "unat (zuc_sum st) mod 2147483647 = zuc_feedback (map unat (zuc_cells st)) 0"
    unfolding zuc_sum_def s5(2) by (simp add: zuc_feedback_def zuc_cells_def algebra_simps)
qed

lemma zuc_feedback_add: "(zuc_feedback s 0 + u) mod 2147483647 = zuc_feedback s u"
  by (simp add: zuc_feedback_def mod_simps algebra_simps)

lemma zuc_cells_work:
  "zuc_cells (LFSRWithWorkMode st) = tl (zuc_cells st) @ [LFSR_S15 (LFSRWithWorkMode st)]"
  by (simp add: LFSRWithWorkMode_def zuc_cells_def Let_def)

lemma zuc_cells_init:
  "zuc_cells (LFSRWithInitialisationMode st u)
    = tl (zuc_cells st) @ [LFSR_S15 (LFSRWithInitialisationMode st u)]"
  by (simp add: LFSRWithInitialisationMode_def zuc_cells_def Let_def)

lemma zuc_tl_ok: "zuc_ok st \<Longrightarrow> list_all zuc_cell (tl (zuc_cells st))"
  by (simp add: zuc_ok_def zuc_cells_def)

lemma zuc_new_cell [simp]:
  "LFSR_S15 (LFSRWithWorkMode st) = zuc_sum st"
  "LFSR_S15 (LFSRWithInitialisationMode st u) = AddM (zuc_sum st) u"
  by (simp_all add: LFSRWithWorkMode_def LFSRWithInitialisationMode_def zuc_sum_def Let_def)

lemma zuc_ok_work: "zuc_ok st \<Longrightarrow> zuc_ok (LFSRWithWorkMode st)"
  using zuc_feedback_cell(1) zuc_tl_ok by (simp add: zuc_ok_def zuc_cells_work)

lemma zuc_ok_init: "zuc_ok st \<Longrightarrow> unat u < 2147483648 \<Longrightarrow> zuc_ok (LFSRWithInitialisationMode st u)"
  using zuc_feedback_cell(1) zuc_tl_ok AddM_spec(1) by (simp add: zuc_ok_def zuc_cells_init)


text \<open>
  The clock of the ZUC specification: the new cell is the feedback modulo 2^31 - 1, and
  2^31 - 1 where that is 0.
\<close>

definition zuc_clock :: "nat list \<Rightarrow> nat \<Rightarrow> nat list" where
  "zuc_clock s u = tl s @ [if zuc_feedback s u = 0 then 2 ^ 31 - 1 else zuc_feedback s u]"

lemma zuc_cell_representative:
  "zuc_cell x \<Longrightarrow> unat x mod 2147483647 = v \<Longrightarrow> unat x = (if v = 0 then 2 ^ 31 - 1 else v)"
  by (cases "unat x = 2147483647") (auto simp: zuc_cell_def)

lemma zuc_clock_work:
  assumes "zuc_ok st"
  shows "map unat (zuc_cells (LFSRWithWorkMode st)) = zuc_clock (map unat (zuc_cells st)) 0"
  using zuc_cell_representative [OF zuc_feedback_cell [OF assms]]
  by (simp only: zuc_cells_work zuc_clock_def zuc_new_cell map_append map_tl list.map)

lemma zuc_clock_init:
  assumes "zuc_ok st" "unat u < 2147483648"
  shows "map unat (zuc_cells (LFSRWithInitialisationMode st u)) = zuc_clock (map unat (zuc_cells st)) (unat u)"
proof -
  note c = zuc_feedback_cell [OF assms(1)]
  note a = AddM_spec [OF c(1) assms(2)]
  have "(unat (zuc_sum st) + unat u) mod 2147483647
      = (zuc_feedback (map unat (zuc_cells st)) 0 + unat u) mod 2147483647"
    by (subst c(2) [symmetric]) (simp only: mod_add_left_eq)
  also have "\<dots> = zuc_feedback (map unat (zuc_cells st)) (unat u)" by (rule zuc_feedback_add)
  finally have "unat (AddM (zuc_sum st) u) mod 2147483647 = zuc_feedback (map unat (zuc_cells st)) (unat u)"
    by (simp only: a(2))
  then show ?thesis
    using zuc_cell_representative [OF a(1)]
    by (simp only: zuc_cells_init zuc_clock_def zuc_new_cell map_append map_tl list.map)
qed

lemma zuc_ok_F: "zuc_ok st \<Longrightarrow> zuc_ok (snd (ZUC_F (BitReorganization st)))"
  by (simp add: zuc_ok_def zuc_cells_def ZUC_F_def BitReorganization_def Let_def)

lemma MAKEU31_cell:
  assumes "0 < unat d" "unat d < 32768"
  shows "zuc_cell (MAKEU31 a d c)"
proof -
  have bd: "bit d n \<Longrightarrow> n < 15" for n
    using bit_below [OF take_bit_self [of d 15]] assms(2) by simp
  have "take_bit 31 (MAKEU31 a d c) = MAKEU31 a d c"
    by (intro bit_word_eqI) (auto simp: MAKEU31_def bit_simps dest: bd bit_imp_le_length)
  moreover have "MAKEU31 a d c \<noteq> 0"
  proof
    assume z: "MAKEU31 a d c = 0"
    have "bit d n \<Longrightarrow> bit (MAKEU31 a d c) (n + 8)" for n
      by (auto simp: MAKEU31_def bit_simps dest: bd)
    then have "d = 0" using z by (intro bit_word_eqI) auto
    with assms(1) show False by simp
  qed
  ultimately show ?thesis
    using take_bit_selfD [of 31 "MAKEU31 a d c"] by (simp add: zuc_cell_def unat_gt_0)
qed

lemma zuc_ok_load: "zuc_ok (zuc_load st k iv)"
  by (simp add: zuc_ok_def zuc_cells_def zuc_load_def EK_d_def MAKEU31_cell)

lemma unat_half: "unat (drop_bit 1 (w :: u32)) < 2147483648"
proof -
  have "take_bit 31 (drop_bit 1 w) = drop_bit 1 w"
    by (rule bit_word_eqI) (auto simp: bit_simps dest: bit_imp_le_length)
  from take_bit_selfD [OF this] show ?thesis by simp
qed

lemma zuc_ok_round: "zuc_ok st \<Longrightarrow> zuc_ok (zuc_init_round st)"
  using zuc_ok_init [OF zuc_ok_F [of st] unat_half] by (simp add: zuc_init_round_def split_beta)

lemma zuc_ok_initialize: "zuc_ok (zuc_initialize st k iv)"
proof -
  have "zuc_ok ((zuc_init_round ^^ n) (zuc_load st k iv))" for n
    by (induction n) (simp_all add: zuc_ok_load zuc_ok_round)
  then show ?thesis by (simp add: zuc_initialize_def)
qed

lemma zuc_loop_length: "length (fst (zuc_keystream_loop n st)) = n"
  by (induction n arbitrary: st) (simp_all add: Let_def split_beta)

lemma zuc_loop_ok: "zuc_ok st \<Longrightarrow> zuc_ok (snd (zuc_keystream_loop n st))"
  by (induction n arbitrary: st) (simp_all add: Let_def split_beta zuc_ok_work zuc_ok_F)

lemma zuc_generate_length: "length (fst (zuc_generate_keystream st n)) = nat n"
  by (simp add: zuc_generate_keystream_def split_beta zuc_loop_length)

section \<open>The shift register of the specification\<close>

definition zuc_zero :: zuc_state where
  "zuc_zero = \<lparr>LFSR_S0 = 0, LFSR_S1 = 0, LFSR_S2 = 0, LFSR_S3 = 0, LFSR_S4 = 0, LFSR_S5 = 0, LFSR_S6 = 0,
     LFSR_S7 = 0, LFSR_S8 = 0, LFSR_S9 = 0, LFSR_S10 = 0, LFSR_S11 = 0, LFSR_S12 = 0, LFSR_S13 = 0,
     LFSR_S14 = 0, LFSR_S15 = 0, F_R1 = 0, F_R2 = 0, BRC_X0 = 0, BRC_X1 = 0, BRC_X2 = 0, BRC_X3 = 0\<rparr>"

text \<open>
  C17. The shift register of ZUC computes with 32-bit additions and rotations what its
  specification asks for: arithmetic modulo 2^31 - 1 on cells from 1 to 2^31 - 1, the value 0
  being written as 2^31 - 1. Every state the key loading leaves has such cells, and a clock in
  either mode keeps them and appends the cell of the specification.
\<close>

theorem zuc_lfsr_modular:
  assumes "zuc_ok st"
  shows "zuc_ok (zuc_initialize st0 k iv)
    \<and> zuc_ok (LFSRWithWorkMode st)
    \<and> map unat (zuc_cells (LFSRWithWorkMode st)) = zuc_clock (map unat (zuc_cells st)) 0
    \<and> (\<forall>w. zuc_ok (LFSRWithInitialisationMode st (drop_bit 1 w))
        \<and> map unat (zuc_cells (LFSRWithInitialisationMode st (drop_bit 1 w)))
          = zuc_clock (map unat (zuc_cells st)) (unat w div 2))"
proof -
  have "unat (drop_bit 1 w) = unat w div 2" for w :: u32
    by (simp add: drop_bit_Suc unat_div)
  then show ?thesis
    using assms zuc_clock_init [OF assms unat_half] zuc_ok_init [OF assms unat_half]
    by (simp add: zuc_ok_initialize zuc_ok_work zuc_clock_work)
qed

theorem zuc_lfsr_modular_witness:
  "(let st = zuc_load zuc_zero (replicate 16 0) (replicate 16 0) in
    map unat (zuc_cells (LFSRWithWorkMode st)) = zuc_clock (map unat (zuc_cells st)) 0)
   \<and> unat (zuc_sum (zuc_load zuc_zero (replicate 16 0) (replicate 16 0))) = 1159462427"
proof (rule conjI)
  let ?st = "zuc_load zuc_zero (replicate 16 0) (replicate 16 0)"
  show "let st = ?st in map unat (zuc_cells (LFSRWithWorkMode st)) = zuc_clock (map unat (zuc_cells st)) 0"
    unfolding Let_def
    by (rule zuc_lfsr_modular [OF zuc_ok_load, THEN conjunct2, THEN conjunct2, THEN conjunct1])
  show "unat (zuc_sum ?st) = 1159462427"
    by (simp add: zuc_load_def zuc_sum_def MAKEU31_def EK_d_def MulByPow2_def AddM_def Let_def)
qed

end
