(* ===== verification/S3g.thy ===== *)
theory S3g
  imports Prelude
begin

text \<open>
  SNOW 3G, from \<^verbatim>\<open>AIRadio/lib/src/common/s3g.cc\<close>: the byte multiplications, the two
  S-boxes, the clocks of the shift register and of the state machine, the keystream loop, and
  the integrity function \<^verbatim>\<open>f9\<close> with its multiplication over the 64-bit words.
  \<^verbatim>\<open>S3G_STATE\<close> holds two allocated arrays, of 16 and of 3 words: they are lists here, and
  \<^verbatim>\<open>s3g_deinitialize\<close>, which frees them, has no counterpart. The lemmas show that the
  64-bit multiplication is additive over exclusive or, and that \<open>f9\<close> is defined exactly for
  messages that are not empty.
\<close>

section \<open>Byte operations and S-boxes\<close>

definition SQ :: "u8 list" where
  "SQ = [
    0x25, 0x24, 0x73, 0x67, 0xD7, 0xAE, 0x5C, 0x30, 0xA4, 0xEE, 0x6E, 0xCB, 0x7D, 0xB5, 0x82,
    0xDB, 0xE4, 0x8E, 0x48, 0x49, 0x4F, 0x5D, 0x6A, 0x78, 0x70, 0x88, 0xE8, 0x5F, 0x5E, 0x84,
    0x65, 0xE2, 0xD8, 0xE9, 0xCC, 0xED, 0x40, 0x2F, 0x11, 0x28, 0x57, 0xD2, 0xAC, 0xE3, 0x4A,
    0x15, 0x1B, 0xB9, 0xB2, 0x80, 0x85, 0xA6, 0x2E, 0x02, 0x47, 0x29, 0x07, 0x4B, 0x0E, 0xC1,
    0x51, 0xAA, 0x89, 0xD4, 0xCA, 0x01, 0x46, 0xB3, 0xEF, 0xDD, 0x44, 0x7B, 0xC2, 0x7F, 0xBE,
    0xC3, 0x9F, 0x20, 0x4C, 0x64, 0x83, 0xA2, 0x68, 0x42, 0x13, 0xB4, 0x41, 0xCD, 0xBA, 0xC6,
    0xBB, 0x6D, 0x4D, 0x71, 0x21, 0xF4, 0x8D, 0xB0, 0xE5, 0x93, 0xFE, 0x8F, 0xE6, 0xCF, 0x43,
    0x45, 0x31, 0x22, 0x37, 0x36, 0x96, 0xFA, 0xBC, 0x0F, 0x08, 0x52, 0x1D, 0x55, 0x1A, 0xC5,
    0x4E, 0x23, 0x69, 0x7A, 0x92, 0xFF, 0x5B, 0x5A, 0xEB, 0x9A, 0x1C, 0xA9, 0xD1, 0x7E, 0x0D,
    0xFC, 0x50, 0x8A, 0xB6, 0x62, 0xF5, 0x0A, 0xF8, 0xDC, 0x03, 0x3C, 0x0C, 0x39, 0xF1, 0xB8,
    0xF3, 0x3D, 0xF2, 0xD5, 0x97, 0x66, 0x81, 0x32, 0xA0, 0x00, 0x06, 0xCE, 0xF6, 0xEA, 0xB7,
    0x17, 0xF7, 0x8C, 0x79, 0xD6, 0xA7, 0xBF, 0x8B, 0x3F, 0x1F, 0x53, 0x63, 0x75, 0x35, 0x2C,
    0x60, 0xFD, 0x27, 0xD3, 0x94, 0xA5, 0x7C, 0xA1, 0x05, 0x58, 0x2D, 0xBD, 0xD9, 0xC7, 0xAF,
    0x6B, 0x54, 0x0B, 0xE0, 0x38, 0x04, 0xC8, 0x9D, 0xE7, 0x14, 0xB1, 0x87, 0x9C, 0xDF, 0x6F,
    0xF9, 0xDA, 0x2A, 0xC4, 0x59, 0x16, 0x74, 0x91, 0xAB, 0x26, 0x61, 0x76, 0x34, 0x2B, 0xAD,
    0x99, 0xFB, 0x72, 0xEC, 0x33, 0x12, 0xDE, 0x98, 0x3B, 0xC0, 0x9B, 0x3E, 0x18, 0x10, 0x3A,
    0x56, 0xE1, 0x77, 0xC9, 0x1E, 0x9E, 0x95, 0xA3, 0x90, 0x19, 0xA8, 0x6C, 0x09, 0xD0, 0xF0, 0x86]"

definition SR :: "u8 list" where
  "SR = [
    99, 124, 119, 123, 242, 107, 111, 197, 48, 1, 103, 43, 254, 215, 171, 118, 202, 130, 201,
    125, 250, 89, 71, 240, 173, 212, 162, 175, 156, 164, 114, 192, 183, 253, 147, 38, 54, 63,
    247, 204, 52, 165, 229, 241, 113, 216, 49, 21, 4, 199, 35, 195, 24, 150, 5, 154, 7, 18, 128,
    226, 235, 39, 178, 117, 9, 131, 44, 26, 27, 110, 90, 160, 82, 59, 214, 179, 41, 227, 47, 132,
    83, 209, 0, 237, 32, 252, 177, 91, 106, 203, 190, 57, 74, 76, 88, 207, 208, 239, 170, 251,
    67, 77, 51, 133, 69, 249, 2, 127, 80, 60, 159, 168, 81, 163, 64, 143, 146, 157, 56, 245, 188,
    182, 218, 33, 16, 255, 243, 210, 205, 12, 19, 236, 95, 151, 68, 23, 196, 167, 126, 61, 100,
    93, 25, 115, 96, 129, 79, 220, 34, 42, 144, 136, 70, 238, 184, 20, 222, 94, 11, 219, 224, 50,
    58, 10, 73, 6, 36, 92, 194, 211, 172, 98, 145, 149, 228, 121, 231, 200, 55, 109, 141, 213,
    78, 169, 108, 86, 244, 234, 101, 122, 174, 8, 186, 120, 37, 46, 28, 166, 180, 198, 232, 221,
    116, 31, 75, 189, 139, 138, 112, 62, 181, 102, 72, 3, 246, 14, 97, 53, 87, 185, 134, 193, 29,
    158, 225, 248, 152, 17, 105, 217, 142, 148, 155, 30, 135, 233, 206, 85, 40, 223, 140, 161,
    137, 13, 191, 230, 66, 104, 65, 153, 45, 15, 176, 84, 187, 22]"

definition s3g_mul_x :: "u8 \<Rightarrow> u8 \<Rightarrow> u8" where
  "s3g_mul_x v c = (if v AND 0x80 \<noteq> 0 then push_bit 1 v XOR c else push_bit 1 v)"

fun s3g_mul_x_pow :: "u8 \<Rightarrow> nat \<Rightarrow> u8 \<Rightarrow> u8" where
  "s3g_mul_x_pow v 0 c = v"
| "s3g_mul_x_pow v (Suc i) c = s3g_mul_x (s3g_mul_x_pow v i c) c"

definition u32_of_bytes :: "u8 \<Rightarrow> u8 \<Rightarrow> u8 \<Rightarrow> u8 \<Rightarrow> u32" where
  "u32_of_bytes r0 r1 r2 r3 =
    push_bit 24 (ucast r0) OR push_bit 16 (ucast r1) OR push_bit 8 (ucast r2) OR ucast r3"

definition s3g_mul_alpha :: "u8 \<Rightarrow> u32" where
  "s3g_mul_alpha c = u32_of_bytes (s3g_mul_x_pow c 23 0xa9) (s3g_mul_x_pow c 245 0xa9)
     (s3g_mul_x_pow c 48 0xa9) (s3g_mul_x_pow c 239 0xa9)"

definition s3g_div_alpha :: "u8 \<Rightarrow> u32" where
  "s3g_div_alpha c = u32_of_bytes (s3g_mul_x_pow c 16 0xa9) (s3g_mul_x_pow c 39 0xa9)
     (s3g_mul_x_pow c 6 0xa9) (s3g_mul_x_pow c 64 0xa9)"

definition s3g_s1 :: "u32 \<Rightarrow> u32" where
  "s3g_s1 w =
    (let srw0 = SR ! unat (drop_bit 24 w AND 0xff);
         srw1 = SR ! unat (drop_bit 16 w AND 0xff);
         srw2 = SR ! unat (drop_bit 8 w AND 0xff);
         srw3 = SR ! unat (w AND 0xff);
         r0 = s3g_mul_x srw0 0x1b XOR srw1 XOR srw2 XOR (s3g_mul_x srw3 0x1b XOR srw3);
         r1 = (s3g_mul_x srw0 0x1b XOR srw0) XOR s3g_mul_x srw1 0x1b XOR srw2 XOR srw3;
         r2 = srw0 XOR (s3g_mul_x srw1 0x1b XOR srw1) XOR s3g_mul_x srw2 0x1b XOR srw3;
         r3 = srw0 XOR srw1 XOR (s3g_mul_x srw2 0x1b XOR srw2) XOR s3g_mul_x srw3 0x1b
     in u32_of_bytes r0 r1 r2 r3)"

definition s3g_s2 :: "u32 \<Rightarrow> u32" where
  "s3g_s2 w =
    (let sqw0 = SQ ! unat (drop_bit 24 w AND 0xff);
         sqw1 = SQ ! unat (drop_bit 16 w AND 0xff);
         sqw2 = SQ ! unat (drop_bit 8 w AND 0xff);
         sqw3 = SQ ! unat (w AND 0xff);
         r0 = s3g_mul_x sqw0 0x69 XOR sqw1 XOR sqw2 XOR (s3g_mul_x sqw3 0x69 XOR sqw3);
         r1 = (s3g_mul_x sqw0 0x69 XOR sqw0) XOR s3g_mul_x sqw1 0x69 XOR sqw2 XOR sqw3;
         r2 = sqw0 XOR (s3g_mul_x sqw1 0x69 XOR sqw1) XOR s3g_mul_x sqw2 0x69 XOR sqw3;
         r3 = sqw0 XOR sqw1 XOR (s3g_mul_x sqw2 0x69 XOR sqw2) XOR s3g_mul_x sqw3 0x69
     in u32_of_bytes r0 r1 r2 r3)"

section \<open>The generator\<close>

record s3g_state =
  lfsr :: "u32 list"
  fsm :: "u32 list"

definition s3g_clock_lfsr :: "s3g_state \<Rightarrow> u32 \<Rightarrow> s3g_state" where
  "s3g_clock_lfsr st f =
    (let v = (push_bit 8 (lfsr st ! 0) AND 0xffffff00)
           XOR s3g_mul_alpha (ucast (drop_bit 24 (lfsr st ! 0) AND 0xff))
           XOR lfsr st ! 2 XOR (drop_bit 8 (lfsr st ! 11) AND 0x00ffffff)
           XOR s3g_div_alpha (ucast (lfsr st ! 11 AND 0xff)) XOR f;
         shifted = foldl (\<lambda>l i. l[i := l ! (i + 1)]) (lfsr st) [0..<15]
     in st\<lparr>lfsr := shifted[15 := v]\<rparr>)"

definition s3g_clock_fsm :: "s3g_state \<Rightarrow> u32 \<times> s3g_state" where
  "s3g_clock_fsm st =
    (let f = ((lfsr st ! 15 + fsm st ! 0) AND 0xffffffff) XOR fsm st ! 1;
         r = (fsm st ! 1 + (fsm st ! 2 XOR lfsr st ! 5)) AND 0xffffffff
     in (f, st\<lparr>fsm := (fsm st)[2 := s3g_s2 (fsm st ! 1), 1 := s3g_s1 (fsm st ! 0), 0 := r]\<rparr>))"

definition s3g_init_round :: "s3g_state \<Rightarrow> s3g_state" where
  "s3g_init_round st = (let (f, st) = s3g_clock_fsm st in s3g_clock_lfsr st f)"

definition s3g_initialize :: "u32 list \<Rightarrow> u32 list \<Rightarrow> s3g_state" where
  "s3g_initialize k iv =
    (s3g_init_round ^^ 32)
     \<lparr>lfsr = [k ! 0 XOR 0xffffffff, k ! 1 XOR 0xffffffff, k ! 2 XOR 0xffffffff, k ! 3 XOR 0xffffffff,
        k ! 0, k ! 1, k ! 2, k ! 3,
        k ! 0 XOR 0xffffffff, k ! 1 XOR 0xffffffff XOR iv ! 3, k ! 2 XOR 0xffffffff XOR iv ! 2,
        k ! 3 XOR 0xffffffff,
        k ! 0 XOR iv ! 1, k ! 1, k ! 2, k ! 3 XOR iv ! 0],
      fsm = [0, 0, 0]\<rparr>"

fun s3g_keystream_loop :: "nat \<Rightarrow> s3g_state \<Rightarrow> u32 list \<times> s3g_state" where
  "s3g_keystream_loop 0 st = ([], st)"
| "s3g_keystream_loop (Suc n) st =
    (let (f, st) = s3g_clock_fsm st;
         z = f XOR lfsr st ! 0;
         (zs, st) = s3g_keystream_loop n (s3g_clock_lfsr st 0)
     in (z # zs, st))"

definition s3g_generate_keystream :: "s3g_state \<Rightarrow> u32 \<Rightarrow> u32 list \<times> s3g_state" where
  "s3g_generate_keystream st n =
    (let (f, st) = s3g_clock_fsm st
     in s3g_keystream_loop (unat n) (s3g_clock_lfsr st 0))"

section \<open>The integrity function\<close>

definition s3g_MUL64x :: "u64 \<Rightarrow> u64 \<Rightarrow> u64" where
  "s3g_MUL64x V c = (if V AND 0x8000000000000000 \<noteq> 0 then push_bit 1 V XOR c else push_bit 1 V)"

fun s3g_MUL64xPOW :: "u64 \<Rightarrow> nat \<Rightarrow> u64 \<Rightarrow> u64" where
  "s3g_MUL64xPOW V 0 c = V"
| "s3g_MUL64xPOW V (Suc i) c = s3g_MUL64x (s3g_MUL64xPOW V i c) c"

definition s3g_MUL64 :: "u64 \<Rightarrow> u64 \<Rightarrow> u64 \<Rightarrow> u64" where
  "s3g_MUL64 V P c =
    foldl (\<lambda>result i. if drop_bit i P AND 1 \<noteq> 0 then result XOR s3g_MUL64xPOW V i c else result)
      0 [0..<64]"

definition mask8bit :: "nat \<Rightarrow> u8" where
  "mask8bit n = 0xFF XOR (push_bit (8 - n) 1 - 1)"

text \<open>
  The eight bytes from \<open>8 * i\<close> on as a word, \<open>None\<close> when the message ends before.
\<close>

definition f9_word :: "bytes \<Rightarrow> nat \<Rightarrow> u64 option" where
  "f9_word data i =
    (if 8 * i + 8 \<le> length data
     then Some (foldl (\<lambda>v b. push_bit 8 v OR ucast b) 0 (take 8 (drop (8 * i) data)))
     else None)"

fun f9_blocks :: "bytes \<Rightarrow> u64 \<Rightarrow> nat \<Rightarrow> nat \<Rightarrow> u64 \<Rightarrow> u64 option" where
  "f9_blocks data P 0 i EVAL = Some EVAL"
| "f9_blocks data P (Suc n) i EVAL =
    (case f9_word data i of
       None \<Rightarrow> None
     | Some m \<Rightarrow> f9_blocks data P n (Suc i) (s3g_MUL64 (EVAL XOR m) P 0x1b))"

fun f9_last_bytes :: "bytes \<Rightarrow> nat \<Rightarrow> nat \<Rightarrow> nat \<Rightarrow> u64 \<Rightarrow> u64 option" where
  "f9_last_bytes data base rem_bits i M =
    (if rem_bits > 7 then
       (case rd data (base + i) of
          None \<Rightarrow> None
        | Some b \<Rightarrow> f9_last_bytes data base (rem_bits - 8) (i + 1) (M OR push_bit (8 * (7 - i)) (ucast b)))
     else if rem_bits > 0 then
       (case rd data (base + i) of
          None \<Rightarrow> None
        | Some b \<Rightarrow> Some (M OR push_bit (8 * (7 - i)) (ucast (b AND mask8bit rem_bits))))
     else Some M)"

declare f9_last_bytes.simps [simp del]

text \<open>The number of 64-bit blocks, with the unsigned wrap-around of \<open>D - 2\<close> for an empty message.\<close>

definition f9_D :: "u64 \<Rightarrow> u32" where
  "f9_D length_bits =
    (if length_bits mod 64 = 0 then ucast (drop_bit 6 length_bits + 1)
     else ucast (drop_bit 6 length_bits + 2))"

definition s3g_f9 :: "bytes \<Rightarrow> u32 \<Rightarrow> u32 \<Rightarrow> u32 \<Rightarrow> bytes \<Rightarrow> u64 \<Rightarrow> bytes option" where
  "s3g_f9 key count fresh dir data length_bits =
    (let K = map (\<lambda>i. u32_of_bytes (key ! (4 * (3 - i))) (key ! (4 * (3 - i) + 1))
                   (key ! (4 * (3 - i) + 2)) (key ! (4 * (3 - i) + 3))) [0..<4];
         IV = [fresh XOR push_bit 15 dir, count XOR push_bit 31 dir, fresh, count];
         z = fst (s3g_generate_keystream (s3g_initialize K IV) 5);
         P = push_bit 32 (ucast (z ! 0)) OR ucast (z ! 1);
         Q = push_bit 32 (ucast (z ! 2)) OR ucast (z ! 3);
         D = f9_D length_bits;
         rem_bits = (if length_bits mod 64 = 0 then 64 else unat (length_bits mod 64))
     in case f9_blocks data P (unat (D - 2)) 0 0 of
          None \<Rightarrow> None
        | Some EVAL \<Rightarrow>
            (case f9_last_bytes data (8 * unat (D - 2)) rem_bits 0 0 of
               None \<Rightarrow> None
             | Some M \<Rightarrow>
                 let EVAL = s3g_MUL64 (EVAL XOR M) P 0x1b;
                     EVAL = s3g_MUL64 (EVAL XOR length_bits) Q 0x1b
                 in Some (map (\<lambda>i. ucast (drop_bit (56 - i * 8) EVAL)
                             XOR ucast (drop_bit (24 - i * 8) (z ! 4))) [0..<4])))"

section \<open>Facts about the model\<close>

lemma s3g_loop_length: "length (fst (s3g_keystream_loop n st)) = n"
  by (induction n arbitrary: st) (simp_all add: Let_def split_beta)

lemma s3g_generate_length: "length (fst (s3g_generate_keystream st n)) = unat n"
  by (simp add: s3g_generate_keystream_def split_beta s3g_loop_length)

lemma and_top_bit: "(V :: u64) AND 0x8000000000000000 \<noteq> 0 \<longleftrightarrow> bit V 63"
  using and_exp_eq_0_iff_not_bit [of V 63] by simp

lemma MUL64x_xor: "s3g_MUL64x (V XOR W) c = s3g_MUL64x V c XOR s3g_MUL64x W c"
  unfolding s3g_MUL64x_def and_top_bit
  by (rule bit_word_eqI) (auto simp: bit_simps)

lemma MUL64xPOW_xor: "s3g_MUL64xPOW (V XOR W) i c = s3g_MUL64xPOW V i c XOR s3g_MUL64xPOW W i c"
  by (induction i) (simp_all add: MUL64x_xor)

lemma xor_swap4: "(a XOR b) XOR (c XOR d) = (a XOR c) XOR (b XOR (d :: 'a::len word))"
  by (simp add: ac_simps)

text \<open>The multiplication of the integrity function is additive over exclusive or.\<close>

lemma MUL64_xor: "s3g_MUL64 (V XOR W) P c = s3g_MUL64 V P c XOR s3g_MUL64 W P c"
proof -
  let ?f = "\<lambda>V r i. if drop_bit i P AND 1 \<noteq> 0 then r XOR s3g_MUL64xPOW V i c else r"
  have "foldl (?f (V XOR W)) (a XOR b) is = foldl (?f V) a is XOR foldl (?f W) b is" for a b "is"
  proof (induction "is" arbitrary: a b)
    case (Cons i "is")
    have "?f (V XOR W) (a XOR b) i = ?f V a i XOR ?f W b i"
      using xor_swap4 [of a b] by (simp only: MUL64xPOW_xor if_cancel split: if_split) simp
    then show ?case by (simp only: foldl_Cons Cons.IH)
  qed simp
  from this [of 0 0 "[0..<64]"] show ?thesis by (simp add: s3g_MUL64_def)
qed

lemma f9_blocks_total:
  "8 * (i + n) \<le> length data \<Longrightarrow> \<exists>e. f9_blocks data P n i EVAL = Some e"
  by (induction n arbitrary: i EVAL) (auto simp: f9_word_def)

lemma f9_blocks_short:
  "length data < 8 * (i + n) \<Longrightarrow> n \<noteq> 0 \<Longrightarrow> f9_blocks data P n i EVAL = None"
proof (induction n arbitrary: i EVAL)
  case (Suc n)
  then show ?case by (cases "n = 0") (auto simp: f9_word_def)
qed simp

lemma f9_last_bytes_total:
  "8 * (length data - base - i) \<ge> rem_bits \<Longrightarrow> base + i < length data \<or> rem_bits = 0 \<Longrightarrow>
    \<exists>m. f9_last_bytes data base rem_bits i M = Some m"
proof (induction data base rem_bits i M rule: f9_last_bytes.induct)
  case (1 data base rem_bits i M)
  show ?case
  proof (cases "rem_bits = 0")
    case False
    then have b: "rd data (base + i) = Some (data ! (base + i))" using 1(3) by (simp add: rd_def)
    show ?thesis
    proof (cases "rem_bits > 7")
      case True
      from 1(1) [OF True b] 1(2) False show ?thesis
        by (subst f9_last_bytes.simps) (force simp: b True)
    qed (use False b in \<open>subst f9_last_bytes.simps, simp\<close>)
  qed (subst f9_last_bytes.simps, simp)
qed

lemma pred_div: "0 < n \<Longrightarrow> (n - 1) div (64::nat) = (if n mod 64 = 0 then n div 64 - 1 else n div 64)"
  by (cases n) (auto simp: div_Suc)

lemma pred_div_rest:
  assumes "0 < n"
  shows "n = 64 * ((n - 1) div 64) + (if n mod 64 = 0 then 64 else n mod (64::nat))"
proof (cases "n mod 64 = 0")
  case True
  then have "1 \<le> n div 64" using assms by auto
  with True show ?thesis
    unfolding pred_div [OF assms] using mult_div_mod_eq [of 64 n] by (simp add: diff_mult_distrib2)
next
  case False
  then show ?thesis unfolding pred_div [OF assms] using mult_div_mod_eq [of 64 n] by simp
qed

lemma unat_of_nat_u32: "k < 4294967296 \<Longrightarrow> unat (of_nat k :: u32) = k"
  by (simp add: unat_of_nat take_bit_nat_eq_self)

lemma f9_D_small:
  assumes "0 < n" "n < 2 ^ 32"
  shows "unat (f9_D (of_nat n) - 2) = (n - 1) div 64"
    "unat ((of_nat n :: u64) mod 64) = n mod 64" "(of_nat n :: u64) mod 64 = 0 \<longleftrightarrow> n mod 64 = 0"
proof -
  have n64: "n < 2 ^ 64" using assms by simp
  then have m: "unat ((of_nat n :: u64) mod 64) = n mod 64"
    by (simp add: unat_mod_distrib unat_of_nat take_bit_nat_eq_self)
  then show "unat ((of_nat n :: u64) mod 64) = n mod 64" .
  show z: "(of_nat n :: u64) mod 64 = 0 \<longleftrightarrow> n mod 64 = 0"
    using m by (metis unat_eq_zero)
  have d: "drop_bit 6 (of_nat n :: u64) = of_nat (n div 64)"
    using n64 by (simp add: word_unat_eq_iff unat_div unat_of_nat take_bit_nat_eq_self drop_bit_eq_div)
  have u: "(ucast (of_nat k :: u64) :: u32) = of_nat k" for k
    by (simp add: word_unat_eq_iff unsigned_ucast_eq unat_of_nat take_bit_eq_mod mod_mod_cancel)
  have u1: "ucast (drop_bit 6 (of_nat n :: u64) + 1) = (of_nat (n div 64 + 1) :: u32)"
    using u [of "n div 64 + 1"] by (simp add: d add.commute)
  have u2: "ucast (drop_bit 6 (of_nat n :: u64) + 2) = (of_nat (n div 64 + 2) :: u32)"
    using u [of "n div 64 + 2"] by (simp add: d add.commute)
  show "unat (f9_D (of_nat n) - 2) = (n - 1) div 64"
  proof (cases "n mod 64 = 0")
    case True
    then have "f9_D (of_nat n) - 2 = of_nat (n div 64 + 1) - of_nat 2"
      unfolding f9_D_def z u1 by simp
    moreover have "1 \<le> n div 64" using True assms by auto
    then have "of_nat (n div 64 + 1) - of_nat 2 = (of_nat (n div 64 + 1 - 2) :: u32)"
      by (intro of_nat_diff [symmetric]) simp
    ultimately have "f9_D (of_nat n) - 2 = of_nat (n div 64 + 1 - 2)" by metis
    then show ?thesis using True assms by (simp only: pred_div if_True) (subst unat_of_nat_u32, auto)
  next
    case False
    then have "f9_D (of_nat n) - 2 = of_nat (n div 64)"
      unfolding f9_D_def z u2 by simp
    then show ?thesis using False assms by (simp only: pred_div if_False) (subst unat_of_nat_u32, auto)
  qed
qed

text \<open>An empty message wraps the number of blocks around.\<close>

lemma f9_D_empty: "f9_D 0 - 2 = 0xFFFFFFFF"
  by (simp add: f9_D_def)

lemma f9_empty: "length data < 34359738360 \<Longrightarrow> s3g_f9 key count fresh dir data 0 = None"
  using f9_blocks_short [of data 0 4294967295] by (simp add: s3g_f9_def Let_def f9_D_empty)

lemma f9_total:
  assumes "0 < n" "n < 2 ^ 32" "n \<le> 8 * length data"
  shows "\<exists>m. s3g_f9 key count fresh dir data (of_nat n) = Some m \<and> length m = 4"
proof -
  define b where "b = (n - 1) div 64"
  define r where "r = (if n mod 64 = 0 then 64 else n mod 64)"
  have r: "n = 64 * b + r" "0 < r" using pred_div_rest [OF assms(1)] by (simp_all add: r_def b_def)
  have "\<forall>P. \<exists>e. f9_blocks data P b 0 0 = Some e"
    using r assms(3) by (intro allI f9_blocks_total) simp
  then obtain e where e: "\<And>P. f9_blocks data P b 0 0 = Some (e P)" by metis
  have "\<exists>m. f9_last_bytes data (8 * b) r 0 0 = Some m"
  proof (rule f9_last_bytes_total)
    show "r \<le> 8 * (length data - 8 * b - 0)" "8 * b + 0 < length data \<or> r = 0"
      using r assms(3) by linarith+
  qed
  then obtain m where m: "f9_last_bytes data (8 * b) (if n mod 64 = 0 then 64 else n mod 64) 0 0 = Some m"
    unfolding r_def by blast
  show ?thesis
    unfolding s3g_f9_def Let_def f9_D_small [OF assms(1,2), folded b_def] e m option.case
    by (intro exI conjI, rule refl) (simp only: length_map length_upt minus_nat.diff_0)
qed

end
