(* ===== verification/Security.thy ===== *)
theory Security
  imports Zuc S3g
begin

text \<open>
  The ciphering algorithms EEA1 to EEA3 of \<^verbatim>\<open>AIRadio/lib/src/common/liblte_security.cc\<close> with
  their wrappers in \<^verbatim>\<open>common/security.cc\<close>, and what they share with the integrity algorithms.
  A pointer that may be null is an \<open>option\<close>; an output array is passed in and returned with what
  was written to it; \<open>None\<close> as a result is an access outside an array.  AES comes from an
  external library and is a parameter: the block cipher, and the counter mode with its error
  result.
\<close>

datatype liblte_error = LIBLTE_SUCCESS | LIBLTE_ERROR_INVALID_INPUTS | LIBLTE_ERROR_ENCODE_FAIL
  | LIBLTE_ERROR_DECODE_FAIL | LIBLTE_ERROR_INVALID_CRC

record aes_lib =
  aes_ecb :: "bytes \<Rightarrow> bytes \<Rightarrow> bytes"
  aes_ctr :: "bytes \<Rightarrow> nat \<Rightarrow> bytes \<Rightarrow> bytes \<Rightarrow> bytes option"

section \<open>Array access\<close>

definition wr :: "bytes \<Rightarrow> nat \<Rightarrow> u8 \<Rightarrow> bytes option" where
  "wr bs i b = (if i < length bs then Some (bs[i := b]) else None)"

definition byte_at :: "u32 \<Rightarrow> nat \<Rightarrow> u8" where
  "byte_at w k = ucast (drop_bit k w AND 0xFF)"

definition zero_tailing_bits :: "bytes \<Rightarrow> u32 \<Rightarrow> bytes option" where
  "zero_tailing_bits data length_bits =
    (let bits = (8 - (length_bits AND 7)) AND 7;
         idx = unat ((length_bits + 7) div 8 - 1)
     in do { b \<leftarrow> rd data idx; wr data idx (b AND push_bit (unat bits) 0xFF) })"

section \<open>EEA1 and EEA3\<close>

text \<open>
  The two loops that mix keystream into the message: whole words first, then the bytes from
  \<open>i\<close> on.  \<open>i\<close> is a signed 32-bit integer, negative when the message is empty.
\<close>

definition wr_xor :: "bytes \<Rightarrow> bytes \<Rightarrow> nat \<Rightarrow> u8 \<Rightarrow> bytes option" where
  "wr_xor msg out k b = do { m \<leftarrow> rd msg k; wr out k (m XOR b) }"

fun eea_words :: "u32 list \<Rightarrow> bytes \<Rightarrow> nat \<Rightarrow> nat \<Rightarrow> bytes \<Rightarrow> bytes option" where
  "eea_words ks msg 0 i out = Some out"
| "eea_words ks msg (Suc n) i out = do {
     out \<leftarrow> wr_xor msg out (4 * i + 0) (byte_at (ks ! i) 24);
     out \<leftarrow> wr_xor msg out (4 * i + 1) (byte_at (ks ! i) 16);
     out \<leftarrow> wr_xor msg out (4 * i + 2) (byte_at (ks ! i) 8);
     out \<leftarrow> wr_xor msg out (4 * i + 3) (byte_at (ks ! i) 0);
     eea_words ks msg n (i + 1) out }"

fun eea_tail :: "u32 list \<Rightarrow> bytes \<Rightarrow> nat \<Rightarrow> int \<Rightarrow> bytes \<Rightarrow> bytes option" where
  "eea_tail ks msg 0 i out = Some out"
| "eea_tail ks msg (Suc n) i out =
    (if i < 0 then None
     else do {
       out \<leftarrow> wr_xor msg out (nat i) (byte_at (ks ! (nat i div 4)) ((3 - nat i mod 4) * 8));
       eea_tail ks msg n (i + 1) out })"

definition eea_mix :: "u32 list \<Rightarrow> bytes \<Rightarrow> u32 \<Rightarrow> bytes \<Rightarrow> bytes option" where
  "eea_mix ks msg msg_len out =
    (let msg_len_block_8 = (msg_len + 7) div 8;
         msg_len_block_32 = (msg_len + 31) div 32;
         i = sint ((msg_len_block_32 - 1) * 4)
     in do {
       out \<leftarrow> eea_words ks msg (nat (sint msg_len_block_32 - 1)) 0 out;
       out \<leftarrow> eea_tail ks msg (nat (sint msg_len_block_8 - i)) i out;
       zero_tailing_bits out msg_len })"

definition eea1_keystream :: "bytes \<Rightarrow> u32 \<Rightarrow> u8 \<Rightarrow> u8 \<Rightarrow> u32 \<Rightarrow> u32 list" where
  "eea1_keystream key count bearer direction n =
    (let k = map (\<lambda>i. u32_of_bytes (key ! (4 * (3 - i) + 0)) (key ! (4 * (3 - i) + 1))
                   (key ! (4 * (3 - i) + 2)) (key ! (4 * (3 - i) + 3))) [0..<4];
         iv2 = push_bit 27 (ucast (bearer AND 0x1F)) OR push_bit 26 (ucast (direction AND 1));
         iv = [iv2, count, iv2, count]
     in fst (s3g_generate_keystream (s3g_initialize k iv) n))"

definition liblte_security_encryption_eea1 ::
  "bytes option \<Rightarrow> u32 \<Rightarrow> u8 \<Rightarrow> u8 \<Rightarrow> bytes option \<Rightarrow> u32 \<Rightarrow> bytes option
    \<Rightarrow> (liblte_error \<times> bytes option) option" where
  "liblte_security_encryption_eea1 key count bearer direction msg msg_len out =
    (case (key, msg, out) of
       (Some key, Some msg, Some out) \<Rightarrow> do {
         out \<leftarrow> eea_mix (eea1_keystream key count bearer direction ((msg_len + 31) div 32)) msg msg_len out;
         Some (LIBLTE_SUCCESS, Some out) }
     | _ \<Rightarrow> Some (LIBLTE_ERROR_INVALID_INPUTS, out))"

definition liblte_security_decryption_eea1 ::
  "bytes option \<Rightarrow> u32 \<Rightarrow> u8 \<Rightarrow> u8 \<Rightarrow> bytes option \<Rightarrow> u32 \<Rightarrow> bytes option
    \<Rightarrow> (liblte_error \<times> bytes option) option" where
  "liblte_security_decryption_eea1 key count bearer direction ct ct_len out =
    liblte_security_encryption_eea1 key count bearer direction ct ct_len out"

text \<open>\<^verbatim>\<open>zuc_state\<close> is an uninitialised local variable: any memory, here zeros.\<close>

definition eea3_keystream :: "bytes \<Rightarrow> u32 \<Rightarrow> u8 \<Rightarrow> u8 \<Rightarrow> u32 \<Rightarrow> u32 list" where
  "eea3_keystream key count bearer direction n =
    (let iv4 = push_bit 3 (bearer AND 0x1F) OR push_bit 2 (direction AND 1);
         half = [byte_at count 24, byte_at count 16, byte_at count 8, byte_at count 0, iv4, 0, 0, 0]
     in fst (zuc_generate_keystream (zuc_initialize zuc_zero key (half @ half)) (sint n)))"

definition liblte_security_encryption_eea3 ::
  "bytes option \<Rightarrow> u32 \<Rightarrow> u8 \<Rightarrow> u8 \<Rightarrow> bytes option \<Rightarrow> u32 \<Rightarrow> bytes option
    \<Rightarrow> (liblte_error \<times> bytes option) option" where
  "liblte_security_encryption_eea3 key count bearer direction msg msg_len out =
    (case (key, msg, out) of
       (Some key, Some msg, Some out) \<Rightarrow> do {
         out \<leftarrow> eea_mix (eea3_keystream key count bearer direction ((msg_len + 31) div 32)) msg msg_len out;
         Some (LIBLTE_SUCCESS, Some out) }
     | _ \<Rightarrow> Some (LIBLTE_ERROR_INVALID_INPUTS, out))"

definition liblte_security_decryption_eea3 ::
  "bytes option \<Rightarrow> u32 \<Rightarrow> u8 \<Rightarrow> u8 \<Rightarrow> bytes option \<Rightarrow> u32 \<Rightarrow> bytes option
    \<Rightarrow> (liblte_error \<times> bytes option) option" where
  "liblte_security_decryption_eea3 key count bearer direction msg msg_len out =
    liblte_security_encryption_eea3 key count bearer direction msg msg_len out"

section \<open>EEA2\<close>

definition liblte_security_encryption_eea2 ::
  "aes_lib \<Rightarrow> bytes option \<Rightarrow> u32 \<Rightarrow> u8 \<Rightarrow> u8 \<Rightarrow> bytes option \<Rightarrow> u32 \<Rightarrow> bytes option
    \<Rightarrow> (liblte_error \<times> bytes option) option" where
  "liblte_security_encryption_eea2 aes key count bearer direction msg msg_len out =
    (case (key, msg, out) of
       (Some key, Some msg, Some out) \<Rightarrow>
         (let n = unat ((msg_len + 7) div 8);
              nonce_cnt = [byte_at count 24, byte_at count 16, byte_at count 8, byte_at count 0,
                push_bit 3 (bearer AND 0x1F) OR push_bit 2 (direction AND 1)] @ replicate 11 0
          in if length msg < n \<or> length out < n then None
             else (case aes_ctr aes key n nonce_cnt (take n msg) of
                None \<Rightarrow> Some (LIBLTE_ERROR_INVALID_INPUTS, Some out)
              | Some ct \<Rightarrow> do {
                  out \<leftarrow> zero_tailing_bits (ct @ drop n out) msg_len;
                  Some (LIBLTE_SUCCESS, Some out) }))
     | _ \<Rightarrow> Some (LIBLTE_ERROR_INVALID_INPUTS, out))"

definition liblte_security_decryption_eea2 ::
  "aes_lib \<Rightarrow> bytes option \<Rightarrow> u32 \<Rightarrow> u8 \<Rightarrow> u8 \<Rightarrow> bytes option \<Rightarrow> u32 \<Rightarrow> bytes option
    \<Rightarrow> (liblte_error \<times> bytes option) option" where
  "liblte_security_decryption_eea2 aes key count bearer direction ct ct_len out =
    liblte_security_encryption_eea2 aes key count bearer direction ct ct_len out"

section \<open>What the stream ciphers write\<close>

definition ks_bytes :: "u32 list \<Rightarrow> bytes" where
  "ks_bytes ks = concat (map (\<lambda>w. [byte_at w 24, byte_at w 16, byte_at w 8, byte_at w 0]) ks)"

text \<open>\<open>mixed kb msg n out\<close>: the first \<open>n\<close> bytes of \<open>out\<close> are those of \<open>msg\<close> with \<open>kb\<close> mixed in.\<close>

definition mixed :: "bytes \<Rightarrow> bytes \<Rightarrow> nat \<Rightarrow> bytes \<Rightarrow> bytes" where
  "mixed kb msg n out = map2 (XOR) (take n msg) (take n kb) @ drop n out"

lemma length_ks_bytes [simp]: "length (ks_bytes ks) = 4 * length ks"
  by (induction ks) (simp_all add: ks_bytes_def)

lemma ks_bytes_nth:
  "i < length ks \<Longrightarrow> ks_bytes ks ! (4 * i) = byte_at (ks ! i) 24"
  "i < length ks \<Longrightarrow> ks_bytes ks ! (4 * i + 1) = byte_at (ks ! i) 16"
  "i < length ks \<Longrightarrow> ks_bytes ks ! (4 * i + 2) = byte_at (ks ! i) 8"
  "i < length ks \<Longrightarrow> ks_bytes ks ! (4 * i + 3) = byte_at (ks ! i) 0"
proof (induction ks arbitrary: i)
  case (Cons w ks)
  { case 1 then show ?case using Cons.IH(1) [of "i - 1"] by (cases i) (simp_all add: ks_bytes_def) next
    case 2 then show ?case using Cons.IH(2) [of "i - 1"] by (cases i) (simp_all add: ks_bytes_def) next
    case 3 then show ?case using Cons.IH(3) [of "i - 1"] by (cases i) (simp_all add: ks_bytes_def eval_nat_numeral) next
    case 4 then show ?case using Cons.IH(4) [of "i - 1"] by (cases i) (simp_all add: ks_bytes_def eval_nat_numeral) }
qed simp_all

lemma ks_bytes_at:
  assumes "i < 4 * length ks"
  shows "byte_at (ks ! (i div 4)) ((3 - i mod 4) * 8) = ks_bytes ks ! i"
proof -
  have i: "i div 4 < length ks" using assms by (simp add: less_mult_imp_div_less mult.commute)
  have e: "4 * (i div 4) + i mod 4 = i" by simp
  have "i mod 4 < 4" by simp
  then have "i mod 4 = 0 \<or> i mod 4 = 1 \<or> i mod 4 = 2 \<or> i mod 4 = 3" by linarith
  then show ?thesis
    using ks_bytes_nth [OF i] e by (elim disjE) (simp_all del: div_mod_decomp)
qed

lemma mixed_0 [simp]: "mixed kb msg 0 out = out"
  by (simp add: mixed_def)

lemma length_mixed [simp]:
  "n \<le> length msg \<Longrightarrow> n \<le> length kb \<Longrightarrow> n \<le> length out \<Longrightarrow> length (mixed kb msg n out) = length out"
  by (simp add: mixed_def)

lemma wr_xor_mixed:
  assumes "k < length msg" "k < length kb" "k < length out"
  shows "wr_xor msg (mixed kb msg k out) k (kb ! k) = Some (mixed kb msg (Suc k) out)"
proof -
  have "(mixed kb msg k out)[k := msg ! k XOR kb ! k] = mixed kb msg (Suc k) out"
    using assms by (simp add: mixed_def take_Suc_conv_app_nth list_update_append upd_conv_take_nth_drop
      Cons_nth_drop_Suc [symmetric])
  then show ?thesis using assms by (simp add: wr_xor_def rd_def wr_def)
qed

lemma eea_words_mixed:
  assumes "4 * (i + n) \<le> length msg" "i + n \<le> length ks" "4 * (i + n) \<le> length out"
  shows "eea_words ks msg n i (mixed (ks_bytes ks) msg (4 * i) out) = Some (mixed (ks_bytes ks) msg (4 * (i + n)) out)"
  using assms
proof (induction n arbitrary: i)
  case (Suc n)
  have b: "byte_at (ks ! i) 24 = ks_bytes ks ! (4 * i + 0)" "byte_at (ks ! i) 16 = ks_bytes ks ! (4 * i + 1)"
    "byte_at (ks ! i) 8 = ks_bytes ks ! (4 * i + 2)" "byte_at (ks ! i) 0 = ks_bytes ks ! (4 * i + 3)"
    using Suc.prems by (simp_all only: ks_bytes_nth add_0_right)
  have w: "wr_xor msg (mixed (ks_bytes ks) msg (4 * i + j) out) (4 * i + j) (ks_bytes ks ! (4 * i + j))
      = Some (mixed (ks_bytes ks) msg (4 * i + j + 1) out)" if "j < 4" for j
    using wr_xor_mixed [of "4 * i + j" msg "ks_bytes ks" out] Suc.prems that by simp
  show ?case
    using Suc.IH [of "i + 1"] Suc.prems w [of 0] w [of 1] w [of 2] w [of 3]
    unfolding eea_words.simps b by (simp add: numeral_eq_Suc)
qed simp

lemma eea_tail_mixed:
  assumes "k + n \<le> length msg" "k + n \<le> 4 * length ks" "k + n \<le> length out"
  shows "eea_tail ks msg n (int k) (mixed (ks_bytes ks) msg k out) = Some (mixed (ks_bytes ks) msg (k + n) out)"
  using assms
proof (induction n arbitrary: k)
  case (Suc n)
  show ?case
    using Suc.IH [of "Suc k"] Suc.prems wr_xor_mixed [of k msg "ks_bytes ks" out]
    by (simp add: ks_bytes_at add.commute)
qed simp

lemma u8_and_255: "(x :: u8) AND 255 = x"
  by (simp add: and_mask_255 take_bit_word_eq_self)

text \<open>A message of whole bytes has no bits to clear.\<close>

lemma zero_tailing_whole:
  assumes "0 < n" "n < 2 ^ 28" "n \<le> length data"
  shows "zero_tailing_bits data (of_nat n * 8) = Some data"
proof -
  have "(of_nat n * 8 :: u32) AND 7 = 0"
    by (simp add: and_mask_7 take_bit_eq_mod word_unat_eq_iff unat_mod_distrib unat_of_nat
      unat_word_ariths mod_mod_cancel)
  moreover have "unat ((of_nat n * 8 + 7 :: u32) div 8 - 1) = n - 1"
  proof -
    have "(of_nat n * 8 + 7 :: u32) = of_nat (n * 8 + 7)" by simp
    then have "(of_nat n * 8 + 7 :: u32) div 8 = of_nat n"
      using assms(2) by (simp only: word_unat_eq_iff unat_div) (subst (1 2) unat_of_nat_u32, simp_all)
    then have "(of_nat n * 8 + 7 :: u32) div 8 - 1 = of_nat (n - 1)" using assms(1) by (simp add: of_nat_diff)
    then show ?thesis using assms(2) by (simp only:) (rule unat_of_nat_u32, simp)
  qed
  ultimately show ?thesis
    using assms by (simp add: zero_tailing_bits_def Let_def rd_def wr_def u8_and_255)
qed

lemma eea_mix_whole:
  assumes "0 < n" "n < 2 ^ 28" "n \<le> length msg" "n \<le> length out"
    "length ks = unat ((of_nat n * 8 + 31) div 32 :: u32)"
  shows "eea_mix ks msg (of_nat n * 8) out = Some (mixed (ks_bytes ks) msg n out)"
    "n \<le> length (ks_bytes ks)"
proof -
  define w where "w = (n + 3) div 4"
  have w: "1 \<le> w" "4 * (w - 1) < n" "n \<le> 4 * w" "w < 2 ^ 27"
    using assms(1,2) by (auto simp: w_def)
  have b8: "(of_nat n * 8 + 7 :: u32) div 8 = of_nat n"
  proof -
    have "(of_nat n * 8 + 7 :: u32) = of_nat (n * 8 + 7)" by simp
    then show ?thesis
      using assms(2) by (simp only: word_unat_eq_iff unat_div) (subst (1 2) unat_of_nat_u32, simp_all)
  qed
  have b32: "(of_nat n * 8 + 31 :: u32) div 32 = of_nat w"
  proof -
    have "(of_nat n * 8 + 31 :: u32) = of_nat (n * 8 + 31)" by simp
    moreover have "(n * 8 + 31) div 32 = w" unfolding w_def by linarith
    ultimately show ?thesis
      using assms(2) w(4) by (simp only: word_unat_eq_iff unat_div) (subst (1 2) unat_of_nat_u32, simp_all)
  qed
  have ks: "length ks = w" using assms(5) unfolding b32 by (subst unat_of_nat_u32 [symmetric]) (use w(4) in simp_all)
  have s32: "nat (sint (of_nat w :: u32) - 1) = w - 1" using w by (simp add: sint_of_nat_small)
  have "((of_nat w - 1) * 4 :: u32) = of_nat ((w - 1) * 4)" using w(1) by (simp add: of_nat_diff)
  then have i: "sint ((of_nat w - 1) * 4 :: u32) = int (4 * (w - 1))"
    using w by (simp only:) (subst sint_of_nat_small, simp_all add: mult.commute)
  have s8: "nat (sint (of_nat n :: u32) - int (4 * (w - 1))) = n - 4 * (w - 1)"
    using assms(2) by (subst sint_of_nat_small) simp_all
  show "n \<le> length (ks_bytes ks)" using w ks by simp
  have words: "eea_words ks msg (w - 1) 0 out = Some (mixed (ks_bytes ks) msg (4 * (w - 1)) out)"
    using eea_words_mixed [of 0 "w - 1" msg ks out] assms w ks by simp
  have tail: "eea_tail ks msg (n - 4 * (w - 1)) (int (4 * (w - 1))) (mixed (ks_bytes ks) msg (4 * (w - 1)) out)
      = Some (mixed (ks_bytes ks) msg n out)"
    using eea_tail_mixed [of "4 * (w - 1)" "n - 4 * (w - 1)" msg ks out] assms w ks by simp
  have len: "n \<le> length (mixed (ks_bytes ks) msg n out)" using assms w ks by simp
  show "eea_mix ks msg (of_nat n * 8) out = Some (mixed (ks_bytes ks) msg n out)"
    unfolding eea_mix_def Let_def b8 b32 s32 i s8 words bind.bind_lunit tail
    by (simp add: zero_tailing_whole [OF assms(1,2) len])
qed


section \<open>The contract of a stream cipher\<close>

text \<open>
  What the upper layers rely on: a cipher mixes a keystream, which depends on the key, the
  count, the bearer and the direction but not on the message, into the message.  Then
  applying it twice gives the message back.
\<close>

locale stream_cipher =
  fixes crypt :: "bytes \<Rightarrow> u32 \<Rightarrow> u8 \<Rightarrow> u8 \<Rightarrow> bytes \<Rightarrow> u32 \<Rightarrow> bytes \<Rightarrow> (liblte_error \<times> bytes option) option"
    and stream :: "bytes \<Rightarrow> u32 \<Rightarrow> u8 \<Rightarrow> u8 \<Rightarrow> nat \<Rightarrow> bytes"
  assumes stream_length: "0 < n \<Longrightarrow> n < 2 ^ 28 \<Longrightarrow> n \<le> length (stream key count bearer direction n)"
    and crypt_mixes: "0 < n \<Longrightarrow> n < 2 ^ 28 \<Longrightarrow> n \<le> length msg \<Longrightarrow> n \<le> length out \<Longrightarrow>
      crypt key count bearer direction msg (of_nat n) out
        = Some (LIBLTE_SUCCESS, Some (mixed (stream key count bearer direction n) msg n out))"
begin

lemma crypt_twice:
  assumes "msg \<noteq> []" "length msg < 2 ^ 28" "length msg \<le> length out" "length msg \<le> length out'"
  shows "\<exists>ct. crypt key count bearer direction msg (of_nat (length msg)) out
        = Some (LIBLTE_SUCCESS, Some (ct @ drop (length msg) out))
      \<and> length ct = length msg
      \<and> crypt key count bearer direction ct (of_nat (length msg)) out'
        = Some (LIBLTE_SUCCESS, Some (msg @ drop (length msg) out'))"
proof -
  let ?kb = "stream key count bearer direction (length msg)" and ?n = "length msg"
  let ?ct = "map2 (XOR) msg (take ?n ?kb)"
  have n: "0 < ?n" using assms(1) by simp
  note len = stream_length [OF n assms(2), of key count bearer direction]
  have ct: "length ?ct = ?n" using len by simp
  have restored: "map2 (XOR) ?ct (take ?n ?kb) = msg"
    using len by (intro nth_equalityI) (simp_all add: xor.assoc)
  show ?thesis
    using crypt_mixes [OF n assms(2) order_refl assms(3), of key count bearer direction]
      crypt_mixes [OF n assms(2) _ assms(4), of ?ct key count bearer direction] ct restored
    by (intro exI [of _ ?ct]) (simp add: mixed_def)
qed

end

text \<open>The wrappers of \<^verbatim>\<open>security.cc\<close> count the message in bytes.\<close>

definition security_128_eea1 ::
  "bytes \<Rightarrow> u32 \<Rightarrow> u8 \<Rightarrow> u8 \<Rightarrow> bytes \<Rightarrow> u32 \<Rightarrow> bytes \<Rightarrow> (liblte_error \<times> bytes option) option" where
  "security_128_eea1 key count bearer direction msg msg_len msg_out =
    liblte_security_encryption_eea1 (Some key) count bearer direction (Some msg) (msg_len * 8) (Some msg_out)"

definition security_128_eea2 ::
  "aes_lib \<Rightarrow> bytes \<Rightarrow> u32 \<Rightarrow> u8 \<Rightarrow> u8 \<Rightarrow> bytes \<Rightarrow> u32 \<Rightarrow> bytes \<Rightarrow> (liblte_error \<times> bytes option) option" where
  "security_128_eea2 aes key count bearer direction msg msg_len msg_out =
    liblte_security_encryption_eea2 aes (Some key) count bearer direction (Some msg) (msg_len * 8) (Some msg_out)"

definition security_128_eea3 ::
  "bytes \<Rightarrow> u32 \<Rightarrow> u8 \<Rightarrow> u8 \<Rightarrow> bytes \<Rightarrow> u32 \<Rightarrow> bytes \<Rightarrow> (liblte_error \<times> bytes option) option" where
  "security_128_eea3 key count bearer direction msg msg_len msg_out =
    liblte_security_encryption_eea3 (Some key) count bearer direction (Some msg) (msg_len * 8) (Some msg_out)"

definition eea1_stream :: "bytes \<Rightarrow> u32 \<Rightarrow> u8 \<Rightarrow> u8 \<Rightarrow> nat \<Rightarrow> bytes" where
  "eea1_stream key count bearer direction n =
    ks_bytes (eea1_keystream key count bearer direction ((of_nat n * 8 + 31) div 32))"

definition eea3_stream :: "bytes \<Rightarrow> u32 \<Rightarrow> u8 \<Rightarrow> u8 \<Rightarrow> nat \<Rightarrow> bytes" where
  "eea3_stream key count bearer direction n =
    ks_bytes (eea3_keystream key count bearer direction ((of_nat n * 8 + 31) div 32))"

lemma eea1_keystream_length: "length (eea1_keystream key count bearer direction n) = unat n"
  by (simp add: eea1_keystream_def Let_def s3g_generate_length)

lemma eea3_keystream_length:
  "unat n < 2 ^ 31 \<Longrightarrow> length (eea3_keystream key count bearer direction n) = unat n"
  using sint_of_nat_small [of "unat n", where 'a = 32]
  by (simp add: eea3_keystream_def Let_def zuc_generate_length)

lemma words_of_bytes: "unat ((x :: u32) div 32) < 2 ^ 31"
proof -
  have "unat x < 2 ^ 32" using unsigned_less [of x] by simp
  then show ?thesis by (simp add: unat_div)
qed

interpretation eea1: stream_cipher security_128_eea1 eea1_stream
proof (unfold_locales, goal_cases)
  case (1 n key count bearer direction)
  then show ?case
    using eea_mix_whole(2) [OF 1, of "replicate n 0" "replicate n 0"
        "eea1_keystream key count bearer direction ((of_nat n * 8 + 31) div 32)"]
    by (simp add: eea1_stream_def eea1_keystream_length)
next
  case (2 n msg out key count bearer direction)
  then show ?case
    using eea_mix_whole(1) [OF 2] 
    by (simp add: security_128_eea1_def liblte_security_encryption_eea1_def eea1_stream_def eea1_keystream_length)
qed

interpretation eea3: stream_cipher security_128_eea3 eea3_stream
proof (unfold_locales, goal_cases)
  case (1 n key count bearer direction)
  then show ?case
    using eea_mix_whole(2) [OF 1, of "replicate n 0" "replicate n 0"
        "eea3_keystream key count bearer direction ((of_nat n * 8 + 31) div 32)"]
    by (simp add: eea3_stream_def eea3_keystream_length [OF words_of_bytes])
next
  case (2 n msg out key count bearer direction)
  then show ?case
    using eea_mix_whole(1) [OF 2]
    by (simp add: security_128_eea3_def liblte_security_encryption_eea3_def eea3_stream_def
      eea3_keystream_length [OF words_of_bytes])
qed

section \<open>Encryption and decryption\<close>

lemma wrapper_eea1:
  "liblte_security_decryption_eea1 (Some key) count bearer direction (Some ct) (n * 8) (Some out)
    = security_128_eea1 key count bearer direction ct n out"
  by (simp add: liblte_security_decryption_eea1_def security_128_eea1_def)

lemma wrapper_eea3:
  "liblte_security_decryption_eea3 (Some key) count bearer direction (Some ct) (n * 8) (Some out)
    = security_128_eea3 key count bearer direction ct n out"
  by (simp add: liblte_security_decryption_eea3_def security_128_eea3_def)

text \<open>
  C16. Round trip of the ciphers EEA1 and EEA3: a message of at least one and fewer than 2^28 bytes (so
  that its length in bits fits 32 bits by a wide margin; C40 is the empty message) is encrypted into as
  many bytes, the output array is left alone behind them, and decrypting them with the same
  key, count, bearer and direction gives the message back.
\<close>

theorem eea_round_trip:
  assumes "msg \<noteq> []" "length msg < 2 ^ 28" "length msg \<le> length out" "length msg \<le> length out'"
  shows "(\<exists>ct. security_128_eea1 key count bearer direction msg (of_nat (length msg)) out
        = Some (LIBLTE_SUCCESS, Some (ct @ drop (length msg) out))
      \<and> length ct = length msg
      \<and> liblte_security_decryption_eea1 (Some key) count bearer direction (Some ct)
          (of_nat (length msg) * 8) (Some out')
        = Some (LIBLTE_SUCCESS, Some (msg @ drop (length msg) out')))
    \<and> (\<exists>ct. security_128_eea3 key count bearer direction msg (of_nat (length msg)) out
        = Some (LIBLTE_SUCCESS, Some (ct @ drop (length msg) out))
      \<and> length ct = length msg
      \<and> liblte_security_decryption_eea3 (Some key) count bearer direction (Some ct)
          (of_nat (length msg) * 8) (Some out')
        = Some (LIBLTE_SUCCESS, Some (msg @ drop (length msg) out')))"
  unfolding wrapper_eea1 wrapper_eea3
  using eea1.crypt_twice [OF assms] eea3.crypt_twice [OF assms] by blast

theorem eea_round_trip_witness:
  "\<exists>ct. security_128_eea1 (replicate 16 1) 7 2 0 [1, 2, 3] 3 [9, 9, 9, 9, 9]
      = Some (LIBLTE_SUCCESS, Some (ct @ [9, 9])) \<and> length ct = Suc (Suc (Suc 0))
    \<and> liblte_security_decryption_eea1 (Some (replicate 16 1)) 7 2 0 (Some ct) 24 (Some [0, 0, 0])
      = Some (LIBLTE_SUCCESS, Some [1, 2, 3])"
  using eea_round_trip [of "[1, 2, 3]" "[9, 9, 9, 9, 9]" "[0, 0, 0]" "replicate 16 1" 7 2 0, THEN conjunct1]
  by simp

text \<open>An empty message: the loop over the last bytes starts at index -4.\<close>

lemma eea_mix_empty: "eea_mix ks msg 0 out = None"
proof -
  have c: "((0 :: u32) + 7) div 8 = 0" "((0 :: u32) + 31) div 32 = 0" "sint ((0 - 1) * 4 :: u32) = -4"
    "nat (sint (0 :: u32) - 1) = 0" "nat (sint (0 :: u32) - -4) = Suc 3"
    by simp_all
  show ?thesis
    unfolding eea_mix_def Let_def c eea_words.simps bind.bind_lunit eea_tail.simps by simp
qed

text \<open>
  C40. The ciphers EEA1 and EEA3 must not be called for an empty message: the block count wraps,
  the loop over the last bytes starts four bytes before the arrays, and what happens is
  undefined whatever the arrays are.
\<close>

theorem eea_empty_undefined:
  "security_128_eea1 key count bearer direction msg 0 out = None
    \<and> security_128_eea3 key count bearer direction msg 0 out = None"
  by (simp add: security_128_eea1_def security_128_eea3_def liblte_security_encryption_eea1_def
    liblte_security_encryption_eea3_def eea_mix_empty)

end
