(* ===== verification/Integrity.thy ===== *)
theory Integrity
  imports Security
begin

text \<open>
  The integrity algorithms EIA1 to EIA3 of \<^verbatim>\<open>common/liblte_security.cc\<close> and their
  wrappers in \<^verbatim>\<open>common/security.cc\<close>.  The caller's four-byte array \<^verbatim>\<open>mac\<close> is passed in and
  returned; \<open>None\<close> is an access outside an array.
\<close>

section \<open>EIA1\<close>

definition liblte_security_128_eia1 ::
  "bytes option \<Rightarrow> u32 \<Rightarrow> u8 \<Rightarrow> u8 \<Rightarrow> bytes option \<Rightarrow> u32 \<Rightarrow> bytes option
    \<Rightarrow> (liblte_error \<times> bytes option) option" where
  "liblte_security_128_eia1 key count bearer direction msg msg_len mac =
    (case (key, msg, mac) of
       (Some key, Some msg, Some mac) \<Rightarrow>
         (let msg_len_bits = msg_len * 8 in do {
            m \<leftarrow> s3g_f9 key count (push_bit 27 (ucast bearer)) (ucast direction) msg (ucast msg_len_bits);
            Some (LIBLTE_SUCCESS, Some m) })
     | _ \<Rightarrow> Some (LIBLTE_ERROR_INVALID_INPUTS, mac))"

section \<open>EIA2\<close>

text \<open>A 16-byte block doubled: shifted left by one bit, reduced with 0x87.\<close>

definition eia2_double :: "bytes \<Rightarrow> bytes" where
  "eia2_double L =
    (let K = map (\<lambda>i. push_bit 1 (L ! i) OR (drop_bit 7 (L ! (i + 1)) AND 0x01)) [0..<15];
         K15 = push_bit 1 (L ! 15);
         K15 = (if L ! 0 AND 0x80 \<noteq> 0 then K15 XOR 0x87 else K15)
     in K @ [K15])"

text \<open>
  \<open>eia2_blocks\<close> is the loop over all blocks but the last.  \<^verbatim>\<open>n\<close> is computed in
  floating point, exact for messages below 2^24 bytes.
\<close>

fun eia2_blocks :: "(bytes \<Rightarrow> bytes) \<Rightarrow> bytes \<Rightarrow> nat \<Rightarrow> nat \<Rightarrow> bytes \<Rightarrow> bytes" where
  "eia2_blocks enc M 0 i T = T"
| "eia2_blocks enc M (Suc n) i T =
    eia2_blocks enc M n (i + 1) (enc (map (\<lambda>j. T ! j XOR M ! (i * 16 + j)) [0..<16]))"

definition eia2_mac :: "(bytes \<Rightarrow> bytes) \<Rightarrow> bytes \<Rightarrow> nat \<Rightarrow> nat \<Rightarrow> bytes" where
  "eia2_mac enc M n bits =
    (let K1 = eia2_double (enc (replicate 16 0));
         K2 = eia2_double K1;
         T = eia2_blocks enc M (n - 1) 0 (replicate 16 0);
         i = n - 1;
         pad_bits = bits mod 128
     in if pad_bits = 0
        then enc (map (\<lambda>j. T ! j XOR K1 ! j XOR M ! (i * 16 + j)) [0..<16])
        else let pad_bits = (128 - pad_bits) - 1;
                 k = i * 16 + (15 - pad_bits div 8);
                 M = M[k := M ! k OR push_bit (pad_bits mod 8) 1]
             in enc (map (\<lambda>j. T ! j XOR K2 ! j XOR M ! (i * 16 + j)) [0..<16]))"

definition eia2_head :: "u32 \<Rightarrow> u8 \<Rightarrow> u8 \<Rightarrow> bytes" where
  "eia2_head count bearer direction =
    [byte_at count 24, byte_at count 16, byte_at count 8, byte_at count 0,
     push_bit 3 bearer OR push_bit 2 direction, 0, 0, 0]"

definition liblte_security_128_eia2 ::
  "aes_lib \<Rightarrow> bytes option \<Rightarrow> u32 \<Rightarrow> u8 \<Rightarrow> u8 \<Rightarrow> bytes option \<Rightarrow> u32 \<Rightarrow> bytes option
    \<Rightarrow> (liblte_error \<times> bytes option) option" where
  "liblte_security_128_eia2 aes key count bearer direction msg msg_len mac =
    (case (key, msg, mac) of
       (Some key, Some msg, Some mac) \<Rightarrow>
         (let len = unat msg_len;
              M = eia2_head count bearer direction @ take len msg @ replicate 16 0;
              n = (len + 8 + 15) div 16
          in if length msg < len then None
             else Some (LIBLTE_SUCCESS, Some (take 4 (eia2_mac (aes_ecb aes key) M n (len * 8 + 64)))))
     | _ \<Rightarrow> Some (LIBLTE_ERROR_INVALID_INPUTS, mac))"

text \<open>The overload for a message of bits, one per byte: \<^verbatim>\<open>LIBLTE_BIT_MSG_STRUCT\<close>.\<close>

definition pack_bits :: "bytes \<Rightarrow> nat \<Rightarrow> nat \<Rightarrow> u8" where
  "pack_bits msg i n = foldl (\<lambda>b j. b OR push_bit (7 - j) (msg ! (i * 8 + j))) 0 [0..<n]"

definition liblte_security_128_eia2_bits ::
  "aes_lib \<Rightarrow> bytes option \<Rightarrow> u32 \<Rightarrow> u8 \<Rightarrow> u8 \<Rightarrow> bytes option \<Rightarrow> u32 \<Rightarrow> bytes option
    \<Rightarrow> (liblte_error \<times> bytes option) option" where
  "liblte_security_128_eia2_bits aes key count bearer direction msg N_bits mac =
    (case (key, msg, mac) of
       (Some key, Some msg, Some mac) \<Rightarrow>
         (let bits = unat N_bits;
              whole = map (\<lambda>i. pack_bits msg i 8) [0..<bits div 8];
              rest = (if bits mod 8 \<noteq> 0 then [pack_bits msg (bits div 8) (bits mod 8)] else []);
              body = whole @ rest;
              M = eia2_head count bearer direction @ body @ replicate (bits * 8 + 16 - length body) 0;
              n = (bits + 64 + 127) div 128
          in if length msg < bits then None
             else Some (LIBLTE_SUCCESS, Some (take 4 (eia2_mac (aes_ecb aes key) M n (bits + 64)))))
     | _ \<Rightarrow> Some (LIBLTE_ERROR_INVALID_INPUTS, mac))"

section \<open>EIA3\<close>

definition GET_WORD :: "u32 list \<Rightarrow> nat \<Rightarrow> u32" where
  "GET_WORD DATA i =
    (let ti = i mod 32 in
     if ti = 0 then DATA ! (i div 32)
     else push_bit ti (DATA ! (i div 32)) OR drop_bit (32 - ti) (DATA ! (i div 32 + 1)))"

definition GET_BIT :: "bytes \<Rightarrow> nat \<Rightarrow> bool" where
  "GET_BIT DATA i \<longleftrightarrow> DATA ! (i div 8) AND push_bit (7 - i mod 8) 1 \<noteq> 0"

fun eia3_sum :: "bytes \<Rightarrow> u32 list \<Rightarrow> nat \<Rightarrow> nat \<Rightarrow> u32 \<Rightarrow> u32" where
  "eia3_sum msg ks 0 i T = T"
| "eia3_sum msg ks (Suc n) i T =
    eia3_sum msg ks n (i + 1) (if GET_BIT msg i then T XOR GET_WORD ks i else T)"

text \<open>
  \<open>N\<close> and \<open>L\<close> are signed; a message of 2^31 bits or more, for which \<open>N + 31\<close>
  overflows, is outside the model.  The function never sets \<^verbatim>\<open>err\<close>.
\<close>

definition liblte_security_128_eia3 ::
  "bytes option \<Rightarrow> u32 \<Rightarrow> u8 \<Rightarrow> u8 \<Rightarrow> bytes option \<Rightarrow> u32 \<Rightarrow> bytes option
    \<Rightarrow> (liblte_error \<times> bytes option) option" where
  "liblte_security_128_eia3 key count bearer direction msg msg_len mac =
    (case (key, msg, mac) of
       (Some key, Some msg, Some mac) \<Rightarrow>
         (let n = unat msg_len;
              iv4 = push_bit 3 bearer AND 0xF8;
              dir = push_bit 7 (direction AND 1);
              iv = [byte_at count 24, byte_at count 16, byte_at count 8, byte_at count 0, iv4, 0, 0, 0,
                    byte_at count 24 XOR dir, byte_at count 16, byte_at count 8, byte_at count 0,
                    iv4, 0, 0 XOR dir, 0];
              L = (n + 64 + 31) div 32;
              ks = fst (zuc_generate_keystream (zuc_initialize zuc_zero key iv) (int L));
              T = eia3_sum msg ks n 0 0;
              T = T XOR GET_WORD ks n;
              mac_tmp = T XOR ks ! (L - 1)
          in if 8 * length msg < n \<or> 2 ^ 31 \<le> n + 64 + 31 then None
             else Some (LIBLTE_ERROR_INVALID_INPUTS,
               Some [byte_at mac_tmp 24, byte_at mac_tmp 16, byte_at mac_tmp 8, byte_at mac_tmp 0]))
     | _ \<Rightarrow> Some (LIBLTE_ERROR_INVALID_INPUTS, mac))"

section \<open>Wrappers\<close>

text \<open>The bearer is a 32-bit argument here and an 8-bit one below.\<close>

definition security_128_eia1 ::
  "bytes \<Rightarrow> u32 \<Rightarrow> u32 \<Rightarrow> u8 \<Rightarrow> bytes \<Rightarrow> u32 \<Rightarrow> bytes \<Rightarrow> (liblte_error \<times> bytes option) option" where
  "security_128_eia1 key count bearer direction msg msg_len mac =
    liblte_security_128_eia1 (Some key) count (ucast bearer) direction (Some msg) msg_len (Some mac)"

definition security_128_eia2 ::
  "aes_lib \<Rightarrow> bytes \<Rightarrow> u32 \<Rightarrow> u32 \<Rightarrow> u8 \<Rightarrow> bytes \<Rightarrow> u32 \<Rightarrow> bytes \<Rightarrow> (liblte_error \<times> bytes option) option" where
  "security_128_eia2 aes key count bearer direction msg msg_len mac =
    liblte_security_128_eia2 aes (Some key) count (ucast bearer) direction (Some msg) msg_len (Some mac)"

definition security_128_eia3 ::
  "bytes \<Rightarrow> u32 \<Rightarrow> u32 \<Rightarrow> u8 \<Rightarrow> bytes \<Rightarrow> u32 \<Rightarrow> bytes \<Rightarrow> (liblte_error \<times> bytes option) option" where
  "security_128_eia3 key count bearer direction msg msg_len mac =
    liblte_security_128_eia3 (Some key) count (ucast bearer) direction (Some msg) (msg_len * 8) (Some mac)"

end
