(* ===== verification/PdcpBase.thy ===== *)
theory PdcpBase
  imports ByteBuffer Integrity
begin

text \<open>
  \<^verbatim>\<open>pdcp/pdcp_entity_base.cc\<close> and \<^verbatim>\<open>upper/pdcp_entity_base.h\<close>: what the LTE and
  NR PDCP entities share, namely the configuration, the activation of security, the split of
  a 32-bit COUNT into hyper frame number and sequence number, ciphering and integrity
  protection with the configured algorithms, and reading and writing of the data header and
  of the MAC-I.  Names, logging and metrics are not modelled.
\<close>

section \<open>Configuration\<close>

datatype pdcp_rb_type = PDCP_RB_IS_SRB | PDCP_RB_IS_DRB

datatype security_direction = SECURITY_DIRECTION_UPLINK | SECURITY_DIRECTION_DOWNLINK

fun security_direction_val :: "security_direction \<Rightarrow> u8" where
  "security_direction_val SECURITY_DIRECTION_UPLINK = 0"
| "security_direction_val SECURITY_DIRECTION_DOWNLINK = 1"

datatype isrran_direction = DIRECTION_NONE | DIRECTION_TX | DIRECTION_RX | DIRECTION_TXRX

datatype integrity_algorithm = INTEGRITY_ALGORITHM_ID_EIA0 | INTEGRITY_ALGORITHM_ID_128_EIA1
  | INTEGRITY_ALGORITHM_ID_128_EIA2 | INTEGRITY_ALGORITHM_ID_128_EIA3

datatype ciphering_algorithm = CIPHERING_ALGORITHM_ID_EEA0 | CIPHERING_ALGORITHM_ID_128_EEA1
  | CIPHERING_ALGORITHM_ID_128_EEA2 | CIPHERING_ALGORITHM_ID_128_EEA3

datatype isrran_rat = rat_lte | rat_nr | rat_nulltype

definition PDCP_SN_LEN_5 :: nat where "PDCP_SN_LEN_5 = 5"
definition PDCP_SN_LEN_7 :: nat where "PDCP_SN_LEN_7 = 7"
definition PDCP_SN_LEN_12 :: nat where "PDCP_SN_LEN_12 = 12"
definition PDCP_SN_LEN_15 :: nat where "PDCP_SN_LEN_15 = 15"
definition PDCP_SN_LEN_18 :: nat where "PDCP_SN_LEN_18 = 18"

lemmas pdcp_sn_lens = PDCP_SN_LEN_5_def PDCP_SN_LEN_7_def PDCP_SN_LEN_12_def PDCP_SN_LEN_15_def
  PDCP_SN_LEN_18_def

text \<open>The two timer enumerations are their milliseconds, \<open>None\<close> for \<^verbatim>\<open>infinity\<close>.\<close>

record pdcp_config =
  bearer_id :: u8
  rb_type :: pdcp_rb_type
  tx_direction :: security_direction
  rx_direction :: security_direction
  sn_len :: nat
  hdr_len_bytes :: nat
  t_reordering :: "nat option"
  discard_timer :: "nat option"
  rat :: isrran_rat
  status_report_required :: bool

definition pdcp_config_ctor ::
  "u8 \<Rightarrow> pdcp_rb_type \<Rightarrow> security_direction \<Rightarrow> security_direction \<Rightarrow> nat \<Rightarrow> nat option \<Rightarrow> nat option
    \<Rightarrow> bool \<Rightarrow> isrran_rat \<Rightarrow> pdcp_config" where
  "pdcp_config_ctor bearer_id' rb_type' tx_direction' rx_direction' sn_len' t_reordering' discard_timer'
     status_report_required' rat' =
    \<lparr>bearer_id = bearer_id', rb_type = rb_type', tx_direction = tx_direction',
     rx_direction = rx_direction', sn_len = sn_len', hdr_len_bytes = (sn_len' + 7) div 8,
     t_reordering = t_reordering', discard_timer = discard_timer', rat = rat',
     status_report_required = status_report_required'\<rparr>"

record as_security_config =
  k_rrc_int :: bytes
  k_rrc_enc :: bytes
  k_up_int :: bytes
  k_up_enc :: bytes
  integ_algo :: integrity_algorithm
  cipher_algo :: ciphering_algorithm

definition PDCP_MAX_SDU_SIZE :: nat where "PDCP_MAX_SDU_SIZE = 9000"

record pdcp_entity_base =
  active :: bool
  lcid :: u32
  integrity_direction :: isrran_direction
  encryption_direction :: isrran_direction
  enable_security_tx_sn :: int
  enable_security_rx_sn :: int
  cfg :: pdcp_config
  sec_cfg :: as_security_config

definition is_srb :: "'a pdcp_entity_base_scheme \<Rightarrow> bool" where
  "is_srb e \<longleftrightarrow> rb_type (cfg e) = PDCP_RB_IS_SRB"

definition is_drb :: "'a pdcp_entity_base_scheme \<Rightarrow> bool" where
  "is_drb e \<longleftrightarrow> rb_type (cfg e) = PDCP_RB_IS_DRB"

definition set_enabled :: "bool \<Rightarrow> 'a pdcp_entity_base_scheme \<Rightarrow> 'a pdcp_entity_base_scheme" where
  "set_enabled enabled e = e\<lparr>active := enabled\<rparr>"

section \<open>Activation of security\<close>

text \<open>If one direction is enabled already and the other is asked for, both are.\<close>

definition merge_direction :: "isrran_direction \<Rightarrow> isrran_direction \<Rightarrow> isrran_direction" where
  "merge_direction old direction =
    (if old = DIRECTION_TX \<and> direction = DIRECTION_RX then DIRECTION_TXRX
     else if old = DIRECTION_RX \<and> direction = DIRECTION_TX then DIRECTION_TXRX
     else direction)"

definition enable_integrity :: "isrran_direction \<Rightarrow> 'a pdcp_entity_base_scheme \<Rightarrow> 'a pdcp_entity_base_scheme" where
  "enable_integrity direction e =
    e\<lparr>integrity_direction := merge_direction (integrity_direction e) direction\<rparr>"

definition enable_encryption :: "isrran_direction \<Rightarrow> 'a pdcp_entity_base_scheme \<Rightarrow> 'a pdcp_entity_base_scheme" where
  "enable_encryption direction e =
    e\<lparr>encryption_direction := merge_direction (encryption_direction e) direction\<rparr>"

definition enable_security_timed ::
  "isrran_direction \<Rightarrow> u32 \<Rightarrow> 'a pdcp_entity_base_scheme \<Rightarrow> 'a pdcp_entity_base_scheme" where
  "enable_security_timed direction sn e =
    (case direction of
       DIRECTION_TX \<Rightarrow> e\<lparr>enable_security_tx_sn := sint sn\<rparr>
     | DIRECTION_RX \<Rightarrow> e\<lparr>enable_security_rx_sn := sint sn\<rparr>
     | _ \<Rightarrow> e)"

definition config_security :: "as_security_config \<Rightarrow> 'a pdcp_entity_base_scheme \<Rightarrow> 'a pdcp_entity_base_scheme" where
  "config_security sec_cfg' e = e\<lparr>sec_cfg := sec_cfg'\<rparr>"

section \<open>COUNT, HFN and SN\<close>

definition HFN :: "'a pdcp_entity_base_scheme \<Rightarrow> u32 \<Rightarrow> u32" where
  "HFN e count = drop_bit (sn_len (cfg e)) count"

definition SN :: "'a pdcp_entity_base_scheme \<Rightarrow> u32 \<Rightarrow> u32" where
  "SN e count = count AND drop_bit (32 - sn_len (cfg e)) 0xFFFFFFFF"

definition COUNT :: "'a pdcp_entity_base_scheme \<Rightarrow> u32 \<Rightarrow> u32 \<Rightarrow> u32" where
  "COUNT e hfn sn = push_bit (sn_len (cfg e)) hfn OR sn"

section \<open>Security functions\<close>

text \<open>
  The keys are 32 bytes, the algorithms use the second half of them.  \<open>mac\<close> is the caller's
  four-byte array before the call, the result what it holds afterwards; the result code of
  the algorithms is ignored.
\<close>

definition integrity_mac ::
  "aes_lib \<Rightarrow> 'a pdcp_entity_base_scheme \<Rightarrow> security_direction \<Rightarrow> bytes \<Rightarrow> u32 \<Rightarrow> bytes \<Rightarrow> bytes option" where
  "integrity_mac aes e direction msg count mac =
    (let k_int = (if is_srb e then k_rrc_int (sec_cfg e) else k_up_int (sec_cfg e));
         key = drop 16 k_int;
         bearer = (ucast (bearer_id (cfg e)) :: u32) - 1;
         dir = security_direction_val direction;
         msg_len = of_nat (length msg)
     in case integ_algo (sec_cfg e) of
          INTEGRITY_ALGORITHM_ID_EIA0 \<Rightarrow> Some mac
        | INTEGRITY_ALGORITHM_ID_128_EIA1 \<Rightarrow>
            do { (_, m) \<leftarrow> security_128_eia1 key count bearer dir msg msg_len mac; m }
        | INTEGRITY_ALGORITHM_ID_128_EIA2 \<Rightarrow>
            do { (_, m) \<leftarrow> security_128_eia2 aes key count bearer dir msg msg_len mac; m }
        | INTEGRITY_ALGORITHM_ID_128_EIA3 \<Rightarrow>
            do { (_, m) \<leftarrow> security_128_eia3 key count bearer dir msg msg_len mac; m })"

definition integrity_generate ::
  "aes_lib \<Rightarrow> 'a pdcp_entity_base_scheme \<Rightarrow> bytes \<Rightarrow> u32 \<Rightarrow> bytes \<Rightarrow> bytes option" where
  "integrity_generate aes e msg count mac = integrity_mac aes e (tx_direction (cfg e)) msg count mac"

definition integrity_verify ::
  "aes_lib \<Rightarrow> 'a pdcp_entity_base_scheme \<Rightarrow> bytes \<Rightarrow> u32 \<Rightarrow> bytes \<Rightarrow> bool option" where
  "integrity_verify aes e msg count mac = do {
    mac_exp \<leftarrow> integrity_mac aes e (rx_direction (cfg e)) msg count (replicate 4 0);
    Some (integ_algo (sec_cfg e) = INTEGRITY_ALGORITHM_ID_EIA0
      \<or> list_all (\<lambda>i. mac ! i = mac_exp ! i) [0..<4]) }"

text \<open>
  Both callers pass the same array as input and output: \<open>pdcp_cipher\<close> maps its contents to the
  contents after the call.  The algorithms write to an array of \<^verbatim>\<open>PDCP_MAX_SDU_SIZE\<close>
  bytes on the stack, which is copied back.
\<close>

definition pdcp_cipher ::
  "aes_lib \<Rightarrow> 'a pdcp_entity_base_scheme \<Rightarrow> security_direction \<Rightarrow> bytes \<Rightarrow> u32 \<Rightarrow> bytes option" where
  "pdcp_cipher aes e direction msg count =
    (let k_enc = (if is_srb e then k_rrc_enc (sec_cfg e) else k_up_enc (sec_cfg e));
         key = drop 16 k_enc;
         bearer = bearer_id (cfg e) - 1;
         dir = security_direction_val direction;
         msg_len = of_nat (length msg);
         ct_tmp = replicate PDCP_MAX_SDU_SIZE 0
     in case cipher_algo (sec_cfg e) of
          CIPHERING_ALGORITHM_ID_EEA0 \<Rightarrow> Some msg
        | CIPHERING_ALGORITHM_ID_128_EEA1 \<Rightarrow>
            do { (_, out) \<leftarrow> security_128_eea1 key count bearer dir msg msg_len ct_tmp;
                 map_option (take (length msg)) out }
        | CIPHERING_ALGORITHM_ID_128_EEA2 \<Rightarrow>
            do { (_, out) \<leftarrow> security_128_eea2 aes key count bearer dir msg msg_len ct_tmp;
                 map_option (take (length msg)) out }
        | CIPHERING_ALGORITHM_ID_128_EEA3 \<Rightarrow>
            do { (_, out) \<leftarrow> security_128_eea3 key count bearer dir msg msg_len ct_tmp;
                 map_option (take (length msg)) out })"

definition cipher_encrypt ::
  "aes_lib \<Rightarrow> 'a pdcp_entity_base_scheme \<Rightarrow> bytes \<Rightarrow> u32 \<Rightarrow> bytes option" where
  "cipher_encrypt aes e msg count = pdcp_cipher aes e (tx_direction (cfg e)) msg count"

definition cipher_decrypt ::
  "aes_lib \<Rightarrow> 'a pdcp_entity_base_scheme \<Rightarrow> bytes \<Rightarrow> u32 \<Rightarrow> bytes option" where
  "cipher_decrypt aes e ct count = pdcp_cipher aes e (rx_direction (cfg e)) ct count"

section \<open>Headers\<close>

definition uint8_to_uint16 :: "bytes \<Rightarrow> u16 option" where
  "uint8_to_uint16 buf = do { b0 \<leftarrow> rd buf 0; b1 \<leftarrow> rd buf 1;
     Some (push_bit 8 (ucast b0) OR ucast b1) }"

definition uint16_to_uint8 :: "u16 \<Rightarrow> bytes" where
  "uint16_to_uint8 i = [ucast (drop_bit 8 i AND 0xFF), ucast (i AND 0xFF)]"

definition uint8_to_uint24 :: "bytes \<Rightarrow> u32 option" where
  "uint8_to_uint24 buf = do { b0 \<leftarrow> rd buf 0; b1 \<leftarrow> rd buf 1; b2 \<leftarrow> rd buf 2;
     Some (push_bit 16 (ucast b0) OR push_bit 8 (ucast b1) OR ucast b2) }"

definition uint24_to_uint8 :: "u32 \<Rightarrow> bytes" where
  "uint24_to_uint8 i = [byte_at i 16, byte_at i 8, byte_at i 0]"

definition PDCP_DC_FIELD_CONTROL_PDU :: u8 where "PDCP_DC_FIELD_CONTROL_PDU = 0"

definition is_control_pdu :: "byte_buffer \<Rightarrow> bool option" where
  "is_control_pdu pdu = do { b \<leftarrow> rd (data pdu) 0;
     Some (drop_bit 7 b AND 1 = PDCP_DC_FIELD_CONTROL_PDU) }"

datatype pdcp_pdu_type = PDCP_PDU_TYPE_STATUS_REPORT | PDCP_PDU_TYPE_INTERSPERSED_ROHC_FEEDBACK_PACKET
  | PDCP_PDU_TYPE_LWA_STATUS_REPORT | PDCP_PDU_TYPE_LWA_END_MARKER_PACKET

definition get_control_pdu_type :: "byte_buffer \<Rightarrow> pdcp_pdu_type option" where
  "get_control_pdu_type pdu = do { b \<leftarrow> rd (data pdu) 0;
     let t = drop_bit 4 b AND 3 in
     Some (if t = 0 then PDCP_PDU_TYPE_STATUS_REPORT
       else if t = 1 then PDCP_PDU_TYPE_INTERSPERSED_ROHC_FEEDBACK_PACKET
       else if t = 2 then PDCP_PDU_TYPE_LWA_STATUS_REPORT
       else PDCP_PDU_TYPE_LWA_END_MARKER_PACKET) }"

definition read_data_header :: "'a pdcp_entity_base_scheme \<Rightarrow> byte_buffer \<Rightarrow> u32 option" where
  "read_data_header e pdu =
    (if N_bytes pdu \<le> hdr_len_bytes (cfg e) then Some 0
     else if sn_len (cfg e) = PDCP_SN_LEN_5 \<or> sn_len (cfg e) = PDCP_SN_LEN_7 then
       do { b \<leftarrow> rd (data pdu) 0; Some (SN e (ucast b)) }
     else if sn_len (cfg e) = PDCP_SN_LEN_12 then
       do { w \<leftarrow> uint8_to_uint16 (data pdu); Some (SN e (ucast w)) }
     else if sn_len (cfg e) = PDCP_SN_LEN_18 then
       do { w \<leftarrow> uint8_to_uint24 (data pdu); Some (SN e w) }
     else Some 0)"

definition discard_data_header :: "'a pdcp_entity_base_scheme \<Rightarrow> byte_buffer \<Rightarrow> byte_buffer option" where
  "discard_data_header e pdu = strip_bytes (hdr_len_bytes (cfg e)) pdu"

definition set_d_flag :: "bytes \<Rightarrow> bytes" where
  "set_d_flag bs = bs[0 := bs ! 0 OR 0x80]"

text \<open>
  The bytes of the header; \<open>None\<close> for an unsupported length, for which the code leaves
  whatever the headroom of the buffer holds.
\<close>

definition data_header :: "'a pdcp_entity_base_scheme \<Rightarrow> u32 \<Rightarrow> bytes option" where
  "data_header e count =
    (if sn_len (cfg e) = PDCP_SN_LEN_5 then Some [ucast (SN e count)]
     else if sn_len (cfg e) = PDCP_SN_LEN_7 then
       Some (if is_drb e then set_d_flag [ucast (SN e count)] else [ucast (SN e count)])
     else if sn_len (cfg e) = PDCP_SN_LEN_12 then
       (let bs = uint16_to_uint8 (ucast (SN e count)) in Some (if is_drb e then set_d_flag bs else bs))
     else if sn_len (cfg e) = PDCP_SN_LEN_18 then Some (set_d_flag (uint24_to_uint8 (SN e count)))
     else None)"

definition write_data_header ::
  "'a pdcp_entity_base_scheme \<Rightarrow> byte_buffer \<Rightarrow> u32 \<Rightarrow> byte_buffer option" where
  "write_data_header e sdu_buf count =
    (if hdr_len_bytes (cfg e) > headroom sdu_buf then Some sdu_buf
     else do { bs \<leftarrow> data_header e count; prepend_bytes bs sdu_buf })"

definition extract_mac :: "byte_buffer \<Rightarrow> bytes \<Rightarrow> byte_buffer \<times> bytes" where
  "extract_mac pdu mac =
    (if N_bytes pdu < 4 then (pdu, mac)
     else (pdu\<lparr>data := take (N_bytes pdu - 4) (data pdu)\<rparr>, drop (N_bytes pdu - 4) (data pdu)))"

definition append_mac :: "byte_buffer \<Rightarrow> bytes \<Rightarrow> byte_buffer" where
  "append_mac sdu_buf mac =
    (if N_bytes sdu_buf + 4 > get_tailroom sdu_buf then sdu_buf
     else sdu_buf\<lparr>data := data sdu_buf @ take 4 mac\<rparr>)"

section \<open>COUNT is HFN and SN\<close>

lemma SN_take:
  assumes "sn_len (cfg e) \<le> 32"
  shows "SN e count = take_bit (sn_len (cfg e)) count"
proof -
  have "(0xFFFFFFFF :: u32) = mask 32" by (simp add: mask_eq_exp_minus_1)
  then have b: "bit (0xFFFFFFFF :: u32) k \<longleftrightarrow> k < 32" for k by (simp only: bit_mask_iff) simp
  have "drop_bit (32 - sn_len (cfg e)) (0xFFFFFFFF :: u32) = mask (sn_len (cfg e))"
    using assms by (intro bit_word_eqI) (simp only: bit_drop_bit_eq o_def b bit_mask_iff, auto)
  then show ?thesis by (simp only: SN_def take_bit_eq_mask)
qed

lemma COUNT_HFN_SN:
  "sn_len (cfg e) \<le> 32 \<Longrightarrow> COUNT e (HFN e count) (SN e count) = count"
  by (simp add: COUNT_def HFN_def SN_take) (rule bit_word_eqI, auto simp: bit_simps dest: bit_imp_le_length)

lemma SN_COUNT:
  "sn_len (cfg e) \<le> 32 \<Longrightarrow> SN e (COUNT e hfn (SN e count)) = SN e count"
  by (simp add: COUNT_def SN_take) (rule bit_word_eqI, auto simp: bit_simps)

text \<open>As natural numbers: \<open>COUNT = HFN * 2^sn_len + SN\<close>.\<close>

lemma unat_SN: "sn_len (cfg e) \<le> 32 \<Longrightarrow> unat (SN e count) = unat count mod 2 ^ sn_len (cfg e)"
  by (subst SN_take, assumption, subst unsigned_take_bit_eq) (simp add: take_bit_eq_mod)

lemma unat_HFN: "unat (HFN e count) = unat count div 2 ^ sn_len (cfg e)"
proof -
  have "unat count < 2 ^ 32" using unsigned_less [of count] by simp
  then show ?thesis
    unfolding HFN_def by (subst unsigned_drop_bit_eq) (simp add: drop_bit_eq_div take_bit_nat_eq_self)
qed

lemma unat_COUNT:
  assumes "sn_len (cfg e) \<le> 32" "unat hfn * 2 ^ sn_len (cfg e) + unat sn < 2 ^ 32"
    "unat sn < 2 ^ sn_len (cfg e)"
  shows "unat (COUNT e hfn sn) = unat hfn * 2 ^ sn_len (cfg e) + unat sn"
proof -
  let ?n = "sn_len (cfg e)"
  have below: "bit sn k \<Longrightarrow> k < ?n" for k
    using bit_below [OF take_bit_self [OF assms(3)]] .
  have "push_bit ?n hfn AND sn = 0"
    by (intro bit_word_eqI) (auto simp: bit_simps dest!: below)
  then have c: "COUNT e hfn sn = push_bit ?n hfn + sn"
    by (simp add: COUNT_def disjunctive_add_eq_or)
  have "unat (push_bit ?n hfn) = unat hfn * 2 ^ ?n"
    using assms(2) by (subst unsigned_push_bit_eq) (simp add: push_bit_eq_mult take_bit_nat_eq_self)
  then show ?thesis
    unfolding c using assms(2) by (subst unat_add_lem [THEN iffD1]) simp_all
qed

section \<open>The data header\<close>

definition sn_len_ok :: "'a pdcp_entity_base_scheme \<Rightarrow> bool" where
  "sn_len_ok e \<longleftrightarrow> sn_len (cfg e) \<in> {5, 7, 12, 18} \<and> hdr_len_bytes (cfg e) = (sn_len (cfg e) + 7) div 8"

lemma sn_len_ok_cases:
  assumes "sn_len_ok e"
  obtains "sn_len (cfg e) = 5" "hdr_len_bytes (cfg e) = 1"
    | "sn_len (cfg e) = 7" "hdr_len_bytes (cfg e) = 1"
    | "sn_len (cfg e) = 12" "hdr_len_bytes (cfg e) = 2"
    | "sn_len (cfg e) = 18" "hdr_len_bytes (cfg e) = 3"
  using assms by (auto simp: sn_len_ok_def)

lemma sn_len_ok_32: "sn_len_ok e \<Longrightarrow> sn_len (cfg e) \<le> 32"
  by (auto elim: sn_len_ok_cases)

lemma data_header_length:
  "sn_len_ok e \<Longrightarrow> \<exists>bs. data_header e count = Some bs \<and> length bs = hdr_len_bytes (cfg e)"
  by (erule sn_len_ok_cases)
    (simp_all add: data_header_def pdcp_sn_lens set_d_flag_def uint16_to_uint8_def uint24_to_uint8_def Let_def)

lemma bit_d_flag: "bit (0x80 :: int) n \<longleftrightarrow> n = 7"
proof -
  have "(0x80 :: int) = push_bit 7 1" by simp
  then show ?thesis by (simp only: bit_push_bit_iff bit_1_iff) auto
qed

lemma ucast_and_255: "(ucast (x AND 0xFF) :: u8) = ucast (x :: 'a::len word)"
  unfolding and_mask_255 by (rule bit_word_eqI) (auto simp: bit_simps)

text \<open>The bytes of a header hold the SN below the D flag.\<close>

lemma header_bytes_7:
  fixes s :: u32
  shows "take_bit 7 (ucast (ucast s :: u8)) = take_bit 7 s"
    "take_bit 7 (ucast (ucast s OR 0x80 :: u8)) = take_bit 7 s"
  by (rule bit_word_eqI, auto simp: bit_simps bit_d_flag)+

lemma header_bytes_12:
  fixes s :: u32
  defines "w \<equiv> ucast s :: u16"
  shows "take_bit 12 (ucast (push_bit 8 (ucast (ucast (drop_bit 8 w) :: u8)) OR ucast (ucast w :: u8) :: u16) :: u32)
      = take_bit 12 s"
    "take_bit 12 (ucast (push_bit 8 (ucast (ucast (drop_bit 8 w) OR 0x80 :: u8)) OR ucast (ucast w :: u8) :: u16) :: u32)
      = take_bit 12 s"
  unfolding w_def by (rule bit_word_eqI, auto simp: bit_simps bit_d_flag)+

lemma header_bytes_18:
  fixes s :: u32
  shows "take_bit 18 (push_bit 16 (ucast (ucast (drop_bit 16 s) OR 0x80 :: u8))
      OR push_bit 8 (ucast (ucast (drop_bit 8 s) :: u8)) OR ucast (ucast s :: u8)) = take_bit 18 s"
    (is "take_bit 18 ?x = _")
proof (rule bit_word_eqI)
  fix n
  show "bit (take_bit 18 ?x) n = bit (take_bit 18 s) n"
    by (cases "n < 16") (auto simp: bit_simps bit_d_flag)
qed

lemma data_header_read:
  assumes "sn_len_ok e" "data_header e count = Some bs" "data pdu = bs @ rest" "rest \<noteq> []"
  shows "read_data_header e pdu = Some (SN e count)"
proof -
  have len: "length bs = hdr_len_bytes (cfg e)"
    using data_header_length [OF assms(1), of count] assms(2) by auto
  then have n: "\<not> N_bytes pdu \<le> hdr_len_bytes (cfg e)" using assms(3,4) by simp
  note ok = assms(1)
  note sn = SN_take [OF sn_len_ok_32 [OF ok]]
  from ok show ?thesis
  proof (cases rule: sn_len_ok_cases)
    case 1
    have "take_bit 5 (ucast (ucast (take_bit 5 count) :: u8)) = (take_bit 5 count :: u32)"
      by (rule bit_word_eqI) (auto simp: bit_simps)
    then show ?thesis
      using assms(2,3) n 1 by (auto simp: read_data_header_def data_header_def pdcp_sn_lens sn)
  next
    case 2
    then show ?thesis
      using assms(2,3) n header_bytes_7 [of "take_bit 7 count"]
      by (auto simp: read_data_header_def data_header_def pdcp_sn_lens set_d_flag_def sn split: if_splits)
  next
    case 3
    then show ?thesis
      using assms(2,3) n header_bytes_12 [of "take_bit 12 count"]
      by (auto simp: read_data_header_def data_header_def pdcp_sn_lens set_d_flag_def sn Let_def
        uint8_to_uint16_def uint16_to_uint8_def ucast_and_255 split: if_splits)
  next
    case 4
    then show ?thesis
      using assms(2,3) n header_bytes_18 [of "take_bit 18 count"]
      by (auto simp: read_data_header_def data_header_def pdcp_sn_lens set_d_flag_def sn
        uint8_to_uint24_def uint24_to_uint8_def byte_at_def ucast_and_255 split: if_splits)
  qed
qed

lemma data_header_control:
  assumes "sn_len_ok e" "sn_len (cfg e) \<noteq> 5" "is_drb e" "data_header e count = Some bs" "data pdu = bs @ rest"
  shows "is_control_pdu pdu = Some False"
proof -
  have flag: "drop_bit 7 (x OR 0x80 :: u8) AND 1 = 1" for x
    by (rule bit_word_eqI) (auto simp: bit_simps bit_d_flag dest: bit_imp_le_length)
  from assms(1) show ?thesis
    by (cases rule: sn_len_ok_cases)
      (use assms(2-5) in \<open>auto simp: data_header_def pdcp_sn_lens set_d_flag_def Let_def uint16_to_uint8_def
        uint24_to_uint8_def is_control_pdu_def PDCP_DC_FIELD_CONTROL_PDU_def flag\<close>)
qed

text \<open>
  C19. Round trip of the PDCP data header: for each supported sequence number length, when the
  buffer has room for it and the SDU is not empty, the receiver reads the low \<open>sn_len\<close> bits of
  the COUNT the header was written for and gets the SDU back by discarding the header, and a
  data bearer's PDU (other than with 5-bit numbers, which only signalling uses) is not taken
  for a control PDU.  COUNT is the combination of its HFN and SN.
\<close>

theorem pdcp_header_round_trip:
  assumes "sn_len_ok e" "hdr_len_bytes (cfg e) \<le> headroom b" "data b \<noteq> []"
  shows "\<exists>pdu. write_data_header e b count = Some pdu
    \<and> read_data_header e pdu = Some (SN e count)
    \<and> discard_data_header e pdu = Some b
    \<and> (sn_len (cfg e) \<noteq> 5 \<and> is_drb e \<longrightarrow> is_control_pdu pdu = Some False)
    \<and> COUNT e (HFN e count) (SN e count) = count"
proof -
  obtain bs where bs: "data_header e count = Some bs" "length bs = hdr_len_bytes (cfg e)"
    using data_header_length [OF assms(1)] by blast
  let ?pdu = "b\<lparr>headroom := headroom b - length bs, data := bs @ data b\<rparr>"
  have w: "write_data_header e b count = Some ?pdu"
    using assms(2) bs by (simp add: write_data_header_def prepend_bytes_def)
  have "read_data_header e ?pdu = Some (SN e count)"
    using assms(1,3) bs(1) by (intro data_header_read [of _ _ bs _ "data b"]) simp_all
  moreover have "discard_data_header e ?pdu = Some b"
    using bs(2) assms(2) by (simp add: discard_data_header_def strip_bytes_def)
  moreover have "sn_len (cfg e) \<noteq> 5 \<and> is_drb e \<longrightarrow> is_control_pdu ?pdu = Some False"
    using data_header_control [OF assms(1) _ _ bs(1), of ?pdu "data b"] by simp
  ultimately show ?thesis using w COUNT_HFN_SN [OF sn_len_ok_32 [OF assms(1)]] by blast
qed

theorem pdcp_header_round_trip_witness:
  "\<exists>e :: unit pdcp_entity_base_scheme. sn_len (cfg e) = 12
    \<and> (\<exists>pdu. write_data_header e \<lparr>headroom = 1020, data = [1], pdcp_sn = 0\<rparr> 0x12345 = Some pdu
        \<and> read_data_header e pdu = Some 0x345)"
proof -
  define e :: "unit pdcp_entity_base_scheme" where
    "e = \<lparr>active = True, lcid = 1, integrity_direction = DIRECTION_NONE, encryption_direction = DIRECTION_NONE,
      enable_security_tx_sn = -1, enable_security_rx_sn = -1,
      cfg = pdcp_config_ctor 1 PDCP_RB_IS_DRB SECURITY_DIRECTION_UPLINK SECURITY_DIRECTION_DOWNLINK 12 None None
        False rat_nr,
      sec_cfg = \<lparr>k_rrc_int = [], k_rrc_enc = [], k_up_int = [], k_up_enc = [],
        integ_algo = INTEGRITY_ALGORITHM_ID_EIA0, cipher_algo = CIPHERING_ALGORITHM_ID_EEA0\<rparr>\<rparr>"
  have "sn_len (cfg e) = 12" "sn_len_ok e" "hdr_len_bytes (cfg e) = 2"
    by (simp_all add: e_def pdcp_config_ctor_def sn_len_ok_def)
  moreover from this have "SN e 0x12345 = 0x345" by (simp add: SN_def)
  ultimately show ?thesis
    using pdcp_header_round_trip [of e "\<lparr>headroom = 1020, data = [1], pdcp_sn = 0\<rparr>" "0x12345"] by auto
qed

section \<open>Security between two entities\<close>

text \<open>
  The receiving entity \<open>r\<close> is configured as the peer of the transmitting entity \<open>e\<close>.
\<close>

definition pdcp_peers :: "'a pdcp_entity_base_scheme \<Rightarrow> 'b pdcp_entity_base_scheme \<Rightarrow> bool" where
  "pdcp_peers e r \<longleftrightarrow>
    rb_type (cfg r) = rb_type (cfg e) \<and> bearer_id (cfg r) = bearer_id (cfg e)
    \<and> sn_len (cfg r) = sn_len (cfg e) \<and> hdr_len_bytes (cfg r) = hdr_len_bytes (cfg e)
    \<and> rx_direction (cfg r) = tx_direction (cfg e) \<and> sec_cfg r = sec_cfg e"

text \<open>The algorithms that are under src/: all but those on the AES library.\<close>

definition own_algorithms :: "'a pdcp_entity_base_scheme \<Rightarrow> bool" where
  "own_algorithms e \<longleftrightarrow> cipher_algo (sec_cfg e) \<noteq> CIPHERING_ALGORITHM_ID_128_EEA2
    \<and> integ_algo (sec_cfg e) \<noteq> INTEGRITY_ALGORITHM_ID_128_EIA2"

lemma pdcp_peers_security:
  assumes "pdcp_peers e r"
  shows "pdcp_cipher aes r = pdcp_cipher aes e" "integrity_mac aes r = integrity_mac aes e"
    "is_srb r = is_srb e" "is_drb r = is_drb e" "SN r = SN e" "HFN r = HFN e" "COUNT r = COUNT e"
proof -
  have eqs: "rb_type (cfg r) = rb_type (cfg e)" "bearer_id (cfg r) = bearer_id (cfg e)"
    "sn_len (cfg r) = sn_len (cfg e)" "sec_cfg r = sec_cfg e"
    using assms by (simp_all add: pdcp_peers_def)
  show srb: "is_srb r = is_srb e" and "is_drb r = is_drb e" by (simp_all add: is_srb_def is_drb_def eqs)
  show "SN r = SN e" "HFN r = HFN e" "COUNT r = COUNT e"
    by (simp_all add: SN_def HFN_def COUNT_def fun_eq_iff eqs)
  show "pdcp_cipher aes r = pdcp_cipher aes e" "integrity_mac aes r = integrity_mac aes e"
    by (intro ext, simp only: pdcp_cipher_def integrity_mac_def eqs srb)+
qed

lemma pdcp_cipher_twice:
  assumes "cipher_algo (sec_cfg e) \<noteq> CIPHERING_ALGORITHM_ID_128_EEA2" "msg \<noteq> []" "length msg \<le> 9000"
  shows "\<exists>ct. pdcp_cipher aes e dir msg count = Some ct \<and> length ct = length msg
    \<and> pdcp_cipher aes e dir ct count = Some msg"
proof -
  have len: "length msg < 2 ^ 28" "length msg \<le> length (replicate PDCP_MAX_SDU_SIZE 0 :: bytes)"
    using assms(3) by (simp_all add: PDCP_MAX_SDU_SIZE_def)
  show ?thesis
  proof (cases "cipher_algo (sec_cfg e)")
    case CIPHERING_ALGORITHM_ID_128_EEA1
    let ?k = "drop 16 (if is_srb e then k_rrc_enc (sec_cfg e) else k_up_enc (sec_cfg e))"
    obtain ct where "security_128_eea1 ?k count (bearer_id (cfg e) - 1) (security_direction_val dir) msg
          (of_nat (length msg)) (replicate PDCP_MAX_SDU_SIZE 0)
        = Some (LIBLTE_SUCCESS, Some (ct @ drop (length msg) (replicate PDCP_MAX_SDU_SIZE 0)))"
      "length ct = length msg"
      "security_128_eea1 ?k count (bearer_id (cfg e) - 1) (security_direction_val dir) ct
          (of_nat (length msg)) (replicate PDCP_MAX_SDU_SIZE 0)
        = Some (LIBLTE_SUCCESS, Some (msg @ drop (length msg) (replicate PDCP_MAX_SDU_SIZE 0)))"
      using eea1.crypt_twice [OF assms(2) len len(2)] by blast
    then show ?thesis
      by (intro exI [of _ ct]) (simp add: pdcp_cipher_def Let_def CIPHERING_ALGORITHM_ID_128_EEA1)
  next
    case CIPHERING_ALGORITHM_ID_128_EEA3
    let ?k = "drop 16 (if is_srb e then k_rrc_enc (sec_cfg e) else k_up_enc (sec_cfg e))"
    obtain ct where "security_128_eea3 ?k count (bearer_id (cfg e) - 1) (security_direction_val dir) msg
          (of_nat (length msg)) (replicate PDCP_MAX_SDU_SIZE 0)
        = Some (LIBLTE_SUCCESS, Some (ct @ drop (length msg) (replicate PDCP_MAX_SDU_SIZE 0)))"
      "length ct = length msg"
      "security_128_eea3 ?k count (bearer_id (cfg e) - 1) (security_direction_val dir) ct
          (of_nat (length msg)) (replicate PDCP_MAX_SDU_SIZE 0)
        = Some (LIBLTE_SUCCESS, Some (msg @ drop (length msg) (replicate PDCP_MAX_SDU_SIZE 0)))"
      using eea3.crypt_twice [OF assms(2) len len(2)] by blast
    then show ?thesis
      by (intro exI [of _ ct]) (simp add: pdcp_cipher_def Let_def CIPHERING_ALGORITHM_ID_128_EEA3)
  qed (use assms in \<open>simp_all add: pdcp_cipher_def Let_def\<close>)
qed

lemma eia1_total:
  assumes "msg \<noteq> []" "length msg < 2 ^ 24"
  shows "\<exists>m. security_128_eia1 key count bearer dir msg (of_nat (length msg)) mac
      = Some (LIBLTE_SUCCESS, Some m) \<and> length m = 4"
proof -
  have w: "(of_nat (length msg) * 8 :: u32) = of_nat (8 * length msg)" by simp
  have "unat (of_nat (8 * length msg) :: u32) = 8 * length msg"
    using assms(2) by (intro unat_of_nat_u32) simp
  then have u: "(ucast (of_nat (length msg) * 8 :: u32) :: u64) = of_nat (8 * length msg)"
    unfolding w using assms(2) by (simp only: word_unat_eq_iff unsigned_ucast_eq unat_of_nat)
      (simp add: take_bit_nat_eq_self)
  show ?thesis
    using f9_total [of "8 * length msg" msg key count "push_bit 27 (ucast (ucast bearer :: u8))" "ucast dir"] assms
    by (simp add: security_128_eia1_def liblte_security_128_eia1_def Let_def u del: of_nat_mult) auto
qed

lemma eia3_total:
  assumes "length msg < 2 ^ 24"
  shows "\<exists>m. security_128_eia3 key count bearer dir msg (of_nat (length msg)) mac
      = Some (LIBLTE_ERROR_INVALID_INPUTS, Some m) \<and> length m = 4"
proof -
  have w: "(of_nat (length msg) * 8 :: u32) = of_nat (8 * length msg)" by simp
  have u: "unat (of_nat (length msg) * 8 :: u32) = 8 * length msg"
    unfolding w using assms by (intro unat_of_nat_u32) simp
  show ?thesis
    using assms
    by (simp add: security_128_eia3_def liblte_security_128_eia3_def u Let_def)
qed

lemma integrity_mac_total:
  assumes "integ_algo (sec_cfg e) \<noteq> INTEGRITY_ALGORITHM_ID_128_EIA2" "msg \<noteq> []" "length msg < 2 ^ 24" "length mac = 4"
  shows "\<exists>m. integrity_mac aes e dir msg count mac = Some m \<and> length m = 4"
proof (cases "integ_algo (sec_cfg e)")
  case INTEGRITY_ALGORITHM_ID_128_EIA1
  show ?thesis
    using eia1_total [OF assms(2,3), of "drop 16 (if is_srb e then k_rrc_int (sec_cfg e) else k_up_int (sec_cfg e))"
        count "ucast (bearer_id (cfg e)) - 1" "security_direction_val dir" mac]
    by (auto simp: integrity_mac_def Let_def INTEGRITY_ALGORITHM_ID_128_EIA1)
next
  case INTEGRITY_ALGORITHM_ID_128_EIA3
  show ?thesis
    using eia3_total [OF assms(3), of "drop 16 (if is_srb e then k_rrc_int (sec_cfg e) else k_up_int (sec_cfg e))"
        count "ucast (bearer_id (cfg e)) - 1" "security_direction_val dir" mac]
    by (auto simp: integrity_mac_def Let_def INTEGRITY_ALGORITHM_ID_128_EIA3)
qed (use assms in \<open>simp_all add: integrity_mac_def Let_def\<close>)

end
