(* ===== verification/PdcpNr.thy ===== *)
theory PdcpNr
  imports PdcpBase StdMap
begin

text \<open>
  The NR PDCP entity, \<^verbatim>\<open>pdcp/pdcp_entity_nr.cc\<close>: numbering, protecting and passing SDUs
  to RLC; unprotecting, reordering and delivering PDUs; the reordering and the discard
  timers.  The record extends that of the base class.  Calls to RLC, RRC and the gateway are
  the events a handler returns, in the order of the calls; whether the RLC queue is full and
  whether the bearer is unacknowledged are arguments.  The reordering timer is its duration
  (\<open>None\<close> when there is no timer, \<open>Some 0\<close> when it was made but never set) and whether it runs;
  a discard timer is its duration under the COUNT it was started for.  \<open>Undef\<close> is undefined
  behaviour, as everywhere.
\<close>

datatype pdcp_rlc_mode = pdcp_UM | pdcp_AM

record pdcp_entity_nr = pdcp_entity_base +
  tx_next :: u32
  rx_next :: u32
  rx_deliv :: u32
  rx_reord :: u32
  window_size :: u32
  reorder_queue :: "(u32, byte_buffer) std_map"
  reordering_timer :: "nat option"
  reordering_running :: bool
  discard_timers_map :: "(u32, nat) std_map"
  tx_overflow :: bool
  rx_overflow :: bool
  rlc_mode :: pdcp_rlc_mode

datatype pdcp_event =
    Rlc_write_sdu u32 byte_buffer
  | Rlc_discard_sdu u32 u32
  | Rrc_write_pdu u32 byte_buffer
  | Rrc_integrity_error u32
  | Gw_write_pdu u32 byte_buffer

definition pdcp_nr_ctor :: "u32 \<Rightarrow> pdcp_entity_nr" where
  "pdcp_nr_ctor lcid' =
    \<lparr>active = False, lcid = lcid', integrity_direction = DIRECTION_NONE,
     encryption_direction = DIRECTION_NONE, enable_security_tx_sn = -1, enable_security_rx_sn = -1,
     cfg = pdcp_config_ctor 1 PDCP_RB_IS_DRB SECURITY_DIRECTION_DOWNLINK SECURITY_DIRECTION_UPLINK
       PDCP_SN_LEN_12 (Some 500) None False rat_lte,
     sec_cfg = \<lparr>k_rrc_int = replicate 32 0, k_rrc_enc = replicate 32 0, k_up_int = replicate 32 0,
       k_up_enc = replicate 32 0, integ_algo = INTEGRITY_ALGORITHM_ID_EIA0,
       cipher_algo = CIPHERING_ALGORITHM_ID_EEA0\<rparr>,
     tx_next = 0, rx_next = 0, rx_deliv = 0, rx_reord = 0, window_size = 0, reorder_queue = [],
     reordering_timer = None, reordering_running = False, discard_timers_map = [],
     tx_overflow = False, rx_overflow = False, rlc_mode = pdcp_UM\<rparr>"

section \<open>Configuration\<close>

definition pdcp_nr_configure :: "bool \<Rightarrow> pdcp_config \<Rightarrow> pdcp_entity_nr \<Rightarrow> bool \<times> pdcp_entity_nr" where
  "pdcp_nr_configure rb_is_um cnfg e =
    (if active e then (cnfg = cfg e, e)
     else
       let e = e\<lparr>cfg := cnfg, window_size := push_bit (sn_len cnfg - 1) 1,
                 rlc_mode := (if rb_is_um then pdcp_UM else pdcp_AM)\<rparr>;
           e = (case t_reordering cnfg of
                  Some t \<Rightarrow> e\<lparr>reordering_timer := Some t, reordering_running := False\<rparr>
                | None \<Rightarrow> e);
           e = e\<lparr>active := True\<rparr>;
           e = (if rlc_mode e = pdcp_UM then e\<lparr>cfg := (cfg e)\<lparr>discard_timer := None\<rparr>\<rparr> else e)
       in (True, e))"

definition pdcp_nr_reset :: "pdcp_entity_nr \<Rightarrow> pdcp_entity_nr" where
  "pdcp_nr_reset e = e\<lparr>active := False\<rparr>"

section \<open>Transmitting\<close>

definition tx_integrity :: "pdcp_entity_nr \<Rightarrow> bool" where
  "tx_integrity e \<longleftrightarrow> is_srb e
    \<or> is_drb e \<and> (integrity_direction e = DIRECTION_TX \<or> integrity_direction e = DIRECTION_TXRX)"

definition tx_ciphering :: "pdcp_entity_nr \<Rightarrow> bool" where
  "tx_ciphering e \<longleftrightarrow> encryption_direction e = DIRECTION_TX \<or> encryption_direction e = DIRECTION_TXRX"

text \<open>The bytes behind the header replaced, which may be fewer than there are.\<close>

definition replace_body :: "nat \<Rightarrow> bytes \<Rightarrow> byte_buffer \<Rightarrow> byte_buffer" where
  "replace_body n body b = b\<lparr>data := take n (data b) @ body\<rparr>"

text \<open>
  From the header to the ciphering.  When the header did not fit, the code goes on, and
  ciphers from the same offset of the bare SDU.
\<close>

definition pdcp_nr_protect :: "aes_lib \<Rightarrow> pdcp_entity_nr \<Rightarrow> u32 \<Rightarrow> byte_buffer \<Rightarrow> byte_buffer option" where
  "pdcp_nr_protect aes e count b = do {
     b \<leftarrow> write_data_header e b count;
     b \<leftarrow> (if tx_integrity e
          then do { mac \<leftarrow> integrity_generate aes e (data b) count (replicate 4 0); Some (append_mac b mac) }
          else Some b);
     b \<leftarrow> (if tx_ciphering e
          then if hdr_len_bytes (cfg e) \<le> N_bytes b
            then do { body \<leftarrow> cipher_encrypt aes e (drop (hdr_len_bytes (cfg e)) (data b)) count;
                      Some (replace_body (hdr_len_bytes (cfg e)) body b) }
            else None
          else Some b);
     Some (b\<lparr>pdcp_sn := count\<rparr>) }"

definition pdcp_nr_write_sdu ::
  "aes_lib \<Rightarrow> bool \<Rightarrow> byte_buffer \<Rightarrow> pdcp_entity_nr \<Rightarrow> (pdcp_event list \<times> pdcp_entity_nr) outcome" where
  "pdcp_nr_write_sdu aes sdu_queue_is_full b e =
    (if sdu_queue_is_full then Ret ([], e)
     else if tx_overflow e then Ret ([], e)
     else
       let e = (if tx_next e + 1 = 0 then e\<lparr>tx_overflow := True\<rparr> else e);
           e = (case discard_timer (cfg e) of
                  Some t \<Rightarrow> e\<lparr>discard_timers_map := sm_emplace (tx_next e) t (discard_timers_map e)\<rparr>
                | None \<Rightarrow> e)
       in case pdcp_nr_protect aes e (tx_next e) b of
            None \<Rightarrow> Undef
          | Some b \<Rightarrow> Ret ([Rlc_write_sdu (lcid e) b], e\<lparr>tx_next := tx_next e + 1\<rparr>))"

section \<open>Receiving\<close>

definition pdcp_nr_rcvd_count :: "pdcp_entity_nr \<Rightarrow> u32 \<Rightarrow> u32" where
  "pdcp_nr_rcvd_count e rcvd_sn =
    (let rcvd_hfn =
       (if int (unat rcvd_sn) < int (unat (SN e (rx_deliv e))) - int (unat (window_size e))
        then HFN e (rx_deliv e) + 1
        else if rcvd_sn \<ge> SN e (rx_deliv e) + window_size e then HFN e (rx_deliv e) - 1
        else HFN e (rx_deliv e))
     in COUNT e rcvd_hfn rcvd_sn)"

definition rx_ciphering :: "pdcp_entity_nr \<Rightarrow> bool" where
  "rx_ciphering e \<longleftrightarrow> encryption_direction e = DIRECTION_RX \<or> encryption_direction e = DIRECTION_TXRX"

text \<open>The receiver tests the transmit direction: the condition of the code, as it stands.\<close>

definition rx_verifies :: "pdcp_entity_nr \<Rightarrow> bool" where
  "rx_verifies e \<longleftrightarrow> integrity_direction e = DIRECTION_TX \<or> integrity_direction e = DIRECTION_TXRX"

text \<open>\<open>Ret None\<close>: integrity verification failed.\<close>

definition pdcp_nr_unprotect ::
  "aes_lib \<Rightarrow> pdcp_entity_nr \<Rightarrow> u32 \<Rightarrow> byte_buffer \<Rightarrow> byte_buffer option outcome" where
  "pdcp_nr_unprotect aes e rcvd_count pdu =
    (let h = hdr_len_bytes (cfg e) in
     bind_outcome (outcome_of
       (if rx_ciphering e
        then do { body \<leftarrow> cipher_decrypt aes e (drop h (data pdu)) rcvd_count; Some (replace_body h body pdu) }
        else Some pdu)) (\<lambda>pdu.
     let (pdu, mac) = (if is_srb e \<or> is_drb e \<and> rx_verifies e
                       then extract_mac pdu (replicate 4 0) else (pdu, replicate 4 0))
     in bind_outcome (outcome_of
       (if rx_verifies e then integrity_verify aes e (data pdu) rcvd_count mac else Some True)) (\<lambda>is_valid.
     if \<not> is_valid then Ret None
     else bind_outcome (outcome_of (discard_data_header e pdu)) (\<lambda>pdu. Ret (Some pdu)))))"

definition pass_to_upper_layers :: "pdcp_entity_nr \<Rightarrow> byte_buffer \<Rightarrow> pdcp_event" where
  "pass_to_upper_layers e b = (if is_srb e then Rrc_write_pdu (lcid e) b else Gw_write_pdu (lcid e) b)"

text \<open>The loop of \<open>deliver_all_consecutive_counts\<close> over the queue from its first element.\<close>

fun deliver_loop ::
  "(u32, byte_buffer) std_map \<Rightarrow> pdcp_entity_nr \<Rightarrow> pdcp_event list \<times> pdcp_entity_nr" where
  "deliver_loop [] e = ([], e\<lparr>reorder_queue := []\<rparr>)"
| "deliver_loop ((c, b) # q) e =
    (if c \<noteq> rx_deliv e \<or> rx_overflow e then ([], e\<lparr>reorder_queue := (c, b) # q\<rparr>)
     else let e = (if rx_deliv e + 1 = 0 then e\<lparr>rx_overflow := True\<rparr> else e);
              (evs, e') = deliver_loop q (e\<lparr>rx_deliv := rx_deliv e + 1\<rparr>)
          in (pass_to_upper_layers e b # evs, e'))"

definition deliver_all_consecutive_counts :: "pdcp_entity_nr \<Rightarrow> pdcp_event list \<times> pdcp_entity_nr" where
  "deliver_all_consecutive_counts e = deliver_loop (reorder_queue e) e"

text \<open>From the check of the COUNT to the end of \<open>write_pdu\<close>: store, deliver, timers.\<close>

definition pdcp_nr_receive :: "u32 \<Rightarrow> byte_buffer \<Rightarrow> pdcp_entity_nr \<Rightarrow> pdcp_event list \<times> pdcp_entity_nr" where
  "pdcp_nr_receive rcvd_count pdu e =
    (if rcvd_count < rx_deliv e then ([], e)
     else if sm_find (reorder_queue e) rcvd_count \<noteq> None then ([], e)
     else
       let e = e\<lparr>reorder_queue := sm_assign rcvd_count pdu (reorder_queue e)\<rparr>;
           e = (if rcvd_count \<ge> rx_next e then e\<lparr>rx_next := rcvd_count + 1\<rparr> else e);
           (evs, e) = (if rcvd_count = rx_deliv e then deliver_all_consecutive_counts e else ([], e));
           e = (if reordering_running e \<and> rx_deliv e \<ge> rx_reord e
                then e\<lparr>reordering_running := False\<rparr> else e);
           e = (if t_reordering (cfg e) \<noteq> None \<and> \<not> reordering_running e \<and> rx_deliv e < rx_next e
                then e\<lparr>rx_reord := rx_next e, reordering_running := True\<rparr> else e)
       in (evs, e))"

definition pdcp_nr_write_pdu ::
  "aes_lib \<Rightarrow> byte_buffer \<Rightarrow> pdcp_entity_nr \<Rightarrow> (pdcp_event list \<times> pdcp_entity_nr) outcome" where
  "pdcp_nr_write_pdu aes pdu e =
    (if rx_overflow e then Ret ([], e)
     else if N_bytes pdu \<le> hdr_len_bytes (cfg e) then Ret ([], e)
     else bind_outcome (outcome_of (read_data_header e pdu)) (\<lambda>rcvd_sn.
       let rcvd_count = pdcp_nr_rcvd_count e rcvd_sn
       in bind_outcome (pdcp_nr_unprotect aes e rcvd_count pdu) (\<lambda>r.
            case r of
              None \<Rightarrow> Ret ([Rrc_integrity_error (lcid e)], e)
            | Some pdu \<Rightarrow> Ret (pdcp_nr_receive rcvd_count pdu e))))"

section \<open>Timers and notifications\<close>

text \<open>\<^verbatim>\<open>reordering_callback\<close>: called when the timer has expired, and so no longer runs.\<close>

fun deliver_below ::
  "(u32, byte_buffer) std_map \<Rightarrow> pdcp_entity_nr \<Rightarrow> pdcp_event list \<times> pdcp_entity_nr" where
  "deliver_below [] e = ([], e\<lparr>reorder_queue := []\<rparr>)"
| "deliver_below ((c, b) # q) e =
    (if c < rx_reord e
     then let (evs, e') = deliver_below q e in (pass_to_upper_layers e b # evs, e')
     else ([], e\<lparr>reorder_queue := (c, b) # q\<rparr>))"

definition pdcp_nr_reordering_callback :: "pdcp_entity_nr \<Rightarrow> pdcp_event list \<times> pdcp_entity_nr" where
  "pdcp_nr_reordering_callback e =
    (let (evs, e) = deliver_below (reorder_queue e) e;
         e = e\<lparr>rx_deliv := rx_reord e\<rparr>;
         (evs', e) = deliver_all_consecutive_counts e;
         e = (if rx_deliv e < rx_next e
              then e\<lparr>rx_reord := rx_next e, reordering_running := True\<rparr> else e)
     in (evs @ evs', e))"

text \<open>
  The expiry of the timer, if it runs.  With \<open>t_reordering\<close> of 0 ms the timer is started but was never
  set: it has no callback to call.
\<close>

definition reordering_set :: "pdcp_entity_nr \<Rightarrow> bool" where
  "reordering_set e \<longleftrightarrow> (case reordering_timer e of None \<Rightarrow> False | Some t \<Rightarrow> 0 < t)"

definition pdcp_nr_reordering_expiry :: "pdcp_entity_nr \<Rightarrow> pdcp_event list \<times> pdcp_entity_nr" where
  "pdcp_nr_reordering_expiry e =
    (if \<not> reordering_running e then ([], e)
     else if \<not> reordering_set e then ([], e\<lparr>reordering_running := False\<rparr>)
     else pdcp_nr_reordering_callback (e\<lparr>reordering_running := False\<rparr>))"

definition pdcp_nr_discard_callback :: "u32 \<Rightarrow> pdcp_entity_nr \<Rightarrow> pdcp_event list \<times> pdcp_entity_nr" where
  "pdcp_nr_discard_callback discard_sn e =
    ([Rlc_discard_sdu (lcid e) discard_sn],
     e\<lparr>discard_timers_map := sm_erase discard_sn (discard_timers_map e)\<rparr>)"

definition pdcp_nr_notify_delivery :: "u32 list \<Rightarrow> pdcp_entity_nr \<Rightarrow> pdcp_entity_nr" where
  "pdcp_nr_notify_delivery pdcp_sns e =
    e\<lparr>discard_timers_map := fold sm_erase pdcp_sns (discard_timers_map e)\<rparr>"

definition pdcp_nr_notify_failure :: "u32 list \<Rightarrow> pdcp_entity_nr \<Rightarrow> pdcp_entity_nr" where
  "pdcp_nr_notify_failure pdcp_sns e = e"

section \<open>Estimating the COUNT\<close>

lemma count_estimate:
  fixes M W C D :: int
  assumes "0 < M" "M = 2 * W" "D - W \<le> C" "C < D + W"
  shows "C div M = (if C mod M < D mod M - W then D div M + 1
      else if D mod M + W \<le> C mod M then D div M - 1 else D div M)"
proof -
  define hc hd s sd where "hc = C div M" "hd = D div M" "s = C mod M" "sd = D mod M"
  have C: "C = hc * M + s" and D: "D = hd * M + sd" by (simp_all add: hc_hd_s_sd_def)
  have s: "0 \<le> s" "s < M" "0 \<le> sd" "sd < M" using assms(1) by (simp_all add: hc_hd_s_sd_def)
  define k where "k = hc - hd"
  have k: "k * M = C - D - s + sd" using C D by (simp add: k_def algebra_simps)
  have le: "k * M < 2 * M \<Longrightarrow> k \<le> 1" "- 2 * M < k * M \<Longrightarrow> - 1 \<le> k"
    using mult_less_cancel_right_pos [OF assms(1), of k 2] mult_less_cancel_right_pos [OF assms(1), of "-2" k] by auto
  have pos: "0 < k * M \<Longrightarrow> 0 < k" "k * M < 0 \<Longrightarrow> k < 0" "k * M < M \<Longrightarrow> k < 1" "- M < k * M \<Longrightarrow> - 1 < k"
    using zero_less_mult_iff [of k M] mult_less_0_iff [of k M] mult_less_cancel_right_pos [OF assms(1), of k 1]
      mult_less_cancel_right_pos [OF assms(1), of "-1" k] assms(1) by auto
  have "hc = (if s < sd - W then hd + 1 else if sd + W \<le> s then hd - 1 else hd)"
  proof (cases "s < sd - W")
    case True
    have "0 < k * M" "k * M < 2 * M" unfolding k using True assms s by linarith+
    then have "k = 1" using le(1) pos(1) by linarith
    with True show ?thesis by (simp add: k_def)
  next
    case False
    show ?thesis
    proof (cases "sd + W \<le> s")
      case True
      have "k * M < 0" "- 2 * M < k * M" unfolding k using True assms s by linarith+
      then have "k = -1" using le(2) pos(2) by linarith
      with True False show ?thesis by (simp add: k_def)
    next
      case 2: False
      have "k * M < M" "- M < k * M" unfolding k using False 2 assms s by linarith+
      then have "k = 0" using pos by linarith
      with False 2 show ?thesis by (simp add: k_def)
    qed
  qed
  then show ?thesis by (simp add: hc_hd_s_sd_def)
qed

definition pdcp_in_window :: "pdcp_entity_nr \<Rightarrow> u32 \<Rightarrow> bool" where
  "pdcp_in_window e count \<longleftrightarrow>
    unat (rx_deliv e) \<le> unat count + unat (window_size e) \<and> unat count < unat (rx_deliv e) + unat (window_size e)"

definition pdcp_window_ok :: "pdcp_entity_nr \<Rightarrow> bool" where
  "pdcp_window_ok e \<longleftrightarrow> sn_len_ok e \<and> unat (window_size e) = 2 ^ (sn_len (cfg e) - 1)"

lemma pdcp_window_ok_cases:
  assumes "pdcp_window_ok e"
  shows "(2::nat) ^ sn_len (cfg e) = 2 * unat (window_size e)" "unat (window_size e) \<le> 131072"
    "sn_len (cfg e) \<le> 18"
  using assms by (auto simp: pdcp_window_ok_def sn_len_ok_def)

lemma pdcp_count_estimated:
  assumes "pdcp_window_ok e" "pdcp_in_window e count"
  shows "pdcp_nr_rcvd_count e (SN e count) = count"
proof -
  let ?M = "2 ^ sn_len (cfg e) :: nat" and ?W = "unat (window_size e)"
  note ok = pdcp_window_ok_cases [OF assms(1)]
  have le: "sn_len (cfg e) \<le> 32" using ok(3) by simp
  note sn = unat_SN [OF le]
  have "?M \<le> 262144" using ok(1,2) by linarith
  then have M: "0 < ?M" "?M \<le> 262144" by simp_all
  have small: "unat count < 2 ^ 32" "unat (rx_deliv e) < 2 ^ 32"
    using unsigned_less [of count] unsigned_less [of "rx_deliv e"] by simp_all
  have s: "unat (SN e count) < ?M" "unat (SN e (rx_deliv e)) < ?M" using M by (simp_all add: sn)
  have sum: "unat (SN e (rx_deliv e) + window_size e) = unat (SN e (rx_deliv e)) + ?W"
    using s M(2) ok(2) by (intro unat_add_lem [THEN iffD1]) simp
  have r: "unat (SN e (rx_deliv e)) + ?W \<le> unat (SN e count)
      \<longleftrightarrow> int (unat (SN e (rx_deliv e))) + int ?W \<le> int (unat (SN e count))"
    by linarith
  have est: "int (unat count div ?M) =
      (if int (unat (SN e count)) < int (unat (SN e (rx_deliv e))) - int ?W then int (unat (HFN e (rx_deliv e))) + 1
       else if unat (SN e (rx_deliv e)) + ?W \<le> unat (SN e count) then int (unat (HFN e (rx_deliv e))) - 1
       else int (unat (HFN e (rx_deliv e))))"
  proof -
    have "int (unat (rx_deliv e)) - int ?W \<le> int (unat count)" "int (unat count) < int (unat (rx_deliv e)) + int ?W"
      using assms(2) unfolding pdcp_in_window_def by linarith+
    moreover have "int ?M = 2 * int ?W" using ok(1) by (metis of_nat_mult of_nat_numeral)
    ultimately show ?thesis
      unfolding r using count_estimate [of "int ?M" "int ?W" "int (unat (rx_deliv e))" "int (unat count)"] M(1)
      by (simp only: sn unat_HFN zdiv_int zmod_int of_nat_0_less_iff)
  qed
  define h where "h = (if int (unat (SN e count)) < int (unat (SN e (rx_deliv e))) - int ?W then HFN e (rx_deliv e) + 1
      else if SN e (rx_deliv e) + window_size e \<le> SN e count then HFN e (rx_deliv e) - 1 else HFN e (rx_deliv e))"
  have "h = of_int (int (unat (HFN e count)))"
    unfolding unat_HFN [of e count] est h_def word_le_nat_alt sum by (simp add: of_int_diff)
  then have "h = HFN e count" by simp
  then show ?thesis
    using COUNT_HFN_SN [OF le, of count] by (simp add: pdcp_nr_rcvd_count_def h_def Let_def)
qed


section \<open>The receive window\<close>

text \<open>
  What holds between events: the buffered COUNTs lie strictly between the next one to deliver
  and the next one expected, and the reordering timer, if it was set, runs exactly while something is missing.
\<close>

definition pdcp_rx_inv :: "pdcp_entity_nr \<Rightarrow> bool" where
  "pdcp_rx_inv e \<longleftrightarrow> sm_ordered (reorder_queue e)
    \<and> (\<forall>c \<in> fst ` set (reorder_queue e). rx_deliv e < c \<and> c < rx_next e)
    \<and> rx_deliv e \<le> rx_next e \<and> \<not> rx_overflow e
    \<and> (reordering_running e \<longrightarrow> rx_deliv e < rx_reord e \<and> rx_reord e \<le> rx_next e)
    \<and> (t_reordering (cfg e) \<noteq> None \<and> reordering_set e \<and> \<not> reordering_running e \<longrightarrow> rx_deliv e = rx_next e)"

text \<open>The length of the run of consecutive COUNTs from \<open>c\<close> at the start of a queue.\<close>

fun consecutive :: "(u32, byte_buffer) std_map \<Rightarrow> u32 \<Rightarrow> nat" where
  "consecutive [] c = 0"
| "consecutive ((d, b) # q) c = (if d = c then Suc (consecutive q (c + 1)) else 0)"

lemma word_Suc_neq_0: "(c :: u32) < n \<Longrightarrow> c + 1 \<noteq> 0"
  by (metis eq_neg_iff_add_eq_0 word_order.extremum_strict)

lemma word_less_Suc: "(c :: u32) < n \<Longrightarrow> c < c + 1"
  using inc_less_eq_self_iff_eq [of c] by (metis leI word_order.extremum_strict)

lemma consecutive_le: "consecutive q c \<le> length q"
  by (induction q c rule: consecutive.induct) auto

lemma consecutive_stop:
  "sm_ordered q \<Longrightarrow> \<forall>k \<in> fst ` set q. c \<le> k \<Longrightarrow>
    \<forall>k \<in> fst ` set (drop (consecutive q c) q). c + of_nat (consecutive q c) < k"
proof (induction q c rule: consecutive.induct)
  case (2 d b q c)
  show ?case
  proof (cases "d = c")
    case True
    then have "\<forall>k \<in> fst ` set q. c + 1 \<le> k" using 2(2) by (auto simp: sm_ordered_Cons inc_le)
    then show ?thesis using 2 True by (simp add: sm_ordered_Cons add.assoc)
  next
    case False
    then have "c < d" using 2(3) by auto
    then show ?thesis using False 2(2) by (auto simp: sm_ordered_Cons)
  qed
qed simp

lemma sm_ordered_parts:
  assumes "sm_ordered q"
  shows "sm_ordered (take n q)" "sm_ordered (drop n q)" "k \<in> fst ` set (take n q) \<Longrightarrow> l \<in> fst ` set (drop n q) \<Longrightarrow> k < l"
proof -
  have "sorted_wrt (<) (map fst (take n q) @ map fst (drop n q))"
    using assms by (simp add: sm_ordered_def flip: map_append)
  then show "sm_ordered (take n q)" "sm_ordered (drop n q)"
    "k \<in> fst ` set (take n q) \<Longrightarrow> l \<in> fst ` set (drop n q) \<Longrightarrow> k < l"
    by (auto simp: sm_ordered_def sorted_wrt_append)
qed

text \<open>The COUNTs of a run are those from its start to its end.\<close>

lemma consecutive_run:
  assumes "sm_ordered q" "\<forall>k \<in> fst ` set q. c \<le> k \<and> k < n" "c \<le> n"
  shows "c \<le> c + of_nat (consecutive q c) \<and> c + of_nat (consecutive q c) \<le> n
    \<and> fst ` set (take (consecutive q c) q) = {k. c \<le> k \<and> k < c + of_nat (consecutive q c)}"
  using assms
proof (induction q c rule: consecutive.induct)
  case (2 d b q c)
  show ?case
  proof (cases "d = c")
    case True
    then have cn: "c < n" using 2(3) by simp
    have c1: "c < c + 1" "c + 1 \<le> n"
      using cn by (simp_all add: inc_le word_less_Suc)
    let ?m = "c + 1 + of_nat (consecutive q (c + 1))"
    have "\<forall>k \<in> fst ` set q. c + 1 \<le> k \<and> k < n" using 2(2,3) True by (auto simp: sm_ordered_Cons inc_le)
    then have ih: "c + 1 \<le> ?m" "?m \<le> n"
        "fst ` set (take (consecutive q (c + 1)) q) = {k. c + 1 \<le> k \<and> k < ?m}"
      using 2(1) [OF True] 2(2) c1 by (simp_all add: sm_ordered_Cons)
    have "insert c {k. c + 1 \<le> k \<and> k < ?m} = {k. c \<le> k \<and> k < ?m}"
      using c1 ih(1) inc_le [of c] by (auto intro: order.strict_implies_order less_le_trans dest: order_le_less_trans)
    then show ?thesis using True ih c1 by (simp add: add.assoc [symmetric])
  qed (use 2(4) in auto)
qed auto

lemma deliver_loop_eq:
  assumes "sm_ordered q" "\<forall>k \<in> fst ` set q. rx_deliv e \<le> k \<and> k < n" "\<not> rx_overflow e"
  shows "deliver_loop q e = (map (pass_to_upper_layers e) (map snd (take (consecutive q (rx_deliv e)) q)),
    e\<lparr>rx_deliv := rx_deliv e + of_nat (consecutive q (rx_deliv e)),
      reorder_queue := drop (consecutive q (rx_deliv e)) q\<rparr>)"
  using assms
proof (induction q e rule: deliver_loop.induct)
  case (2 c b q e)
  show ?case
  proof (cases "c = rx_deliv e")
    case True
    then have nz: "rx_deliv e + 1 \<noteq> 0" using 2(3) word_Suc_neq_0 by auto
    have le: "rx_deliv e + 1 \<le> k" if "k \<in> fst ` set q" for k
    proof -
      have "rx_deliv e < k" using 2(2) True that by (auto simp: sm_ordered_Cons)
      then show ?thesis by (simp add: inc_le)
    qed
    have "deliver_loop q (e\<lparr>rx_deliv := rx_deliv e + 1\<rparr>)
      = (map (pass_to_upper_layers (e\<lparr>rx_deliv := rx_deliv e + 1\<rparr>)) (map snd (take (consecutive q (rx_deliv e + 1)) q)),
        e\<lparr>rx_deliv := rx_deliv e + 1 + of_nat (consecutive q (rx_deliv e + 1)),
          reorder_queue := drop (consecutive q (rx_deliv e + 1)) q\<rparr>)"
      using 2 True nz le by (auto simp: sm_ordered_Cons)
    moreover have "pass_to_upper_layers (e\<lparr>rx_deliv := x\<rparr>) = pass_to_upper_layers e" for x
      by (simp add: pass_to_upper_layers_def is_srb_def fun_eq_iff)
    ultimately show ?thesis using True nz 2(4) by (simp add: Let_def ac_simps)
  qed simp
qed simp


section \<open>One event of the receiver\<close>

text \<open>
  \<open>pdcp_delivers e out e'\<close>: from \<open>e\<close> to \<open>e'\<close> the SDUs of \<open>out\<close>, with ascending COUNTs between
  the old and the new \<open>rx_deliv\<close>, were delivered; the invariant holds; nothing but the receive
  variables changed.
\<close>

definition rx_static :: "pdcp_entity_nr \<Rightarrow> pdcp_entity_nr" where
  "rx_static e = e\<lparr>rx_next := 0, rx_deliv := 0, rx_reord := 0, reorder_queue := [], reordering_running := False\<rparr>"

definition pdcp_delivers :: "pdcp_entity_nr \<Rightarrow> (u32, byte_buffer) std_map \<Rightarrow> pdcp_entity_nr \<Rightarrow> bool" where
  "pdcp_delivers e out e' \<longleftrightarrow> pdcp_rx_inv e' \<and> rx_static e' = rx_static e \<and> sm_ordered out
    \<and> (\<forall>k \<in> fst ` set out. rx_deliv e \<le> k \<and> k < rx_deliv e') \<and> rx_deliv e \<le> rx_deliv e'"

lemma rx_static_simps:
  assumes "rx_static e' = rx_static e"
  shows "cfg e' = cfg e" "lcid e' = lcid e" "pass_to_upper_layers e' = pass_to_upper_layers e"
    "window_size e' = window_size e" "pdcp_nr_unprotect aes e' = pdcp_nr_unprotect aes e"
    "read_data_header e' = read_data_header e" "rx_overflow e' = rx_overflow e"
proof -
  have s: "cfg (rx_static x) = cfg x" "lcid (rx_static x) = lcid x" "sec_cfg (rx_static x) = sec_cfg x"
      "window_size (rx_static x) = window_size x" "rx_overflow (rx_static x) = rx_overflow x"
      "integrity_direction (rx_static x) = integrity_direction x"
      "encryption_direction (rx_static x) = encryption_direction x" for x
    by (simp_all add: rx_static_def)
  have b: "is_srb (rx_static x) = is_srb x" "is_drb (rx_static x) = is_drb x" "SN (rx_static x) = SN x"
      "rx_verifies (rx_static x) = rx_verifies x" "rx_ciphering (rx_static x) = rx_ciphering x"
      "discard_data_header (rx_static x) = discard_data_header x" for x
    by (simp_all add: fun_eq_iff s is_srb_def is_drb_def SN_def rx_verifies_def rx_ciphering_def
      discard_data_header_def)
  have c: "cipher_decrypt aes (rx_static x) = cipher_decrypt aes x"
      "integrity_verify aes (rx_static x) = integrity_verify aes x" for x
    unfolding fun_eq_iff cipher_decrypt_def pdcp_cipher_def integrity_verify_def integrity_mac_def s b by simp_all
  have view: "cfg (rx_static x) = cfg x" "lcid (rx_static x) = lcid x"
      "pass_to_upper_layers (rx_static x) = pass_to_upper_layers x"
      "window_size (rx_static x) = window_size x" "pdcp_nr_unprotect aes (rx_static x) = pdcp_nr_unprotect aes x"
      "read_data_header (rx_static x) = read_data_header x" "rx_overflow (rx_static x) = rx_overflow x" for x
    unfolding fun_eq_iff pass_to_upper_layers_def read_data_header_def pdcp_nr_unprotect_def s b c by simp_all
  show "cfg e' = cfg e" "lcid e' = lcid e" "pass_to_upper_layers e' = pass_to_upper_layers e"
    "window_size e' = window_size e" "pdcp_nr_unprotect aes e' = pdcp_nr_unprotect aes e"
    "read_data_header e' = read_data_header e" "rx_overflow e' = rx_overflow e"
    using view [of e] view [of e'] unfolding assms by simp_all
qed

lemma deliver_all_spec:
  assumes "sm_ordered (reorder_queue e)" "\<forall>k \<in> fst ` set (reorder_queue e). rx_deliv e \<le> k \<and> k < rx_next e"
    "rx_deliv e \<le> rx_next e" "\<not> rx_overflow e"
  shows "\<exists>out e'. deliver_all_consecutive_counts e = (map (pass_to_upper_layers e) (map snd out), e')
    \<and> rx_static e' = rx_static e \<and> rx_next e' = rx_next e \<and> rx_reord e' = rx_reord e
    \<and> reordering_running e' = reordering_running e
    \<and> sm_ordered out \<and> fst ` set out = {k. rx_deliv e \<le> k \<and> k < rx_deliv e'}
    \<and> set (reorder_queue e) = set out \<union> set (reorder_queue e')
    \<and> sm_ordered (reorder_queue e')
    \<and> (\<forall>k \<in> fst ` set (reorder_queue e'). rx_deliv e' < k \<and> k < rx_next e)
    \<and> rx_deliv e \<le> rx_deliv e' \<and> rx_deliv e' \<le> rx_next e"
proof -
  let ?q = "reorder_queue e" and ?k = "consecutive (reorder_queue e) (rx_deliv e)"
  let ?e' = "e\<lparr>rx_deliv := rx_deliv e + of_nat ?k, reorder_queue := drop ?k ?q\<rparr>"
  have "deliver_all_consecutive_counts e = (map (pass_to_upper_layers e) (map snd (take ?k ?q)), ?e')"
    using deliver_loop_eq [OF assms(1,2,4)] by (simp add: deliver_all_consecutive_counts_def)
  moreover have "set ?q = set (take ?k ?q) \<union> set (drop ?k ?q)"
    by (metis append_take_drop_id set_append)
  moreover have "\<forall>k \<in> fst ` set (drop ?k ?q). rx_deliv e + of_nat ?k < k"
    using consecutive_stop [OF assms(1)] assms(2) by blast
  moreover have "\<forall>k \<in> fst ` set (drop ?k ?q). k < rx_next e"
    using assms(2) by (meson image_mono in_mono set_drop_subset)
  ultimately show ?thesis
    using consecutive_run [OF assms(1-3)] sm_ordered_parts(1,2) [OF assms(1), of ?k]
    by (intro exI [of _ "take ?k ?q"] exI [of _ ?e']) (simp add: rx_static_def)
qed

text \<open>Whether a received COUNT is new: neither delivered or given up, nor buffered.\<close>

definition rx_fresh :: "pdcp_entity_nr \<Rightarrow> u32 \<Rightarrow> bool" where
  "rx_fresh e c \<longleftrightarrow> rx_deliv e \<le> c \<and> c \<notin> fst ` set (reorder_queue e)"

lemma not_fresh_receive: "\<not> rx_fresh e c \<Longrightarrow> pdcp_nr_receive c b e = ([], e)"
  by (auto simp: rx_fresh_def pdcp_nr_receive_def map_of_eq_None_iff)

text \<open>The timers at the end of \<open>write_pdu\<close>.\<close>

definition rx_timers :: "pdcp_entity_nr \<Rightarrow> pdcp_entity_nr" where
  "rx_timers e =
    (let e = (if reordering_running e \<and> rx_deliv e \<ge> rx_reord e then e\<lparr>reordering_running := False\<rparr> else e)
     in if t_reordering (cfg e) \<noteq> None \<and> \<not> reordering_running e \<and> rx_deliv e < rx_next e
        then e\<lparr>rx_reord := rx_next e, reordering_running := True\<rparr> else e)"

lemma rx_timers_same [simp]:
  "rx_static (rx_timers e) = rx_static e" "rx_deliv (rx_timers e) = rx_deliv e"
  "rx_next (rx_timers e) = rx_next e" "reorder_queue (rx_timers e) = reorder_queue e"
  "cfg (rx_timers e) = cfg e" "rx_overflow (rx_timers e) = rx_overflow e"
  by (auto simp: rx_timers_def Let_def rx_static_def)

lemma rx_timers_inv:
  assumes "sm_ordered (reorder_queue e)" "\<forall>k \<in> fst ` set (reorder_queue e). rx_deliv e < k \<and> k < rx_next e"
    "rx_deliv e \<le> rx_next e" "\<not> rx_overflow e" "reordering_running e \<longrightarrow> rx_reord e \<le> rx_next e"
  shows "pdcp_rx_inv (rx_timers e)"
  using assms by (auto simp: pdcp_rx_inv_def rx_timers_def Let_def)

lemma sm_assign_set:
  "c \<notin> fst ` set q \<Longrightarrow> set (sm_assign c b q) = insert (c, b) (set q)"
  by (induction c b q rule: sm_assign.induct) auto

lemma receive_fresh:
  assumes "rx_fresh e c"
  shows "pdcp_nr_receive c b e =
    (let e1 = e\<lparr>reorder_queue := sm_assign c b (reorder_queue e),
                rx_next := (if rx_next e \<le> c then c + 1 else rx_next e)\<rparr>;
         (evs, e') = (if c = rx_deliv e then deliver_all_consecutive_counts e1 else ([], e1))
     in (evs, rx_timers e'))"
proof -
  have f: "c < rx_deliv e \<longleftrightarrow> False" "sm_find (reorder_queue e) c = None"
    using assms by (auto simp: rx_fresh_def map_of_eq_None_iff)
  show ?thesis
    unfolding pdcp_nr_receive_def rx_timers_def Let_def f simp_thms if_False
    by (cases "rx_next e \<le> c"; cases "c = rx_deliv e") (simp_all add: split_beta)
qed

lemma receive_step:
  assumes "pdcp_rx_inv e" "c + 1 \<noteq> 0" "rx_fresh e c"
  shows "\<exists>out e'. pdcp_nr_receive c b e = (map (pass_to_upper_layers e) (map snd out), e')
    \<and> pdcp_delivers e out e' \<and> set out \<union> set (reorder_queue e') = insert (c, b) (set (reorder_queue e))
    \<and> fst ` set out = {k. rx_deliv e \<le> k \<and> k < rx_deliv e'}
    \<and> rx_next e' = (if rx_next e \<le> c then c + 1 else rx_next e)"
proof -
  define n' where "n' = (if rx_next e \<le> c then c + 1 else rx_next e)"
  let ?e1 = "e\<lparr>reorder_queue := sm_assign c b (reorder_queue e), rx_next := n'\<rparr>"
  note inv = assms(1) [unfolded pdcp_rx_inv_def]
  have new: "c \<notin> fst ` set (reorder_queue e)" "rx_deliv e \<le> c" using assms(3) by (auto simp: rx_fresh_def)
  have q: "set (sm_assign c b (reorder_queue e)) = insert (c, b) (set (reorder_queue e))"
    by (rule sm_assign_set [OF new(1)])
  have ord: "sm_ordered (sm_assign c b (reorder_queue e))" using inv by (intro sm.ordered_assign) simp
  have c1: "c < c + 1" using assms(2) by (metis inc_less_eq_self_iff_eq leI eq_neg_iff_add_eq_0)
  have n: "rx_next e \<le> n'" "c < n'" "rx_deliv e \<le> n'" using c1 inv by (auto simp: n'_def)
  have keys: "\<forall>k \<in> fst ` set (sm_assign c b (reorder_queue e)). rx_deliv e \<le> k \<and> k < n'"
    using inv n new(2) unfolding q by (auto intro: less_le_trans)
  show ?thesis
  proof (cases "c = rx_deliv e")
    case True
    have h: "sm_ordered (reorder_queue ?e1)"
        "\<forall>k \<in> fst ` set (reorder_queue ?e1). rx_deliv ?e1 \<le> k \<and> k < rx_next ?e1"
        "rx_deliv ?e1 \<le> rx_next ?e1" "\<not> rx_overflow ?e1"
      using ord keys n(3) inv by simp_all
    obtain out e' where d: "deliver_all_consecutive_counts ?e1 = (map (pass_to_upper_layers ?e1) (map snd out), e')"
        "rx_static e' = rx_static ?e1" "rx_next e' = rx_next ?e1" "rx_reord e' = rx_reord ?e1"
        "reordering_running e' = reordering_running ?e1"
        "sm_ordered out" "fst ` set out = {k. rx_deliv ?e1 \<le> k \<and> k < rx_deliv e'}"
        "set (reorder_queue ?e1) = set out \<union> set (reorder_queue e')"
        "sm_ordered (reorder_queue e')"
        "\<forall>k \<in> fst ` set (reorder_queue e'). rx_deliv e' < k \<and> k < rx_next ?e1"
        "rx_deliv ?e1 \<le> rx_deliv e'" "rx_deliv e' \<le> rx_next ?e1"
      using deliver_all_spec [OF h] by (elim exE conjE) (rule that)
    have st: "rx_static e' = rx_static e" using d(2) by (simp add: rx_static_def)
    have eq: "pdcp_nr_receive c b e = (map (pass_to_upper_layers e) (map snd out), rx_timers e')"
      unfolding receive_fresh [OF assms(3)] n'_def [symmetric] Let_def
      using d(1) True rx_static_simps(3) [of ?e1 e] by (simp add: rx_static_def)
    have "reordering_running e' \<longrightarrow> rx_reord e' \<le> rx_next e'"
      using d(3,4,5) inv n(1) by auto
    then have "pdcp_rx_inv (rx_timers e')"
      using d rx_static_simps(7) [OF st] inv by (intro rx_timers_inv) simp_all
    then have "pdcp_delivers e out (rx_timers e')"
      using d st by (simp add: pdcp_delivers_def)
    then show ?thesis
      using eq d q by (intro exI [of _ out] exI [of _ "rx_timers e'"]) (auto simp: n'_def)
  next
    case False
    have eq: "pdcp_nr_receive c b e = ([], rx_timers ?e1)"
      unfolding receive_fresh [OF assms(3)] n'_def [symmetric] Let_def using False by simp
    have "pdcp_rx_inv (rx_timers ?e1)"
      using ord keys n inv False new unfolding q by (intro rx_timers_inv) auto
    then have "pdcp_delivers e [] (rx_timers ?e1)"
      by (simp add: pdcp_delivers_def) (simp add: rx_static_def)
    then show ?thesis
      using eq q by (intro exI [of _ "[]"] exI [of _ "rx_timers ?e1"]) (auto simp: n'_def)
  qed
qed

lemma deliver_below_eq:
  "deliver_below q e = (map (pass_to_upper_layers e) (map snd (takeWhile (\<lambda>p. fst p < rx_reord e) q)),
    e\<lparr>reorder_queue := dropWhile (\<lambda>p. fst p < rx_reord e) q\<rparr>)"
  by (induction q e rule: deliver_below.induct) (simp_all add: Let_def)

lemma sm_ordered_dropWhile:
  assumes "sm_ordered q" "k \<in> fst ` set (dropWhile (\<lambda>p. fst p < r) q)"
  shows "r \<le> k"
  using assms by (induction q) (fastforce simp: sm_ordered_Cons split: if_splits)+

lemma sm_ordered_append:
  assumes "sm_ordered q" "sm_ordered q'" "\<And>k l. k \<in> fst ` set q \<Longrightarrow> l \<in> fst ` set q' \<Longrightarrow> k < l"
  shows "sm_ordered (q @ q')"
  using assms by (auto simp: sm_ordered_def sorted_wrt_append)

lemma expiry_step:
  assumes "pdcp_rx_inv e" "reordering_running e" "reordering_set e"
  shows "\<exists>out e'. pdcp_nr_reordering_expiry e = (map (pass_to_upper_layers e) (map snd out), e')
    \<and> pdcp_delivers e out e' \<and> set (reorder_queue e) = set out \<union> set (reorder_queue e')
    \<and> rx_next e' = rx_next e \<and> rx_deliv e < rx_deliv e'"
proof -
  let ?q = "reorder_queue e" and ?P = "\<lambda>p :: u32 \<times> byte_buffer. fst p < rx_reord e"
  let ?e1 = "e\<lparr>reordering_running := False, reorder_queue := dropWhile ?P ?q, rx_deliv := rx_reord e\<rparr>"
  note inv = assms(1) [unfolded pdcp_rx_inv_def]
  have r: "rx_deliv e < rx_reord e" "rx_reord e \<le> rx_next e" using inv assms(2) by auto
  have parts: "sm_ordered (takeWhile ?P ?q)" "sm_ordered (dropWhile ?P ?q)"
    using inv sm_ordered_parts(1) [of ?q "length (takeWhile ?P ?q)"]
      sm_ordered_parts(2) [of ?q "length (takeWhile ?P ?q)"]
    by (simp_all add: takeWhile_eq_take [symmetric] dropWhile_eq_drop [symmetric])
  have sub: "set (dropWhile ?P ?q) \<subseteq> set ?q" by (rule set_dropWhileD [THEN subsetI]) 
  have keys: "\<forall>k \<in> fst ` set (dropWhile ?P ?q). rx_reord e \<le> k \<and> k < rx_next e"
    using sm_ordered_dropWhile [of ?q] inv sub by blast
  have h: "sm_ordered (reorder_queue ?e1)"
      "\<forall>k \<in> fst ` set (reorder_queue ?e1). rx_deliv ?e1 \<le> k \<and> k < rx_next ?e1"
      "rx_deliv ?e1 \<le> rx_next ?e1" "\<not> rx_overflow ?e1"
    using parts keys r inv by simp_all
  obtain out e' where d: "deliver_all_consecutive_counts ?e1 = (map (pass_to_upper_layers ?e1) (map snd out), e')"
      "rx_static e' = rx_static ?e1" "rx_next e' = rx_next ?e1" "rx_reord e' = rx_reord ?e1"
      "reordering_running e' = reordering_running ?e1"
      "sm_ordered out" "fst ` set out = {k. rx_deliv ?e1 \<le> k \<and> k < rx_deliv e'}"
      "set (reorder_queue ?e1) = set out \<union> set (reorder_queue e')"
      "sm_ordered (reorder_queue e')"
      "\<forall>k \<in> fst ` set (reorder_queue e'). rx_deliv e' < k \<and> k < rx_next ?e1"
      "rx_deliv ?e1 \<le> rx_deliv e'" "rx_deliv e' \<le> rx_next ?e1"
    using deliver_all_spec [OF h] by (elim exE conjE) (rule that)
  let ?e2 = "if rx_deliv e' < rx_next e' then e'\<lparr>rx_reord := rx_next e', reordering_running := True\<rparr> else e'"
  let ?out = "takeWhile ?P ?q @ out"
  have st: "rx_static e' = rx_static e" using d(2) by (simp add: rx_static_def)
  have p: "pass_to_upper_layers ?e1 = pass_to_upper_layers e" "pass_to_upper_layers (e\<lparr>reordering_running := False\<rparr>) = pass_to_upper_layers e"
    by (rule rx_static_simps(3), simp add: rx_static_def)+
  have b: "deliver_below ?q (e\<lparr>reordering_running := False\<rparr>)
      = (map (pass_to_upper_layers e) (map snd (takeWhile ?P ?q)),
         e\<lparr>reordering_running := False, reorder_queue := dropWhile ?P ?q\<rparr>)"
    by (simp add: deliver_below_eq p)
  have eq: "pdcp_nr_reordering_expiry e = (map (pass_to_upper_layers e) (map snd ?out), ?e2)"
    using assms(2,3) b d(1) by (simp add: pdcp_nr_reordering_expiry_def pdcp_nr_reordering_callback_def p)
  have "pdcp_rx_inv ?e2"
    using d st inv rx_static_simps(7) [OF st] by (auto simp: pdcp_rx_inv_def)
  moreover have "rx_static ?e2 = rx_static e" using st by (simp add: rx_static_def)
  moreover have tw: "\<forall>k \<in> fst ` set (takeWhile ?P ?q). rx_deliv e < k \<and> k < rx_reord e"
    using inv by (auto dest!: set_takeWhileD)
  moreover have "sm_ordered ?out"
  proof (rule sm_ordered_append [OF parts(1) d(6)])
    fix k l assume k: "k \<in> fst ` set (takeWhile ?P ?q)" and l: "l \<in> fst ` set out"
    have "k < rx_reord e" using tw k by blast
    also have "rx_reord e \<le> l" using l unfolding d(7) by simp
    finally show "k < l" .
  qed
  moreover have "\<forall>k \<in> fst ` set ?out. rx_deliv e \<le> k \<and> k < rx_deliv ?e2"
  proof
    fix k assume "k \<in> fst ` set ?out"
    then have "k \<in> fst ` set (takeWhile ?P ?q) \<or> k \<in> fst ` set out" by auto
    then consider "rx_deliv e < k" "k < rx_reord e" | "rx_reord e \<le> k" "k < rx_deliv e'"
      unfolding d(7) using tw by fastforce
    then show "rx_deliv e \<le> k \<and> k < rx_deliv ?e2"
      using r d(11) by cases (auto intro: less_le_trans less_imp_le order.trans)
  qed
  moreover have "rx_deliv e \<le> rx_deliv ?e2" using r d(11) by auto
  ultimately have "pdcp_delivers e ?out ?e2"
    unfolding pdcp_delivers_def by blast
  moreover have "set ?q = set ?out \<union> set (reorder_queue ?e2)"
  proof -
    have "set ?q = set (takeWhile ?P ?q) \<union> set (dropWhile ?P ?q)"
      by (metis set_append takeWhile_dropWhile_id)
    moreover have "set (dropWhile ?P ?q) = set out \<union> set (reorder_queue ?e2)" using d(8) by simp
    ultimately show ?thesis by (simp only: set_append Un_assoc)
  qed
  moreover have "rx_next ?e2 = rx_next e" "rx_deliv e < rx_deliv ?e2"
    using d(3,11) r by (auto intro: less_le_trans)
  ultimately show ?thesis
    using eq by (intro exI [of _ ?out] exI [of _ ?e2]) (intro conjI)
qed

end
