(* ===== verification/PdcpNrLink.thy ===== *)
theory PdcpNrLink
  imports PdcpNr
begin

text \<open>
  Two NR PDCP entities facing each other: what one protects the other unprotects, the COUNT is
  recovered from the sequence number, and what the receiver passes up is, in order, a part of
  what was sent; all of it when nothing is lost.  Then the cases in which the code does
  something else than its comments say.
\<close>

section \<open>Protecting and unprotecting\<close>

definition sdu_fits :: "pdcp_entity_nr \<Rightarrow> byte_buffer \<Rightarrow> bool" where
  "sdu_fits e b \<longleftrightarrow> data b \<noteq> [] \<and> hdr_len_bytes (cfg e) \<le> headroom b
    \<and> N_bytes b + hdr_len_bytes (cfg e) + 4 \<le> get_tailroom b"

text \<open>
  Both ends have the same idea of what is protected: ciphering, and integrity protection,
  which the receiver must have enabled in both directions.
\<close>

definition pdcp_nr_peers :: "pdcp_entity_nr \<Rightarrow> pdcp_entity_nr \<Rightarrow> bool" where
  "pdcp_nr_peers e r \<longleftrightarrow> pdcp_peers e r \<and> own_algorithms e \<and> sn_len_ok e
    \<and> tx_ciphering e = rx_ciphering r
    \<and> tx_integrity e = (is_srb r \<or> is_drb r \<and> rx_verifies r)"

lemma srb_or_drb: "is_srb e \<or> is_drb e"
  by (cases "rb_type (cfg e)") (simp_all add: is_srb_def is_drb_def)

lemma sdu_fits_size: "sdu_fits e b \<Longrightarrow> N_bytes b + hdr_len_bytes (cfg e) + 4 \<le> 8990"
  unfolding sdu_fits_def get_tailroom_def buffer_sizes by linarith

lemma pdcp_protect_unprotect:
  assumes "pdcp_nr_peers e r" "sdu_fits e b"
  shows "\<exists>pdu. pdcp_nr_protect aes e count b = Some pdu
    \<and> hdr_len_bytes (cfg r) < N_bytes pdu
    \<and> read_data_header r pdu = Some (SN r count)
    \<and> pdcp_nr_unprotect aes r count pdu = Ret (Some (b\<lparr>pdcp_sn := count\<rparr>))"
proof -
  let ?h = "hdr_len_bytes (cfg e)"
  have peers: "pdcp_peers e r" "own_algorithms e" "sn_len_ok e" "tx_ciphering e = rx_ciphering r"
    and integ: "tx_integrity e = (is_srb r \<or> is_drb r \<and> rx_verifies r)"
    using assms(1) by (auto simp: pdcp_nr_peers_def)
  note sec = pdcp_peers_security [OF peers(1)]
  have cfgs: "hdr_len_bytes (cfg r) = ?h" "sn_len (cfg r) = sn_len (cfg e)" "rx_direction (cfg r) = tx_direction (cfg e)"
    "sec_cfg r = sec_cfg e"
    using peers(1) by (auto simp: pdcp_peers_def)
  have ok: "sn_len_ok r" using peers(3) cfgs by (simp add: sn_len_ok_def)
  have fits: "data b \<noteq> []" "?h \<le> headroom b" "N_bytes b + ?h + 4 \<le> get_tailroom b"
    using assms(2) by (auto simp: sdu_fits_def)
  have size: "N_bytes b + ?h + 4 \<le> 8990" using sdu_fits_size [OF assms(2)] .
  obtain bs where bs: "data_header e count = Some bs" "length bs = ?h"
    using data_header_length [OF peers(3)] by blast
  have bsr: "data_header r count = Some bs"
    using bs(1) unfolding data_header_def sec cfgs(2) .
  let ?b1 = "b\<lparr>headroom := headroom b - ?h, data := bs @ data b\<rparr>"
  have w: "write_data_header e b count = Some ?b1"
    using bs fits(2) by (simp add: write_data_header_def prepend_bytes_def)
  have room: "?h + length (data b) + 4 \<le> get_tailroom ?b1"
    using fits(2,3) bs(2) unfolding get_tailroom_def by simp
  obtain mac where mac: "integrity_mac aes e (tx_direction (cfg e)) (bs @ data b) count (replicate 4 0) = Some mac"
      "length mac = 4"
    using integrity_mac_total [of e "bs @ data b" "replicate 4 0" aes] peers(2) fits(1) size bs(2)
    by (auto simp: own_algorithms_def)
  define tail where "tail = data b @ (if tx_integrity e then mac else [])"
  let ?b2 = "b\<lparr>headroom := headroom b - ?h, data := bs @ tail\<rparr>"
  have tail: "tail \<noteq> []" "length tail \<le> 9000" using fits(1) size mac(2) by (auto simp: tail_def)
  have m: "(if tx_integrity e
        then do { mac \<leftarrow> integrity_generate aes e (data ?b1) count (replicate 4 0); Some (append_mac ?b1 mac) }
        else Some ?b1) = Some ?b2"
    using mac room bs(2) by (simp add: integrity_generate_def append_mac_def tail_def)
  obtain ct where ct: "pdcp_cipher aes e (tx_direction (cfg e)) tail count = Some ct" "length ct = length tail"
      "pdcp_cipher aes e (tx_direction (cfg e)) ct count = Some tail"
    using pdcp_cipher_twice [of e tail aes "tx_direction (cfg e)" count] tail peers(2)
    by (auto simp: own_algorithms_def)
  define body where "body = (if tx_ciphering e then ct else tail)"
  have body: "body \<noteq> []" using ct(2) tail(1) by (auto simp: body_def)
  let ?pdu = "b\<lparr>headroom := headroom b - ?h, data := bs @ body, pdcp_sn := count\<rparr>"
  have "pdcp_nr_protect aes e count b = Some ?pdu"
    unfolding pdcp_nr_protect_def w bind.bind_lunit m
    using bs(2) ct(1) by (simp add: cipher_encrypt_def replace_body_def body_def)
  moreover have "hdr_len_bytes (cfg r) < N_bytes ?pdu"
    using body bs(2) cfgs(1) by simp
  moreover have "read_data_header r ?pdu = Some (SN r count)"
    by (rule data_header_read [OF ok bsr _ body]) simp
  moreover have "pdcp_nr_unprotect aes r count ?pdu = Ret (Some (b\<lparr>pdcp_sn := count\<rparr>))"
  proof -
    let ?p2 = "b\<lparr>headroom := headroom b - ?h, data := bs @ tail, pdcp_sn := count\<rparr>"
    let ?p3 = "b\<lparr>headroom := headroom b - ?h, data := bs @ data b, pdcp_sn := count\<rparr>"
    let ?mac = "if tx_integrity e then mac else replicate 4 0"
    have "pdcp_cipher aes e (tx_direction (cfg e)) (drop ?h (bs @ body)) count = Some tail" if "rx_ciphering r"
      using that bs(2) ct(3) peers(4) by (simp add: body_def)
    then have s1: "(if rx_ciphering r
          then do { body \<leftarrow> cipher_decrypt aes r (drop ?h (data ?pdu)) count; Some (replace_body ?h body ?pdu) }
          else Some ?pdu) = Some ?p2"
      using bs(2) peers(4) by (simp add: cipher_decrypt_def sec cfgs replace_body_def body_def)
    have s2: "(if is_srb r \<or> is_drb r \<and> rx_verifies r then extract_mac ?p2 (replicate 4 0) else (?p2, replicate 4 0))
        = (?p3, ?mac)"
      using mac(2) by (simp add: extract_mac_def tail_def flip: integ)
    have "tx_integrity e" if "rx_verifies r" using that integ srb_or_drb [of r] by blast
    then have s3: "(if rx_verifies r then integrity_verify aes r (data ?p3) count ?mac else Some True) = Some True"
      using mac(1) by (simp add: integrity_verify_def sec cfgs list_all_length)
    have s4: "discard_data_header r ?p3 = Some (b\<lparr>pdcp_sn := count\<rparr>)"
      using bs(2) fits(2) by (simp add: discard_data_header_def strip_bytes_def cfgs)
    show ?thesis
      unfolding pdcp_nr_unprotect_def cfgs(1) Let_def s1 outcome_of.simps bind_outcome.simps s2 prod.case s3 s4
      by simp
  qed
  ultimately show ?thesis by blast
qed

section \<open>Runs\<close>

text \<open>SDUs handed to the transmitter one after the other, RLC taking each of them.\<close>

fun pdcp_nr_send :: "aes_lib \<Rightarrow> byte_buffer list \<Rightarrow> pdcp_entity_nr \<Rightarrow> (pdcp_event list \<times> pdcp_entity_nr) outcome" where
  "pdcp_nr_send aes [] e = Ret ([], e)"
| "pdcp_nr_send aes (b # bs) e =
    bind_outcome (pdcp_nr_write_sdu aes False b e) (\<lambda>(evs, e).
    bind_outcome (pdcp_nr_send aes bs e) (\<lambda>(evs', e). Ret (evs @ evs', e)))"

text \<open>What can happen to the receiver: a PDU arrives, or the reordering timer, if it runs, expires.\<close>

datatype pdcp_rx_input = Rx_pdu byte_buffer | Rx_reordering_expiry

fun pdcp_nr_rx_step ::
  "aes_lib \<Rightarrow> pdcp_rx_input \<Rightarrow> pdcp_entity_nr \<Rightarrow> (pdcp_event list \<times> pdcp_entity_nr) outcome" where
  "pdcp_nr_rx_step aes (Rx_pdu pdu) e = pdcp_nr_write_pdu aes pdu e"
| "pdcp_nr_rx_step aes Rx_reordering_expiry e = Ret (pdcp_nr_reordering_expiry e)"

fun pdcp_nr_rx_run ::
  "aes_lib \<Rightarrow> pdcp_rx_input list \<Rightarrow> pdcp_entity_nr \<Rightarrow> (pdcp_event list \<times> pdcp_entity_nr) outcome" where
  "pdcp_nr_rx_run aes [] e = Ret ([], e)"
| "pdcp_nr_rx_run aes (i # is) e =
    bind_outcome (pdcp_nr_rx_step aes i e) (\<lambda>(evs, e).
    bind_outcome (pdcp_nr_rx_run aes is e) (\<lambda>(evs', e). Ret (evs @ evs', e)))"

section \<open>The transmitter\<close>

definition tx_static :: "pdcp_entity_nr \<Rightarrow> pdcp_entity_nr" where
  "tx_static e = e\<lparr>tx_next := 0, discard_timers_map := [], tx_overflow := False\<rparr>"

lemma tx_static_simps:
  assumes "tx_static e' = tx_static e"
  shows "cfg e' = cfg e" "lcid e' = lcid e" "pdcp_nr_protect aes e' = pdcp_nr_protect aes e"
proof -
  have s: "cfg (tx_static x) = cfg x" "lcid (tx_static x) = lcid x" "sec_cfg (tx_static x) = sec_cfg x"
      "integrity_direction (tx_static x) = integrity_direction x"
      "encryption_direction (tx_static x) = encryption_direction x" for x
    by (simp_all add: tx_static_def)
  have b: "is_srb (tx_static x) = is_srb x" "is_drb (tx_static x) = is_drb x" "SN (tx_static x) = SN x" for x
    by (simp_all add: fun_eq_iff s is_srb_def is_drb_def SN_def)
  have c: "cipher_encrypt aes (tx_static x) = cipher_encrypt aes x"
      "integrity_generate aes (tx_static x) = integrity_generate aes x"
      "write_data_header (tx_static x) = write_data_header x"
      "tx_integrity (tx_static x) = tx_integrity x" "tx_ciphering (tx_static x) = tx_ciphering x" for x
    unfolding fun_eq_iff cipher_encrypt_def pdcp_cipher_def integrity_generate_def integrity_mac_def
      write_data_header_def data_header_def tx_integrity_def tx_ciphering_def s b by simp_all
  have view: "cfg (tx_static x) = cfg x" "lcid (tx_static x) = lcid x"
      "pdcp_nr_protect aes (tx_static x) = pdcp_nr_protect aes x" for x
    unfolding fun_eq_iff pdcp_nr_protect_def s b c by simp_all
  show "cfg e' = cfg e" "lcid e' = lcid e" "pdcp_nr_protect aes e' = pdcp_nr_protect aes e"
    using view [of e] view [of e'] unfolding assms by simp_all
qed

lemma write_sdu_next:
  assumes "\<not> tx_overflow e" "tx_next e + 1 \<noteq> 0" "pdcp_nr_protect aes e (tx_next e) b = Some pdu"
  shows "\<exists>e'. pdcp_nr_write_sdu aes False b e = Ret ([Rlc_write_sdu (lcid e) pdu], e')
    \<and> tx_static e' = tx_static e \<and> tx_next e' = tx_next e + 1 \<and> \<not> tx_overflow e'"
proof -
  let ?e = "case discard_timer (cfg e) of
      Some t \<Rightarrow> e\<lparr>discard_timers_map := sm_emplace (tx_next e) t (discard_timers_map e)\<rparr> | None \<Rightarrow> e"
  have st: "tx_static ?e = tx_static e" "tx_next ?e = tx_next e" "lcid ?e = lcid e" "tx_overflow ?e = tx_overflow e"
    by (simp_all add: tx_static_def split: option.split)
  have "pdcp_nr_write_sdu aes False b e = Ret ([Rlc_write_sdu (lcid e) pdu], ?e\<lparr>tx_next := tx_next e + 1\<rparr>)"
    using assms st tx_static_simps(3) [OF st(1), of aes]
    by (simp add: pdcp_nr_write_sdu_def Let_def)
  moreover have "tx_static (?e\<lparr>tx_next := tx_next e + 1\<rparr>) = tx_static e"
    using st(1) by (simp add: tx_static_def)
  ultimately show ?thesis using assms st by simp
qed

lemma unat_add_small: "unat (x :: u32) + n < 2 ^ 32 \<Longrightarrow> unat (x + of_nat n) = unat x + n"
  by (subst unat_add_lem [THEN iffD1]) (simp_all add: unat_of_nat_u32)

lemma send_all:
  assumes "\<not> tx_overflow e" "unat (tx_next e) + length bs < 2 ^ 32"
    "\<And>i. i < length bs \<Longrightarrow> pdcp_nr_protect aes e (tx_next e + of_nat i) (bs ! i) = Some (pdu i)"
  shows "\<exists>e'. pdcp_nr_send aes bs e = Ret (map (\<lambda>i. Rlc_write_sdu (lcid e) (pdu i)) [0..<length bs], e')
    \<and> tx_next e' = tx_next e + of_nat (length bs)"
  using assms
proof (induction bs arbitrary: e pdu)
  case (Cons b bs)
  have next1: "unat (tx_next e + 1) = unat (tx_next e) + 1"
    using unat_add_small [of "tx_next e" 1] Cons.prems(2) by simp
  then have nz: "tx_next e + 1 \<noteq> 0" by (metis add_is_0 one_neq_zero unat_0)
  obtain e1 where e1: "pdcp_nr_write_sdu aes False b e = Ret ([Rlc_write_sdu (lcid e) (pdu 0)], e1)"
      "tx_static e1 = tx_static e" "tx_next e1 = tx_next e + 1" "\<not> tx_overflow e1"
    using write_sdu_next [OF Cons.prems(1) nz, of aes b "pdu 0"] Cons.prems(3) [of 0] by auto
  note st = tx_static_simps [OF e1(2)]
  have "pdcp_nr_protect aes e1 (tx_next e1 + of_nat i) (bs ! i) = Some (pdu (Suc i))" if "i < length bs" for i
    using Cons.prems(3) [of "Suc i"] that by (simp add: st e1(3) add.assoc)
  then obtain e' where "pdcp_nr_send aes bs e1
        = Ret (map (\<lambda>i. Rlc_write_sdu (lcid e1) (pdu (Suc i))) [0..<length bs], e')"
      "tx_next e' = tx_next e1 + of_nat (length bs)"
    using Cons.IH [OF e1(4), of "\<lambda>i. pdu (Suc i)"] Cons.prems(2) next1 e1(3) by auto
  then show ?case
    using e1 st by (auto simp: map_upt_Suc add.assoc simp del: upt_Suc)
qed simp

section \<open>The receiver\<close>

text \<open>Entries of the reordering queue as indices into the SDUs that were sent.\<close>

definition entry :: "u32 \<Rightarrow> byte_buffer list \<Rightarrow> nat \<Rightarrow> u32 \<times> byte_buffer" where
  "entry c0 sdus i = (c0 + of_nat i, (sdus ! i)\<lparr>pdcp_sn := c0 + of_nat i\<rparr>)"

lemma entry_count:
  assumes "unat c0 + n < 2 ^ 32" "i < n"
  shows "unat (fst (entry c0 sdus i)) = unat c0 + i"
  using assms by (simp add: entry_def unat_add_small)

lemma entry_list:
  assumes "unat c0 + n < 2 ^ 32" "sm_ordered out" "set out \<subseteq> entry c0 sdus ` {..<n}"
  shows "\<exists>is. out = map (entry c0 sdus) is \<and> sorted_wrt (<) is \<and> set is \<subseteq> {..<n}"
  using assms(2,3)
proof (induction out)
  case (Cons p out)
  then obtain i "is" where i: "p = entry c0 sdus i" "i < n" and
    "is": "out = map (entry c0 sdus) is" "sorted_wrt (<) is" "set is \<subseteq> {..<n}"
    by (cases p) (auto simp: sm_ordered_Cons)
  have below: "\<forall>l \<in> fst ` set out. fst p < l" using Cons.prems(1) by (cases p) (simp add: sm_ordered_Cons)
  have "i < j" if "j \<in> set is" for j
  proof -
    have "fst (entry c0 sdus i) < fst (entry c0 sdus j)"
      using below i(1) "is"(1) that by auto
    then show ?thesis
      using entry_count [OF assms(1) i(2)] entry_count [OF assms(1), of j] that "is"(3)
      by (auto simp: word_less_nat_alt)
  qed
  then show ?case using i "is" by (intro exI [of _ "i # is"]) auto
qed simp

text \<open>What the receiver is while it gets some of the PDUs.\<close>

definition link_inv :: "pdcp_entity_nr \<Rightarrow> u32 \<Rightarrow> byte_buffer list \<Rightarrow> pdcp_entity_nr \<Rightarrow> bool" where
  "link_inv r c0 sdus s \<longleftrightarrow> rx_static s = rx_static r \<and> pdcp_rx_inv s
    \<and> c0 \<le> rx_deliv s \<and> unat (rx_next s) \<le> unat c0 + length sdus
    \<and> set (reorder_queue s) \<subseteq> entry c0 sdus ` {..<length sdus}"

text \<open>One step delivers the SDUs of the indices \<open>is\<close>; \<open>js\<close> are those that arrived.\<close>

definition link_step ::
  "u32 \<Rightarrow> byte_buffer list \<Rightarrow> pdcp_entity_nr \<Rightarrow> nat set \<Rightarrow> bool \<Rightarrow> nat list \<Rightarrow> pdcp_entity_nr \<Rightarrow> bool" where
  "link_step c0 sdus s js timer is s' \<longleftrightarrow> sorted_wrt (<) is \<and> set is \<subseteq> {..<length sdus}
    \<and> rx_deliv s \<le> rx_deliv s'
    \<and> (\<forall>i \<in> set is. rx_deliv s \<le> c0 + of_nat i \<and> c0 + of_nat i < rx_deliv s')
    \<and> entry c0 sdus ` set is \<union> set (reorder_queue s') \<subseteq> set (reorder_queue s) \<union> entry c0 sdus ` js
    \<and> (\<not> timer \<longrightarrow>
        (\<forall>i < length sdus. rx_deliv s \<le> c0 + of_nat i \<and> c0 + of_nat i < rx_deliv s' \<longrightarrow> i \<in> set is)
      \<and> (\<forall>i < length sdus. rx_deliv s' \<le> c0 + of_nat i \<and> (i \<in> js \<or> entry c0 sdus i \<in> set (reorder_queue s))
            \<longrightarrow> entry c0 sdus i \<in> set (reorder_queue s')))"

lemma link_step_refl: "link_step c0 sdus s {} timer [] s"
  by (auto simp: link_step_def)

lemma link_stepD:
  assumes "link_step c0 sdus s js timer is s'"
  shows "sorted_wrt (<) is" "set is \<subseteq> {..<length sdus}" "rx_deliv s \<le> rx_deliv s'"
    "\<And>i. i \<in> set is \<Longrightarrow> rx_deliv s \<le> c0 + of_nat i \<and> c0 + of_nat i < rx_deliv s'"
    "entry c0 sdus ` set is \<subseteq> set (reorder_queue s) \<union> entry c0 sdus ` js"
    "set (reorder_queue s') \<subseteq> set (reorder_queue s) \<union> entry c0 sdus ` js"
    "\<And>i. \<not> timer \<Longrightarrow> i < length sdus \<Longrightarrow> rx_deliv s \<le> c0 + of_nat i \<Longrightarrow> c0 + of_nat i < rx_deliv s' \<Longrightarrow> i \<in> set is"
    "\<And>i. \<not> timer \<Longrightarrow> i < length sdus \<Longrightarrow> rx_deliv s' \<le> c0 + of_nat i \<Longrightarrow>
      i \<in> js \<or> entry c0 sdus i \<in> set (reorder_queue s) \<Longrightarrow> entry c0 sdus i \<in> set (reorder_queue s')"
  using assms unfolding link_step_def by blast+

lemma link_step_trans:
  assumes "unat c0 + length sdus < 2 ^ 32"
    "link_step c0 sdus s js t is s1" "link_step c0 sdus s1 js' t' is' s2"
  shows "link_step c0 sdus s (js \<union> js') (t \<or> t') (is @ is') s2"
proof -
  note a = link_stepD [OF assms(2)] and b = link_stepD [OF assms(3)]
  have "i < j" if "i \<in> set is" "j \<in> set is'" for i j
  proof -
    have "c0 + of_nat i < rx_deliv s1" using a(4) [OF that(1)] by simp
    also have "rx_deliv s1 \<le> c0 + of_nat j" using b(4) [OF that(2)] by simp
    finally have "c0 + of_nat i < c0 + of_nat j" .
    moreover have "i < length sdus" "j < length sdus" using a(2) b(2) that by auto
    ultimately show ?thesis
      using entry_count [OF assms(1), of i] entry_count [OF assms(1), of j]
      by (simp add: entry_def word_less_nat_alt)
  qed
  then have "sorted_wrt (<) (is @ is')" using a(1) b(1) by (simp add: sorted_wrt_append)
  moreover have "set (is @ is') \<subseteq> {..<length sdus}" using a(2) b(2) by simp
  moreover have "rx_deliv s \<le> rx_deliv s2" using a(3) b(3) by (rule order.trans)
  moreover have "\<forall>i \<in> set (is @ is'). rx_deliv s \<le> c0 + of_nat i \<and> c0 + of_nat i < rx_deliv s2"
    using a(4) b(4) order.trans [OF a(3)] less_le_trans [OF _ b(3)] by (metis Un_iff set_append)
  moreover have "entry c0 sdus ` set (is @ is') \<union> set (reorder_queue s2)
      \<subseteq> set (reorder_queue s) \<union> entry c0 sdus ` (js \<union> js')"
    using a(5,6) b(5,6) by (simp only: set_append image_Un) blast
  moreover have "i \<in> set (is @ is')" if "\<not> (t \<or> t')" "i < length sdus"
      "rx_deliv s \<le> c0 + of_nat i" "c0 + of_nat i < rx_deliv s2" for i
    using a(7) [of i] b(7) [of i] that by (cases "c0 + of_nat i < rx_deliv s1") auto
  moreover have "entry c0 sdus i \<in> set (reorder_queue s2)" if "\<not> (t \<or> t')" "i < length sdus"
      "rx_deliv s2 \<le> c0 + of_nat i" "i \<in> js \<union> js' \<or> entry c0 sdus i \<in> set (reorder_queue s)" for i
    using a(8) [of i] b(8) [of i] that order.trans [OF b(3) that(3)] by blast
  ultimately show ?thesis unfolding link_step_def by blast
qed

text \<open>A delivery in terms of indices.\<close>

lemma delivers_link:
  assumes "unat c0 + length sdus < 2 ^ 32" "link_inv r c0 sdus s" "pdcp_delivers s out s'"
    "set out \<union> set (reorder_queue s') \<subseteq> set (reorder_queue s) \<union> entry c0 sdus ` js" "js \<subseteq> {..<length sdus}"
    "unat (rx_next s') \<le> unat c0 + length sdus"
  obtains "is" where "out = map (entry c0 sdus) is" "sorted_wrt (<) is" "set is \<subseteq> {..<length sdus}"
    "link_inv r c0 sdus s'" "\<forall>i \<in> set is. rx_deliv s \<le> c0 + of_nat i \<and> c0 + of_nat i < rx_deliv s'"
proof -
  note d = assms(3) [unfolded pdcp_delivers_def] and l = assms(2) [unfolded link_inv_def]
  have sub: "set out \<subseteq> entry c0 sdus ` {..<length sdus}" "set (reorder_queue s') \<subseteq> entry c0 sdus ` {..<length sdus}"
    using assms(4,5) l by blast+
  obtain "is" where "is": "out = map (entry c0 sdus) is" "sorted_wrt (<) is" "set is \<subseteq> {..<length sdus}"
    using entry_list [OF assms(1) _ sub(1)] d by auto
  have "link_inv r c0 sdus s'"
    using d l sub(2) assms(6) unfolding link_inv_def by (auto intro: order.trans)
  moreover have "\<forall>i \<in> set is. rx_deliv s \<le> c0 + of_nat i \<and> c0 + of_nat i < rx_deliv s'"
    using d "is"(1) by (auto simp: entry_def)
  ultimately show ?thesis using "is" that by blast
qed

lemma pass_entries:
  assumes "rx_static s = rx_static r"
  shows "map (pass_to_upper_layers s) (map snd (map (entry c0 sdus) is))
    = map (\<lambda>i. pass_to_upper_layers r (snd (entry c0 sdus i))) is"
  using rx_static_simps(3) [OF assms] by simp

lemma link_expiry:
  assumes "unat c0 + length sdus < 2 ^ 32" "link_inv r c0 sdus s"
  shows "\<exists>is s'. pdcp_nr_reordering_expiry s = (map (\<lambda>i. pass_to_upper_layers r (snd (entry c0 sdus i))) is, s')
    \<and> link_inv r c0 sdus s' \<and> link_step c0 sdus s {} True is s'"
proof (cases "reordering_running s \<and> reordering_set s")
  case True
  note l = assms(2) [unfolded link_inv_def]
  obtain out s' where e: "pdcp_nr_reordering_expiry s = (map (pass_to_upper_layers s) (map snd out), s')"
      "pdcp_delivers s out s'" "set (reorder_queue s) = set out \<union> set (reorder_queue s')"
      "rx_next s' = rx_next s"
    using expiry_step [of s] True l by blast
  obtain "is" where "is": "out = map (entry c0 sdus) is" "sorted_wrt (<) is" "set is \<subseteq> {..<length sdus}"
    "link_inv r c0 sdus s'" "\<forall>i \<in> set is. rx_deliv s \<le> c0 + of_nat i \<and> c0 + of_nat i < rx_deliv s'"
    by (rule delivers_link [OF assms e(2), of "{}"]) (use e l in simp_all)
  have "link_step c0 sdus s {} True is s'"
    using "is" e(2,3) by (auto simp: link_step_def pdcp_delivers_def)
  moreover have "pdcp_nr_reordering_expiry s = (map (\<lambda>i. pass_to_upper_layers r (snd (entry c0 sdus i))) is, s')"
    using e(1) pass_entries [of s r c0 sdus "is"] l unfolding "is"(1) by simp
  ultimately show ?thesis using "is"(4) by blast
next
  case False
  let ?s = "s\<lparr>reordering_running := False\<rparr>"
  have "reordering_set s \<Longrightarrow> s = ?s" using False by simp
  then have "pdcp_nr_reordering_expiry s = ([], ?s)" using False by (auto simp: pdcp_nr_reordering_expiry_def)
  moreover have "link_inv r c0 sdus ?s" 
    using assms(2) False by (auto simp: link_inv_def rx_static_def pdcp_rx_inv_def reordering_set_def)
  moreover have "link_step c0 sdus s {} True [] ?s" by (auto simp: link_step_def)
  ultimately show ?thesis by auto
qed

lemma entry_inj:
  assumes "unat c0 + n < 2 ^ 32" "i < n" "j < n" "c0 + of_nat i = c0 + (of_nat j :: u32)"
  shows "i = j"
  using assms(4) entry_count [OF assms(1,2)] entry_count [OF assms(1,3)] by (simp add: entry_def)

lemma link_receive:
  assumes "unat c0 + length sdus < 2 ^ 32" "link_inv r c0 sdus s" "i < length sdus"
  shows "\<exists>is s'. pdcp_nr_receive (fst (entry c0 sdus i)) (snd (entry c0 sdus i)) s
      = (map (\<lambda>i. pass_to_upper_layers r (snd (entry c0 sdus i))) is, s')
    \<and> link_inv r c0 sdus s' \<and> link_step c0 sdus s {i} False is s'"
proof -
  let ?c = "c0 + of_nat i" and ?b = "snd (entry c0 sdus i)"
  have l: "rx_static s = rx_static r" "pdcp_rx_inv s" "unat (rx_next s) \<le> unat c0 + length sdus"
      "set (reorder_queue s) \<subseteq> entry c0 sdus ` {..<length sdus}"
    using assms(2) by (simp_all add: link_inv_def)
  have count: "unat ?c = unat c0 + i"
    using entry_count [OF assms(1,3), of sdus] by (simp add: entry_def)
  show ?thesis
  proof (cases "rx_fresh s ?c")
    case False
    have "entry c0 sdus i \<in> set (reorder_queue s)" if le: "rx_deliv s \<le> ?c"
    proof -
      obtain p where p: "p \<in> set (reorder_queue s)" "?c = fst p"
        using False le by (auto simp: rx_fresh_def)
      then obtain j where "j < length sdus" "p = entry c0 sdus j" using l(4) by auto
      then show ?thesis using entry_inj [OF assms(1,3), of j] p by (simp add: entry_def)
    qed
    then have "link_step c0 sdus s {i} False [] s" by (auto simp: link_step_def)
    then show ?thesis
      using not_fresh_receive [OF False] assms(2) by (intro exI [of _ "[]"] exI [of _ s]) (simp add: entry_def)
  next
    case True
    have "unat (?c + 1) = unat ?c + 1" using unat_add_small [of ?c 1] count assms(1,3) by simp
    then have nz: "?c + 1 \<noteq> 0" and c1: "unat (?c + 1) \<le> unat c0 + length sdus"
      using count assms(3) by (metis add_is_0 one_neq_zero unat_0, simp)
    obtain out s' where e: "pdcp_nr_receive ?c ?b s = (map (pass_to_upper_layers s) (map snd out), s')"
        "pdcp_delivers s out s'" "set out \<union> set (reorder_queue s') = insert (?c, ?b) (set (reorder_queue s))"
        "fst ` set out = {k. rx_deliv s \<le> k \<and> k < rx_deliv s'}"
        "rx_next s' = (if rx_next s \<le> ?c then ?c + 1 else rx_next s)"
      using receive_step [OF l(2) nz True, of ?b] by blast
    have ent: "(?c, ?b) = entry c0 sdus i" by (simp add: entry_def)
    have next': "unat (rx_next s') \<le> unat c0 + length sdus" using e(5) c1 l(3) by simp
    have sub: "set out \<union> set (reorder_queue s') \<subseteq> set (reorder_queue s) \<union> entry c0 sdus ` {i}"
      using e(3) ent by auto
    obtain "is" where "is": "out = map (entry c0 sdus) is" "sorted_wrt (<) is" "set is \<subseteq> {..<length sdus}"
        "link_inv r c0 sdus s'" "\<forall>i \<in> set is. rx_deliv s \<le> c0 + of_nat i \<and> c0 + of_nat i < rx_deliv s'"
      by (rule delivers_link [OF assms(1,2) e(2) sub _ next']) (use assms(3) in simp_all)
    have seven: "j \<in> set is" if "j < length sdus" "rx_deliv s \<le> c0 + of_nat j" "c0 + of_nat j < rx_deliv s'" for j
    proof -
      have "c0 + of_nat j \<in> fst ` set out" using that e(4) by simp
      then obtain k where "k \<in> set is" "c0 + of_nat j = c0 + of_nat k" using "is"(1) by (auto simp: entry_def)
      then show ?thesis using entry_inj [OF assms(1) that(1), of k] "is"(3) by auto
    qed
    have eight: "entry c0 sdus j \<in> set (reorder_queue s')"
      if "rx_deliv s' \<le> c0 + of_nat j" "j = i \<or> entry c0 sdus j \<in> set (reorder_queue s)" for j
    proof -
      have "entry c0 sdus j \<in> set out \<union> set (reorder_queue s')" using that(2) e(3) ent by auto
      moreover have "entry c0 sdus j \<notin> set out"
      proof
        assume "entry c0 sdus j \<in> set out"
        then have "fst (entry c0 sdus j) \<in> fst ` set out" by (rule imageI)
        then have "c0 + of_nat j < rx_deliv s'" unfolding e(4) by (simp add: entry_def)
        with that(1) show False by simp
      qed
      ultimately show ?thesis by blast
    qed
    have le: "rx_deliv s \<le> rx_deliv s'" using e(2) by (simp add: pdcp_delivers_def)
    have sub2: "entry c0 sdus ` set is \<union> set (reorder_queue s') \<subseteq> set (reorder_queue s) \<union> entry c0 sdus ` {i}"
      using sub unfolding "is"(1) by simp
    have "link_step c0 sdus s {i} False is s'"
      unfolding link_step_def using "is"(2,3,5) sub2 seven eight le
      by (intro conjI impI allI) blast+
    moreover have "pdcp_nr_receive (fst (entry c0 sdus i)) ?b s
        = (map (\<lambda>i. pass_to_upper_layers r (snd (entry c0 sdus i))) is, s')"
      using e(1) pass_entries [OF l(1), of c0 sdus "is"] unfolding "is"(1) by (simp add: entry_def)
    ultimately show ?thesis using "is"(4) by blast
  qed
qed


section \<open>From one end to the other\<close>

text \<open>The receiver's inputs: \<open>Some i\<close> is the arrival of the PDU of the \<open>i\<close>-th SDU, \<open>None\<close> the timer.\<close>

definition rx_input :: "byte_buffer list \<Rightarrow> nat option \<Rightarrow> pdcp_rx_input" where
  "rx_input pdus x = (case x of Some i \<Rightarrow> Rx_pdu (pdus ! i) | None \<Rightarrow> Rx_reordering_expiry)"

text \<open>The PDU that protects an SDU: \<open>pdu\<close> arriving for \<open>entry\<close> number \<open>i\<close>.\<close>

definition protects :: "aes_lib \<Rightarrow> pdcp_entity_nr \<Rightarrow> u32 \<times> byte_buffer \<Rightarrow> byte_buffer \<Rightarrow> bool" where
  "protects aes r p pdu \<longleftrightarrow> hdr_len_bytes (cfg r) < N_bytes pdu
    \<and> read_data_header r pdu = Some (SN r (fst p))
    \<and> pdcp_nr_unprotect aes r (fst p) pdu = Ret (Some (snd p))"

lemma link_pdu:
  assumes "unat c0 + length sdus < 2 ^ 32" "link_inv r c0 sdus s" "i < length sdus"
    "pdcp_window_ok r" "length sdus \<le> unat (window_size r)" "\<not> rx_overflow r"
    "protects aes r (entry c0 sdus i) pdu"
  shows "\<exists>is s'. pdcp_nr_write_pdu aes pdu s
      = Ret (map (\<lambda>i. pass_to_upper_layers r (snd (entry c0 sdus i))) is, s')
    \<and> link_inv r c0 sdus s' \<and> link_step c0 sdus s {i} False is s'"
proof -
  let ?c = "fst (entry c0 sdus i)"
  have st: "rx_static s = rx_static r" using assms(2) by (simp add: link_inv_def)
  note eq = rx_static_simps [OF st]
  have l: "unat c0 \<le> unat (rx_deliv s)" "unat (rx_deliv s) \<le> unat (rx_next s)"
      "unat (rx_next s) \<le> unat c0 + length sdus"
    using assms(2) by (simp_all add: link_inv_def pdcp_rx_inv_def word_le_nat_alt)
  have win: "pdcp_window_ok s" using assms(4) eq by (simp add: pdcp_window_ok_def sn_len_ok_def)
  have "pdcp_in_window s ?c"
    using l assms(3,5) entry_count [OF assms(1,3)] by (simp add: pdcp_in_window_def eq)
  then have rc: "pdcp_nr_rcvd_count s (SN s ?c) = ?c" by (rule pdcp_count_estimated [OF win])
  have sn: "SN s = SN r" by (simp add: SN_def fun_eq_iff eq)
  obtain "is" s' where "is": "pdcp_nr_receive ?c (snd (entry c0 sdus i)) s
      = (map (\<lambda>i. pass_to_upper_layers r (snd (entry c0 sdus i))) is, s')"
      "link_inv r c0 sdus s'" "link_step c0 sdus s {i} False is s'"
    using link_receive [OF assms(1-3)] by blast
  have "pdcp_nr_write_pdu aes pdu s = Ret (pdcp_nr_receive ?c (snd (entry c0 sdus i)) s)"
    using assms(6,7) rc by (simp add: pdcp_nr_write_pdu_def protects_def eq sn)
  then show ?thesis using "is" by auto
qed

lemma link_run:
  assumes "unat c0 + length sdus < 2 ^ 32" "link_inv r c0 sdus s"
    "pdcp_window_ok r" "length sdus \<le> unat (window_size r)" "\<not> rx_overflow r"
    "\<And>i. i < length sdus \<Longrightarrow> protects aes r (entry c0 sdus i) (pdus ! i)"
    "\<And>i. Some i \<in> set inputs \<Longrightarrow> i < length sdus"
  shows "\<exists>is s'. pdcp_nr_rx_run aes (map (rx_input pdus) inputs) s
      = Ret (map (\<lambda>i. pass_to_upper_layers r (snd (entry c0 sdus i))) is, s')
    \<and> link_inv r c0 sdus s' \<and> link_step c0 sdus s {i. Some i \<in> set inputs} (None \<in> set inputs) is s'"
  using assms(2,7)
proof (induction inputs arbitrary: s)
  case Nil
  then show ?case using link_step_refl by (intro exI [of _ "[]"] exI [of _ s]) simp
next
  case (Cons x inputs)
  have "\<exists>is s'. pdcp_nr_rx_step aes (rx_input pdus x) s
      = Ret (map (\<lambda>i. pass_to_upper_layers r (snd (entry c0 sdus i))) is, s')
    \<and> link_inv r c0 sdus s' \<and> link_step c0 sdus s {i. x = Some i} (x = None) is s'"
  proof (cases x)
    case None
    then show ?thesis using link_expiry [OF assms(1) Cons.prems(1)] by (simp add: rx_input_def)
  next
    case (Some i)
    then have i: "i < length sdus" using Cons.prems(2) [of i] by simp
    show ?thesis
      using link_pdu [OF assms(1) Cons.prems(1) i assms(3-5) assms(6) [OF i]] Some
      by (simp add: rx_input_def)
  qed
  then obtain "is" s1 where one: "pdcp_nr_rx_step aes (rx_input pdus x) s
      = Ret (map (\<lambda>i. pass_to_upper_layers r (snd (entry c0 sdus i))) is, s1)"
      "link_inv r c0 sdus s1" "link_step c0 sdus s {i. x = Some i} (x = None) is s1"
    by blast
  obtain is' s2 where two: "pdcp_nr_rx_run aes (map (rx_input pdus) inputs) s1
      = Ret (map (\<lambda>i. pass_to_upper_layers r (snd (entry c0 sdus i))) is', s2)"
      "link_inv r c0 sdus s2" "link_step c0 sdus s1 {i. Some i \<in> set inputs} (None \<in> set inputs) is' s2"
    using Cons.IH [OF one(2)] Cons.prems(2) by auto
  have "{i. x = Some i} \<union> {i. Some i \<in> set inputs} = {i. Some i \<in> set (x # inputs)}"
      "(x = None \<or> None \<in> set inputs) = (None \<in> set (x # inputs))"
    by auto
  then show ?case
    using one(1) two(1,2) link_step_trans [OF assms(1) one(3) two(3)]
    by (intro exI [of _ "is @ is'"] exI [of _ s2]) simp
qed

text \<open>
  C3. The PDCP link, end to end, with any of the ciphering and integrity algorithms that are
  part of the code.  A transmitter and a receiver configured as peers stand at the same COUNT;
  SDUs that fit the buffers, at most as many as the reordering window, are handed to the
  transmitter; the PDUs arrive in any order, any number of times or not at all, while the
  reordering timer may expire whenever it runs.  Then transmitter and receiver always return;
  the receiver passes up, unchanged, SDUs that arrived, each at most once and in the order
  they were sent; and when the timer never expired and every PDU arrived, all of them.
\<close>

theorem pdcp_nr_in_order:
  assumes "pdcp_nr_peers e r" "pdcp_window_ok r" "\<forall>b \<in> set sdus. sdu_fits e b"
    "length sdus \<le> unat (window_size r)" "unat (tx_next e) + length sdus < 2 ^ 32"
    "\<not> tx_overflow e" "\<not> rx_overflow r" "reorder_queue r = []" "\<not> reordering_running r"
    "rx_deliv r = tx_next e" "rx_next r = tx_next e"
    "\<And>i. Some i \<in> set inputs \<Longrightarrow> i < length sdus"
  shows "\<exists>pdus e' r' is. pdcp_nr_send aes sdus e = Ret (map (Rlc_write_sdu (lcid e)) pdus, e')
    \<and> length pdus = length sdus
    \<and> pdcp_nr_rx_run aes (map (rx_input pdus) inputs) r
      = Ret (map (\<lambda>i. pass_to_upper_layers r ((sdus ! i)\<lparr>pdcp_sn := tx_next e + of_nat i\<rparr>)) is, r')
    \<and> sorted_wrt (<) is \<and> set is \<subseteq> {i. Some i \<in> set inputs}
    \<and> (None \<notin> set inputs \<and> (\<forall>i < length sdus. Some i \<in> set inputs) \<longrightarrow> is = [0..<length sdus])"
proof -
  let ?c0 = "tx_next e" and ?n = "length sdus"
  have "\<exists>pdu. pdcp_nr_protect aes e (?c0 + of_nat i) (sdus ! i) = Some pdu
      \<and> protects aes r (entry ?c0 sdus i) pdu" if "i < ?n" for i
    using pdcp_protect_unprotect [OF assms(1), of "sdus ! i" aes "?c0 + of_nat i"] assms(3) that
    by (simp add: protects_def entry_def)
  then obtain pdu where pdu: "\<And>i. i < ?n \<Longrightarrow> pdcp_nr_protect aes e (?c0 + of_nat i) (sdus ! i) = Some (pdu i)"
      "\<And>i. i < ?n \<Longrightarrow> protects aes r (entry ?c0 sdus i) (pdu i)"
    by metis
  let ?pdus = "map pdu [0..<?n]"
  obtain e' where send: "pdcp_nr_send aes sdus e = Ret (map (Rlc_write_sdu (lcid e)) ?pdus, e')"
    using send_all [OF assms(6,5) pdu(1)] by (auto simp: comp_def)
  have "link_inv r ?c0 sdus r"
    using assms(7-11) by (simp add: link_inv_def pdcp_rx_inv_def)
  then obtain "is" r' where run: "pdcp_nr_rx_run aes (map (rx_input ?pdus) inputs) r
        = Ret (map (\<lambda>i. pass_to_upper_layers r (snd (entry ?c0 sdus i))) is, r')"
      "link_inv r ?c0 sdus r'" "link_step ?c0 sdus r {i. Some i \<in> set inputs} (None \<in> set inputs) is r'"
    using link_run [OF assms(5) _ assms(2,4,7), of r aes ?pdus inputs] pdu(2) assms(12) by auto
  note s = link_stepD [OF run(3)]
  have sub: "set is \<subseteq> {i. Some i \<in> set inputs}"
  proof
    fix i assume i: "i \<in> set is"
    then obtain j where "Some j \<in> set inputs" "entry ?c0 sdus i = entry ?c0 sdus j"
      using s(5) assms(8) by auto
    then show "i \<in> {i. Some i \<in> set inputs}"
      using entry_inj [OF assms(5), of i j] s(2) i assms(12) by (auto simp: entry_def)
  qed
  have "is = [0..<?n]" if all: "None \<notin> set inputs" "\<forall>i < ?n. Some i \<in> set inputs"
  proof -
    have "i \<in> set is" if i: "i < ?n" for i
    proof (cases "?c0 + of_nat i < rx_deliv r'")
      case True
      have "?c0 \<le> ?c0 + of_nat i"
        using entry_count [OF assms(5) i, of sdus] by (simp add: entry_def word_le_nat_alt)
      then show ?thesis using s(7) [OF all(1) i] True assms(10) by simp
    next
      case False
      have inv: "pdcp_rx_inv r'" "?c0 \<le> rx_deliv r'" using run(2) by (simp_all add: link_inv_def)
      define m where "m = unat (rx_deliv r') - unat ?c0"
      have m: "m < ?n" "?c0 + of_nat m = rx_deliv r'"
        using False inv(2) i entry_count [OF assms(5) i, of sdus] assms(5)
        by (simp_all add: m_def entry_def not_less word_le_nat_alt word_unat_eq_iff unat_add_small)
      have "entry ?c0 sdus m \<in> set (reorder_queue r')"
        using s(8) [OF all(1) m(1)] m(2) all(2) m(1) by simp
      then have "rx_deliv r' < fst (entry ?c0 sdus m)"
        using inv(1) unfolding pdcp_rx_inv_def by blast
      then show ?thesis using m(2) by (simp add: entry_def)
    qed
    then have "{..<?n} \<subseteq> set is" by blast
    then have "set is = {..<?n}" using s(2) by blast
    then show ?thesis using s(1) by (intro sorted_distinct_set_unique) (auto simp: strict_sorted_iff lessThan_atLeast0)
  qed
  then show ?thesis
    using send run(1) s(1) sub by (intro exI [of _ ?pdus] exI [of _ e'] exI [of _ r'] exI [of _ "is"]) (simp add: entry_def)
qed

section \<open>Two concrete entities\<close>

definition demo_aes :: aes_lib where
  "demo_aes = \<lparr>aes_ecb = \<lambda>k x. map2 (XOR) k x,
     aes_ctr = \<lambda>k n nonce msg. Some (map (\<lambda>b. b XOR nonce ! 0 XOR k ! 0) msg)\<rparr>"

definition demo_keys :: as_security_config where
  "demo_keys = \<lparr>k_rrc_int = replicate 32 1, k_rrc_enc = replicate 32 2, k_up_int = replicate 32 3,
     k_up_enc = replicate 32 4, integ_algo = INTEGRITY_ALGORITHM_ID_128_EIA1,
     cipher_algo = CIPHERING_ALGORITHM_ID_128_EEA3\<rparr>"

definition demo_cfg :: "security_direction \<Rightarrow> security_direction \<Rightarrow> pdcp_config" where
  "demo_cfg tx rx = pdcp_config_ctor 1 PDCP_RB_IS_DRB tx rx PDCP_SN_LEN_12 (Some 100) (Some 50) False rat_nr"

definition demo_entity :: "security_direction \<Rightarrow> security_direction \<Rightarrow> pdcp_entity_nr" where
  "demo_entity tx rx =
    enable_encryption DIRECTION_TXRX (enable_integrity DIRECTION_TXRX (config_security demo_keys
      (snd (pdcp_nr_configure False (demo_cfg tx rx) (pdcp_nr_ctor 4)))))"

abbreviation demo_tx :: pdcp_entity_nr where
  "demo_tx \<equiv> demo_entity SECURITY_DIRECTION_UPLINK SECURITY_DIRECTION_DOWNLINK"

abbreviation demo_rx :: pdcp_entity_nr where
  "demo_rx \<equiv> demo_entity SECURITY_DIRECTION_DOWNLINK SECURITY_DIRECTION_UPLINK"

definition demo_sdu :: "u8 \<Rightarrow> byte_buffer" where
  "demo_sdu x = \<lparr>headroom = 1020, data = [x, x], pdcp_sn = 0\<rparr>"

lemmas demo_defs = demo_entity_def demo_cfg_def demo_keys_def pdcp_nr_configure_def pdcp_nr_ctor_def
  pdcp_config_ctor_def config_security_def enable_integrity_def enable_encryption_def merge_direction_def
  pdcp_sn_lens Let_def

lemma demo_fields:
  "cfg (demo_entity t x) = demo_cfg t x" "sec_cfg (demo_entity t x) = demo_keys"
  "lcid (demo_entity t x) = 4" "integrity_direction (demo_entity t x) = DIRECTION_TXRX"
  "encryption_direction (demo_entity t x) = DIRECTION_TXRX" "tx_next (demo_entity t x) = 0"
  "rx_next (demo_entity t x) = 0" "rx_deliv (demo_entity t x) = 0" "reorder_queue (demo_entity t x) = []"
  "reordering_running (demo_entity t x) = False" "tx_overflow (demo_entity t x) = False"
  "rx_overflow (demo_entity t x) = False" "window_size (demo_entity t x) = 2048"
  by (simp_all add: demo_defs)

lemma demo_cfg_fields:
  "sn_len (demo_cfg t x) = 12" "hdr_len_bytes (demo_cfg t x) = 2" "rb_type (demo_cfg t x) = PDCP_RB_IS_DRB"
  "bearer_id (demo_cfg t x) = 1" "tx_direction (demo_cfg t x) = t" "rx_direction (demo_cfg t x) = x"
  "t_reordering (demo_cfg t x) = Some 100" "discard_timer (demo_cfg t x) = Some 50"
  by (simp_all add: demo_cfg_def pdcp_config_ctor_def pdcp_sn_lens)

lemma demo_peers: "pdcp_nr_peers demo_tx demo_rx"
  by (simp add: pdcp_nr_peers_def pdcp_peers_def own_algorithms_def sn_len_ok_def tx_ciphering_def
    rx_ciphering_def tx_integrity_def rx_verifies_def is_srb_def is_drb_def demo_fields demo_cfg_fields demo_keys_def)

lemma demo_window: "pdcp_window_ok (demo_entity t x)"
  by (simp add: pdcp_window_ok_def sn_len_ok_def demo_fields demo_cfg_fields)

lemma demo_timer: "reordering_set demo_rx"
  by (simp add: reordering_set_def demo_defs)

lemma demo_fits: "sdu_fits demo_tx (demo_sdu x)"
  by (simp add: sdu_fits_def demo_sdu_def demo_fields demo_cfg_fields get_tailroom_def buffer_sizes)

theorem pdcp_nr_in_order_witness:
  "\<exists>pdus e' r'. pdcp_nr_send demo_aes [demo_sdu 7, demo_sdu 8] demo_tx = Ret (map (Rlc_write_sdu 4) pdus, e')
    \<and> pdcp_nr_rx_run demo_aes [Rx_pdu (pdus ! 1), Rx_pdu (pdus ! 0)] demo_rx
      = Ret ([Gw_write_pdu 4 (demo_sdu 7), Gw_write_pdu 4 ((demo_sdu 8)\<lparr>pdcp_sn := 1\<rparr>)], r')"
proof -
  have in2: "i < length [demo_sdu 7, demo_sdu 8]" if "Some i \<in> set [Some 1, Some 0]" for i
    using that by auto
  have all: "\<forall>i < length [demo_sdu 7, demo_sdu 8]. Some i \<in> set [Some 1, Some 0 :: nat option]"
    by (auto simp: less_Suc_eq)
  have up: "pass_to_upper_layers demo_rx = Gw_write_pdu 4"
    by (simp add: pass_to_upper_layers_def fun_eq_iff is_srb_def demo_fields demo_cfg_fields)
  have same: "(demo_sdu 7)\<lparr>pdcp_sn := 0\<rparr> = demo_sdu 7" by (simp add: demo_sdu_def)
  show ?thesis
    using pdcp_nr_in_order [OF demo_peers demo_window, of "[demo_sdu 7, demo_sdu 8]" "[Some 1, Some 0]" demo_aes, OF _ _ _ _ _ _ _ _ _ in2]
    all
    by (auto simp: demo_fits demo_fields rx_input_def up same)
qed

section \<open>Numbering of SDUs\<close>

text \<open>
  The cipher text and the MAC-I as calls of the algorithms with a given COUNT, and a PDU as what
  protects an SDU with one and the same COUNT in its header, MAC-I and ciphering: the one in its metadata.
\<close>

definition ciphered_with :: "aes_lib \<Rightarrow> pdcp_entity_nr \<Rightarrow> u32 \<Rightarrow> bytes \<Rightarrow> bytes \<Rightarrow> bool" where
  "ciphered_with aes e count body ct \<longleftrightarrow>
    (let key = drop 16 (if is_srb e then k_rrc_enc (sec_cfg e) else k_up_enc (sec_cfg e));
         bearer = bearer_id (cfg e) - 1; dir = security_direction_val (tx_direction (cfg e));
         n = of_nat (length body); tmp = replicate PDCP_MAX_SDU_SIZE 0;
         is_out = (\<lambda>r. \<exists>err out. r = Some (err, Some out) \<and> ct = take (length body) out)
     in case cipher_algo (sec_cfg e) of
          CIPHERING_ALGORITHM_ID_EEA0 \<Rightarrow> ct = body
        | CIPHERING_ALGORITHM_ID_128_EEA1 \<Rightarrow> is_out (security_128_eea1 key count bearer dir body n tmp)
        | CIPHERING_ALGORITHM_ID_128_EEA2 \<Rightarrow> is_out (security_128_eea2 aes key count bearer dir body n tmp)
        | CIPHERING_ALGORITHM_ID_128_EEA3 \<Rightarrow> is_out (security_128_eea3 key count bearer dir body n tmp))"

definition mac_with :: "aes_lib \<Rightarrow> pdcp_entity_nr \<Rightarrow> u32 \<Rightarrow> bytes \<Rightarrow> bytes \<Rightarrow> bool" where
  "mac_with aes e count msg mac \<longleftrightarrow>
    (let key = drop 16 (if is_srb e then k_rrc_int (sec_cfg e) else k_up_int (sec_cfg e));
         bearer = (ucast (bearer_id (cfg e)) :: u32) - 1; dir = security_direction_val (tx_direction (cfg e));
         n = of_nat (length msg); z = replicate 4 0; is_mac = (\<lambda>r. \<exists>err. r = Some (err, Some mac))
     in case integ_algo (sec_cfg e) of
          INTEGRITY_ALGORITHM_ID_EIA0 \<Rightarrow> mac = z
        | INTEGRITY_ALGORITHM_ID_128_EIA1 \<Rightarrow> is_mac (security_128_eia1 key count bearer dir msg n z)
        | INTEGRITY_ALGORITHM_ID_128_EIA2 \<Rightarrow> is_mac (security_128_eia2 aes key count bearer dir msg n z)
        | INTEGRITY_ALGORITHM_ID_128_EIA3 \<Rightarrow> is_mac (security_128_eia3 key count bearer dir msg n z))"

definition protected_with :: "aes_lib \<Rightarrow> pdcp_entity_nr \<Rightarrow> byte_buffer \<Rightarrow> byte_buffer \<Rightarrow> bool" where
  "protected_with aes e b pdu \<longleftrightarrow>
    (let count = pdcp_sn pdu; h = hdr_len_bytes (cfg e) in
     \<exists>hdr clear. write_data_header e b count = Some hdr
       \<and> (if tx_integrity e then \<exists>mac. mac_with aes e count (data hdr) mac \<and> clear = append_mac hdr mac else clear = hdr)
       \<and> (if tx_ciphering e then \<exists>ct. ciphered_with aes e count (drop h (data clear)) ct \<and> data pdu = take h (data clear) @ ct
          else data pdu = data clear))"

lemma cipher_encrypt_with: "cipher_encrypt aes e body count = Some ct \<Longrightarrow> ciphered_with aes e count body ct"
  by (cases "cipher_algo (sec_cfg e)")
    (auto simp: cipher_encrypt_def pdcp_cipher_def ciphered_with_def Let_def bind_eq_Some_conv)

lemma integrity_generate_with: "integrity_generate aes e msg count (replicate 4 0) = Some mac \<Longrightarrow> mac_with aes e count msg mac"
  by (cases "integ_algo (sec_cfg e)")
    (auto simp: integrity_generate_def integrity_mac_def mac_with_def Let_def bind_eq_Some_conv)

lemma protect_with:
  assumes "pdcp_nr_protect aes e count b = Some pdu"
  shows "pdcp_sn pdu = count \<and> protected_with aes e b pdu"
proof -
  let ?h = "hdr_len_bytes (cfg e)"
  obtain hdr where hdr: "write_data_header e b count = Some hdr"
    using assms by (auto simp: pdcp_nr_protect_def bind_eq_Some_conv)
  obtain clear where clear: "(if tx_integrity e
      then do { mac \<leftarrow> integrity_generate aes e (data hdr) count (replicate 4 0); Some (append_mac hdr mac) }
      else Some hdr) = Some clear"
    using assms hdr by (auto simp: pdcp_nr_protect_def bind_eq_Some_conv)
  have i: "if tx_integrity e then \<exists>mac. mac_with aes e count (data hdr) mac \<and> clear = append_mac hdr mac else clear = hdr"
    using clear by (auto simp: bind_eq_Some_conv dest: integrity_generate_with split: if_splits)
  obtain out where out: "(if tx_ciphering e
      then if ?h \<le> N_bytes clear
        then do { body \<leftarrow> cipher_encrypt aes e (drop ?h (data clear)) count; Some (replace_body ?h body clear) }
        else None
      else Some clear) = Some out" "pdu = out\<lparr>pdcp_sn := count\<rparr>"
    using assms unfolding pdcp_nr_protect_def hdr bind.bind_lunit clear by (auto simp: bind_eq_Some_conv)
  then have "if tx_ciphering e
      then \<exists>ct. ciphered_with aes e count (drop ?h (data clear)) ct \<and> data pdu = take ?h (data clear) @ ct
      else data pdu = data clear"
    by (auto simp: bind_eq_Some_conv replace_body_def dest: cipher_encrypt_with split: if_splits)
  then show ?thesis using hdr i out(2) unfolding protected_with_def Let_def by auto
qed

lemma protected_with_static:
  assumes "tx_static e' = tx_static e"
  shows "protected_with aes e' = protected_with aes e"
proof -
  have s: "cfg (tx_static x) = cfg x" "sec_cfg (tx_static x) = sec_cfg x"
      "integrity_direction (tx_static x) = integrity_direction x"
      "encryption_direction (tx_static x) = encryption_direction x" for x
    by (simp_all add: tx_static_def)
  have b: "is_srb (tx_static x) = is_srb x" "is_drb (tx_static x) = is_drb x" "SN (tx_static x) = SN x" for x
    by (simp_all add: fun_eq_iff s is_srb_def is_drb_def SN_def)
  have c: "ciphered_with aes (tx_static x) = ciphered_with aes x" "mac_with aes (tx_static x) = mac_with aes x"
      "write_data_header (tx_static x) = write_data_header x"
      "tx_integrity (tx_static x) = tx_integrity x" "tx_ciphering (tx_static x) = tx_ciphering x" for x
    unfolding fun_eq_iff ciphered_with_def mac_with_def write_data_header_def data_header_def tx_integrity_def
      tx_ciphering_def s b by simp_all
  have "protected_with aes (tx_static x) = protected_with aes x" for x
    unfolding fun_eq_iff protected_with_def s c by simp
  then show ?thesis using assms by metis
qed

lemma write_sdu_cases:
  assumes "pdcp_nr_write_sdu aes False b e = Ret (evs, e')"
  shows "if tx_overflow e then evs = [] \<and> e' = e
    else (\<exists>pdu. evs = [Rlc_write_sdu (lcid e) pdu] \<and> pdcp_sn pdu = tx_next e \<and> protected_with aes e b pdu)
      \<and> tx_static e' = tx_static e \<and> lcid e' = lcid e \<and> tx_next e' = tx_next e + 1 \<and> tx_overflow e' = (tx_next e + 1 = 0)"
proof (cases "tx_overflow e")
  case False
  let ?e1 = "if tx_next e + 1 = 0 then e\<lparr>tx_overflow := True\<rparr> else e"
  let ?e2 = "case discard_timer (cfg ?e1) of
      Some t \<Rightarrow> ?e1\<lparr>discard_timers_map := sm_emplace (tx_next ?e1) t (discard_timers_map ?e1)\<rparr> | None \<Rightarrow> ?e1"
  have e2: "tx_next ?e2 = tx_next e" "lcid ?e2 = lcid e" "tx_overflow ?e2 = (tx_next e + 1 = 0)"
      "tx_static ?e2 = tx_static e" "tx_static (?e2\<lparr>tx_next := tx_next ?e2 + 1\<rparr>) = tx_static e"
    using False by (simp_all add: tx_static_def split: option.split)
  have w: "pdcp_nr_write_sdu aes False b e = (case pdcp_nr_protect aes ?e2 (tx_next ?e2) b of
      None \<Rightarrow> Undef | Some b \<Rightarrow> Ret ([Rlc_write_sdu (lcid ?e2) b], ?e2\<lparr>tx_next := tx_next ?e2 + 1\<rparr>))"
    using False by (simp only: pdcp_nr_write_sdu_def Let_def if_False)
  obtain pdu where p: "pdcp_nr_protect aes ?e2 (tx_next ?e2) b = Some pdu"
      "evs = [Rlc_write_sdu (lcid ?e2) pdu]" "e' = ?e2\<lparr>tx_next := tx_next ?e2 + 1\<rparr>"
    using assms unfolding w by (auto split: option.splits)
  have "pdcp_sn pdu = tx_next ?e2 \<and> protected_with aes e b pdu"
    using protect_with [OF p(1)] protected_with_static [OF e2(4), of aes] by simp
  then show ?thesis using False p(2,3) e2 by simp
qed (use assms in \<open>simp add: pdcp_nr_write_sdu_def\<close>)

text \<open>
  C14. The transmitter never uses a COUNT twice, which the ciphers rely on: whatever SDUs are
  handed to it, the COUNTs of the PDUs it passes to RLC ascend strictly from \<open>tx_next\<close>, and
  once the last COUNT has been used nothing is sent any more.  The COUNT of a PDU is the one with which its
  header was written and with which the integrity and the ciphering algorithm were called for it, and the PDUs are those
  of the SDUs, one by one, from the first on.
\<close>

theorem pdcp_tx_counts_ascend:
  assumes "pdcp_nr_send aes sdus e = Ret (evs, e')"
  shows "\<exists>pdus. evs = map (Rlc_write_sdu (lcid e)) pdus \<and> sorted_wrt (<) (map pdcp_sn pdus)
    \<and> (\<forall>p \<in> set pdus. tx_next e \<le> pdcp_sn p) \<and> (tx_overflow e \<longrightarrow> pdus = [])
    \<and> length pdus \<le> length sdus \<and> list_all2 (protected_with aes e) (take (length pdus) sdus) pdus"
  using assms
proof (induction sdus arbitrary: e evs)
  case (Cons b sdus)
  obtain evs1 e1 evs2 where one: "pdcp_nr_write_sdu aes False b e = Ret (evs1, e1)"
      and two: "pdcp_nr_send aes sdus e1 = Ret (evs2, e')" and evs: "evs = evs1 @ evs2"
    using Cons.prems by (auto simp: bind_outcome_Ret_iff)
  obtain pdus where pdus: "evs2 = map (Rlc_write_sdu (lcid e1)) pdus" "sorted_wrt (<) (map pdcp_sn pdus)"
      "\<forall>p \<in> set pdus. tx_next e1 \<le> pdcp_sn p" "tx_overflow e1 \<longrightarrow> pdus = []" "length pdus \<le> length sdus"
      "list_all2 (protected_with aes e1) (take (length pdus) sdus) pdus"
    using Cons.IH [OF two] by blast
  note c = write_sdu_cases [OF one]
  show ?case
  proof (cases "tx_overflow e")
    case True
    then show ?thesis using c pdus evs by auto
  next
    case False
    then obtain pdu where p: "evs1 = [Rlc_write_sdu (lcid e) pdu]" "pdcp_sn pdu = tx_next e"
        "lcid e1 = lcid e" "tx_next e1 = tx_next e + 1" "tx_overflow e1 = (tx_next e + 1 = 0)"
        "protected_with aes e b pdu" "protected_with aes e1 = protected_with aes e"
      using c protected_with_static [of e1 e aes] by auto
    have above: "tx_next e < pdcp_sn q" if q: "q \<in> set pdus" for q
    proof -
      have nz: "tx_next e \<noteq> - 1" using pdus(4) p(5) q by auto
      then have "tx_next e < tx_next e + 1"
        using inc_less_eq_self_iff_eq [of "tx_next e"] by (metis leI)
      then show ?thesis using pdus(3) p(4) q by (metis less_le_trans)
    qed
    then show ?thesis
      using pdus p evs False
      by (intro exI [of _ "pdu # pdus"]) (auto intro: less_imp_le)
  qed
qed simp

theorem pdcp_tx_counts_ascend_witness:
  "\<exists>pdu e'. pdcp_nr_send demo_aes [demo_sdu 7, demo_sdu 8] (demo_tx\<lparr>tx_next := 0xFFFFFFFF\<rparr>)
    = Ret ([Rlc_write_sdu 4 pdu], e') \<and> 0xFFFFFFFF \<le> pdcp_sn pdu"
proof -
  let ?e = "demo_tx\<lparr>tx_next := 0xFFFFFFFF\<rparr>"
  let ?e1 = "?e\<lparr>tx_overflow := True, discard_timers_map := sm_emplace 0xFFFFFFFF 50 (discard_timers_map demo_tx)\<rparr>"
  obtain pdu where "pdcp_nr_protect demo_aes demo_tx 0xFFFFFFFF (demo_sdu 7) = Some pdu"
    using pdcp_protect_unprotect [OF demo_peers demo_fits, of demo_aes "0xFFFFFFFF" 7] by auto
  moreover have "pdcp_nr_protect demo_aes ?e1 = pdcp_nr_protect demo_aes demo_tx"
    by (rule tx_static_simps) (simp add: tx_static_def)
  ultimately have "pdcp_nr_write_sdu demo_aes False (demo_sdu 7) ?e = Ret ([Rlc_write_sdu 4 pdu], ?e1\<lparr>tx_next := 0\<rparr>)"
    by (simp add: pdcp_nr_write_sdu_def Let_def demo_fields demo_cfg_fields)
  then have "pdcp_nr_send demo_aes [demo_sdu 7, demo_sdu 8] ?e = Ret ([Rlc_write_sdu 4 pdu], ?e1\<lparr>tx_next := 0\<rparr>)"
    by (simp add: pdcp_nr_write_sdu_def)
  then show ?thesis
    using pdcp_tx_counts_ascend [of demo_aes "[demo_sdu 7, demo_sdu 8]" ?e] by (auto simp: demo_fields Cons_eq_map_conv)
qed

section \<open>Where the code departs from its intent\<close>

lemma underflowed_count:
  assumes "sn_len (cfg e) \<le> 32" "unat sn < 2 ^ sn_len (cfg e)"
  shows "unat (COUNT e (- 1) sn) = 2 ^ 32 - 2 ^ sn_len (cfg e) + unat sn"
proof -
  let ?n = "sn_len (cfg e)"
  have "push_bit ?n (- 1 :: u32) = push_bit ?n (mask (32 - ?n))"
    by (rule bit_word_eqI) (auto simp: bit_simps)
  then have c: "COUNT e (- 1) sn = COUNT e (mask (32 - ?n)) sn" by (simp add: COUNT_def)
  have m: "unat (mask (32 - ?n) :: u32) = 2 ^ (32 - ?n) - 1"
  proof -
    have "(2 :: nat) ^ (32 - ?n) \<le> 2 ^ 32" by (intro power_increasing) simp_all
    then have "(2 :: nat) ^ (32 - ?n) - 1 < 4294967296" by simp
    moreover have "(mask (32 - ?n) :: u32) = of_nat (2 ^ (32 - ?n) - 1)"
      by (simp add: mask_eq_exp_minus_1 of_nat_diff)
    ultimately show ?thesis using unat_of_nat_u32 by metis
  qed
  have p: "(2 ^ (32 - ?n) - 1) * 2 ^ ?n = (2 :: nat) ^ 32 - 2 ^ ?n"
    using assms(1) by (simp add: diff_mult_distrib flip: power_add)
  have "(2 :: nat) ^ ?n \<le> 2 ^ 32" using assms(1) by (intro power_increasing) simp_all
  then show ?thesis unfolding c using unat_COUNT [OF assms(1), of "mask (32 - ?n)" sn] m p assms(2) by simp
qed

text \<open>
  C37. A PDU from below the window while the hyper frame number is still 0: the estimate
  subtracts 1 from it, and the PDU gets a COUNT at the very end of the 32-bit range.  A
  receiver without integrity protection stores it; when the reordering timer (of more than 0 ms) expires it is
  delivered, \<open>rx_deliv\<close> jumps behind it, and every PDU with a smaller COUNT is dropped from
  then on.
\<close>

theorem pdcp_hfn_underflow:
  assumes "pdcp_window_ok r" "HFN r (rx_deliv r) = 0" "unat sn < 2 ^ sn_len (cfg r) - 1"
    "unat (SN r (rx_deliv r)) + unat (window_size r) \<le> unat sn"
    "reorder_queue r = []" "\<not> reordering_running r" "rx_next r = rx_deliv r" "t_reordering (cfg r) \<noteq> None"
    "reordering_set r"
  defines "count \<equiv> pdcp_nr_rcvd_count r sn"
  shows "unat count = 2 ^ 32 - 2 ^ sn_len (cfg r) + unat sn
    \<and> (\<exists>r1 r2. pdcp_nr_receive count b r = ([], r1)
        \<and> pdcp_nr_reordering_expiry r1 = ([pass_to_upper_layers r b], r2)
        \<and> rx_deliv r2 = count + 1
        \<and> (\<forall>c b'. c \<le> count \<longrightarrow> pdcp_nr_receive c b' r2 = ([], r2)))"
proof -
  let ?n = "sn_len (cfg r)"
  note ok = pdcp_window_ok_cases [OF assms(1)]
  have n32: "?n \<le> 32" using ok(3) by simp
  have small: "unat (SN r (rx_deliv r)) < 2 ^ ?n" using unat_SN [OF n32] by simp
  have pow: "(2::nat) ^ ?n \<le> 2 ^ 18" using ok(3) by (intro power_increasing) simp_all
  have deliv: "unat (rx_deliv r) = unat (SN r (rx_deliv r))"
    using unat_SN [OF n32, of "rx_deliv r"] unat_HFN [of r "rx_deliv r"] assms(2)
    by (metis div_mult_mod_eq mult_zero_left add_0 unat_0)
  have sum: "unat (SN r (rx_deliv r) + window_size r) = unat (SN r (rx_deliv r)) + unat (window_size r)"
    using small pow ok(2) by (intro unat_add_lem [THEN iffD1]) simp
  have count: "unat count = 2 ^ 32 - 2 ^ ?n + unat sn"
  proof -
    have "\<not> int (unat sn) < int (unat (SN r (rx_deliv r))) - int (unat (window_size r))"
        "SN r (rx_deliv r) + window_size r \<le> sn"
      using assms(4) sum by (linarith, simp add: word_le_nat_alt)
    then have "count = COUNT r (- 1) sn"
      by (simp only: count_def pdcp_nr_rcvd_count_def Let_def if_False if_True assms(2)) simp
    then show ?thesis using underflowed_count [OF n32, of sn] assms(3) by simp
  qed
  have next1: "unat (count + 1) = unat count + 1"
    using unat_add_small [of count 1] assms(3) count pow by simp
  have lt: "rx_deliv r < count" "count < count + 1"
    using deliv small count pow next1 by (simp_all add: word_less_nat_alt)
  have fresh: "rx_fresh r count" using lt(1) assms(5) by (simp add: rx_fresh_def)
  let ?r1 = "r\<lparr>reorder_queue := [(count, b)], rx_next := count + 1, rx_reord := count + 1, reordering_running := True\<rparr>"
  have one: "pdcp_nr_receive count b r = ([], ?r1)"
    unfolding receive_fresh [OF fresh] using lt assms(5-8)
    by (auto simp: rx_timers_def Let_def)
  let ?r2 = "r\<lparr>reorder_queue := [], rx_next := count + 1, rx_reord := count + 1, rx_deliv := count + 1\<rparr>"
  have up: "pass_to_upper_layers (?r1\<lparr>reordering_running := False\<rparr>) = pass_to_upper_layers r"
    by (simp add: pass_to_upper_layers_def is_srb_def fun_eq_iff)
  have two: "pdcp_nr_reordering_expiry ?r1 = ([pass_to_upper_layers r b], ?r2)"
    using lt(2) up assms(6,9) by (simp add: pdcp_nr_reordering_expiry_def reordering_set_def pdcp_nr_reordering_callback_def Let_def
      deliver_all_consecutive_counts_def)
  have "pdcp_nr_receive c b' ?r2 = ([], ?r2)" if "c \<le> count" for c b'
    using order.strict_trans1 [OF that lt(2)] by (simp add: pdcp_nr_receive_def)
  then show ?thesis using count one two by auto
qed

theorem pdcp_hfn_underflow_witness:
  "\<exists>r1 r2. pdcp_nr_receive 0xFFFFF800 (demo_sdu 7) demo_rx = ([], r1)
    \<and> pdcp_nr_reordering_expiry r1 = ([Gw_write_pdu 4 (demo_sdu 7)], r2)
    \<and> pdcp_nr_receive 0 (demo_sdu 7) r2 = ([], r2)"
proof -
  have c: "pdcp_nr_rcvd_count demo_rx 2048 = 0xFFFFF800"
  proof -
    have "pdcp_nr_rcvd_count demo_rx 2048 = COUNT demo_rx (- 1) 2048"
      by (simp add: pdcp_nr_rcvd_count_def HFN_def SN_def demo_fields demo_cfg_fields)
    moreover have "unat (COUNT demo_rx (- 1) 2048) = unat (0xFFFFF800 :: u32)"
      using underflowed_count [of demo_rx 2048] by (simp add: demo_fields demo_cfg_fields)
    ultimately show ?thesis by (simp only: word_unat_eq_iff)
  qed
  have up: "pass_to_upper_layers demo_rx (demo_sdu 7) = Gw_write_pdu 4 (demo_sdu 7)"
    by (simp add: pass_to_upper_layers_def is_srb_def demo_fields demo_cfg_fields)
  have h: "HFN demo_rx (rx_deliv demo_rx) = 0" "unat (SN demo_rx (rx_deliv demo_rx)) = 0"
    by (simp_all add: HFN_def SN_def demo_fields)
  show ?thesis
    using pdcp_hfn_underflow [OF demo_window h(1) _ _ _ _ _ _ demo_timer, of 2048 "demo_sdu 7"]
    unfolding c up h(2) by (auto simp: demo_fields demo_cfg_fields)
qed

text \<open>
  C38. A PDU on a signalling bearer that is longer than the header but too short to hold header
  and MAC-I: the four bytes taken off as MAC-I include bytes of the header, and discarding the
  header then takes off more bytes than are left.
\<close>

theorem pdcp_short_srb_pdu:
  assumes "is_srb e" "\<not> rx_overflow e" "\<not> rx_ciphering e" "\<not> rx_verifies e" "sn_len_ok e"
    "hdr_len_bytes (cfg e) < N_bytes pdu" "4 \<le> N_bytes pdu" "N_bytes pdu < hdr_len_bytes (cfg e) + 4"
  shows "pdcp_nr_write_pdu aes pdu e = Undef"
proof -
  have rd: "\<exists>x. rd (data pdu) k = Some x" if "k < 4" for k
    using that assms(7) by (simp add: rd_def)
  have "\<exists>sn. read_data_header e pdu = Some sn"
    using rd [of 0] rd [of 1] rd [of 2]
    by (auto simp: read_data_header_def uint8_to_uint16_def uint8_to_uint24_def)
  then obtain sn where "read_data_header e pdu = Some sn" by blast
  then show ?thesis
    using assms by (simp add: pdcp_nr_write_pdu_def pdcp_nr_unprotect_def extract_mac_def discard_data_header_def
      strip_bytes_def Let_def)
qed

theorem pdcp_short_srb_pdu_witness:
  "pdcp_nr_write_pdu demo_aes \<lparr>headroom = 1020, data = [0, 1, 2, 3], pdcp_sn = 0\<rparr>
    (snd (pdcp_nr_configure False (pdcp_config_ctor 1 PDCP_RB_IS_SRB SECURITY_DIRECTION_DOWNLINK
      SECURITY_DIRECTION_UPLINK 12 None None False rat_nr) (pdcp_nr_ctor 1))) = Undef"
  by (rule pdcp_short_srb_pdu) (simp_all add: pdcp_nr_configure_def pdcp_nr_ctor_def pdcp_config_ctor_def
    is_srb_def rx_ciphering_def rx_verifies_def sn_len_ok_def Let_def)

text \<open>
  Configuring an entity of an unacknowledged bearer with a discard timer again, with the
  very same configuration, is refused: the stored configuration has lost its discard timer.
\<close>

theorem pdcp_um_reconfigure_fails:
  assumes "\<not> active e" "discard_timer c \<noteq> None"
  shows "\<exists>e'. pdcp_nr_configure True c e = (True, e') \<and> pdcp_nr_configure True c e' = (False, e')"
proof -
  have "c \<noteq> c\<lparr>discard_timer := None\<rparr>" using assms(2) by (metis pdcp_config.select_convs(8) pdcp_config.surjective pdcp_config.update_convs(8))
  then show ?thesis
    using assms by (cases "t_reordering c") (simp_all add: pdcp_nr_configure_def Let_def)
qed

theorem pdcp_um_reconfigure_fails_witness:
  "\<exists>e'. pdcp_nr_configure True (cfg demo_tx) (pdcp_nr_ctor 4) = (True, e')
    \<and> pdcp_nr_configure True (cfg demo_tx) e' = (False, e')"
  by (rule pdcp_um_reconfigure_fails) (simp_all add: pdcp_nr_ctor_def demo_fields demo_cfg_fields)

text \<open>
  C39. The room for the MAC-I is compared with the length of the whole SDU instead of with 4
  bytes: an SDU for which twice its length does not fit the buffer is sent without MAC-I,
  although integrity protection is on, and no error is returned.
\<close>

theorem pdcp_mac_omitted:
  assumes "sn_len_ok e" "own_algorithms e" "tx_integrity e" "\<not> tx_ciphering e"
    "data b \<noteq> []" "wf_buffer b" "hdr_len_bytes (cfg e) \<le> headroom b"
    "get_tailroom b < N_bytes b + hdr_len_bytes (cfg e) + 4"
  shows "\<exists>bs pdu. data_header e count = Some bs \<and> pdcp_nr_protect aes e count b = Some pdu
    \<and> data pdu = bs @ data b"
proof -
  let ?h = "hdr_len_bytes (cfg e)"
  obtain bs where bs: "data_header e count = Some bs" "length bs = ?h"
    using data_header_length [OF assms(1)] by blast
  let ?b1 = "b\<lparr>headroom := headroom b - ?h, data := bs @ data b\<rparr>"
  have w: "write_data_header e b count = Some ?b1"
    using bs assms(7) by (simp add: write_data_header_def prepend_bytes_def)
  have "length (bs @ data b) < 2 ^ 24"
    using wf_N_bytes [OF assms(6)] assms(1) bs(2) by (auto elim!: sn_len_ok_cases)
  then obtain mac where mac: "integrity_mac aes e (tx_direction (cfg e)) (bs @ data b) count (replicate 4 0) = Some mac"
    using integrity_mac_total [of e "bs @ data b" "replicate 4 0" aes] assms(2,5) by (auto simp: own_algorithms_def)
  have "get_tailroom ?b1 < N_bytes ?b1 + 4"
    using assms(7,8) bs(2) by (simp add: get_tailroom_def)
  then have "append_mac ?b1 mac = ?b1" by (simp add: append_mac_def)
  then have "pdcp_nr_protect aes e count b = Some (?b1\<lparr>pdcp_sn := count\<rparr>)"
    using assms(3,4) w mac by (simp add: pdcp_nr_protect_def integrity_generate_def)
  then show ?thesis using bs(1) by simp
qed

theorem pdcp_mac_omitted_witness:
  "\<exists>bs pdu. pdcp_nr_protect demo_aes (demo_tx\<lparr>encryption_direction := DIRECTION_NONE\<rparr>) 0
      \<lparr>headroom = 1020, data = replicate 6200 7, pdcp_sn = 0\<rparr> = Some pdu
    \<and> data pdu = bs @ replicate 6200 7 \<and> length bs = 2"
proof -
  let ?e = "demo_tx\<lparr>encryption_direction := DIRECTION_NONE\<rparr>"
  let ?b = "\<lparr>headroom = 1020, data = replicate 6200 7, pdcp_sn = 0\<rparr> :: byte_buffer"
  have ok: "sn_len_ok ?e" by (simp add: sn_len_ok_def demo_fields demo_cfg_fields)
  have "\<exists>bs pdu. data_header ?e 0 = Some bs \<and> pdcp_nr_protect demo_aes ?e 0 ?b = Some pdu \<and> data pdu = bs @ data ?b"
    by (rule pdcp_mac_omitted [OF ok]) (simp_all add: own_algorithms_def tx_integrity_def tx_ciphering_def is_srb_def
      is_drb_def demo_fields demo_cfg_fields demo_keys_def wf_buffer_def get_tailroom_def buffer_sizes)
  then show ?thesis
    using data_header_length [OF ok, of 0] by (auto simp: demo_fields demo_cfg_fields)
qed

end
