(* ===== verification/Milenage.thy ===== *)
theory Milenage
  imports Security
begin

text \<open>
  Authentication: the Milenage functions of \<^verbatim>\<open>common/liblte_security.cc\<close> on the block
  cipher of the external AES library, and the XOR test algorithm of
  \<^verbatim>\<open>common/security.cc\<close>.  The output arrays are the results; the null checks give
  \<open>Inl\<close> the error.  All arrays have the length the functions index: 16 bytes for keys, blocks
  and random challenges, 6 for sequence numbers, 2 for the management field.
\<close>

definition xor_16 :: "bytes \<Rightarrow> bytes \<Rightarrow> bytes" where
  "xor_16 a b = map (\<lambda>i. a ! i XOR b ! i) [0..<16]"

text \<open>\<^verbatim>\<open>input[(i + r) % 16] = a[i] ^ b[i]\<close> for all \<^verbatim>\<open>i\<close>.\<close>

definition rotate_xor :: "nat \<Rightarrow> bytes \<Rightarrow> bytes \<Rightarrow> bytes" where
  "rotate_xor r a b = foldl (\<lambda>input i. input[(i + r) mod 16 := a ! i XOR b ! i]) (replicate 16 0) [0..<16]"

definition milenage_temp :: "aes_lib \<Rightarrow> bytes \<Rightarrow> bytes \<Rightarrow> bytes \<Rightarrow> bytes" where
  "milenage_temp aes k op_c rand = aes_ecb aes k (xor_16 rand op_c)"

definition milenage_out1 :: "aes_lib \<Rightarrow> bytes \<Rightarrow> bytes \<Rightarrow> bytes \<Rightarrow> bytes \<Rightarrow> bytes \<Rightarrow> bytes" where
  "milenage_out1 aes k op_c rand sqn amf =
    (let temp = milenage_temp aes k op_c rand;
         in1 = take 6 sqn @ take 2 amf @ take 6 sqn @ take 2 amf;
         input = xor_16 (rotate_xor 8 in1 op_c) temp
     in xor_16 (aes_ecb aes k input) op_c)"

definition liblte_security_milenage_f1 ::
  "aes_lib \<Rightarrow> bytes option \<Rightarrow> bytes option \<Rightarrow> bytes option \<Rightarrow> bytes option \<Rightarrow> bytes option
    \<Rightarrow> liblte_error + bytes" where
  "liblte_security_milenage_f1 aes k op_c rand sqn amf =
    (case (k, op_c, rand, sqn, amf) of
       (Some k, Some op_c, Some rand, Some sqn, Some amf) \<Rightarrow>
         Inr (take 8 (milenage_out1 aes k op_c rand sqn amf))
     | _ \<Rightarrow> Inl LIBLTE_ERROR_INVALID_INPUTS)"

definition liblte_security_milenage_f1_star ::
  "aes_lib \<Rightarrow> bytes option \<Rightarrow> bytes option \<Rightarrow> bytes option \<Rightarrow> bytes option \<Rightarrow> bytes option
    \<Rightarrow> liblte_error + bytes" where
  "liblte_security_milenage_f1_star aes k op_c rand sqn amf =
    (case (k, op_c, rand, sqn, amf) of
       (Some k, Some op_c, Some rand, Some sqn, Some amf) \<Rightarrow>
         Inr (take 8 (drop 8 (milenage_out1 aes k op_c rand sqn amf)))
     | _ \<Rightarrow> Inl LIBLTE_ERROR_INVALID_INPUTS)"

text \<open>One output of \<^verbatim>\<open>f2345\<close> or \<^verbatim>\<open>f5*\<close>: rotation \<open>r\<close>, constant \<open>c\<close> in the last byte.\<close>

definition milenage_out :: "aes_lib \<Rightarrow> bytes \<Rightarrow> bytes \<Rightarrow> bytes \<Rightarrow> nat \<Rightarrow> u8 \<Rightarrow> bytes" where
  "milenage_out aes k op_c temp r c =
    (let input = rotate_xor r temp op_c;
         input = input[15 := input ! 15 XOR c]
     in xor_16 (aes_ecb aes k input) op_c)"

record milenage_vector =
  mil_res :: bytes
  mil_ck :: bytes
  mil_ik :: bytes
  mil_ak :: bytes

definition liblte_security_milenage_f2345 ::
  "aes_lib \<Rightarrow> bytes option \<Rightarrow> bytes option \<Rightarrow> bytes option \<Rightarrow> liblte_error + milenage_vector" where
  "liblte_security_milenage_f2345 aes k op_c rand =
    (case (k, op_c, rand) of
       (Some k, Some op_c, Some rand) \<Rightarrow>
         (let temp = milenage_temp aes k op_c rand;
              out = milenage_out aes k op_c temp 0 1
          in Inr \<lparr>mil_res = take 8 (drop 8 out),
                  mil_ck = milenage_out aes k op_c temp 12 2,
                  mil_ik = milenage_out aes k op_c temp 8 4,
                  mil_ak = take 6 out\<rparr>)
     | _ \<Rightarrow> Inl LIBLTE_ERROR_INVALID_INPUTS)"

definition liblte_security_milenage_f5_star ::
  "aes_lib \<Rightarrow> bytes option \<Rightarrow> bytes option \<Rightarrow> bytes option \<Rightarrow> liblte_error + bytes" where
  "liblte_security_milenage_f5_star aes k op_c rand =
    (case (k, op_c, rand) of
       (Some k, Some op_c, Some rand) \<Rightarrow>
         (let temp = milenage_temp aes k op_c rand
          in Inr (take 6 (milenage_out aes k op_c temp 4 8)))
     | _ \<Rightarrow> Inl LIBLTE_ERROR_INVALID_INPUTS)"

definition liblte_compute_opc :: "aes_lib \<Rightarrow> bytes option \<Rightarrow> bytes option \<Rightarrow> liblte_error + bytes" where
  "liblte_compute_opc aes k op =
    (case (k, op) of
       (Some k, Some op) \<Rightarrow> Inr (xor_16 (aes_ecb aes k op) op)
     | _ \<Rightarrow> Inl LIBLTE_ERROR_INVALID_INPUTS)"

section \<open>The XOR algorithm\<close>

definition security_xor_f2345 :: "bytes \<Rightarrow> bytes \<Rightarrow> milenage_vector" where
  "security_xor_f2345 k rand =
    (let xdout = xor_16 k rand
     in \<lparr>mil_res = xdout,
         mil_ck = map (\<lambda>i. xdout ! ((i + 1) mod 16)) [0..<16],
         mil_ik = map (\<lambda>i. xdout ! ((i + 2) mod 16)) [0..<16],
         mil_ak = map (\<lambda>i. xdout ! (i + 3)) [0..<6]\<rparr>)"

definition security_xor_f1 :: "bytes \<Rightarrow> bytes \<Rightarrow> bytes \<Rightarrow> bytes \<Rightarrow> bytes" where
  "security_xor_f1 k rand sqn amf =
    (let xdout = xor_16 k rand;
         cdout = take 6 sqn @ take 2 amf
     in map (\<lambda>i. xdout ! i XOR cdout ! i) [0..<8])"

section \<open>The outputs of the Milenage specification\<close>

lemma length_scatter: "length (foldl (\<lambda>input i. input[f i := g i]) xs is) = length (xs :: bytes)"
  by (induction "is" arbitrary: xs) simp_all

lemma length_rotate_xor [simp]: "length (rotate_xor r a b) = 16"
  by (simp add: rotate_xor_def length_scatter)

lemma length_xor_16 [simp]: "length (xor_16 a b) = 16"
  by (simp add: xor_16_def)

lemma xor_16_eq: "length a = 16 \<Longrightarrow> length b = 16 \<Longrightarrow> xor_16 a b = map2 (XOR) a b"
  by (rule nth_equalityI) (simp_all add: xor_16_def)

lemma scatter_nth:
  assumes "n \<le> 16" "j < 16" "length xs = 16" "r < 16"
  shows "foldl (\<lambda>input i. input[(i + r) mod 16 := g i]) xs [0..<n] ! j
    = (if (j + 16 - r) mod 16 < n then g ((j + 16 - r) mod 16) else (xs :: bytes) ! j)"
  using assms
proof (induction n)
  case (Suc n)
  have "(n + r) mod 16 = j \<longleftrightarrow> (j + 16 - r) mod 16 = n"
    using Suc.prems by (auto simp: mod_if)
  then show ?case
    using Suc.IH Suc.prems by (auto simp: nth_list_update length_scatter less_Suc_eq)
qed simp

text \<open>
  Writing to \<open>(i + r) mod 16\<close> rotates the block to the right by \<open>r\<close> bytes, that is to the
  left by \<open>16 - r\<close>.
\<close>

lemma rotate_xor_eq:
  assumes "r < 16" "length a = 16" "length b = 16"
  shows "rotate_xor r a b = rotate (16 - r) (map2 (XOR) a b)"
proof (rule nth_equalityI)
  fix j assume "j < length (rotate_xor r a b)"
  then have "j < 16" by simp
  then show "rotate_xor r a b ! j = rotate (16 - r) (map2 (XOR) a b) ! j"
    using assms scatter_nth [of 16 j "replicate 16 0" r "\<lambda>i. a ! i XOR b ! i"]
    by (simp add: rotate_xor_def nth_rotate add.commute)
qed (simp add: assms)

text \<open>
  \<open>OUT = E_K(rot(in, r) xor c xor extra) xor OPc\<close> of TS 35.206, with the rotation to the left by
  \<open>r\<close> bytes and a constant that only sets the last byte.
\<close>

definition ts_35_206_out :: "aes_lib \<Rightarrow> bytes \<Rightarrow> bytes \<Rightarrow> bytes \<Rightarrow> nat \<Rightarrow> u8 \<Rightarrow> bytes" where
  "ts_35_206_out aes k op_c x r c =
    map2 (XOR) (aes_ecb aes k (map2 (XOR) (rotate r x) (replicate 15 0 @ [c]))) op_c"

lemma last_byte_xor:
  assumes "length x = 16"
  shows "x[15 := x ! 15 XOR c] = map2 (XOR) x (replicate 15 0 @ [c :: u8])"
  by (rule nth_equalityI) (auto simp: assms nth_list_update nth_append)

lemma milenage_out_eq:
  assumes "r < 16" "length temp = 16" "length op_c = 16" "\<And>x. length (aes_ecb aes k x) = 16"
  shows "milenage_out aes k op_c temp r c = ts_35_206_out aes k op_c (map2 (XOR) temp op_c) (16 - r) c"
  using assms by (simp add: milenage_out_def Let_def last_byte_xor rotate_xor_eq xor_16_eq ts_35_206_out_def)

text \<open>\<open>OUT1\<close>, whose rotated block is added to \<open>TEMP\<close> (rotation by 8 bytes, constant 0).\<close>

definition ts_35_206_out1 :: "aes_lib \<Rightarrow> bytes \<Rightarrow> bytes \<Rightarrow> bytes \<Rightarrow> bytes \<Rightarrow> bytes" where
  "ts_35_206_out1 aes k op_c temp in1 =
    map2 (XOR) (aes_ecb aes k (map2 (XOR) temp (rotate 8 (map2 (XOR) in1 op_c)))) op_c"

lemma map2_xor_commute: "length x = length y \<Longrightarrow> map2 (XOR) x y = map2 (XOR) y (x :: bytes)"
  by (rule nth_equalityI) (simp_all add: xor.commute)

lemma milenage_out1_eq:
  assumes "length op_c = 16" "length rand = 16" "length sqn = 6" "length amf = 2" "\<And>x. length (aes_ecb aes k x) = 16"
  shows "milenage_out1 aes k op_c rand sqn amf
    = ts_35_206_out1 aes k op_c (aes_ecb aes k (map2 (XOR) rand op_c)) (sqn @ amf @ sqn @ amf)"
proof -
  let ?in1 = "sqn @ amf @ sqn @ amf" and ?temp = "aes_ecb aes k (map2 (XOR) rand op_c)"
  have len: "length ?in1 = 16" using assms(3,4) by simp
  have "xor_16 (rotate_xor 8 ?in1 op_c) ?temp = map2 (XOR) ?temp (rotate 8 (map2 (XOR) ?in1 op_c))"
    using rotate_xor_eq [of 8 ?in1 op_c] xor_16_eq [of "rotate_xor 8 ?in1 op_c" ?temp] len assms(1,5)
      map2_xor_commute [of "rotate 8 (map2 (XOR) ?in1 op_c)" ?temp] by simp
  then show ?thesis
    using assms by (simp add: milenage_out1_def milenage_temp_def Let_def ts_35_206_out1_def xor_16_eq)
qed

text \<open>
  C18. The Milenage functions compute the outputs of TS 35.206.  OPc is \<open>E(OP) xor OP\<close>.  With \<open>TEMP = E(RAND xor OPc)\<close>,
  MAC-A (f1) and MAC-S (f1*) are the two halves of \<open>OUT1\<close> for \<open>IN1 = SQN AMF SQN AMF\<close>;
  RES and AK are the two ends of \<open>OUT2\<close> (no rotation, constant 1), CK is \<open>OUT3\<close> (4 bytes,
  constant 2), IK is \<open>OUT4\<close> (8 bytes, constant 4) and the resynchronisation AK is the start of
  \<open>OUT5\<close> (12 bytes, constant 8).  The block cipher is any function to 16 bytes.
\<close>

theorem milenage_outputs:
  assumes "length op_c = 16" "length rand = 16" "length sqn = 6" "length amf = 2" "length op = 16"
    "\<And>x. length (aes_ecb aes k x) = 16"
  defines "temp \<equiv> aes_ecb aes k (map2 (XOR) rand op_c)"
  defines "x \<equiv> map2 (XOR) temp op_c"
  defines "out1 \<equiv> ts_35_206_out1 aes k op_c temp (sqn @ amf @ sqn @ amf)"
  shows "liblte_compute_opc aes (Some k) (Some op) = Inr (map2 (XOR) (aes_ecb aes k op) op)
    \<and> liblte_security_milenage_f1 aes (Some k) (Some op_c) (Some rand) (Some sqn) (Some amf) = Inr (take 8 out1)
    \<and> liblte_security_milenage_f1_star aes (Some k) (Some op_c) (Some rand) (Some sqn) (Some amf) = Inr (drop 8 out1)
    \<and> liblte_security_milenage_f2345 aes (Some k) (Some op_c) (Some rand)
      = Inr \<lparr>mil_res = drop 8 (ts_35_206_out aes k op_c x 0 1),
             mil_ck = ts_35_206_out aes k op_c x 4 2,
             mil_ik = ts_35_206_out aes k op_c x 8 4,
             mil_ak = take 6 (ts_35_206_out aes k op_c x 0 1)\<rparr>
    \<and> liblte_security_milenage_f5_star aes (Some k) (Some op_c) (Some rand)
      = Inr (take 6 (ts_35_206_out aes k op_c x 12 8))"
proof -
  have temp: "milenage_temp aes k op_c rand = temp"
    using assms(1,2) by (simp add: milenage_temp_def xor_16_eq temp_def)
  have len: "length temp = 16" using assms(6) by (simp add: temp_def)
  have out1: "milenage_out1 aes k op_c rand sqn amf = out1" "length out1 = 16"
    using milenage_out1_eq [OF assms(1-4,6)] assms(1,6)
    by (simp_all add: out1_def temp_def ts_35_206_out1_def)
  have len_out: "length (ts_35_206_out aes k op_c x r c) = 16" for r c
    using assms(1,6) by (simp add: ts_35_206_out_def)
  have "rotate 16 x = rotate 0 x"
    using rotate_conv_mod [of 16 x] assms(1) len by (simp add: x_def)
  then have "ts_35_206_out aes k op_c x 16 c = ts_35_206_out aes k op_c x 0 c" for c
    by (simp add: ts_35_206_out_def)
  then have f2345: "liblte_security_milenage_f2345 aes (Some k) (Some op_c) (Some rand)
      = Inr \<lparr>mil_res = drop 8 (ts_35_206_out aes k op_c x 0 1),
             mil_ck = ts_35_206_out aes k op_c x 4 2,
             mil_ik = ts_35_206_out aes k op_c x 8 4,
             mil_ak = take 6 (ts_35_206_out aes k op_c x 0 1)\<rparr>"
    "liblte_security_milenage_f5_star aes (Some k) (Some op_c) (Some rand)
      = Inr (take 6 (ts_35_206_out aes k op_c x 12 8))"
    using assms(1,6) milenage_out_eq [of _ temp op_c aes k] len len_out
    by (simp_all add: liblte_security_milenage_f2345_def liblte_security_milenage_f5_star_def Let_def temp x_def)
  show ?thesis
    using f2345 out1 assms(5,6)
    by (simp add: liblte_compute_opc_def liblte_security_milenage_f1_def liblte_security_milenage_f1_star_def xor_16_eq)
qed

theorem milenage_outputs_witness:
  "let aes = \<lparr>aes_ecb = \<lambda>k x. k, aes_ctr = \<lambda>k n c m. None\<rparr>; k = replicate 16 5; op_c = replicate 16 1; rand = replicate 16 2 in
    liblte_compute_opc aes (Some k) (Some (replicate 16 3)) = Inr (replicate 16 6)
    \<and> liblte_security_milenage_f1 aes (Some k) (Some op_c) (Some rand) (Some (replicate 6 7)) (Some [8, 9]) = Inr (replicate 8 4)
    \<and> mil_ck (projr (liblte_security_milenage_f2345 aes (Some k) (Some op_c) (Some rand))) = replicate 16 4"
  using milenage_outputs [of "replicate 16 1" "replicate 16 2" "replicate 6 7" "[8, 9]" "replicate 16 3"
    "\<lparr>aes_ecb = \<lambda>k x. k, aes_ctr = \<lambda>k n c m. None\<rparr>" "replicate 16 5"]
  by (simp add: ts_35_206_out_def ts_35_206_out1_def numeral_eq_Suc)

end
