(* ===== verification/Spec2Isabelle.thy ===== *)
theory Spec2Isabelle
  imports UmNrLink AmBase AmNrTxDefects AmNrDefects QueueThreads ByteBufferQueue PdcpNrLink Milenage
begin

text \<open>
  Verification of the user plane of the radio stack under \<^verbatim>\<open>src/AIRadio/lib\<close>: the layer 2
  protocol entities, the security algorithms they call and the data structures they stand on.

  Parts and how they interact.  PDCP numbers SDUs, protects them and hands them to an RLC entity, which keeps them in a byte buffer
  queue until the MAC grants bytes; the transmitter then cuts SDUs into PDUs that fit the grants.
  The peer's receiver collects the PDUs of each SDU in its receive buffer, delivers complete SDUs
  to its PDCP, and gives up incomplete ones when its reassembly timer expires.

  \<^item> \<open>Prelude\<close>: machine types as words, reads that may run past an array, the outcome of code
    (a value, undefined behaviour or no return), bit fields and modular arithmetic.
  \<^item> \<open>CircularBuffer\<close>, \<open>BlockingQueue\<close>, \<open>QueueThreads\<close> (\<^verbatim>\<open>adt/circular_buffer.h\<close>): the circular
    array with its iterators and copies; the blocking queue, generic in the buffer and the
    callbacks, each critical section a function; all interleavings of the threads that use and stop it
    as a step relation.  The interfaces are the locales \<open>bounded_fifo\<close>, \<open>counted_fifo\<close> and, for a
    buffer that \<open>stop\<close> empties, \<open>clearing_fifo\<close>, interpreted on the circular buffer and on the byte
    buffer queue.
  \<^item> \<open>ByteBuffer\<close>, \<open>ByteBufferQueue\<close> (\<^verbatim>\<open>common/byte_buffer.h\<close>, \<^verbatim>\<open>upper/byte_buffer_queue.h\<close>): packet
    buffers, and the queue of SDUs with its counters of bytes and SDUs.
  \<^item> \<open>RlcTypes\<close>: the enumerations and structs the RLC entities share.
  \<^item> \<open>AmNrPacking\<close>, \<open>AmNrStatus\<close> (\<^verbatim>\<open>rlc/rlc_am_nr_packing.cc\<close>): acknowledged mode PDUs: the status
    PDU object with its merging and trimming of NACKs, data PDU headers, the readers and writers
    of status PDUs for both sequence number sizes.
  \<^item> \<open>UmNrPacking\<close>, \<open>UmBase\<close>, \<open>UmNrTx\<close>, \<open>UmNrRx\<close> (\<^verbatim>\<open>rlc/rlc_um_base.cc\<close>, \<^verbatim>\<open>rlc/rlc_um_nr.cc\<close>):
    unacknowledged mode: headers, the entity and its queue, segmentation, the receive window and
    reassembly.  \<open>StdMap\<close> is \<^verbatim>\<open>std::map\<close> as an ordered association list.
  \<^item> \<open>UmNrLink\<close>: a transmitter and a receiver together.
  \<^item> \<open>CircularMap\<close> (\<^verbatim>\<open>adt/circular_map.h\<close>): the map by sequence number in which both ends of
    acknowledged mode keep their window, with the locale \<open>ringbuffer\<close> for what they rely on.
  \<^item> \<open>AmNrRx\<close>, \<open>AmNrTx\<close>, \<open>AmNrTxControl\<close> (\<^verbatim>\<open>rlc/rlc_am_nr.cc\<close>), \<open>AmBase\<close> (\<^verbatim>\<open>rlc/rlc_am_base.cc\<close>):
    acknowledged mode: the receiver with its segments, timers and status reports; the transmitter
    with its window, segmentation, retransmissions and polls; its MAC opportunities, the status reports that
    arrive and its timer; the entity of both.
  \<^item> \<open>AmNrRxWindow\<close>, \<open>AmNrSegments\<close>, \<open>AmNrReceive\<close>, \<open>AmNrReassembly\<close>: the receiver on a stream of
    SDUs: sequence numbers unrolled, the pieces of an SDU, one PDU, every run.
    \<open>AmNrTxWindow\<close>, \<open>AmNrTxSend\<close>, \<open>AmNrTxStatus\<close>, \<open>AmNrTxRun\<close>: the same for the transmitter: its
    invariant, a MAC opportunity, a status report, every reachable state.
    \<open>AmNrDefects\<close>, \<open>AmNrTxDefects\<close>: inputs on which the two fail.
  \<^item> \<open>Zuc\<close>, \<open>S3g\<close> (\<^verbatim>\<open>common/zuc.cc\<close>, \<^verbatim>\<open>common/s3g.cc\<close>): the two stream ciphers and the function
    f9; \<open>Security\<close>, \<open>Integrity\<close> (\<^verbatim>\<open>common/liblte_security.cc\<close>, \<^verbatim>\<open>common/security.cc\<close>): EEA1 to EEA3
    and EIA1 to EIA3 on top of them, with the locale \<open>stream_cipher\<close>, interpreted on EEA1 and EEA3;
    \<open>Milenage\<close>: the authentication functions.  AES is an external library: its block cipher and
    its counter mode are the parameter \<open>aes\<close>.
  \<^item> \<open>PdcpBase\<close>, \<open>PdcpNr\<close> (\<^verbatim>\<open>pdcp/pdcp_entity_base.cc\<close>, \<^verbatim>\<open>pdcp/pdcp_entity_nr.cc\<close>): security
    activation, COUNT arithmetic, headers and MAC-I; transmission, reception with reordering,
    and the timers.  Handlers return their calls to other layers as events.
  \<^item> \<open>PdcpNrLink\<close>: two PDCP entities together.

  What is shown.  Queues are FIFO under every interleaving of readers, writers and \<open>stop\<close>, with counters that are
  exact but for what \<open>stop\<close> drops without counting it; status PDUs and headers are read back as they were
  written, and NACK merging loses nothing while the reported SDUs number fewer than 256; a MAC opportunity of
  unacknowledged mode always returns within its grant; the receive buffer stays inside the
  reassembly window; over a link in order every SDU arrives unchanged and in order, with 6-bit
  sequence numbers and grants of at least five bytes.  In acknowledged mode the receiver
  hands over every SDU of which all bytes arrived, once and unchanged, whatever the order of the PDUs, and its
  status reports tell the truth; the transmitter sends only pieces of the SDUs of its window, new ones and
  retransmissions in their order, drops what is acknowledged, queues what is reported missing in full unless a part of it waits
  already, and loses nothing else.  The receiver's theorems exclude PDUs
  that contain a segment received before strictly inside.  The transmitter's exclude reports that
  acknowledge an SDU with several retransmissions waiting, where the code fails, as the defects show, and
  the expiries that queue a second retransmission: those of t-PollRetransmit on a full window while a
  retransmission waits.  PDCP
  delivers every SDU at most once, unchanged and in order, also over a link that reorders,
  repeats and loses PDUs, and its transmitter never uses a COUNT twice, in a header or in the calls of the
  security algorithms; the stream ciphers decrypt what they encrypt, if it is not empty, the shift
  register of ZUC computes modulo 2^31 - 1, and Milenage
  computes OPc and the outputs f1 to f5* of its specification.  Where the code does not do this, a theorem shows the input on which it fails.

  Fuel.  Loops of the code that are not structural are functions with a termination proof, or
  carry fuel: the number of elements of the queue for loops that drain it, the modulus for the
  loops over sequence numbers and over acknowledgements, the number of segments for the reassembly; the lemmas show that a
  \<open>Hang\<close> is a loop of the code that does not end.

  Not modelled.  Logging, metrics other than the counters named, allocation beyond the possibility
  that it fails, the derivation of keys with the hash functions of an external library, the LTE
  variants of the entities, and the parts of the repository listed as such in the manifest: the physical
  layer, generated ASN.1 code, control plane procedures, schedulers and the core network.
\<close>

end
